(* ===== verification/Ds4_Prelude.thy ===== *)
theory Ds4_Prelude
  imports "HOL-Library.Word" "HOL-Library.Signed_Division" "HOL-Library.Char_ord"
begin

text \<open>
  Shared vocabulary of the development: the fixed-width integer types of the C code, byte
  strings, the C library's character classes, and the lemmas on slices of byte buffers that
  the file formats and the slot banks share.

  A C byte (\<open>char\<close> or \<open>uint8_t\<close>) is a HOL \<^typ>\<open>char\<close>, a buffer or C string is a
  \<^typ>\<open>char list\<close>; the terminating NUL of a C string is the end of the list.
  A C \<open>int\<close> is an \<^typ>\<open>int\<close> (signed overflow is undefined behaviour in C and is not
  given a meaning here), an \<open>uintN_t\<close> is an \<open>N word\<close> wherever its wrap-around or its
  bit pattern matters.  C's \<open>/\<close> and \<open>%\<close> on signed integers truncate towards zero: they are
  \<open>sdiv\<close> and \<open>smod\<close> of the library.
\<close>

unbundle bit_operations_syntax

type_synonym bytes = "char list"
type_synonym u8 = "8 word"
type_synonym u32 = "32 word"
type_synonym u64 = "64 word"

named_theorems slice_simps \<open>equations on slices of buffers\<close>
named_theorems wf_intros \<open>preservation of the components' well-formedness invariants\<close>

section \<open>Bytes\<close>

definition byte_of :: "'a::len word \<Rightarrow> char" where
  "byte_of w = char_of (uint w)"

lemma byte_of_unat: "byte_of w = char_of (unat w)"
  by (metis byte_of_def char_of_nat uint_nat)

lemma of_char_byte_of [simp]: "(of_char (byte_of w) :: nat) = unat w mod 256"
  by (simp add: byte_of_unat)

lemma of_nat_of_char [simp]: "of_nat (of_char c) = (of_char c :: 'a::len word)"
  by (cases c) (simp add: of_char_def)

lemma byte_of_of_char: "byte_of (of_char c :: 'a::len word) = c" if "8 \<le> LENGTH('a)"
proof -
  have "(of_char c :: nat) < 2 ^ 8" using nat_of_char_less_256 [of c] by simp
  also have "(2::nat) ^ 8 \<le> 2 ^ LENGTH('a)" using that by (intro power_increasing) auto
  finally have lt: "(of_char c :: nat) < 2 ^ LENGTH('a)" .
  have "unat (of_nat (of_char c) :: 'a word) = of_char c"
    using lt by (simp only: unat_of_nat mod_less)
  then show ?thesis by (simp add: byte_of_unat)
qed

section \<open>Character classes of the C locale\<close>

definition is_digit :: "char \<Rightarrow> bool" where
  "is_digit c \<longleftrightarrow> 48 \<le> (of_char c :: nat) \<and> (of_char c :: nat) \<le> 57"

definition is_xdigit :: "char \<Rightarrow> bool" where
  "is_xdigit c \<longleftrightarrow> (let n = (of_char c :: nat) in
     48 \<le> n \<and> n \<le> 57 \<or> 65 \<le> n \<and> n \<le> 70 \<or> 97 \<le> n \<and> n \<le> 102)"

definition c_tolower :: "char \<Rightarrow> char" where
  "c_tolower c = (let n = (of_char c :: nat) in if 65 \<le> n \<and> n \<le> 90 then char_of (n + 32) else c)"

definition is_cspace :: "char \<Rightarrow> bool" where
  "is_cspace c \<longleftrightarrow> (let n = (of_char c :: nat) in n = 32 \<or> 9 \<le> n \<and> n \<le> 13)"

section \<open>Slices of a buffer\<close>

definition get_at :: "nat \<Rightarrow> nat \<Rightarrow> 'a list \<Rightarrow> 'a list" where
  "get_at off n xs = take n (drop off xs)"

definition put_at :: "nat \<Rightarrow> 'a list \<Rightarrow> 'a list \<Rightarrow> 'a list" where
  "put_at off src xs = take off xs @ src @ drop (off + length src) xs"

lemma length_get_at [simp]: "length (get_at off n xs) = min n (length xs - off)"
  by (simp add: get_at_def)

lemma get_at_add: "get_at off (a + b) xs = get_at off a xs @ get_at (off + a) b xs"
  by (simp add: get_at_def take_add add.commute)

lemma get_at_put_at_disjoint:
  assumes "o1 + n \<le> o2 \<or> o2 + length src \<le> o1" "o2 + length src \<le> length xs"
  shows "get_at o1 n (put_at o2 src xs) = get_at o1 n xs"
  using assms by (auto simp: get_at_def put_at_def drop_take take_append min_def)

lemma length_put_at [slice_simps]:
  "off + length src \<le> length xs \<Longrightarrow> length (put_at off src xs) = length xs"
  by (simp add: put_at_def)

lemma get_at_put_at_same [slice_simps]:
  "off + length src \<le> length xs \<Longrightarrow> n = length src \<Longrightarrow> get_at off n (put_at off src xs) = src"
  by (simp add: get_at_def put_at_def)

lemma get_at_put_at_before [slice_simps]:
  assumes "o1 + n \<le> o2" "o2 + length src \<le> length xs"
  shows "get_at o1 n (put_at o2 src xs) = get_at o1 n xs"
  using assms by (auto simp: get_at_def put_at_def drop_take take_append)

lemma get_at_put_at_after [slice_simps]:
  assumes "o2 + length src \<le> o1" "o2 + length src \<le> length xs"
  shows "get_at o1 n (put_at o2 src xs) = get_at o1 n xs"
  using assms by (simp add: get_at_def put_at_def min_def)

lemma put_at_adjacent:
  assumes "length xs = a" "base + a + length ys \<le> length buf"
  shows "put_at (base + a) ys (put_at base xs buf) = put_at base (xs @ ys) buf"
proof -
  have "length (take base buf) = base" using assms(2) by simp
  then show ?thesis using assms by (simp add: put_at_def ac_simps)
qed

lemma nth_put_at_outside [slice_simps]:
  assumes "i < o2 \<or> o2 + length src \<le> i" "o2 + length src \<le> length xs"
  shows "put_at o2 src xs ! i = xs ! i"
  using assms by (auto simp: put_at_def nth_append)

end
