(* ===== verification/Kv_Format.thy ===== *)
theory Kv_Format
  imports Ds4_Prelude
begin

text \<open>
  The on-disk format of a KV checkpoint (\<open>src/ds4_kvstore.c\<close>, \<open>src/ds4_kvstore.h\<close>): the
  little-endian integers, the 48-byte header, the text length that follows it, and the
  \<open><sha1>.kv\<close> file names.  A \<open>FILE *\<close> positioned in a file is the list of the bytes still
  to be read; a short \<open>fread\<close> is \<^const>\<open>None\<close>.
\<close>

section \<open>Little-endian integers\<close>

definition le_put32 :: "u32 \<Rightarrow> bytes" where
  "le_put32 v = [byte_of v, byte_of (drop_bit 8 v), byte_of (drop_bit 16 v), byte_of (drop_bit 24 v)]"

definition le_put64 :: "u64 \<Rightarrow> bytes" where
  "le_put64 v = map (\<lambda>i. byte_of (drop_bit (8 * i) v)) [0..<8]"

text \<open>The readers look at the first 4 (8) bytes at \<open>p\<close>; every caller has that many.\<close>

definition le_get32 :: "bytes \<Rightarrow> u32" where
  "le_get32 p = of_char (p ! 0) OR push_bit 8 (of_char (p ! 1))
     OR push_bit 16 (of_char (p ! 2)) OR push_bit 24 (of_char (p ! 3))"

definition le_get64 :: "bytes \<Rightarrow> u64" where
  "le_get64 p = fold (\<lambda>i v. push_bit 8 v OR of_char (p ! i)) (rev [0..<8]) 0"

section \<open>Reasons and extension flags\<close>

definition reason_code :: "string option \<Rightarrow> u8" where
  "reason_code reason = (case reason of None \<Rightarrow> 0
     | Some r \<Rightarrow>
        if r = ''cold'' then 1
        else if r = ''continued'' then 2
        else if r = ''evict'' then 3
        else if r = ''shutdown'' then 4
        else if r = ''agent-system'' then 5
        else if r = ''agent-session'' then 6
        else 0)"

definition EXT_TOOL_MAP :: u8 where "EXT_TOOL_MAP = 1"
definition EXT_RESPONSES_VISIBLE :: u8 where "EXT_RESPONSES_VISIBLE = 2"
definition EXT_THINKING_VISIBLE :: u8 where "EXT_THINKING_VISIBLE = 4"

definition key_kind :: "u8 \<Rightarrow> string" where
  "key_kind ext_flags =
     (if ext_flags AND EXT_RESPONSES_VISIBLE \<noteq> 0 then ''responses-visible''
      else if ext_flags AND EXT_THINKING_VISIBLE \<noteq> 0 then ''thinking-visible''
      else ''token-text'')"

section \<open>The in-memory entry\<close>

record kv_entry =
  e_sha :: string
  e_path :: string
  quant_bits :: u8
  e_reason :: u8
  e_tokens :: u32
  e_hits :: u32
  ctx_size :: u32
  ext_flags :: u8
  created_at :: u64
  last_used :: u64
  payload_bytes :: u64
  text_bytes :: u64
  file_size :: u64

definition zero_entry :: kv_entry where
  "zero_entry = \<lparr>e_sha = [], e_path = [], quant_bits = 0, e_reason = 0, e_tokens = 0, e_hits = 0,
     ctx_size = 0, ext_flags = 0, created_at = 0, last_used = 0, payload_bytes = 0,
     text_bytes = 0, file_size = 0\<rparr>"

section \<open>Header\<close>

definition FIXED_HEADER :: nat where "FIXED_HEADER = 48"
definition NUL :: char where "NUL = CHR 0x00"

definition fill_header ::
  "u8 \<Rightarrow> u8 \<Rightarrow> u8 \<Rightarrow> u32 \<Rightarrow> u32 \<Rightarrow> u32 \<Rightarrow> u64 \<Rightarrow> u64 \<Rightarrow> u64 \<Rightarrow> bytes" where
  "fill_header qbits reason ext tokens hits ctx created used payload =
     (let h = replicate FIXED_HEADER NUL;
          h = h[0 := CHR ''K'', 1 := CHR ''V'', 2 := CHR ''C'', 3 := CHR 0x01,
                4 := byte_of qbits, 5 := byte_of reason, 6 := byte_of ext];
          h = put_at 8 (le_put32 tokens) h;
          h = put_at 12 (le_put32 hits) h;
          h = put_at 16 (le_put32 ctx) h;
          h = put_at 24 (le_put64 created) h;
          h = put_at 32 (le_put64 used) h;
          h = put_at 40 (le_put64 payload) h
      in h)"

definition fread :: "nat \<Rightarrow> bytes \<Rightarrow> (bytes \<times> bytes) option" where
  "fread n fp = (if n \<le> length fp then Some (take n fp, drop n fp) else None)"

definition read_header :: "bytes \<Rightarrow> kv_entry \<Rightarrow> (kv_entry \<times> u32 \<times> bytes) option" where
  "read_header fp e =
     (case fread FIXED_HEADER fp of
        None \<Rightarrow> None
      | Some (h, fp) \<Rightarrow>
          if h ! 0 \<noteq> CHR ''K'' \<or> h ! 1 \<noteq> CHR ''V'' \<or> h ! 2 \<noteq> CHR ''C'' \<or> h ! 3 \<noteq> CHR 0x01
          then None
          else
            let e = e\<lparr>quant_bits := of_char (h ! 4),
                      e_reason := (if (of_char (h ! 5) :: u8) \<le> 6 then of_char (h ! 5) else 0),
                      ext_flags := of_char (h ! 6),
                      e_tokens := le_get32 (drop 8 h),
                      e_hits := le_get32 (drop 12 h),
                      ctx_size := le_get32 (drop 16 h),
                      created_at := le_get64 (drop 24 h),
                      last_used := le_get64 (drop 32 h),
                      payload_bytes := le_get64 (drop 40 h)\<rparr>
            in case fread 4 fp of
                 None \<Rightarrow> None
               | Some (tb, fp) \<Rightarrow>
                   let text = le_get32 tb;
                       e = e\<lparr>text_bytes := ucast text\<rparr>
                   in if e_tokens e \<noteq> 0 \<and> (quant_bits e = 2 \<or> quant_bits e = 4)
                      then Some (e, text, fp) else None)"

section \<open>File names\<close>

definition sha_hex_name :: "string \<Rightarrow> string option" where
  "sha_hex_name name =
     (if length name \<noteq> 43 \<or> drop 40 name \<noteq> ''.kv'' then None
      else if \<not> list_all is_xdigit (take 40 name) then None
      else Some (map c_tolower (take 40 name)))"

definition path_join :: "string \<Rightarrow> string \<Rightarrow> string" where
  "path_join dir name = (if dir = [] \<or> last dir \<noteq> CHR ''/'' then dir @ ''/'' else dir) @ name"

definition path_for_sha :: "string \<Rightarrow> string \<Rightarrow> string" where
  "path_for_sha dir sha = path_join dir (take 40 sha @ ''.kv'')"

section \<open>Lemmas\<close>

lemma length_le_put32 [simp]: "length (le_put32 v) = 4"
  by (simp add: le_put32_def)

lemma length_le_put64 [simp]: "length (le_put64 v) = 8"
  by (simp add: le_put64_def)

lemma of_char_byte_of_word:
  "(of_char (byte_of w) :: 'a::len word) = ucast (take_bit 8 (w :: 'b::len word))"
proof -
  have "(of_char (byte_of w) :: 'a word) = of_nat (of_char (byte_of w))"
    by (rule of_nat_of_char [symmetric])
  also have "\<dots> = of_nat (take_bit 8 (unat w))"
    by (simp only: of_char_byte_of take_bit_eq_mod) simp
  also have "\<dots> = ucast (take_bit 8 w)"
    by (simp flip: unsigned_take_bit_eq)
  finally show ?thesis .
qed

text \<open>One round of the readers: the bits above a byte and the byte give the bits from there on.\<close>

lemma le_step:
  "push_bit 8 (drop_bit (k + 8) v) OR take_bit 8 (drop_bit k v) = drop_bit k (v :: 'a::len word)"
  by (rule bit_word_eqI) (auto simp: bit_simps)

lemma le_get32_put32: "le_get32 (le_put32 v @ r) = v"
proof -
  have "v = push_bit 8 (push_bit 8 (push_bit 8 (drop_bit 24 v) OR take_bit 8 (drop_bit 16 v))
      OR take_bit 8 (drop_bit 8 v)) OR take_bit 8 v"
    using le_step [of 16 v] le_step [of 8 v] le_step [of 0 v] by simp
  moreover have "take_bit 8 (drop_bit 24 v) = drop_bit 24 v"
    by (rule bit_word_eqI) (auto simp: bit_simps dest: bit_imp_le_length)
  ultimately show ?thesis
    by (simp add: le_get32_def le_put32_def of_char_byte_of_word)
      (simp add: push_bit_or ac_simps)
qed

lemma le_get64_put64: "le_get64 (le_put64 v @ r) = v"
proof -
  have top: "take_bit 8 (drop_bit 56 v) = drop_bit 56 v"
    by (rule bit_word_eqI) (auto simp: bit_simps dest: bit_imp_le_length)
  show ?thesis
    using le_step [of 48 v] le_step [of 40 v] le_step [of 32 v] le_step [of 24 v]
      le_step [of 16 v] le_step [of 8 v] le_step [of 0 v]
    by (simp add: le_get64_def le_put64_def of_char_byte_of_word upt_rec top)
qed

text \<open>The readers look at a window of the buffer only.\<close>

lemma le_get32_at:
  assumes "get_at k 4 h = le_put32 v"
  shows "le_get32 (drop k h) = v"
proof -
  have "drop k h = le_put32 v @ drop 4 (drop k h)"
    using assms by (metis append_take_drop_id get_at_def)
  then show ?thesis by (metis le_get32_put32)
qed

lemma le_get64_at:
  assumes "get_at k 8 h = le_put64 v"
  shows "le_get64 (drop k h) = v"
proof -
  have "drop k h = le_put64 v @ drop 8 (drop k h)"
    using assms by (metis append_take_drop_id get_at_def)
  then show ?thesis by (metis le_get64_put64)
qed

lemma length_fill_header [simp]:
  "length (fill_header q r x t h c cr u p) = FIXED_HEADER"
  by (simp add: fill_header_def FIXED_HEADER_def slice_simps Let_def)

lemma fill_header_fields:
  fixes q r x :: u8 and t h c :: u32 and cr u p :: u64
  defines "hdr \<equiv> fill_header q r x t h c cr u p"
  shows "hdr ! 0 = CHR ''K''" "hdr ! Suc 0 = CHR ''V''" "hdr ! 2 = CHR ''C''" "hdr ! 3 = CHR 0x01"
    "hdr ! 4 = byte_of q" "hdr ! 5 = byte_of r" "hdr ! 6 = byte_of x"
    "le_get32 (drop 8 hdr) = t" "le_get32 (drop 12 hdr) = h" "le_get32 (drop 16 hdr) = c"
    "le_get64 (drop 24 hdr) = cr" "le_get64 (drop 32 hdr) = u" "le_get64 (drop 40 hdr) = p"
  unfolding hdr_def fill_header_def Let_def FIXED_HEADER_def
  by (simp_all add: slice_simps le_get32_at le_get64_at)

lemma of_char_byte_of_u8 [simp]: "of_char (byte_of (w :: u8)) = w"
proof -
  have "take_bit 8 w = w" by (rule bit_word_eqI) (auto simp: bit_simps)
  then show ?thesis by (simp add: of_char_byte_of_word)
qed

lemma read_header_fill:
  assumes "t \<noteq> 0" and "q = 2 \<or> q = 4" and "r \<le> 6"
  shows "read_header (fill_header q r x t h c cr u p @ le_put32 tb @ rest) e =
    Some (e\<lparr>quant_bits := q, e_reason := r, ext_flags := x, e_tokens := t, e_hits := h,
            ctx_size := c, created_at := cr, last_used := u, payload_bytes := p,
            text_bytes := ucast tb\<rparr>, tb, rest)"
  using assms le_get32_put32 [of tb "[]"]
  by (simp add: read_header_def fread_def fill_header_fields Let_def)

text \<open>What a store writes, a lookup reads back: the header followed by the text length is
  parsed to exactly the fields it was filled with, and the rest of the file is left to read.\<close>

theorem read_header_fill_header:
  assumes "t \<noteq> 0" and "q = 2 \<or> q = 4" and "r \<le> 6"
  shows "read_header (fill_header q r x t h c cr u p @ le_put32 tb @ rest) e =
    Some (e\<lparr>quant_bits := q, e_reason := r, ext_flags := x, e_tokens := t, e_hits := h,
            ctx_size := c, created_at := cr, last_used := u, payload_bytes := p,
            text_bytes := ucast tb\<rparr>, tb, rest)"
  using assms by (rule read_header_fill)

theorem read_header_fill_header_witness:
  "read_header (fill_header 2 1 0 7 3 4096 10 20 30 @ le_put32 5 @ ''hello'') zero_entry =
    Some (zero_entry\<lparr>quant_bits := 2, e_reason := 1, ext_flags := 0, e_tokens := 7, e_hits := 3,
            ctx_size := 4096, created_at := 10, last_used := 20, payload_bytes := 30,
            text_bytes := ucast (5 :: u32)\<rparr>, 5, ''hello'')"
  by (rule read_header_fill_header) simp_all

end
