(* ===== verification/Kv_Policy.thy ===== *)
theory Kv_Policy
  imports Kv_Format
begin

text \<open>
  When a KV checkpoint is taken and how large it may be (\<open>src/ds4_kvstore.c\<close>): the boundary
  trimming and alignment of stored prefixes, the chat anchor of cold stores, the frontiers of
  continued stores and their suppression, and the file size accounting against the budget.
  The state is the \<open>ds4_kvstore\<close> structure; its growth of the entry array and its logging
  callback are not modelled.
\<close>

record kv_options =
  min_tokens :: int
  cold_max_tokens :: int
  continued_interval_tokens :: int
  boundary_trim_tokens :: int
  boundary_align_tokens :: int

record kvstore =
  enabled :: bool
  kdir :: string
  budget_bytes :: u64
  reject_different_quant :: bool
  kopt :: kv_options
  continued_last_store_tokens :: int
  entries :: "kv_entry list"

definition default_options :: kv_options where
  "default_options = \<lparr>min_tokens = 512, cold_max_tokens = 30000, continued_interval_tokens = 10000,
     boundary_trim_tokens = 32, boundary_align_tokens = 2048\<rparr>"

section \<open>Where a prefix is cut\<close>

definition store_len :: "kvstore \<Rightarrow> int \<Rightarrow> int" where
  "store_len kc tokens =
     (let trim = boundary_trim_tokens (kopt kc); align = boundary_align_tokens (kopt kc)
      in if tokens > min_tokens (kopt kc) + trim
         then let stable = tokens - trim;
                  stable = (if align > 0 then stable - stable smod align else stable)
              in if stable \<ge> min_tokens (kopt kc) then stable else tokens
         else tokens)"

text \<open>The scan of \<open>ds4_kvstore_chat_anchor_pos\<close> from position \<open>i\<close>.\<close>

fun last_user_scan :: "int \<Rightarrow> int \<Rightarrow> int \<Rightarrow> int list \<Rightarrow> int \<Rightarrow> int" where
  "last_user_scan user assistant i [] last_user = last_user"
| "last_user_scan user assistant i (token # rest) last_user =
     (if token = assistant then last_user
      else last_user_scan user assistant (i + 1) rest (if token = user then i else last_user))"

definition chat_anchor_pos :: "kvstore \<Rightarrow> int list option \<Rightarrow> int \<Rightarrow> int \<Rightarrow> int" where
  "chat_anchor_pos kc prompt user assistant =
     (case prompt of None \<Rightarrow> -1
      | Some toks \<Rightarrow>
          if user < 0 \<or> assistant < 0 then -1
          else let last_user = last_user_scan user assistant 0 toks (-1)
               in if last_user \<ge> min_tokens (kopt kc) then last_user else -1)"

section \<open>Continued stores\<close>

definition continued_step :: "kvstore \<Rightarrow> int" where
  "continued_step kc =
     (if \<not> enabled kc \<or> continued_interval_tokens (kopt kc) \<le> 0 then 0
      else let step = continued_interval_tokens (kopt kc);
               align = boundary_align_tokens (kopt kc)
           in if align > 0
              then let step = ((step + align - 1) sdiv align) * align
                   in if step \<le> 0 then align else step
              else step)"

definition continued_store_target :: "kvstore \<Rightarrow> int \<Rightarrow> int" where
  "continued_store_target kc live_tokens =
     (let step = continued_step kc
      in if step \<le> 0 then 0
         else if live_tokens < min_tokens (kopt kc) then 0
         else if live_tokens smod step \<noteq> 0 then 0
         else if live_tokens \<le> continued_last_store_tokens kc then 0
         else live_tokens)"

definition note_store :: "kvstore \<Rightarrow> int \<Rightarrow> kvstore" where
  "note_store kc tokens =
     (if tokens > continued_last_store_tokens kc
      then kc\<lparr>continued_last_store_tokens := tokens\<rparr> else kc)"

definition suppress_continued_store :: "kvstore \<Rightarrow> int \<Rightarrow> int \<times> kvstore" where
  "suppress_continued_store kc tokens =
     (if continued_store_target kc tokens \<noteq> tokens then (-1, kc)
      else (continued_last_store_tokens kc, note_store kc tokens))"

definition restore_suppressed_continued :: "kvstore \<Rightarrow> int \<Rightarrow> int \<Rightarrow> kvstore" where
  "restore_suppressed_continued kc old_tokens suppressed_tokens =
     (if old_tokens \<ge> 0 \<and> continued_last_store_tokens kc = suppressed_tokens
      then kc\<lparr>continued_last_store_tokens := old_tokens\<rparr> else kc)"

section \<open>File sizes and the budget\<close>

definition U64_MAX :: u64 where "U64_MAX = - 1"

definition file_size_bytes :: "u64 \<Rightarrow> u64 \<Rightarrow> u64 \<Rightarrow> u64 option" where
  "file_size_bytes text payload trailer =
     (let fixed = of_nat FIXED_HEADER + 4
      in if U64_MAX - fixed < text \<or> U64_MAX - fixed - text < payload
            \<or> U64_MAX - fixed - text - payload < trailer
         then None else Some (fixed + text + payload + trailer))"

definition budget_required :: "u64 \<Rightarrow> u64 option" where
  "budget_required file =
     (let slack = file div 100;
          slack = (if file mod 100 \<noteq> 0 then slack + 1 else slack)
      in if U64_MAX - file < slack then None else Some (file + slack))"

definition file_size_fits :: "kvstore option \<Rightarrow> u64 \<Rightarrow> u64 \<Rightarrow> u64 \<Rightarrow> bool" where
  "file_size_fits kc text payload trailer =
     (case file_size_bytes text payload trailer of None \<Rightarrow> False
      | Some file \<Rightarrow>
          (case kc of None \<Rightarrow> True
           | Some kc \<Rightarrow>
               if budget_bytes kc = 0 then True
               else case budget_required file of None \<Rightarrow> False
                    | Some required \<Rightarrow> required \<le> budget_bytes kc))"

section \<open>Lemmas\<close>

lemma smod_pos_pos: "0 \<le> a \<Longrightarrow> 0 < b \<Longrightarrow> a smod b = a mod (b :: int)"
  by (simp add: signed_modulo_int_def signed_divide_int_def sgn_if minus_div_mult_eq_mod [symmetric])

lemma sdiv_pos_pos: "0 \<le> a \<Longrightarrow> 0 < b \<Longrightarrow> a sdiv b = a div (b :: int)"
  by (simp add: signed_divide_int_def sgn_if)

text \<open>The cut of a stored prefix: never past the live tokens, never below the minimum once
  the minimum is reached, and either the whole prompt or a multiple of the alignment that leaves
  at least the trimmed tail out.\<close>

theorem store_len_bounds:
  assumes "0 \<le> boundary_trim_tokens (kopt kc)" and "0 \<le> min_tokens (kopt kc)"
  shows "store_len kc tokens = tokens \<or>
    (min_tokens (kopt kc) \<le> store_len kc tokens
     \<and> store_len kc tokens + boundary_trim_tokens (kopt kc) \<le> tokens
     \<and> (0 < boundary_align_tokens (kopt kc) \<longrightarrow>
          boundary_align_tokens (kopt kc) dvd store_len kc tokens
          \<and> tokens - store_len kc tokens < boundary_trim_tokens (kopt kc) + boundary_align_tokens (kopt kc)))"
proof -
  let ?s = "tokens - boundary_trim_tokens (kopt kc)" and ?a = "boundary_align_tokens (kopt kc)"
  have "0 < ?a \<Longrightarrow> 0 \<le> ?s \<Longrightarrow> ?s smod ?a = ?s mod ?a" by (rule smod_pos_pos)
  moreover have "0 < ?a \<Longrightarrow> 0 \<le> ?s mod ?a \<and> ?s mod ?a < ?a" by simp
  moreover have "?a dvd ?s - ?s mod ?a" by simp
  ultimately show ?thesis
    using assms by (auto simp: store_len_def Let_def)
qed

theorem store_len_bounds_witness:
  "store_len \<lparr>enabled = True, kdir = [], budget_bytes = 0, reject_different_quant = False,
     kopt = default_options, continued_last_store_tokens = 0, entries = []\<rparr> 5000 = 4096"
  (is "store_len ?kc 5000 = 4096")
  using store_len_bounds [of ?kc 5000]
  by (simp add: default_options_def store_len_def Let_def signed_modulo_int_def signed_divide_int_def)

lemma last_user_scan_eq:
  "last_user_scan u a i toks lu =
     (let pre = takeWhile (\<lambda>t. t \<noteq> a) toks; ks = filter (\<lambda>k. pre ! k = u) [0..<length pre]
      in if ks = [] then lu else i + int (last ks))"
proof (induction u a i toks lu rule: last_user_scan.induct)
  case (1 u a i lu)
  then show ?case by simp
next
  case (2 u a i token rest lu)
  let ?pre = "takeWhile (\<lambda>t. t \<noteq> a) rest"
  have upt: "[0..<Suc (length ?pre)] = 0 # map Suc [0..<length ?pre]"
    by (simp add: upt_conv_Cons map_Suc_upt del: upt_Suc)
  have flt: "filter (\<lambda>k. (x # ?pre) ! k = u) (map Suc [0..<length ?pre]) =
      map Suc (filter (\<lambda>k. ?pre ! k = u) [0..<length ?pre])" for x
    by (simp add: filter_map o_def)
  show ?case
    using 2 by (cases "token = a") (simp_all add: Let_def upt flt last_map del: upt_Suc)
qed

text \<open>The chat anchor: the position of the last user marker before the first assistant marker,
  when it is at least the minimum; otherwise -1.\<close>

theorem chat_anchor_pos_spec:
  assumes "chat_anchor_pos kc (Some toks) u a = p" and "0 \<le> min_tokens (kopt kc)"
  shows "(if p = -1
    then u < 0 \<or> a < 0 \<or> (\<forall>k < length (takeWhile (\<lambda>t. t \<noteq> a) toks). toks ! k = u \<longrightarrow> int k < min_tokens (kopt kc))
    else min_tokens (kopt kc) \<le> p \<and> nat p < length (takeWhile (\<lambda>t. t \<noteq> a) toks) \<and> toks ! nat p = u
         \<and> (\<forall>k < length (takeWhile (\<lambda>t. t \<noteq> a) toks). toks ! k = u \<longrightarrow> k \<le> nat p))"
proof -
  define pre where "pre = takeWhile (\<lambda>t. t \<noteq> a) toks"
  define ks where "ks = filter (\<lambda>k. pre ! k = u) [0..<length pre]"
  have nth: "k < length pre \<Longrightarrow> pre ! k = toks ! k" for k
    by (simp add: pre_def takeWhile_nth)
  have mem: "k \<in> set ks \<longleftrightarrow> k < length pre \<and> toks ! k = u" for k
    by (auto simp: ks_def nth)
  have le: "k \<in> set ks \<Longrightarrow> k \<le> last ks" for k
  proof -
    have "sorted ks" by (simp add: ks_def sorted_wrt_filter)
    then show "k \<in> set ks \<Longrightarrow> k \<le> last ks"
      by (metis append_butlast_last_id empty_iff empty_set in_set_conv_decomp sorted_append
          list.set_intros(1) Un_iff set_append sorted_wrt_append order_refl set_ConsD)
  qed
  have p: "p = (if u < 0 \<or> a < 0 then -1 else let l = (if ks = [] then -1 else int (last ks))
      in if l \<ge> min_tokens (kopt kc) then l else -1)"
    using assms(1) unfolding chat_anchor_pos_def last_user_scan_eq Let_def pre_def ks_def
    by (auto split: if_splits)
  have lk: "ks \<noteq> [] \<Longrightarrow> last ks < length pre \<and> toks ! last ks = u"
    using mem last_in_set by blast
  show ?thesis
    unfolding pre_def [symmetric]
    using p lk le mem assms(2) by (fastforce simp: Let_def split: if_splits)
qed

theorem chat_anchor_pos_spec_witness:
  "chat_anchor_pos \<lparr>enabled = True, kdir = [], budget_bytes = 0, reject_different_quant = False,
     kopt = default_options\<lparr>min_tokens := 2\<rparr>, continued_last_store_tokens = 0, entries = []\<rparr>
     (Some [1, 7, 5, 7, 6, 9, 7]) 7 9 = 3" (is "chat_anchor_pos ?kc (Some ?ts) 7 9 = 3")
  using chat_anchor_pos_spec [of ?kc ?ts 7 9 3]
  by (simp add: default_options_def chat_anchor_pos_def)

text \<open>Suppressing a continued store at a frontier and then restoring it is the identity, and
  while it is suppressed the frontier is no store target.\<close>

theorem suppress_restore_continued:
  assumes "suppress_continued_store kc tokens = (old, kc')" and "old \<noteq> -1"
    and "0 \<le> continued_last_store_tokens kc"
  shows "restore_suppressed_continued kc' old tokens = kc \<and> continued_store_target kc' tokens = 0"
proof (rule conjI)
  have tgt: "continued_store_target kc tokens = tokens"
    and kc': "kc' = note_store kc tokens" and old: "old = continued_last_store_tokens kc"
    using assms(1,2) by (auto simp: suppress_continued_store_def split: if_splits)
  show "restore_suppressed_continued kc' old tokens = kc"
    using assms(3) by (auto simp: kc' old restore_suppressed_continued_def note_store_def)
  show "continued_store_target kc' tokens = 0"
    using tgt by (auto simp: kc' continued_store_target_def note_store_def continued_step_def Let_def
        split: if_splits)
qed

theorem suppress_restore_continued_witness:
  "restore_suppressed_continued
     \<lparr>enabled = True, kdir = [], budget_bytes = 0, reject_different_quant = False,
      kopt = default_options, continued_last_store_tokens = 10240, entries = []\<rparr> 0 10240 =
     \<lparr>enabled = True, kdir = [], budget_bytes = 0, reject_different_quant = False,
      kopt = default_options, continued_last_store_tokens = 0, entries = []\<rparr>"
  (is "restore_suppressed_continued ?kc' 0 10240 = ?kc")
  using suppress_restore_continued [of ?kc 10240 0 ?kc']
  by (simp add: suppress_continued_store_def continued_store_target_def continued_step_def
      note_store_def default_options_def Let_def signed_divide_int_def signed_modulo_int_def)

lemma unat_U64_MAX_minus: "unat (U64_MAX - x) = 2 ^ 64 - 1 - unat x"
proof -
  have "unat (U64_MAX - x) = unat U64_MAX - unat x"
    by (rule unat_sub) (simp add: U64_MAX_def)
  moreover have "unat U64_MAX = 2 ^ 64 - 1"
    by (simp add: U64_MAX_def unsigned_minus_1_eq_mask mask_eq_exp_minus_1)
  ultimately show ?thesis by simp
qed

lemma U64_guard: "U64_MAX - x < y \<longleftrightarrow> 2 ^ 64 \<le> unat x + unat y"
proof -
  have "unat x < 2 ^ 64" using unsigned_less [of x, where 'a = nat] by simp
  then show ?thesis unfolding word_less_nat_alt unat_U64_MAX_minus by linarith
qed

lemma unat_add_fits: "unat x + unat y < 2 ^ 64 \<Longrightarrow> unat (x + y :: u64) = unat x + unat y"
  using unat_add_lem [of x y] by simp

text \<open>Three nested overflow guards are one bound on the exact sum.\<close>

lemma file_size_bytes_eq:
  "file_size_bytes t p r =
     (if 52 + unat t + unat p + unat r < 2 ^ 64 then Some (52 + t + p + r) else None)"
  and unat_file_size: "52 + unat t + unat p + unat r < 2 ^ 64 \<Longrightarrow>
     unat (52 + t + p + r) = 52 + unat t + unat p + unat r"
proof -
  have f: "of_nat FIXED_HEADER + 4 = (52 :: u64)" by (simp add: FIXED_HEADER_def)
  have m: "U64_MAX - 52 - t = U64_MAX - (52 + t)" "U64_MAX - (52 + t) - p = U64_MAX - (52 + t + p)"
    by simp_all
  have s1: "52 + unat t < 2 ^ 64 \<Longrightarrow> unat (52 + t) = 52 + unat t"
    using unat_add_fits [of 52 t] by simp
  have s2: "52 + unat t + unat p < 2 ^ 64 \<Longrightarrow> unat (52 + t + p) = 52 + unat t + unat p"
    using unat_add_fits [of "52 + t" p] s1 by simp
  have s3: "52 + unat t + unat p + unat r < 2 ^ 64 \<Longrightarrow>
      unat (52 + t + p + r) = 52 + unat t + unat p + unat r"
    using unat_add_fits [of "52 + t + p" r] s2 by simp
  have u52: "unat (52 :: u64) = 52" by simp
  consider "2 ^ 64 \<le> 52 + unat t" | "52 + unat t < 2 ^ 64" "2 ^ 64 \<le> 52 + unat t + unat p"
    | "52 + unat t + unat p < 2 ^ 64" by linarith
  then show "file_size_bytes t p r =
     (if 52 + unat t + unat p + unat r < 2 ^ 64 then Some (52 + t + p + r) else None)"
  proof cases
    case 1
    then show ?thesis
      unfolding file_size_bytes_def Let_def f m U64_guard u52 by auto
  next
    case 2
    then show ?thesis
      unfolding file_size_bytes_def Let_def f m U64_guard u52 s1 [OF 2(1)] by auto
  next
    case 3
    then have "52 + unat t < 2 ^ 64" by linarith
    with 3 show ?thesis
      unfolding file_size_bytes_def Let_def f m U64_guard u52 s1 [OF \<open>52 + unat t < 2 ^ 64\<close>] s2 [OF 3]
      by auto
  qed
  show "52 + unat t + unat p + unat r < 2 ^ 64 \<Longrightarrow>
     unat (52 + t + p + r) = 52 + unat t + unat p + unat r"
    by (rule s3)
qed

lemma ceil_div_100: "(n + 99) div 100 = n div 100 + (if n mod 100 = 0 then 0 else (1::nat))"
proof -
  have "n + 99 = n mod 100 + 99 + n div 100 * 100" by (simp add: mod_div_decomp)
  then have "(n + 99) div 100 = (n mod 100 + 99) div 100 + n div 100"
    by (metis div_mult_self1 add.commute mult.commute zero_neq_numeral)
  moreover have "n mod 100 \<noteq> 0 \<Longrightarrow> (n mod 100 + 99) div 100 = 1"
    by (rule div_nat_eqI) (auto intro: mod_less_divisor order_less_le_trans)
  ultimately show ?thesis by auto
qed

lemma unat_slack:
  "unat (if f mod 100 \<noteq> 0 then f div 100 + 1 else f div 100 :: u64) = (unat f + 99) div 100"
proof -
  have lt: "unat f < 2 ^ 64" using unsigned_less [of f, where 'a = nat] by simp
  have d: "unat (f div 100) = unat f div 100" and m: "unat (f mod 100) = unat f mod 100"
    by (simp_all add: unat_div_distrib unat_mod_distrib)
  have "unat (f div 100 + 1) = unat f div 100 + 1"
    using unat_add_fits [of "f div 100" 1] lt by (simp add: d)
  moreover have "f mod 100 = 0 \<longleftrightarrow> unat f mod 100 = 0"
    using m by (metis unsigned_0 unsigned_word_eqI)
  ultimately show ?thesis using d by (simp add: ceil_div_100)
qed

lemma budget_required_cases:
  "(case budget_required f of None \<Rightarrow> False | Some q \<Rightarrow> q \<le> b) \<longleftrightarrow>
     unat f + (unat f + 99) div 100 \<le> unat b"
proof -
  define s where "s = (if f mod 100 \<noteq> 0 then f div 100 + 1 else f div 100)"
  have us: "unat s = (unat f + 99) div 100" unfolding s_def by (rule unat_slack)
  have b: "unat b < 2 ^ 64" using unsigned_less [of b, where 'a = nat] by simp
  have eq: "budget_required f = (if 2 ^ 64 \<le> unat f + unat s then None else Some (f + s))"
    unfolding budget_required_def Let_def s_def [symmetric] U64_guard ..
  show ?thesis
  proof (cases "unat f + unat s < 2 ^ 64")
    case True
    then have "\<not> 2 ^ 64 \<le> unat f + unat s" by simp
    with unat_add_fits [OF True] show ?thesis
      unfolding eq us [symmetric] word_le_nat_alt by simp
  next
    case False
    then have "2 ^ 64 \<le> unat f + unat s" by simp
    with b show ?thesis unfolding eq us [symmetric] by simp
  qed
qed

lemma file_size_fits_eq:
  "file_size_fits (Some kc) t p r \<longleftrightarrow>
     (let n = 52 + unat t + unat p + unat r
      in n < 2 ^ 64 \<and> (budget_bytes kc = 0 \<or> n + (n + 99) div 100 \<le> unat (budget_bytes kc)))"
proof (cases "52 + unat t + unat p + unat r < 2 ^ 64")
  case True
  then show ?thesis
    unfolding file_size_fits_def file_size_bytes_eq Let_def
    using budget_required_cases [where f = "52 + t + p + r" and b = "budget_bytes kc"] unat_file_size [OF True]
    by auto
next
  case False
  then show ?thesis unfolding file_size_fits_def file_size_bytes_eq Let_def by simp
qed

text \<open>A checkpoint is admitted exactly when its exact size (52 bytes of header and text
  length, plus text, payload and trailer) is a 64-bit number and, with one percent of headroom
  rounded up, is within the budget; no sum on the way wraps.\<close>

theorem file_size_fits_iff:
  "file_size_fits (Some kc) t p r \<longleftrightarrow>
     (let n = 52 + unat t + unat p + unat r
      in n < 2 ^ 64 \<and> (budget_bytes kc = 0 \<or> n + (n + 99) div 100 \<le> unat (budget_bytes kc)))"
  by (rule file_size_fits_eq)

end
