(* ===== verification/Sha1.thy ===== *)
theory Sha1
  imports Ds4_Prelude
begin

text \<open>
  The SHA-1 of \<open>src/ds4_kvstore.c\<close>: the streaming context, the block transform, padding and the
  hexadecimal digest that names a checkpoint file.  The two loops that stop only because the
  context is well formed are \<^theory_text>\<open>partial_function (option)\<close>, so that not returning is a
  value; that they do return is proved.
\<close>

record sha1_ctx =
  sh :: "u32 list"
  sbytes :: u64
  sblock :: bytes
  sused :: nat

definition rol32 :: "u32 \<Rightarrow> nat \<Rightarrow> u32" where
  "rol32 v n = push_bit n v OR drop_bit (32 - n) v"

definition be_word :: "bytes \<Rightarrow> nat \<Rightarrow> u32" where
  "be_word b i = push_bit 24 (of_char (b ! (i * 4))) OR push_bit 16 (of_char (b ! (i * 4 + 1)))
     OR push_bit 8 (of_char (b ! (i * 4 + 2))) OR of_char (b ! (i * 4 + 3))"

definition sha1_schedule :: "bytes \<Rightarrow> u32 list" where
  "sha1_schedule b = fold (\<lambda>i w. w @ [rol32 (w ! (i - 3) XOR w ! (i - 8) XOR w ! (i - 14) XOR w ! (i - 16)) 1])
     [16..<80] (map (be_word b) [0..<16])"

definition sha1_round :: "u32 list \<Rightarrow> nat \<Rightarrow> u32 \<times> u32 \<times> u32 \<times> u32 \<times> u32 \<Rightarrow> u32 \<times> u32 \<times> u32 \<times> u32 \<times> u32" where
  "sha1_round w i = (\<lambda>(a, b, cc, d, e).
     let (f, k) =
       (if i < 20 then ((b AND cc) OR (NOT b AND d), 0x5a827999)
        else if i < 40 then (b XOR cc XOR d, 0x6ed9eba1)
        else if i < 60 then ((b AND cc) OR (b AND d) OR (cc AND d), 0x8f1bbcdc)
        else (b XOR cc XOR d, 0xca62c1d6));
       tmp = rol32 a 5 + f + e + k + w ! i
     in (tmp, a, rol32 b 30, cc, d))"

definition sha1_compress :: "u32 list \<Rightarrow> bytes \<Rightarrow> u32 list" where
  "sha1_compress h block =
     (let (a, b, cc, d, e) = fold (sha1_round (sha1_schedule block)) [0..<80]
            (h ! 0, h ! 1, h ! 2, h ! 3, h ! 4)
      in [h ! 0 + a, h ! 1 + b, h ! 2 + cc, h ! 3 + d, h ! 4 + e])"

definition sha1_transform :: "sha1_ctx \<Rightarrow> bytes \<Rightarrow> sha1_ctx" where
  "sha1_transform c block = c\<lparr>sh := sha1_compress (sh c) block\<rparr>"

definition sha1_init :: sha1_ctx where
  "sha1_init = \<lparr>sh = [0x67452301, 0xefcdab89, 0x98badcfe, 0x10325476, 0xc3d2e1f0],
     sbytes = 0, sblock = replicate 64 (CHR 0x00), sused = 0\<rparr>"

partial_function (option) sha1_update_loop :: "sha1_ctx \<Rightarrow> bytes \<Rightarrow> sha1_ctx option" where
  [code]: "sha1_update_loop c p =
     (if p = [] then Some c
      else
        let n = min (64 - sused c) (length p);
            c = c\<lparr>sblock := put_at (sused c) (take n p) (sblock c), sused := sused c + n\<rparr>;
            c = (if sused c = 64 then (sha1_transform c (sblock c))\<lparr>sused := 0\<rparr> else c)
        in sha1_update_loop c (drop n p))"

definition sha1_update :: "sha1_ctx \<Rightarrow> bytes \<Rightarrow> sha1_ctx option" where
  "sha1_update c p = sha1_update_loop (c\<lparr>sbytes := sbytes c + of_nat (length p)\<rparr>) p"

partial_function (option) sha1_pad :: "sha1_ctx \<Rightarrow> sha1_ctx option" where
  [code]: "sha1_pad c =
     (if sused c = 56 then Some c
      else Option.bind (sha1_update c [CHR 0x00]) sha1_pad)"

definition be64 :: "u64 \<Rightarrow> bytes" where
  "be64 v = map (\<lambda>i. byte_of (drop_bit (8 * (7 - i)) v)) [0..<8]"

definition be32 :: "u32 \<Rightarrow> bytes" where
  "be32 v = [byte_of (drop_bit 24 v), byte_of (drop_bit 16 v), byte_of (drop_bit 8 v), byte_of v]"

definition sha1_final :: "sha1_ctx \<Rightarrow> bytes option" where
  "sha1_final c =
     (let bits = sbytes c * 8
      in Option.bind (sha1_update c [CHR 0x80]) (\<lambda>c.
         Option.bind (sha1_pad c) (\<lambda>c.
         Option.bind (sha1_update c (be64 bits)) (\<lambda>c.
         Some (concat (map be32 (sh c)))))))"

definition hex_digit :: "nat \<Rightarrow> char" where
  "hex_digit n = ''0123456789abcdef'' ! n"

definition hex20 :: "bytes \<Rightarrow> string" where
  "hex20 d = concat (map (\<lambda>b. [hex_digit (of_char b div 16), hex_digit (of_char b mod 16)]) d)"

definition sha1_bytes_hex :: "bytes \<Rightarrow> string option" where
  "sha1_bytes_hex p = Option.bind (sha1_update sha1_init p) (\<lambda>c. map_option hex20 (sha1_final c))"

section \<open>Reference: absorb whole blocks of the padded message\<close>

function absorb :: "u32 list \<Rightarrow> bytes \<Rightarrow> u32 list \<times> bytes" where
  "absorb h d = (if length d < 64 then (h, d) else absorb (sha1_compress h (take 64 d)) (drop 64 d))"
  by pat_completeness auto
termination
  by (relation "measure (\<lambda>(h, d). length d)") auto

declare absorb.simps [simp del]

lemma absorb_short: "length d < 64 \<Longrightarrow> absorb h d = (h, d)"
  by (simp add: absorb.simps)

lemma absorb_block:
  "length b = 64 \<Longrightarrow> absorb h (b @ d) = absorb (sha1_compress h b) d"
  by (subst absorb.simps) simp

lemma absorb_append:
  "absorb h (d @ p) = (case absorb h d of (h', r) \<Rightarrow> absorb h' (r @ p))"
proof (induction h d rule: absorb.induct)
  case (1 h d)
  show ?case
  proof (cases "length d < 64")
    case True
    then show ?thesis by (simp add: absorb_short)
  next
    case False
    then have "d = take 64 d @ drop 64 d" and "length (take 64 d) = 64" by simp_all
    with False "1.IH" show ?thesis
      by (metis absorb_block append.assoc)
  qed
qed

definition sha1_padding :: "nat \<Rightarrow> bytes" where
  "sha1_padding n = CHR 0x80 # replicate ((119 - n mod 64) mod 64) (CHR 0x00)"

definition sha1_spec :: "bytes \<Rightarrow> string" where
  "sha1_spec p =
     hex20 (concat (map be32 (fst (absorb (sh sha1_init)
       (p @ sha1_padding (length p) @ be64 (of_nat (length p) * 8))))))"

section \<open>The streaming context refines the reference\<close>

definition sha1_wf :: "sha1_ctx \<Rightarrow> bool" where
  "sha1_wf c \<longleftrightarrow> length (sblock c) = 64 \<and> sused c < 64"

definition pending :: "sha1_ctx \<Rightarrow> bytes" where
  "pending c = take (sused c) (sblock c)"

definition sha1_abs :: "sha1_ctx \<Rightarrow> u32 list \<times> bytes" where
  "sha1_abs c = (sh c, pending c)"

lemma length_pending: "sha1_wf c \<Longrightarrow> length (pending c) = sused c"
  by (simp add: sha1_wf_def pending_def)

lemma update_loop_refines:
  assumes "sha1_wf c"
  shows "\<exists>c'. sha1_update_loop c p = Some c' \<and> sha1_wf c' \<and> sbytes c' = sbytes c
    \<and> sha1_abs c' = absorb (sh c) (pending c @ p)"
  using assms
proof (induction p arbitrary: c rule: length_induct)
  case (1 p)
  show ?case
  proof (cases "p = []")
    case True
    with "1.prems" show ?thesis
      by (simp add: sha1_update_loop.simps [of c "[]"] sha1_abs_def absorb_short length_pending
          sha1_wf_def)
  next
    case False
    define n where "n = min (64 - sused c) (length p)"
    define b where "b = put_at (sused c) (take n p) (sblock c)"
    have n: "0 < n" "n \<le> length p" "sused c + n \<le> 64"
      using "1.prems" False by (auto simp: n_def sha1_wf_def)
    have b: "length b = 64" "take (sused c + n) b = pending c @ take n p"
      using "1.prems" n by (auto simp: b_def put_at_def sha1_wf_def pending_def)
    define c1 where "c1 = c\<lparr>sblock := b, sused := sused c + n\<rparr>"
    define c2 where "c2 = (if sused c1 = 64 then (sha1_transform c1 (sblock c1))\<lparr>sused := 0\<rparr> else c1)"
    have step: "sha1_update_loop c p = sha1_update_loop c2 (drop n p)"
      using False by (simp add: sha1_update_loop.simps [of c p] Let_def n_def [symmetric]
          b_def [symmetric] c1_def c2_def)
    have wf2: "sha1_wf c2" and by2: "sbytes c2 = sbytes c"
      using n b by (auto simp: c2_def c1_def sha1_wf_def sha1_transform_def)
    have abs2: "absorb (sh c2) (pending c2 @ drop n p) = absorb (sh c) (pending c @ p)"
    proof (cases "sused c + n = 64")
      case True
      then have "b = pending c @ take n p" using b by simp
      moreover from this have "pending c @ p = b @ drop n p" by simp
      ultimately show ?thesis
        using True b absorb_block [of b "sh c" "drop n p"]
        by (simp add: c2_def c1_def sha1_transform_def pending_def)
    next
      case False
      then show ?thesis using b by (simp add: c2_def c1_def pending_def)
    qed
    from "1.IH" n wf2 obtain c' where "sha1_update_loop c2 (drop n p) = Some c'" "sha1_wf c'"
      "sbytes c' = sbytes c2" "sha1_abs c' = absorb (sh c2) (pending c2 @ drop n p)"
      by (metis diff_less length_drop length_greater_0_conv False)
    with step abs2 by2 show ?thesis by simp
  qed
qed

lemma update_refines:
  assumes "sha1_wf c"
  shows "\<exists>c'. sha1_update c p = Some c' \<and> sha1_wf c' \<and> sbytes c' = sbytes c + of_nat (length p)
    \<and> sha1_abs c' = absorb (sh c) (pending c @ p)"
  using update_loop_refines [of "c\<lparr>sbytes := sbytes c + of_nat (length p)\<rparr>" p] assms
  by (simp add: sha1_update_def sha1_wf_def pending_def)

lemma length_snd_absorb: "length (snd (absorb h d)) = length d mod 64"
proof (induction h d rule: absorb.induct)
  case (1 h d)
  then show ?case
    by (cases "length d < 64") (auto simp: absorb.simps [of h d] le_mod_geq)
qed

lemma sused_after:
  assumes "sha1_wf c" "sha1_abs c = absorb h d"
  shows "sused c = length d mod 64"
  using assms length_snd_absorb [of h d] by (metis length_pending sha1_abs_def snd_conv)

lemma absorb_continue:
  "sha1_abs c = absorb h d \<Longrightarrow> absorb h (d @ q) = absorb (sh c) (pending c @ q)"
proof -
  assume "sha1_abs c = absorb h d"
  then have "absorb h d = (sh c, pending c)" by (simp add: sha1_abs_def)
  then show ?thesis using absorb_append [of h d q] by simp
qed

text \<open>The number of zero bytes until 56 bytes are pending, counted down one byte at a time.\<close>

lemma pad_count:
  "u < 64 \<Longrightarrow> (120 - u) mod 64 = (if u \<le> 56 then 56 - u else 120 - (u :: nat))"
  by (auto simp: le_mod_geq)

lemma pad_count_next:
  assumes "u < 64" "(120 - u) mod 64 = Suc k"
  shows "u \<noteq> 56" and "k = (120 - (u + 1) mod 64) mod (64::nat)"
proof -
  show "u \<noteq> 56" using assms by auto
  then consider "u < 56" | "56 < u" "u < 63" | "u = 63" using assms by linarith
  then show "k = (120 - (u + 1) mod 64) mod 64"
    using assms by cases (auto simp: pad_count le_mod_geq)
qed

lemma pad_refines:
  assumes "sha1_wf c"
  shows "\<exists>c'. sha1_pad c = Some c' \<and> sha1_wf c' \<and> sused c' = 56
    \<and> sha1_abs c' = absorb (sh c) (pending c @ replicate ((120 - sused c) mod 64) (CHR 0x00))"
  using assms
proof (induction "(120 - sused c) mod 64" arbitrary: c)
  case 0
  then have u: "sused c = 56" by (auto simp: sha1_wf_def pad_count split: if_splits)
  with 0 show ?case
    by (simp add: sha1_pad.simps [of c] sha1_abs_def absorb_short length_pending)
next
  case (Suc k)
  then have u: "sused c < 64" by (auto simp: sha1_wf_def)
  from update_refines [OF Suc.prems] obtain c1 where c1: "sha1_update c [CHR 0x00] = Some c1"
    "sha1_wf c1" "sha1_abs c1 = absorb (sh c) (pending c @ [CHR 0x00])" by blast
  have "sused c1 = (sused c + 1) mod 64"
    using sused_after [OF c1(2,3)] length_pending [OF Suc.prems] by simp
  then have k: "k = (120 - sused c1) mod 64"
    using pad_count_next [OF u] Suc.hyps(2) by simp
  from Suc.hyps(1) [OF k c1(2)] obtain c' where c': "sha1_pad c1 = Some c'" "sha1_wf c'"
    "sused c' = 56" "sha1_abs c' = absorb (sh c1) (pending c1 @ replicate k (CHR 0x00))"
    using k by auto
  moreover have "absorb (sh c1) (pending c1 @ replicate k (CHR 0x00))
      = absorb (sh c) (pending c @ replicate (Suc k) (CHR 0x00))"
    using absorb_continue [OF c1(3), of "replicate k (CHR 0x00)"] by simp
  ultimately show ?case
    using pad_count_next(1) [OF u] c1(1) Suc.hyps(2)
    by (metis bind.bind_lunit replicate_Suc sha1_pad.simps)
qed

lemma sha1_bytes_hex_spec: "sha1_bytes_hex p = Some (sha1_spec p)"
proof -
  have "sha1_wf sha1_init" and "pending sha1_init = []" and "sbytes sha1_init = 0"
    by (simp_all add: sha1_wf_def sha1_init_def pending_def)
  with update_refines [of sha1_init p] obtain c1 where c1: "sha1_update sha1_init p = Some c1"
    "sha1_wf c1" "sbytes c1 = of_nat (length p)" "sha1_abs c1 = absorb (sh sha1_init) p" by auto
  from update_refines [OF c1(2), of "[CHR 0x80]"] obtain c2 where
    c2: "sha1_update c1 [CHR 0x80] = Some c2" "sha1_wf c2"
    "sha1_abs c2 = absorb (sh c1) (pending c1 @ [CHR 0x80])" by blast
  from pad_refines [OF c2(2)] obtain c3 where c3: "sha1_pad c2 = Some c3" "sha1_wf c3"
    "sha1_abs c3 = absorb (sh c2) (pending c2 @ replicate ((120 - sused c2) mod 64) (CHR 0x00))"
    by blast
  from update_refines [OF c3(2), of "be64 (sbytes c1 * 8)"] obtain c4 where
    c4: "sha1_update c3 (be64 (sbytes c1 * 8)) = Some c4"
    "sha1_abs c4 = absorb (sh c3) (pending c3 @ be64 (sbytes c1 * 8))" by blast
  have a2: "sha1_abs c2 = absorb (sh sha1_init) (p @ [CHR 0x80])"
    using absorb_continue [OF c1(4), of "[CHR 0x80]"] c2(3) by simp
  have "sused c2 = (length p + 1) mod 64"
    using sused_after [OF c2(2) a2] by simp
  then have pad: "(120 - sused c2) mod 64 = (119 - length p mod 64) mod 64"
    by (auto simp: mod_Suc pad_count)
  have a3: "sha1_abs c3 = absorb (sh sha1_init) (p @ sha1_padding (length p))"
    using absorb_continue [OF a2] c3(3) pad by (simp add: sha1_padding_def)
  have "sha1_abs c4 = absorb (sh sha1_init) ((p @ sha1_padding (length p)) @ be64 (sbytes c1 * 8))"
    using absorb_continue [OF a3, of "be64 (sbytes c1 * 8)"] c4(2) by simp
  then have "sh c4 = fst (absorb (sh sha1_init) (p @ sha1_padding (length p) @ be64 (of_nat (length p) * 8)))"
    by (metis append.assoc c1(3) fst_conv sha1_abs_def)
  then show ?thesis
    using c1(1) c2(1) c3(1) c4(1)
    by (simp add: sha1_bytes_hex_def sha1_final_def sha1_spec_def)
qed

text \<open>C36. The streaming SHA-1 (block buffer, byte-wise zero padding) always returns and computes
  the same digest as the reference that pads the whole message and folds the compression
  function over its 64-byte blocks.\<close>

theorem sha1_bytes_hex_refines: "sha1_bytes_hex p = Some (sha1_spec p)"
  by (rule sha1_bytes_hex_spec)

end
