(* ===== verification/Kv_Store.thy ===== *)
theory Kv_Store
  imports Kv_Policy Sha1 "HOL-Library.AList"
begin

text \<open>
  The disk KV store of \<open>src/ds4_kvstore.c\<close> on a directory: refreshing the index, evicting down to
  the budget, storing the live prefix, looking a prompt up by its longest stored byte prefix and
  loading it.

  The cache directory is an association list from paths to file contents, in \<open>readdir\<close> order.
  What the operating system may refuse is the record \<open>io\<close>: one field per call, so that a
  statement for every \<open>io\<close> is a statement for every outcome of the calls.  The engine and session
  behind \<open>ds4.h\<close> are the record \<open>engine\<close> of the functions the store calls.  The double
  arithmetic of the eviction score is the record \<open>fpops\<close> of the floating-point operations it is
  built from (the program is compiled with \<open>-ffast-math\<close>): the properties use no law of them
  but those they name.
\<close>

section \<open>The world outside\<close>

type_synonym fs = "(string \<times> bytes) list"

record io =
  io_opendir :: bool
  io_open :: "string \<Rightarrow> bool"
  io_create :: bool
  io_write :: bool
  io_partial :: bytes
  io_flush :: bool
  io_close :: bool
  io_rename :: bool
  io_truncate :: bool
  io_unlink :: "string \<Rightarrow> bool"
  io_now :: u64
  io_pid :: string

record 'd fpops =
  fp_of_u32 :: "u32 \<Rightarrow> 'd"
  fp_of_u64 :: "u64 \<Rightarrow> 'd"
  fp_zero :: 'd
  fp_one :: 'd
  fp_max :: 'd
  fp_min_hits :: 'd
  fp_add :: "'d \<Rightarrow> 'd \<Rightarrow> 'd"
  fp_mul :: "'d \<Rightarrow> 'd \<Rightarrow> 'd"
  fp_div :: "'d \<Rightarrow> 'd \<Rightarrow> 'd"
  fp_neg :: "'d \<Rightarrow> 'd"
  fp_exp2 :: "'d \<Rightarrow> 'd"
  fp_lt :: "'d \<Rightarrow> 'd \<Rightarrow> bool"
  fp_eq :: "'d \<Rightarrow> 'd \<Rightarrow> bool"

text \<open>The lookup of directory entries: \<open>opendir\<close> and \<open>readdir\<close> give the names below \<open>dir\<close>.\<close>

definition dir_names :: "fs \<Rightarrow> string \<Rightarrow> string list" where
  "dir_names fs dir =
     (let pre = path_join dir []
      in map (drop (length pre)) (filter (\<lambda>p. take (length pre) p = pre) (map fst fs)))"

definition fs_unlink :: "io \<Rightarrow> fs \<Rightarrow> string \<Rightarrow> fs option" where
  "fs_unlink io fs path =
     (if io_unlink io path \<and> path \<in> fst ` set fs then Some (AList.delete path fs) else None)"

definition fs_rename :: "fs \<Rightarrow> string \<Rightarrow> string \<Rightarrow> fs" where
  "fs_rename fs old new =
     (case map_of fs old of None \<Rightarrow> fs
      | Some content \<Rightarrow> AList.update new content (AList.delete old fs))"

section \<open>Reading entries and refreshing the index\<close>

definition read_entry_file :: "io \<Rightarrow> fs \<Rightarrow> string \<Rightarrow> string \<Rightarrow> kv_entry option" where
  "read_entry_file io fs path sha =
     (case map_of fs path of
        None \<Rightarrow> None
      | Some content \<Rightarrow>
          if length content < FIXED_HEADER + 4 then None
          else if \<not> io_open io path then None
          else case read_header content zero_entry of
            None \<Rightarrow> None
          | Some (e, text, rest) \<Rightarrow>
              let fixed = of_nat FIXED_HEADER + 4 :: u64 in
              if U64_MAX - fixed < ucast text \<or> U64_MAX - fixed - ucast text < payload_bytes e
              then None
              else
                let expected = fixed + ucast text + payload_bytes e in
                if (of_nat (length content) :: u64) < expected then None
                else Some (e\<lparr>e_sha := sha, e_path := path, file_size := of_nat (length content)\<rparr>))"

definition scan_name :: "io \<Rightarrow> fs \<Rightarrow> string \<Rightarrow> string \<Rightarrow> kv_entry option" where
  "scan_name io fs dir name =
     (case sha_hex_name name of None \<Rightarrow> None
      | Some sha \<Rightarrow> read_entry_file io fs (path_join dir name) sha)"

definition kv_refresh :: "io \<Rightarrow> fs \<Rightarrow> kvstore \<Rightarrow> kvstore" where
  "kv_refresh io fs kc =
     (if \<not> enabled kc then kc
      else kc\<lparr>entries :=
        (if \<not> io_opendir io then []
         else List.map_filter (scan_name io fs (kdir kc)) (dir_names fs (kdir kc)))\<rparr>)"

definition touch_file :: "io \<Rightarrow> fs \<Rightarrow> string \<Rightarrow> u32 \<Rightarrow> bool \<times> fs" where
  "touch_file io fs path hits =
     (case map_of fs path of
        None \<Rightarrow> (False, fs)
      | Some content \<Rightarrow>
          if \<not> io_open io path then (False, fs)
          else case read_header content zero_entry of
            None \<Rightarrow> (False, fs)
          | Some (e, text, rest) \<Rightarrow>
              let h = fill_header (quant_bits e) (e_reason e) (ext_flags e) (e_tokens e) hits
                        (ctx_size e) (created_at e) (io_now io) (payload_bytes e)
              in if io_write io then (True, AList.update path (put_at 0 h content) fs)
                 else (False, fs))"

section \<open>Eviction\<close>

definition eviction_score :: "'d fpops \<Rightarrow> kv_entry \<Rightarrow> string option \<Rightarrow> u64 \<Rightarrow> 'd" where
  "eviction_score fp e protected_sha now =
     (if file_size e = 0 then fp_zero fp
      else if protected_sha = Some (e_sha e) then fp_max fp
      else
        let effective_hits = fp_of_u32 fp (e_hits e);
            used_at = (if last_used e \<noteq> 0 then last_used e else created_at e);
            effective_hits =
              (if used_at = 0 then fp_zero fp
               else if now > used_at then
                 let elapsed = fp_of_u64 fp (now - used_at);
                     h = fp_mul fp effective_hits
                           (fp_exp2 fp (fp_div fp (fp_neg fp elapsed) (fp_of_u64 fp 21600)))
                 in if fp_lt fp h (fp_min_hits fp) then fp_zero fp else h
               else effective_hits)
        in fp_div fp (fp_mul fp (fp_add fp effective_hits (fp_one fp)) (fp_of_u32 fp (e_tokens e)))
             (fp_of_u64 fp (file_size e)))"

text \<open>The scan for the cheapest entry: a later entry replaces the victim when its score is
  lower, or equal and it was used longer ago.\<close>

fun victim_scan ::
  "'d fpops \<Rightarrow> string option \<Rightarrow> u64 \<Rightarrow> kv_entry list \<Rightarrow> nat \<Rightarrow> nat \<Rightarrow> kv_entry \<Rightarrow> 'd \<Rightarrow> nat" where
  "victim_scan fp prot now [] i victim v victim_score = victim"
| "victim_scan fp prot now (e # es) i victim v victim_score =
     (let score = eviction_score fp e prot now
      in if fp_lt fp score victim_score
            \<or> (fp_eq fp score victim_score \<and> last_used e < last_used v)
         then victim_scan fp prot now es (i + 1) i e score
         else victim_scan fp prot now es (i + 1) victim v victim_score)"

definition pick_victim :: "'d fpops \<Rightarrow> string option \<Rightarrow> u64 \<Rightarrow> kv_entry list \<Rightarrow> nat" where
  "pick_victim fp prot now es =
     (case es of [] \<Rightarrow> 0
      | e # rest \<Rightarrow> victim_scan fp prot now rest 1 0 e (eviction_score fp e prot now))"

definition remove_nth :: "nat \<Rightarrow> 'a list \<Rightarrow> 'a list" where
  "remove_nth i xs = take i xs @ drop (Suc i) xs"

lemma length_remove_nth [simp]: "i < length xs \<Longrightarrow> length (remove_nth i xs) = length xs - 1"
  by (simp add: remove_nth_def)

lemma victim_scan_less: "victim < i \<Longrightarrow> victim_scan fp prot now es i victim v s < i + length es"
proof (induction es arbitrary: i victim v s)
  case Nil
  then show ?case by simp
next
  case (Cons e es)
  show ?case
    using Cons.IH [of i "i + 1"] Cons.IH [of victim "i + 1"] Cons.prems by (auto simp: Let_def)
qed

lemma pick_victim_less: "es \<noteq> [] \<Longrightarrow> pick_victim fp prot now es < length es"
  using victim_scan_less [of 0 1] by (auto simp: pick_victim_def split: list.splits)

function evict_loop ::
  "'d fpops \<Rightarrow> io \<Rightarrow> u64 \<Rightarrow> string option \<Rightarrow> u64 \<Rightarrow> kv_entry list \<Rightarrow> fs \<Rightarrow> kv_entry list \<times> fs" where
  "evict_loop fp io budget prot tot es fs =
     (if tot > budget \<and> es \<noteq> [] then
        let victim = pick_victim fp prot (io_now io) es;
            e = es ! victim
        in case fs_unlink io fs (e_path e) of
             Some fs' \<Rightarrow>
               evict_loop fp io budget prot
                 (if tot \<ge> file_size e then tot - file_size e else 0) (remove_nth victim es) fs'
           | None \<Rightarrow> evict_loop fp io budget prot 0 (remove_nth victim es) fs
      else (es, fs))"
  by pat_completeness auto
termination
  by (relation "measure (\<lambda>(fp, io, budget, prot, tot, es, fs). length es)")
    (auto simp: pick_victim_less diff_less)

declare evict_loop.simps [simp del]

definition total_size :: "kv_entry list \<Rightarrow> u64" where
  "total_size es = fold (\<lambda>e tot. tot + file_size e) es 0"

definition evict :: "'d fpops \<Rightarrow> io \<Rightarrow> kvstore \<Rightarrow> fs \<Rightarrow> string option \<Rightarrow> kvstore \<times> fs" where
  "evict fp io kc fs protected_sha =
     (if \<not> enabled kc \<or> budget_bytes kc = 0 then (kc, fs)
      else
        let kc = kv_refresh io fs kc;
            tot = total_size (entries kc);
            prot = (case protected_sha of None \<Rightarrow> None
              | Some s \<Rightarrow>
                  let protected_size = (case find (\<lambda>e. e_sha e = s) (entries kc) of
                                          None \<Rightarrow> 0 | Some e \<Rightarrow> file_size e)
                  in if protected_size > budget_bytes kc then None else Some s);
            (es, fs) = evict_loop fp io (budget_bytes kc) prot tot (entries kc) fs
        in (kc\<lparr>entries := es\<rparr>, fs))"

section \<open>Looking a prompt up\<close>

definition sha1_hex :: "bytes \<Rightarrow> string" where
  "sha1_hex p = (case sha1_bytes_hex p of Some s \<Rightarrow> s | None \<Rightarrow> [])"

lemma sha1_hex_eq: "sha1_hex p = sha1_spec p"
  by (simp add: sha1_hex_def sha1_bytes_hex_spec)

definition byte_prefix_match :: "bytes \<Rightarrow> bytes \<Rightarrow> bool" where
  "byte_prefix_match text prefix \<longleftrightarrow>
     length prefix \<le> length text \<and> (prefix = [] \<or> take (length prefix) text = prefix)"

definition tokens_copy_prefix :: "int list option \<Rightarrow> int \<Rightarrow> int list" where
  "tokens_copy_prefix src n =
     (case src of None \<Rightarrow> []
      | Some src \<Rightarrow> let n = (if n > int (length src) then int (length src) else n) in take (nat n) src)"

text \<open>The tests of the lookup loop that do not depend on the best entry so far.\<close>

definition usable_entry :: "kvstore \<Rightarrow> bytes \<Rightarrow> int \<Rightarrow> int \<Rightarrow> kv_entry \<Rightarrow> bool" where
  "usable_entry kc prompt qbits ctx e \<longleftrightarrow>
     \<not> unat (text_bytes e) > length prompt
     \<and> \<not> sint (e_tokens e) < min_tokens (kopt kc)
     \<and> \<not> (word_of_int ctx :: u32) < ctx_size e
     \<and> \<not> (reject_different_quant kc \<and> quant_bits e \<noteq> word_of_int qbits)"

fun find_scan :: "kvstore \<Rightarrow> bytes \<Rightarrow> int \<Rightarrow> int \<Rightarrow> kv_entry list \<Rightarrow> nat \<Rightarrow> (nat \<times> kv_entry) option \<Rightarrow> (nat \<times> kv_entry) option" where
  "find_scan kc prompt qbits ctx [] i best = best"
| "find_scan kc prompt qbits ctx (e # es) i best =
     (if \<not> usable_entry kc prompt qbits ctx e then find_scan kc prompt qbits ctx es (i + 1) best
      else if (case best of None \<Rightarrow> False
               | Some (_, b) \<Rightarrow> text_bytes e < text_bytes b
                              \<or> (text_bytes e = text_bytes b \<and> e_tokens e \<le> e_tokens b))
      then find_scan kc prompt qbits ctx es (i + 1) best
      else if sha1_hex (take (unat (text_bytes e)) prompt) = e_sha e
      then find_scan kc prompt qbits ctx es (i + 1) (Some (i, e))
      else find_scan kc prompt qbits ctx es (i + 1) best)"

definition find_text_prefix :: "io \<Rightarrow> fs \<Rightarrow> kvstore \<Rightarrow> bytes option \<Rightarrow> int \<Rightarrow> int \<Rightarrow> int \<times> kvstore" where
  "find_text_prefix io fs kc prompt qbits ctx =
     (case prompt of None \<Rightarrow> (-1, kc)
      | Some prompt \<Rightarrow>
          let kc = kv_refresh io fs kc
          in (case find_scan kc prompt qbits ctx (entries kc) 0 None of
                None \<Rightarrow> -1 | Some (i, _) \<Rightarrow> int i, kc))"

section \<open>Storing\<close>

record 's engine =
  eng_quant_bits :: int
  eng_token_text :: "int \<Rightarrow> bytes"
  eng_tokenize_chat :: "bytes \<Rightarrow> int list"
  eng_tokens :: "'s \<Rightarrow> int list option"
  eng_ctx :: "'s \<Rightarrow> int"
  eng_payload_bytes :: "'s \<Rightarrow> u64"
  eng_save_payload :: "'s \<Rightarrow> bytes option"
  eng_load_payload :: "'s \<Rightarrow> bytes \<Rightarrow> u64 \<Rightarrow> bool \<times> 's \<times> bytes"
  eng_invalidate :: "'s \<Rightarrow> 's"

text \<open>The trailer hooks: \<open>hk_size\<close> and \<open>hk_write\<close> are \<^const>\<open>None\<close> where the pointer is NULL.
  A write gives its success, the bytes it put into the file and the count it reports.\<close>

record hooks =
  hk_ext_flag :: u8
  hk_size :: "(bytes \<Rightarrow> u64 option) option"
  hk_write :: "(bytes \<Rightarrow> bool \<times> bytes \<times> u64) option"
  hk_load :: bool

definition trailer_serialized_size :: "hooks option \<Rightarrow> bytes \<Rightarrow> u64 option" where
  "trailer_serialized_size hooks text =
     (case hooks of None \<Rightarrow> Some 0
      | Some hk \<Rightarrow> (case hk_size hk of None \<Rightarrow> Some 0 | Some f \<Rightarrow> f text))"

definition trailer_write :: "hooks option \<Rightarrow> bytes \<Rightarrow> bool \<times> bytes \<times> u64" where
  "trailer_write hooks text =
     (case hooks of None \<Rightarrow> (True, [], 0)
      | Some hk \<Rightarrow> (case hk_write hk of None \<Rightarrow> (True, [], 0) | Some f \<Rightarrow> f text))"

definition render_tokens_text :: "'s engine \<Rightarrow> int list \<Rightarrow> bytes" where
  "render_tokens_text eng tokens = concat (map (eng_token_text eng) tokens)"

definition file_text_matches :: "io \<Rightarrow> fs \<Rightarrow> string \<Rightarrow> string \<Rightarrow> bytes \<Rightarrow> bool" where
  "file_text_matches io fs path sha text =
     (if length text > 2 ^ 32 - 1 then False
      else case map_of fs path of None \<Rightarrow> False
      | Some content \<Rightarrow>
          if \<not> io_open io path then False
          else case read_header content zero_entry of None \<Rightarrow> False
          | Some (hdr, tb, rest) \<Rightarrow>
              if tb \<noteq> of_nat (length text) then False
              else case fread (unat tb) rest of None \<Rightarrow> False
              | Some (stored, _) \<Rightarrow>
                  sha1_hex stored = sha \<and> (text = [] \<or> take (length text) stored = text))"

definition existing_compatible ::
  "io \<Rightarrow> fs \<Rightarrow> kvstore \<Rightarrow> string \<Rightarrow> string \<Rightarrow> bytes \<Rightarrow> int \<Rightarrow> int \<Rightarrow> bool \<times> fs" where
  "existing_compatible io fs kc path sha text qbits ctx =
     (if path \<notin> fst ` set fs then (False, fs)
      else case read_entry_file io fs path sha of None \<Rightarrow> (False, fs)
      | Some e \<Rightarrow>
          if (\<not> reject_different_quant kc \<or> quant_bits e = word_of_int qbits)
             \<and> ctx_size e \<le> word_of_int ctx
             \<and> file_text_matches io fs path sha text
          then (True, fs)
          else (False, case fs_unlink io fs path of None \<Rightarrow> fs | Some fs' \<Rightarrow> fs'))"

definition rewrite_trailer :: "io \<Rightarrow> fs \<Rightarrow> string \<Rightarrow> bytes \<Rightarrow> hooks option \<Rightarrow> fs" where
  "rewrite_trailer io fs path text hooks =
     (case hooks of None \<Rightarrow> fs
      | Some hk \<Rightarrow>
          if hk_write hk = None \<or> hk_size hk = None then fs
          else case trailer_serialized_size hooks text of None \<Rightarrow> fs
          | Some est \<Rightarrow>
            if est = 0 then fs
            else case map_of fs path of None \<Rightarrow> fs
            | Some content \<Rightarrow>
              if \<not> io_open io path then fs
              else case read_header content zero_entry of None \<Rightarrow> fs
              | Some (hdr, tb, rest) \<Rightarrow>
                  let end = 48 + 4 + ucast tb + payload_bytes hdr :: u64 in
                  if \<not> end \<le> 2 ^ 63 - 1 \<or> \<not> io_truncate io then fs
                  else
                    let base = take (unat end) content
                                 @ replicate (unat end - length content) NUL;
                        (ok, tr, ignored) = trailer_write hooks text;
                        content = base @ tr
                    in if ok \<and> io_flush io \<and> ignored > 0 \<and> io_write io
                       then AList.update path
                         (put_at 0 (fill_header (quant_bits hdr) (e_reason hdr)
                             (ext_flags hdr OR hk_ext_flag hk) (e_tokens hdr) (e_hits hdr)
                             (ctx_size hdr) (created_at hdr) (io_now io) (payload_bytes hdr)) content) fs
                       else AList.update path content fs)"

definition starts_with :: "int list \<Rightarrow> int list \<Rightarrow> bool" where
  "starts_with tokens prefix \<longleftrightarrow>
     length prefix \<le> length tokens \<and> take (length prefix) tokens = prefix"

text \<open>The file a store writes: header, text length, text, payload, trailer.\<close>

definition checkpoint_bytes ::
  "u8 \<Rightarrow> u8 \<Rightarrow> u8 \<Rightarrow> u32 \<Rightarrow> u32 \<Rightarrow> u64 \<Rightarrow> u64 \<Rightarrow> bytes \<Rightarrow> bytes \<Rightarrow> bytes \<Rightarrow> bytes" where
  "checkpoint_bytes qbits reason ext tokens ctx now payload_len text payload trailer =
     fill_header qbits reason ext tokens 0 ctx now now payload_len
       @ le_put32 (of_nat (length text)) @ text @ payload @ trailer"

definition store_live_prefix_text ::
  "'d fpops \<Rightarrow> io \<Rightarrow> 's engine \<Rightarrow> kvstore \<Rightarrow> fs \<Rightarrow> 's \<Rightarrow> int list option \<Rightarrow> int \<Rightarrow> string option
     \<Rightarrow> bytes option \<Rightarrow> u8 \<Rightarrow> hooks option \<Rightarrow> bool \<times> kvstore \<times> fs" where
  "store_live_prefix_text fp io eng kc fs s tokens slen reason override ext hooks =
     (if \<not> enabled kc then (False, kc, fs)
      else if tokens = None \<or> slen < min_tokens (kopt kc) then (False, kc, fs)
      else let store_tokens = tokens_copy_prefix tokens slen; qbits = eng_quant_bits eng in
      if qbits \<noteq> 2 \<and> qbits \<noteq> 4 then (False, kc, fs)
      else case eng_tokens eng s of None \<Rightarrow> (False, kc, fs)
      | Some live \<Rightarrow>
        if length live \<noteq> length store_tokens \<or> \<not> starts_with live store_tokens
        then (False, kc, fs)
        else let payload_len = eng_payload_bytes eng s in
        if payload_len = 0 then (False, kc, fs)
        else let text_override = (case override of None \<Rightarrow> False | Some t \<Rightarrow> t \<noteq> []);
                 text = (if text_override then the override else render_tokens_text eng store_tokens) in
        if length text > 2 ^ 32 - 1 then (False, kc, fs)
        else case trailer_serialized_size hooks text of None \<Rightarrow> (False, kc, fs)
        | Some trailer_est \<Rightarrow>
          if \<not> file_size_fits (Some kc) (of_nat (length text)) payload_len trailer_est
          then (False, kc, fs)
          else
            let sha = sha1_hex text; path = path_for_sha (kdir kc) sha;
                (compatible, fs) = existing_compatible io fs kc path sha text qbits (eng_ctx eng s) in
            if compatible then (True, kc, rewrite_trailer io fs path text hooks)
            else
              let tmp = path @ ''.tmp.'' @ io_pid io in
              if \<not> io_create io then (False, kc, fs)
              else
                let flags = (case hooks of None \<Rightarrow> 0
                               | Some hk \<Rightarrow> if trailer_est > 0 then hk_ext_flag hk else 0);
                    flags = (if text_override then flags OR ext else flags);
                    payload = eng_save_payload eng s;
                    (tr_ok, tr, trailer_len) = trailer_write hooks text;
                    ok = (io_write io \<and> payload \<noteq> None \<and> tr_ok \<and> io_flush io \<and> io_close io);
                    content = (if ok
                      then checkpoint_bytes (word_of_int qbits) (reason_code reason) flags
                             (of_nat (length store_tokens)) (word_of_int (eng_ctx eng s)) (io_now io)
                             payload_len text (the payload) tr
                      else io_partial io);
                    fs = AList.update tmp content fs;
                    ok = (ok \<and> file_size_fits (Some kc) (of_nat (length text)) payload_len trailer_len
                             \<and> io_rename io)
                in if ok
                   then let fs = fs_rename fs tmp path;
                            (kc, fs) = evict fp io kc fs (Some sha)
                        in (True, kc, fs)
                   else (False, kc, case fs_unlink io fs tmp of None \<Rightarrow> fs | Some fs' \<Rightarrow> fs'))"

definition store_live_prefix ::
  "'d fpops \<Rightarrow> io \<Rightarrow> 's engine \<Rightarrow> kvstore \<Rightarrow> fs \<Rightarrow> 's \<Rightarrow> int list option \<Rightarrow> int \<Rightarrow> string option
     \<Rightarrow> hooks option \<Rightarrow> bool \<times> kvstore \<times> fs" where
  "store_live_prefix fp io eng kc fs s tokens slen reason hooks =
     store_live_prefix_text fp io eng kc fs s tokens slen reason None 0 hooks"

definition maybe_store_continued ::
  "'d fpops \<Rightarrow> io \<Rightarrow> 's engine \<Rightarrow> kvstore \<Rightarrow> fs \<Rightarrow> 's \<Rightarrow> hooks option \<Rightarrow> bool \<times> kvstore \<times> fs" where
  "maybe_store_continued fp io eng kc fs s hooks =
     (case eng_tokens eng s of None \<Rightarrow> (False, kc, fs)
      | Some tokens \<Rightarrow>
          let target = continued_store_target kc (int (length tokens)) in
          if target = 0 then (False, kc, fs)
          else let (ok, kc, fs) =
                     store_live_prefix fp io eng kc fs s (Some tokens) target (Some ''continued'') hooks
               in if ok then (True, note_store kc target, fs) else (False, kc, fs))"

definition kv_open ::
  "'d fpops \<Rightarrow> io \<Rightarrow> fs \<Rightarrow> bool \<Rightarrow> string option \<Rightarrow> u64 \<Rightarrow> bool \<Rightarrow> kv_options \<Rightarrow> bool \<times> kvstore \<times> fs" where
  "kv_open fp io fs mkdir_ok dir budget_mb reject opt =
     (let kc = \<lparr>enabled = False, kdir = [], budget_bytes = 0, reject_different_quant = False,
                kopt = \<lparr>min_tokens = 0, cold_max_tokens = 0, continued_interval_tokens = 0,
                        boundary_trim_tokens = 0, boundary_align_tokens = 0\<rparr>,
                continued_last_store_tokens = 0, entries = []\<rparr>
      in case dir of None \<Rightarrow> (False, kc, fs)
      | Some dir \<Rightarrow>
          if \<not> mkdir_ok then (False, kc, fs)
          else let budget_mb = (if budget_mb = 0 then 4096 else budget_mb);
                   kc = kc\<lparr>enabled := True, kdir := dir,
                           budget_bytes := budget_mb * 1024 * 1024,
                           reject_different_quant := reject, kopt := opt\<rparr>;
                   (kc, fs) = evict fp io kc fs None
               in (True, kc, fs))"

section \<open>Loading\<close>

record load_result =
  lr_tokens :: int
  lr_text_bytes :: u32
  lr_quant_bits :: u8
  lr_ext_flags :: u8
  lr_consumed :: bool
  lr_path :: string

definition build_prompt :: "'s engine \<Rightarrow> int list \<Rightarrow> bytes \<Rightarrow> int list" where
  "build_prompt eng exact_prefix suffix = exact_prefix @ eng_tokenize_chat eng suffix"

text \<open>Header and text checks of a load: the header, the text bytes and what follows them.\<close>

definition read_cached_text ::
  "string \<Rightarrow> bytes \<Rightarrow> bytes \<Rightarrow> (kv_entry \<times> u32 \<times> bytes) option" where
  "read_cached_text sha prompt content =
     (case read_header content zero_entry of None \<Rightarrow> None
      | Some (hdr, tb, rest) \<Rightarrow>
          if unat tb > length prompt then None
          else case fread (unat tb) rest of None \<Rightarrow> None
          | Some (cached, rest) \<Rightarrow>
              if sha1_hex cached \<noteq> sha then None
              else if \<not> byte_prefix_match prompt cached then None
              else Some (hdr, tb, rest))"

text \<open>The result is the number of tokens loaded, the store, the directory, the session, the
  effective prompt, the load result, and the rest of the file handed to the load hook.\<close>

definition try_load_text ::
  "io \<Rightarrow> 's engine \<Rightarrow> kvstore \<Rightarrow> fs \<Rightarrow> 's \<Rightarrow> bytes option \<Rightarrow> hooks option
     \<Rightarrow> int \<times> kvstore \<times> fs \<times> 's \<times> int list \<times> load_result option \<times> bytes option" where
  "try_load_text io eng kc fs s prompt_text hooks =
     (if \<not> enabled kc \<or> prompt_text = None then (0, kc, fs, s, [], None, None)
      else let qbits = eng_quant_bits eng; prompt = the prompt_text in
      if qbits \<noteq> 2 \<and> qbits \<noteq> 4 then (0, kc, fs, s, [], None, None)
      else let (idx, kc) = find_text_prefix io fs kc prompt_text qbits (eng_ctx eng s) in
      if idx < 0 then (0, kc, fs, s, [], None, None)
      else let e = entries kc ! nat idx; path = e_path e in
      case map_of fs path of None \<Rightarrow> (0, kc, fs, s, [], None, None)
      | Some content \<Rightarrow>
        if \<not> io_open io path then (0, kc, fs, s, [], None, None)
        else case read_cached_text (e_sha e) prompt content of
          None \<Rightarrow> (0, kc, fs, s, [], None, None)
        | Some (hdr, tb, rest) \<Rightarrow>
          let (payload_ok, s, rest) = eng_load_payload eng s rest (payload_bytes hdr) in
          if \<not> payload_ok then (0, kc, fs, eng_invalidate eng s, [], None, None)
          else case eng_tokens eng s of
            Some loaded_tokens \<Rightarrow>
              if int (length loaded_tokens) = sint (e_tokens hdr)
              then
                let loaded = sint (e_tokens hdr);
                    prompt_out = build_prompt eng loaded_tokens (drop (unat tb) prompt);
                    hooked = (case hooks of None \<Rightarrow> None
                      | Some hk \<Rightarrow> if hk_load hk \<and> ext_flags hdr AND hk_ext_flag hk \<noteq> 0
                                  then Some rest else None)
                in if loaded > 0 then
                     let kc = kc\<lparr>continued_last_store_tokens := loaded\<rparr>;
                         consumed = (cold_max_tokens (kopt kc) > 0 \<and> loaded > cold_max_tokens (kopt kc));
                         fs = (if consumed
                               then (case fs_unlink io fs path of None \<Rightarrow> fs | Some fs' \<Rightarrow> fs')
                               else snd (touch_file io fs path (e_hits hdr + 1)))
                     in (loaded, kc, fs, s, prompt_out,
                         Some \<lparr>lr_tokens = loaded, lr_text_bytes = tb, lr_quant_bits = quant_bits hdr,
                               lr_ext_flags = ext_flags hdr, lr_consumed = consumed, lr_path = path\<rparr>,
                         hooked)
                   else (loaded, kc, fs, s, prompt_out, None, hooked)
              else (0, kc, case fs_unlink io fs path of None \<Rightarrow> fs | Some fs' \<Rightarrow> fs',
                    eng_invalidate eng s, [], None, None)
          | None \<Rightarrow> (0, kc, case fs_unlink io fs path of None \<Rightarrow> fs | Some fs' \<Rightarrow> fs',
                    eng_invalidate eng s, [], None, None))"

end
