(* ===== verification/Kv_Evict.thy ===== *)
theory Kv_Evict
  imports Kv_Store
begin

text \<open>
  What eviction of the disk KV store guarantees: the budget is met, only evicted files leave the
  directory, and the checkpoint a store has just renamed into place survives.
\<close>

definition files_size :: "kv_entry list \<Rightarrow> nat" where
  "files_size es = sum_list (map (\<lambda>e. unat (file_size e)) es)"

lemma unat_add_le: "unat (a + b :: 'a::len word) \<le> unat a + unat b"
  by (simp add: unat_word_ariths)

lemma total_fold_le: "unat (fold (\<lambda>e tot. tot + file_size e) es t) \<le> unat t + files_size es"
proof (induction es arbitrary: t)
  case Nil
  then show ?case by (simp add: files_size_def)
next
  case (Cons e es)
  have "unat (fold (\<lambda>e tot. tot + file_size e) es (t + file_size e)) \<le> unat (t + file_size e) + files_size es"
    by (rule Cons.IH)
  also have "\<dots> \<le> unat t + unat (file_size e) + files_size es"
    by (simp add: unat_add_le)
  finally show ?case by (simp add: files_size_def)
qed

lemma total_fold_eq:
  "unat t + files_size es < 2 ^ 64 \<Longrightarrow>
     unat (fold (\<lambda>e tot. tot + file_size e) es t) = unat t + files_size es"
proof (induction es arbitrary: t)
  case Nil
  then show ?case by (simp add: files_size_def)
next
  case (Cons e es)
  have s: "files_size (e # es) = unat (file_size e) + files_size es" by (simp add: files_size_def)
  have "unat (t + file_size e) = unat t + unat (file_size e)"
    using Cons.prems s by (intro unat_add_fits) linarith
  then show ?case using Cons.IH [of "t + file_size e"] Cons.prems s by simp
qed

lemma total_size_le: "unat (total_size es) \<le> files_size es"
  using total_fold_le [of es 0] by (simp add: total_size_def)

lemma total_size_eq: "files_size es < 2 ^ 64 \<Longrightarrow> unat (total_size es) = files_size es"
  using total_fold_eq [of 0 es] by (simp add: total_size_def)

section \<open>Removing one element\<close>

lemma remove_nth_split:
  assumes "i < length xs"
  obtains as x bs where "xs = as @ x # bs" "xs ! i = x" "remove_nth i xs = as @ bs"
  using assms id_take_nth_drop [OF assms] by (metis remove_nth_def)

lemma files_size_remove:
  "i < length es \<Longrightarrow> files_size es = unat (file_size (es ! i)) + files_size (remove_nth i es)"
  by (erule remove_nth_split) (simp add: files_size_def)

lemma set_remove_nth:
  assumes "i < length xs" "distinct (map f xs)"
  shows "set xs = insert (xs ! i) (set (remove_nth i xs))" "distinct (map f (remove_nth i xs))"
    "x \<in> set (remove_nth i xs) \<Longrightarrow> f x \<noteq> f (xs ! i)"
proof -
  obtain as a bs where xs: "xs = as @ a # bs" and nth: "xs ! i = a" and rem: "remove_nth i xs = as @ bs"
    using remove_nth_split [OF assms(1)] .
  show "set xs = insert (xs ! i) (set (remove_nth i xs))"
    unfolding nth rem unfolding xs by simp
  show "distinct (map f (remove_nth i xs))"
    using assms(2) unfolding rem unfolding xs by simp
  show "x \<in> set (remove_nth i xs) \<Longrightarrow> f x \<noteq> f (xs ! i)"
    using assms(2) unfolding nth rem unfolding xs by (auto simp: image_iff)
qed

lemma keys_delete: "fst ` set (AList.delete k al) = fst ` set al - {k}"
  by (metis delete_keys set_map set_removeAll)

text \<open>What a continued loop has done: entries only disappear, and exactly their files with them.\<close>

definition evicted_only :: "kv_entry list \<Rightarrow> fs \<Rightarrow> kv_entry list \<Rightarrow> fs \<Rightarrow> bool" where
  "evicted_only es fs es' fs' \<longleftrightarrow> set es' \<subseteq> set es
     \<and> (\<forall>p. map_of fs' p = (if p \<in> e_path ` (set es - set es') then None else map_of fs p))"

lemma evicted_only_refl: "evicted_only es fs es fs"
  by (simp add: evicted_only_def)

lemma evicted_only_step:
  assumes "i < length es" "distinct (map e_path es)"
    and "evicted_only (remove_nth i es) (AList.delete (e_path (es ! i)) fs) es' fs'"
  shows "evicted_only es fs es' fs'"
proof -
  note r = set_remove_nth [OF assms(1,2)]
  have "es ! i \<notin> set es'" using assms(3) r(3) by (auto simp: evicted_only_def)
  then have "set es - set es' = insert (es ! i) (set (remove_nth i es) - set es')"
    using r(1) by auto
  then show ?thesis using assms(3) r(1) by (auto simp: evicted_only_def delete_conv')
qed

section \<open>The budget\<close>

lemma unlink_ok:
  "\<forall>p. io_unlink io p \<Longrightarrow> path \<in> fst ` set fs \<Longrightarrow>
     fs_unlink io fs path = Some (AList.delete path fs)"
  by (simp add: fs_unlink_def)

lemma evict_loop_budget:
  assumes "\<forall>p. io_unlink io p" and "distinct (map e_path es)"
    and "\<forall>e \<in> set es. e_path e \<in> fst ` set fs" and "unat tot = files_size es"
    and "evict_loop fp io budget prot tot es fs = (es', fs')"
  shows "files_size es' \<le> unat budget \<and> evicted_only es fs es' fs'"
  using assms
proof (induction fp io budget prot tot es fs arbitrary: es' fs' rule: evict_loop.induct)
  case (1 fp io budget prot tot es fs)
  show ?case
  proof (cases "tot > budget \<and> es \<noteq> []")
    case False
    then have "es' = es" "fs' = fs" using "1.prems"(5)
      by (auto simp: evict_loop.simps [of fp io budget prot tot])
    moreover have "files_size es \<le> unat budget"
      using False "1.prems"(4) by (auto simp: word_le_nat_alt not_less files_size_def)
    ultimately show ?thesis by (simp add: evicted_only_refl)
  next
    case True
    define i where "i = pick_victim fp prot (io_now io) es"
    have i: "i < length es" unfolding i_def using True by (intro pick_victim_less) simp
    let ?e = "es ! i" and ?rest = "remove_nth i es" and ?fs = "AList.delete (e_path (es ! i)) fs"
    note rest = set_remove_nth [OF i "1.prems"(2)]
    have ul: "fs_unlink io fs (e_path ?e) = Some ?fs"
      using "1.prems"(1,3) i by (intro unlink_ok) auto
    have sz: "unat tot = unat (file_size ?e) + files_size ?rest"
      using "1.prems"(4) files_size_remove [OF i] by simp
    then have ge: "file_size ?e \<le> tot" by (simp add: word_le_nat_alt)
    have in_fs: "\<forall>e \<in> set ?rest. e_path e \<in> fst ` set ?fs"
      using "1.prems"(3) rest by (simp add: keys_delete)
    have run: "evict_loop fp io budget prot (tot - file_size ?e) ?rest ?fs = (es', fs')"
      using "1.prems"(5) True ul ge
      by (simp add: evict_loop.simps [of fp io budget prot tot] i_def [symmetric] Let_def)
    have "files_size es' \<le> unat budget \<and> evicted_only ?rest ?fs es' fs'"
      using "1.IH"(2) [OF True i_def refl ul] "1.prems"(1) rest(2) in_fs run ge sz
      by (simp add: unat_sub)
    then show ?thesis using evicted_only_step [OF i "1.prems"(2)] by blast
  qed
qed

section \<open>The protected checkpoint\<close>

text \<open>The law of the score that protection rests on: the score of an unprotected entry is an
  ordinary double, below \<open>DBL_MAX\<close>.\<close>

definition scores_below_max :: "'d fpops \<Rightarrow> string \<Rightarrow> u64 \<Rightarrow> kv_entry list \<Rightarrow> bool" where
  "scores_below_max fp s now es \<longleftrightarrow> (\<forall>e \<in> set es. e_sha e \<noteq> s \<longrightarrow>
     (let sc = eviction_score fp e (Some s) now
      in fp_lt fp sc (fp_max fp) \<and> \<not> fp_lt fp (fp_max fp) sc \<and> \<not> fp_eq fp (fp_max fp) sc))"

lemma protected_score:
  "file_size e \<noteq> 0 \<Longrightarrow> e_sha e = s \<Longrightarrow> eviction_score fp e (Some s) now = fp_max fp"
  by (simp add: eviction_score_def)

lemma victim_scan_unprotected:
  assumes "scores_below_max fp s now L" "\<forall>e \<in> set L. file_size e \<noteq> 0"
    and "es = drop i L" "i \<le> length L" "victim < i" "v = L ! victim"
    and "e_sha v \<noteq> s \<or> (\<exists>e \<in> set es. e_sha e \<noteq> s)"
  shows "e_sha (L ! victim_scan fp (Some s) now es i victim v (eviction_score fp v (Some s) now)) \<noteq> s"
  using assms(3-)
proof (induction es arbitrary: i victim v)
  case Nil
  then show ?case by simp
next
  case (Cons e es)
  have i: "i < length L" using Cons.prems(1,2) by (metis drop_all le_neq_implies_less list.simps(3) order_refl)
  have e: "e = L ! i" "es = drop (i + 1) L"
    using Cons.prems(1) i by (metis Cons_nth_drop_Suc Suc_eq_plus1 list.inject)+
  have mem: "e \<in> set L" "v \<in> set L" using e i Cons.prems by auto
  let ?sc = "\<lambda>x. eviction_score fp x (Some s) now"
  have law: "x \<in> set L \<Longrightarrow> e_sha x \<noteq> s \<Longrightarrow>
      fp_lt fp (?sc x) (fp_max fp) \<and> \<not> fp_lt fp (fp_max fp) (?sc x) \<and> \<not> fp_eq fp (fp_max fp) (?sc x)" for x
    using assms(1) by (auto simp: scores_below_max_def Let_def)
  have max: "x \<in> set L \<Longrightarrow> e_sha x = s \<Longrightarrow> ?sc x = fp_max fp" for x
    using assms(2) protected_score by blast
  have take: "e_sha e \<noteq> s \<or> (\<exists>x \<in> set es. e_sha x \<noteq> s) \<Longrightarrow>
      e_sha (L ! victim_scan fp (Some s) now es (i + 1) i e (?sc e)) \<noteq> s"
    using Cons.IH [OF e(2) _ _ e(1)] i by simp
  have keep: "e_sha v \<noteq> s \<or> (\<exists>x \<in> set es. e_sha x \<noteq> s) \<Longrightarrow>
      e_sha (L ! victim_scan fp (Some s) now es (i + 1) victim v (?sc v)) \<noteq> s"
    using Cons.IH [OF e(2) _ _ Cons.prems(4)] i Cons.prems(3) by simp
  show ?case
  proof (cases "e_sha v = s")
    case True
    then show ?thesis
      using take keep Cons.prems(5) law [OF mem(1)] max [OF mem(2)]
      by (cases "e_sha e = s") (auto simp: Let_def)
  next
    case False
    then show ?thesis
      using take keep law [OF mem(2)] max [OF mem(1)]
      by (cases "e_sha e = s") (auto simp: Let_def)
  qed
qed

lemma pick_victim_unprotected:
  assumes "scores_below_max fp s now es" "\<forall>e \<in> set es. file_size e \<noteq> 0"
    and "\<exists>e \<in> set es. e_sha e \<noteq> s"
  shows "e_sha (es ! pick_victim fp (Some s) now es) \<noteq> s"
proof (cases es)
  case Nil
  then show ?thesis using assms(3) by simp
next
  case (Cons e rest)
  have "e_sha (es ! victim_scan fp (Some s) now rest 1 0 e (eviction_score fp e (Some s) now)) \<noteq> s"
    by (rule victim_scan_unprotected [OF assms(1,2)]) (use assms(3) Cons in simp_all)
  then show ?thesis by (simp add: pick_victim_def Cons)
qed

lemma not_all_same:
  assumes "p \<in> set xs" "xs \<noteq> [p]" "distinct (map f xs)"
  shows "\<exists>x \<in> set xs. f x \<noteq> f p"
proof (rule ccontr)
  assume "\<not> (\<exists>x \<in> set xs. f x \<noteq> f p)"
  then have "f ` set xs \<subseteq> {f p}" by auto
  then have "card (f ` set xs) \<le> 1" using card_mono [of "{f p}"] by fastforce
  then have "length xs \<le> 1" using distinct_card [OF assms(3)] by simp
  then show False using assms(1,2) by (cases xs) auto
qed

lemma evict_loop_protected:
  assumes "p \<in> set es" "e_sha p = s" "prot = Some s" "distinct (map e_sha es)" "distinct (map e_path es)"
    and "\<forall>e \<in> set es. file_size e \<noteq> 0" "scores_below_max fp s (io_now io) es"
    and "unat tot \<le> files_size es" "file_size p \<le> budget"
    and "evict_loop fp io budget prot tot es fs = (es', fs')"
  shows "p \<in> set es' \<and> map_of fs' (e_path p) = map_of fs (e_path p)"
  using assms
proof (induction fp io budget prot tot es fs arbitrary: es' fs' rule: evict_loop.induct)
  case (1 fp io budget prot tot es fs)
  show ?case
  proof (cases "tot > budget \<and> es \<noteq> []")
    case False
    then show ?thesis using "1.prems"(1,10)
      by (auto simp: evict_loop.simps [of fp io budget prot tot])
  next
    case True
    have "es \<noteq> [p]"
    proof
      assume "es = [p]"
      then have "unat tot \<le> unat (file_size p)" using "1.prems"(8) by (simp add: files_size_def)
      then show False using True "1.prems"(9) by (simp add: word_less_nat_alt word_le_nat_alt)
    qed
    then have other: "\<exists>e \<in> set es. e_sha e \<noteq> s"
      using not_all_same [of p es e_sha] "1.prems"(1,2,4) by auto
    define i where "i = pick_victim fp prot (io_now io) es"
    have i: "i < length es" unfolding i_def using True by (intro pick_victim_less) simp
    have ns: "e_sha (es ! i) \<noteq> s"
      unfolding i_def \<open>prot = Some s\<close> using "1.prems"(7,6) other by (rule pick_victim_unprotected)
    let ?e = "es ! i" and ?rest = "remove_nth i es"
    note rp = set_remove_nth [OF i "1.prems"(5)] and rs = set_remove_nth [OF i "1.prems"(4)]
    have prest: "p \<in> set ?rest" and pne: "e_path p \<noteq> e_path ?e"
      using "1.prems"(1,2) ns rp by auto
    have rest: "\<forall>e \<in> set ?rest. file_size e \<noteq> 0" "scores_below_max fp s (io_now io) ?rest"
      using "1.prems"(6,7) rp(1) by (auto simp: scores_below_max_def)
    have tot': "unat (if tot \<ge> file_size ?e then tot - file_size ?e else 0) \<le> files_size ?rest"
      using "1.prems"(8) files_size_remove [OF i] by (auto simp: unat_sub)
    show ?thesis
    proof (cases "fs_unlink io fs (e_path ?e)")
      case None
      then have "evict_loop fp io budget prot 0 ?rest fs = (es', fs')"
        using "1.prems"(10) True
        by (simp add: evict_loop.simps [of fp io budget prot tot] i_def [symmetric] Let_def)
      then show ?thesis
        using "1.IH"(1) [OF True i_def refl None prest] "1.prems"(2,3,9) rp(2) rs(2) rest by simp
    next
      case (Some fs1)
      then have fs1: "fs1 = AList.delete (e_path ?e) fs" by (auto simp: fs_unlink_def split: if_splits)
      have "evict_loop fp io budget prot (if tot \<ge> file_size ?e then tot - file_size ?e else 0) ?rest fs1 = (es', fs')"
        using "1.prems"(10) True Some
        by (simp add: evict_loop.simps [of fp io budget prot tot] i_def [symmetric] Let_def)
      then show ?thesis
        using "1.IH"(2) [OF True i_def refl Some prest] "1.prems"(2,3,9) rp(2) rs(2) rest tot' fs1 pne
        by simp
    qed
  qed
qed

section \<open>The whole eviction pass\<close>

lemma path_join_inj: "path_join d a = path_join d b \<Longrightarrow> a = b"
  by (simp add: path_join_def split: if_splits)

lemma scan_name_fields:
  "scan_name io fs dir n = Some e \<Longrightarrow>
     e_path e = path_join dir n \<and> sha_hex_name n = Some (e_sha e)
     \<and> (\<exists>c. map_of fs (e_path e) = Some c \<and> 52 \<le> length c \<and> file_size e = of_nat (length c))"
  by (auto simp: scan_name_def read_entry_file_def FIXED_HEADER_def Let_def
      split: option.splits if_splits)

lemma refresh_entry:
  assumes "e \<in> set (entries (kv_refresh io fs kc))" "enabled kc"
  shows "\<exists>n. scan_name io fs (kdir kc) n = Some e"
  using assms by (auto simp: kv_refresh_def List.map_filter_def split: if_splits)

lemma refresh_simps [simp]:
  "enabled (kv_refresh io fs kc) = enabled kc" "kdir (kv_refresh io fs kc) = kdir kc"
  "budget_bytes (kv_refresh io fs kc) = budget_bytes kc" "kopt (kv_refresh io fs kc) = kopt kc"
  "reject_different_quant (kv_refresh io fs kc) = reject_different_quant kc"
  by (simp_all add: kv_refresh_def)

lemma refresh_distinct_paths:
  assumes "enabled kc" "distinct (map e_sha (entries (kv_refresh io fs kc)))"
  shows "distinct (map e_path (entries (kv_refresh io fs kc)))"
proof -
  have "inj_on e_path (set (entries (kv_refresh io fs kc)))"
  proof (rule inj_onI)
    fix x y assume x: "x \<in> set (entries (kv_refresh io fs kc))"
      and y: "y \<in> set (entries (kv_refresh io fs kc))" and eq: "e_path x = e_path y"
    from refresh_entry [OF x assms(1)] refresh_entry [OF y assms(1)] eq have "e_sha x = e_sha y"
      by (metis option.inject path_join_inj scan_name_fields)
    then show "x = y" using assms(2) x y by (metis distinct_map inj_onD)
  qed
  then show ?thesis using assms(2) by (simp add: distinct_map)
qed

lemma refresh_size:
  assumes "e \<in> set (entries (kv_refresh io fs kc))" "enabled kc"
    and "\<forall>(p, c) \<in> set fs. length c < 2 ^ 63"
  shows "file_size e \<noteq> 0" and "e_path e \<in> fst ` set fs"
proof -
  from refresh_entry [OF assms(1,2)] scan_name_fields obtain c where
    c: "map_of fs (e_path e) = Some c" "52 \<le> length c" "file_size e = of_nat (length c)" by blast
  then have "(e_path e, c) \<in> set fs" by (simp add: map_of_SomeD)
  with assms(3) have "length c < 2 ^ 64" by fastforce
  then have "unat (file_size e) = length c" using c(3) by (simp add: unat_of_nat)
  then show "file_size e \<noteq> 0" using c(2) by auto
  show "e_path e \<in> fst ` set fs" using \<open>(e_path e, c) \<in> set fs\<close> by force
qed

text \<open>C26. Eviction down to the budget: when no unlink fails, the files that are still indexed
  afterwards fit in the budget, and the only files that left the directory are those of the
  entries that left the index.\<close>

theorem evict_within_budget:
  assumes "enabled kc" "budget_bytes kc \<noteq> 0" "\<forall>p. io_unlink io p"
    and "distinct (map e_sha (entries (kv_refresh io fs kc)))"
    and "\<forall>(p, c) \<in> set fs. length c < 2 ^ 63"
    and "files_size (entries (kv_refresh io fs kc)) < 2 ^ 64"
    and "evict fp io kc fs prot = (kc', fs')"
  shows "files_size (entries kc') \<le> unat (budget_bytes kc)
    \<and> evicted_only (entries (kv_refresh io fs kc)) fs (entries kc') fs'"
proof -
  let ?es = "entries (kv_refresh io fs kc)"
  obtain prot' es' where loop: "evict_loop fp io (budget_bytes kc) prot' (total_size ?es) ?es fs = (es', fs')"
    and es': "entries kc' = es'"
    using assms(1,2,7) by (auto simp: evict_def Let_def split: prod.splits)
  have "\<forall>e \<in> set ?es. e_path e \<in> fst ` set fs"
    using refresh_size(2) assms(1,5) by blast
  from evict_loop_budget [OF assms(3) refresh_distinct_paths [OF assms(1,4)] this
      total_size_eq [OF assms(6)] loop]
  show ?thesis using es' by simp
qed

lemma evict_protected:
  assumes "enabled kc" "budget_bytes kc \<noteq> 0"
    and "e \<in> set (entries (kv_refresh io fs kc))" "file_size e \<le> budget_bytes kc"
    and "distinct (map e_sha (entries (kv_refresh io fs kc)))"
    and "\<forall>(p, c) \<in> set fs. length c < 2 ^ 63"
    and "scores_below_max fp (e_sha e) (io_now io) (entries (kv_refresh io fs kc))"
    and "evict fp io kc fs (Some (e_sha e)) = (kc', fs')"
  shows "e \<in> set (entries kc') \<and> map_of fs' (e_path e) = map_of fs (e_path e)"
proof -
  let ?es = "entries (kv_refresh io fs kc)"
  have "find (\<lambda>x. e_sha x = e_sha e) ?es = Some e"
  proof -
    obtain x where x: "find (\<lambda>x. e_sha x = e_sha e) ?es = Some x"
      using assms(3) by (cases "find (\<lambda>x. e_sha x = e_sha e) ?es") (auto simp: find_None_iff)
    then have "x \<in> set ?es" "e_sha x = e_sha e" by (auto simp: find_Some_iff)
    then show ?thesis using x assms(3,5) by (metis distinct_map inj_onD)
  qed
  then obtain es' where loop: "evict_loop fp io (budget_bytes kc) (Some (e_sha e)) (total_size ?es) ?es fs = (es', fs')"
    and es': "entries kc' = es'"
    using assms(1,2,4,8) by (auto simp: evict_def Let_def not_less [symmetric] split: prod.splits)
  have "\<forall>e \<in> set ?es. file_size e \<noteq> 0" using refresh_size(1) assms(1,6) by blast
  from evict_loop_protected [OF assms(3) refl refl assms(5) refresh_distinct_paths [OF assms(1,5)]
      this assms(7) total_size_le assms(4) loop]
  show ?thesis using es' by simp
qed

text \<open>C35. The checkpoint a store protects is not evicted by the pass that follows it: if it fits in
  the budget on its own, its entry stays in the index and its file stays as it is, whatever else
  is in the directory and whichever unlinks fail.\<close>

theorem evict_keeps_protected:
  assumes "enabled kc" "budget_bytes kc \<noteq> 0"
    and "e \<in> set (entries (kv_refresh io fs kc))" "file_size e \<le> budget_bytes kc"
    and "distinct (map e_sha (entries (kv_refresh io fs kc)))"
    and "\<forall>(p, c) \<in> set fs. length c < 2 ^ 63"
    and "scores_below_max fp (e_sha e) (io_now io) (entries (kv_refresh io fs kc))"
    and "evict fp io kc fs (Some (e_sha e)) = (kc', fs')"
  shows "e \<in> set (entries kc') \<and> map_of fs' (e_path e) = map_of fs (e_path e)"
  using assms by (rule evict_protected)

end
