(* ===== verification/Kv_Lookup.thy ===== *)
theory Kv_Lookup
  imports Kv_Evict
begin

text \<open>
  Lookup, load and store of the disk KV store: the entry a lookup picks, what a load of a stored
  checkpoint gives back, and what a store leaves in the directory.
\<close>

section \<open>The digest names a file\<close>

lemma length_compress [simp]: "length (sha1_compress h b) = 5"
  by (simp add: sha1_compress_def split: prod.splits)

lemma length_fst_absorb: "length h = 5 \<Longrightarrow> length (fst (absorb h d)) = 5"
proof (induction h d rule: absorb.induct)
  case (1 h d)
  then show ?case by (cases "length d < 64") (auto simp: absorb.simps [of h d])
qed

lemma length_hex20: "length (hex20 d) = 2 * length d"
  by (induction d) (auto simp: hex20_def)

lemma hex_digit_class: "n < 16 \<Longrightarrow> is_xdigit (hex_digit n) \<and> c_tolower (hex_digit n) = hex_digit n"
proof -
  have "list_all (\<lambda>n. is_xdigit (hex_digit n) \<and> c_tolower (hex_digit n) = hex_digit n) [0..<16]"
    by code_simp
  then show "n < 16 \<Longrightarrow> is_xdigit (hex_digit n) \<and> c_tolower (hex_digit n) = hex_digit n"
    by (simp add: list_all_iff)
qed

lemma hex20_class: "list_all is_xdigit (hex20 d) \<and> map c_tolower (hex20 d) = hex20 d"
proof (induction d)
  case Nil
  then show ?case by (simp add: hex20_def)
next
  case (Cons b d)
  have "of_char b div 16 < (16 :: nat)" using nat_of_char_less_256 [of b] by (simp add: less_mult_imp_div_less)
  then show ?case using Cons hex_digit_class by (simp add: hex20_def)
qed

lemma length_concat_be32: "length (concat (map be32 ws)) = 4 * length ws"
  by (induction ws) (auto simp: be32_def)

lemma sha1_hex_name:
  "length (sha1_hex t) = 40" "list_all is_xdigit (sha1_hex t)" "map c_tolower (sha1_hex t) = sha1_hex t"
proof -
  have "length (sh sha1_init) = 5" by (simp add: sha1_init_def)
  then show "length (sha1_hex t) = 40"
    by (simp add: sha1_hex_eq sha1_spec_def length_hex20 length_concat_be32 length_fst_absorb)
  show "list_all is_xdigit (sha1_hex t)" "map c_tolower (sha1_hex t) = sha1_hex t"
    using hex20_class by (simp_all add: sha1_hex_eq sha1_spec_def)
qed

lemma sha_hex_name_sha1: "sha_hex_name (sha1_hex t @ ''.kv'') = Some (sha1_hex t)"
  using sha1_hex_name [of t] by (simp add: sha_hex_name_def)

section \<open>The entry a lookup picks\<close>

definition candidate :: "kvstore \<Rightarrow> bytes \<Rightarrow> int \<Rightarrow> int \<Rightarrow> kv_entry \<Rightarrow> bool" where
  "candidate kc prompt qbits ctx e \<longleftrightarrow> usable_entry kc prompt qbits ctx e
     \<and> sha1_hex (take (unat (text_bytes e)) prompt) = e_sha e"

definition no_better :: "kv_entry \<Rightarrow> kv_entry \<Rightarrow> bool" where
  "no_better e b \<longleftrightarrow> text_bytes e < text_bytes b
     \<or> (text_bytes e = text_bytes b \<and> e_tokens e \<le> e_tokens b)"

lemma no_better_refl: "no_better e e"
  by (simp add: no_better_def)

lemma no_better_trans: "no_better a b \<Longrightarrow> no_better b c \<Longrightarrow> no_better a c"
  by (auto simp: no_better_def)

lemma no_better_total: "\<not> no_better a b \<Longrightarrow> no_better b a"
  by (auto simp: no_better_def)

lemma find_scan_step:
  "find_scan kc prompt qbits ctx (x # es) i best =
     find_scan kc prompt qbits ctx es (i + 1)
       (if candidate kc prompt qbits ctx x \<and> (\<forall>k b. best = Some (k, b) \<longrightarrow> \<not> no_better x b)
        then Some (i, x) else best)"
  by (cases best) (auto simp: candidate_def no_better_def)

lemma find_scan_spec:
  "case find_scan kc prompt qbits ctx es i best of
     None \<Rightarrow> best = None \<and> (\<forall>e \<in> set es. \<not> candidate kc prompt qbits ctx e)
   | Some (j, e) \<Rightarrow>
       (best = Some (j, e) \<or> (i \<le> j \<and> j < i + length es \<and> es ! (j - i) = e \<and> candidate kc prompt qbits ctx e))
       \<and> (\<forall>e' \<in> set es. candidate kc prompt qbits ctx e' \<longrightarrow> no_better e' e)
       \<and> (\<forall>k b. best = Some (k, b) \<longrightarrow> no_better b e)"
proof (induction es arbitrary: i best)
  case Nil
  then show ?case by (auto simp: no_better_refl split: option.splits)
next
  case (Cons x es)
  let ?c = "candidate kc prompt qbits ctx"
  have nth: "Suc i \<le> j \<Longrightarrow> (x # es) ! (j - i) = es ! (j - Suc i)" for j
    by (simp add: nth_Cons')
  show ?case
  proof (cases "?c x \<and> (\<forall>k b. best = Some (k, b) \<longrightarrow> \<not> no_better x b)")
    case True
    show ?thesis
      using Cons.IH [where i = "i + 1" and best = "Some (i, x)"] True unfolding find_scan_step
      by (auto simp: nth split: option.splits)
        (use no_better_trans no_better_total in blast)+
  next
    case False
    show ?thesis
      using Cons.IH [where i = "i + 1" and best = best] False unfolding find_scan_step if_not_P [OF False]
      by (auto simp: nth split: option.splits) (use no_better_trans in blast)+
  qed
qed

lemma find_text_prefix_spec:
  assumes "find_text_prefix io fs kc (Some prompt) qbits ctx = (idx, kc')"
  shows "kc' = kv_refresh io fs kc \<and>
    (if idx = -1 then \<forall>e \<in> set (entries kc'). \<not> candidate kc' prompt qbits ctx e
     else 0 \<le> idx \<and> nat idx < length (entries kc')
      \<and> candidate kc' prompt qbits ctx (entries kc' ! nat idx)
      \<and> (\<forall>e \<in> set (entries kc'). candidate kc' prompt qbits ctx e \<longrightarrow> no_better e (entries kc' ! nat idx)))"
proof -
  have kc': "kc' = kv_refresh io fs kc"
    using assms by (simp add: find_text_prefix_def Let_def)
  note spec = find_scan_spec [where kc = kc' and prompt = prompt and qbits = qbits and ctx = ctx
      and es = "entries kc'" and i = 0 and best = None]
  show ?thesis
    using assms spec kc' by (auto simp: find_text_prefix_def Let_def split: option.splits prod.splits)
qed

text \<open>C28. A lookup returns -1 exactly when no indexed checkpoint is usable for the prompt and is
  named by the digest of as many of its leading bytes as the checkpoint holds; otherwise it
  returns such a checkpoint, and none of the others has a longer text, or an equally long one
  with more tokens.\<close>

theorem find_text_prefix_best:
  assumes "find_text_prefix io fs kc (Some prompt) qbits ctx = (idx, kc')"
  shows "kc' = kv_refresh io fs kc \<and>
    (if idx = -1 then \<forall>e \<in> set (entries kc'). \<not> candidate kc' prompt qbits ctx e
     else 0 \<le> idx \<and> nat idx < length (entries kc')
      \<and> candidate kc' prompt qbits ctx (entries kc' ! nat idx)
      \<and> (\<forall>e \<in> set (entries kc'). candidate kc' prompt qbits ctx e \<longrightarrow> no_better e (entries kc' ! nat idx)))"
  using assms by (rule find_text_prefix_spec)

section \<open>Reading a stored checkpoint back\<close>

lemma read_header_checkpoint:
  assumes "t \<noteq> 0" "q = 2 \<or> q = 4" "r \<le> 6"
  shows "read_header (checkpoint_bytes q r x t cx now pl text payload tr) e =
    Some (e\<lparr>quant_bits := q, e_reason := r, ext_flags := x, e_tokens := t, e_hits := 0,
            ctx_size := cx, created_at := now, last_used := now, payload_bytes := pl,
            text_bytes := ucast (of_nat (length text) :: u32)\<rparr>,
          of_nat (length text), text @ payload @ tr)"
  unfolding checkpoint_bytes_def by (rule read_header_fill_header [OF assms])

lemma length_checkpoint:
  "length (checkpoint_bytes q r x t cx now pl text payload tr)
     = 52 + length text + length payload + length tr"
  by (simp add: checkpoint_bytes_def FIXED_HEADER_def)

lemma read_cached_checkpoint:
  assumes "t \<noteq> 0" "q = 2 \<or> q = 4" "r \<le> 6" "length text < 2 ^ 32"
  shows "\<exists>hdr. read_cached_text (sha1_hex text) (text @ suf)
      (checkpoint_bytes q r x t cx now pl text payload tr) = Some (hdr, of_nat (length text), payload @ tr)
    \<and> e_tokens hdr = t \<and> payload_bytes hdr = pl \<and> quant_bits hdr = q \<and> ext_flags hdr = x \<and> e_hits hdr = 0"
proof -
  have u: "unat (of_nat (length text) :: u32) = length text"
    using assms(4) by (simp add: unat_of_nat)
  show ?thesis
    unfolding read_cached_text_def read_header_checkpoint [OF assms(1-3)]
    by (simp add: u fread_def byte_prefix_match_def)
qed

lemma unat_ucast_len: "length text < 2 ^ 32 \<Longrightarrow>
    unat (ucast (of_nat (length text) :: u32) :: u64) = length text"
  by (simp add: unsigned_ucast_eq unat_of_nat take_bit_eq_mod)

lemma read_entry_checkpoint:
  assumes "map_of fs path = Some (checkpoint_bytes q r x t cx now pl text payload tr)"
    and "t \<noteq> 0" "q = 2 \<or> q = 4" "r \<le> 6" "length text < 2 ^ 32" "io_open io path"
    and "length payload = unat pl" "52 + length text + length payload + length tr < 2 ^ 63"
  shows "\<exists>e. read_entry_file io fs path sha = Some e \<and> e_sha e = sha \<and> e_path e = path
    \<and> e_tokens e = t \<and> quant_bits e = q \<and> ctx_size e = cx \<and> unat (text_bytes e) = length text
    \<and> unat (file_size e) = 52 + length text + length payload + length tr"
proof -
  let ?tb = "ucast (of_nat (length text) :: u32) :: u64"
  have tb: "unat ?tb = length text" by (rule unat_ucast_len [OF assms(5)])
  have f: "of_nat FIXED_HEADER + 4 = (52 :: u64)" by (simp add: FIXED_HEADER_def)
  have u52: "unat (52 :: u64) = 52" by simp
  have s1: "unat (52 + ?tb) = 52 + length text"
    using unat_add_fits [of 52 ?tb] tb assms(8) by simp
  have s2: "unat (52 + ?tb + pl) = 52 + length text + length payload"
    using unat_add_fits [of "52 + ?tb" pl] s1 assms(7,8) by simp
  have m: "U64_MAX - 52 - ?tb = U64_MAX - (52 + ?tb)" by simp
  have g1: "\<not> U64_MAX - 52 < ?tb" unfolding U64_guard u52 tb using assms(8) by simp
  have g2: "\<not> U64_MAX - 52 - ?tb < pl" unfolding m U64_guard s1 using assms(7,8) by simp
  have sz: "unat (of_nat (52 + length text + length payload + length tr) :: u64)
      = 52 + length text + length payload + length tr"
    using assms(8) by (simp only: unat_of_nat) (intro mod_less, simp)
  then have g3: "\<not> (of_nat (52 + length text + length payload + length tr) :: u64) < 52 + ?tb + pl"
    unfolding word_less_nat_alt s2 by simp
  show ?thesis
    using assms(1,6) g1 g2 g3 tb sz
    by (simp add: read_entry_file_def read_header_checkpoint [OF assms(2-4)] length_checkpoint f Let_def
        del: of_nat_add) (simp add: FIXED_HEADER_def)
qed

lemma dir_names_path:
  assumes "path_join dir n \<in> fst ` set fs"
  shows "n \<in> set (dir_names fs dir)"
proof -
  have "path_join dir n = path_join dir [] @ n" by (simp add: path_join_def)
  then show ?thesis using assms
    by (auto simp: dir_names_def Let_def image_iff) (metis append_eq_conv_conj fst_conv)
qed

lemma checkpoint_indexed:
  assumes "enabled kc" "io_opendir io" "path = path_for_sha (kdir kc) (sha1_hex text)"
    and "map_of fs path = Some c" "read_entry_file io fs path (sha1_hex text) = Some e"
  shows "e \<in> set (entries (kv_refresh io fs kc))"
proof -
  let ?n = "sha1_hex text @ ''.kv''"
  have p: "path = path_join (kdir kc) ?n"
    using assms(3) sha1_hex_name(1) [of "text"] by (simp add: path_for_sha_def)
  then have "?n \<in> set (dir_names fs (kdir kc))"
    using map_of_SomeD [OF assms(4)] by (intro dir_names_path) (force simp: image_iff)
  moreover have "scan_name io fs (kdir kc) ?n = Some e"
    using assms(5) p by (simp add: scan_name_def sha_hex_name_sha1)
  ultimately show ?thesis
    using assms(1,2) by (force simp: kv_refresh_def List.map_filter_def)
qed

text \<open>C2. What was stored is found and loaded: if the directory holds the checkpoint of a text
  under the name the store gives it, and no other indexed file can serve the prompt, then a prompt
  that starts with that text loads the stored tokens, and the effective prompt is exactly these
  tokens followed by the tokens of the rest of the prompt.\<close>

theorem load_stored_checkpoint:
  fixes kc :: kvstore and io :: io and fs :: fs and t :: bytes
  defines "path \<equiv> path_for_sha (kdir kc) (sha1_hex t)"
  assumes on: "enabled kc" "io_opendir io" "io_open io path" "eng_quant_bits eng = 2 \<or> eng_quant_bits eng = 4"
    and stored: "map_of fs path = Some (checkpoint_bytes q r x n cx now pl t payload tr)"
    and hdr: "q = 2 \<or> q = 4" "r \<le> 6" "0 < sint n" "length t < 2 ^ 32" "length payload = unat pl"
      "52 + length t + length payload + length tr < 2 ^ 63"
    and use: "min_tokens (kopt kc) \<le> sint n" "cx \<le> word_of_int (eng_ctx eng s)"
      "reject_different_quant kc \<longrightarrow> q = word_of_int (eng_quant_bits eng)"
    and only: "\<forall>e \<in> set (entries (kv_refresh io fs kc)).
      candidate (kv_refresh io fs kc) (t @ suf) (eng_quant_bits eng) (eng_ctx eng s) e \<longrightarrow>
        e_path e = path \<and> e_sha e = sha1_hex t"
    and engine: "eng_load_payload eng s (payload @ tr) pl = (True, s', tr)"
      "eng_tokens eng s' = Some ts" "int (length ts) = sint n"
  shows "\<exists>kc' fs' res hooked. try_load_text io eng kc fs s (Some (t @ suf)) hooks
      = (sint n, kc', fs', s', ts @ eng_tokenize_chat eng suf, Some res, hooked)
    \<and> lr_tokens res = sint n \<and> unat (lr_text_bytes res) = length t
    \<and> continued_last_store_tokens kc' = sint n
    \<and> lr_consumed res = (0 < cold_max_tokens (kopt kc) \<and> cold_max_tokens (kopt kc) < sint n)"
proof -
  let ?kc = "kv_refresh io fs kc"
  have n0: "n \<noteq> 0" using hdr(3) by auto
  obtain e where e: "read_entry_file io fs path (sha1_hex t) = Some e" "e_sha e = sha1_hex t"
    "e_tokens e = n" "quant_bits e = q" "ctx_size e = cx" "unat (text_bytes e) = length t"
    using read_entry_checkpoint [OF stored n0 hdr(1,2,4) on(3) hdr(5,6)] by blast
  have "e \<in> set (entries ?kc)"
    using checkpoint_indexed [OF on(1,2) path_def [THEN meta_eq_to_obj_eq] stored e(1)] .
  moreover have "candidate ?kc (t @ suf) (eng_quant_bits eng) (eng_ctx eng s) e"
    using e use by (auto simp: candidate_def usable_entry_def)
  ultimately obtain idx where idx: "find_text_prefix io fs kc (Some (t @ suf)) (eng_quant_bits eng) (eng_ctx eng s) = (idx, ?kc)"
    "0 \<le> idx" "nat idx < length (entries ?kc)"
    "candidate ?kc (t @ suf) (eng_quant_bits eng) (eng_ctx eng s) (entries ?kc ! nat idx)"
    using find_text_prefix_spec [of io fs kc "t @ suf" "eng_quant_bits eng" "eng_ctx eng s"]
    by (metis surj_pair)
  then have found: "e_path (entries ?kc ! nat idx) = path" "e_sha (entries ?kc ! nat idx) = sha1_hex t"
    using only nth_mem by blast+
  obtain h where h: "read_cached_text (sha1_hex t) (t @ suf)
      (checkpoint_bytes q r x n cx now pl t payload tr) = Some (h, of_nat (length t), payload @ tr)"
    "e_tokens h = n" "payload_bytes h = pl"
    using read_cached_checkpoint [OF n0 hdr(1,2,4)] by blast
  have u: "unat (of_nat (length t) :: u32) = length t" using hdr(4) by (simp add: unat_of_nat)
  show ?thesis
    using on idx(1,2) found stored h engine hdr(3) u
    by (auto simp: try_load_text_def Let_def build_prompt_def)
qed

end
