(* ===== verification/Kv_Saved.thy ===== *)
theory Kv_Saved
  imports Kv_Lookup
begin

text \<open>
  What a successful store leaves in the directory: the rename over the temporary file, the
  eviction pass that follows it, and the names of the directory in between.  The witnesses of the
  store's properties are at the end.
\<close>

section \<open>The digests that name files\<close>

definition stored_shas :: "fs \<Rightarrow> string \<Rightarrow> string list" where
  "stored_shas fs dir = List.map_filter sha_hex_name (dir_names fs dir)"

lemma map_filter_shas:
  assumes "\<And>n e. f n = Some e \<Longrightarrow> g n = Some (e_sha e)"
  shows "set (map e_sha (List.map_filter f ns)) \<subseteq> set (List.map_filter g ns)
    \<and> (distinct (List.map_filter g ns) \<longrightarrow> distinct (map e_sha (List.map_filter f ns)))"
proof (induction ns)
  case Nil
  then show ?case by (simp add: List.map_filter_simps)
next
  case (Cons n ns)
  then show ?case using assms [of n]
    by (cases "f n"; cases "g n") (auto simp: List.map_filter_simps)
qed

lemma read_entry_sha: "read_entry_file io fs path sha = Some e \<Longrightarrow> e_sha e = sha"
  by (auto simp: read_entry_file_def Let_def split: option.splits if_splits)

lemma refresh_distinct_shas:
  assumes "enabled kc" "distinct (stored_shas fs (kdir kc))"
  shows "distinct (map e_sha (entries (kv_refresh io fs kc)))"
proof -
  have "\<And>n e. scan_name io fs (kdir kc) n = Some e \<Longrightarrow> sha_hex_name n = Some (e_sha e)"
    using read_entry_sha by (auto simp: scan_name_def split: option.splits)
  from map_filter_shas [of "scan_name io fs (kdir kc)" sha_hex_name, OF this] show ?thesis
    using assms by (auto simp: kv_refresh_def stored_shas_def)
qed

section \<open>The rename\<close>

lemma map_fst_update_new: "k \<notin> fst ` set al \<Longrightarrow> AList.update k v al = al @ [(k, v)]"
  by (induction al) auto

lemma map_fst_delete: "map fst (AList.delete k al) = filter (\<lambda>x. x \<noteq> k) (map fst al)"
  unfolding AList.delete_eq by (induction al) auto

lemma rename_keys:
  assumes "new \<notin> fst ` set fs" "old \<noteq> new" "map_of fs old = Some c"
  shows "map fst (fs_rename fs old new) = filter (\<lambda>x. x \<noteq> old) (map fst fs) @ [new]"
    and "map_of (fs_rename fs old new) new = Some c"
proof -
  have "new \<notin> fst ` set (AList.delete old fs)" using assms(1) by (simp add: keys_delete)
  then have r: "fs_rename fs old new = AList.delete old fs @ [(new, c)]"
    using assms(3) by (simp add: fs_rename_def map_fst_update_new)
  show "map fst (fs_rename fs old new) = filter (\<lambda>x. x \<noteq> old) (map fst fs) @ [new]"
    by (simp add: r map_fst_delete)
  show "map_of (fs_rename fs old new) new = Some c"
    using assms(3) by (simp add: fs_rename_def update_Some_unfold)
qed

lemma update_keys: "filter (\<lambda>x. x \<noteq> k) (map fst (AList.update k v al)) = filter (\<lambda>x. x \<noteq> k) (map fst al)"
  by (induction al) auto

lemma map_filter_append: "List.map_filter f (xs @ ys) = List.map_filter f xs @ List.map_filter f ys"
  by (simp add: List.map_filter_def)

lemma map_filter_drop_none:
  "f (g k) = None \<Longrightarrow> List.map_filter f (map g (filter P (filter (\<lambda>x. x \<noteq> k) xs)))
     = List.map_filter f (map g (filter P xs))"
  by (induction xs) (auto simp: List.map_filter_simps split: option.splits)

lemma path_join_pre: "path_join dir n = path_join dir [] @ n"
  by (simp add: path_join_def)

text \<open>The names a scan sees after the rename: those of before, and the digest of the new file.\<close>

lemma stored_shas_rename:
  assumes "path = path_for_sha dir (sha1_hex t)" "tmp = path @ ''.tmp.'' @ pid"
    and "sha1_hex t \<notin> set (stored_shas fs dir)"
  shows "stored_shas (fs_rename (AList.update tmp c fs) tmp path) dir = stored_shas fs dir @ [sha1_hex t]"
    and "map_of (fs_rename (AList.update tmp c fs) tmp path) path = Some c"
    and "path \<notin> fst ` set fs"
proof -
  let ?n = "sha1_hex t @ ''.kv''" and ?pre = "path_join dir []"
  have p: "path = ?pre @ ?n"
    using assms(1) sha1_hex_name(1) [of t] path_join_pre [of dir ?n] by (simp add: path_for_sha_def)
  show new: "path \<notin> fst ` set fs"
  proof
    assume "path \<in> fst ` set fs"
    then have "?n \<in> set (dir_names fs dir)"
      using dir_names_path [of dir ?n fs] p path_join_pre [of dir ?n] by simp
    then have "sha1_hex t \<in> set (stored_shas fs dir)"
      by (force simp: stored_shas_def List.map_filter_def sha_hex_name_sha1)
    with assms(3) show False by simp
  qed
  then have new': "path \<notin> fst ` set (AList.update tmp c fs)" "tmp \<noteq> path"
    using assms(2) new by (simp_all add: dom_update)
  have get: "map_of (AList.update tmp c fs) tmp = Some c" by (simp add: update_conv)
  note r = rename_keys [OF new'(1) new'(2) get]
  show "map_of (fs_rename (AList.update tmp c fs) tmp path) path = Some c" by (rule r(2))
  have notname: "sha_hex_name (drop (length ?pre) tmp) = None"
    using sha1_hex_name(1) [of t] by (simp add: assms(2) p sha_hex_name_def)
  show "stored_shas (fs_rename (AList.update tmp c fs) tmp path) dir = stored_shas fs dir @ [sha1_hex t]"
    unfolding stored_shas_def dir_names_def Let_def r(1) update_keys filter_append map_append map_filter_append
    unfolding map_filter_drop_none [where f = sha_hex_name and g = "drop (length ?pre)", OF notname]
    by (simp add: p List.map_filter_simps sha_hex_name_sha1)
qed

section \<open>A successful store\<close>

definition store_text :: "'s engine \<Rightarrow> int list \<Rightarrow> int \<Rightarrow> bytes option \<Rightarrow> bytes" where
  "store_text eng toks slen override =
     (case override of Some (c # cs) \<Rightarrow> c # cs
      | _ \<Rightarrow> render_tokens_text eng (tokens_copy_prefix (Some toks) slen))"

lemma store_text_eq:
  "(if case override of None \<Rightarrow> False | Some t \<Rightarrow> t \<noteq> [] then the override
    else render_tokens_text eng (tokens_copy_prefix (Some toks) slen)) = store_text eng toks slen override"
  by (auto simp: store_text_def split: option.splits list.splits)

lemma store_success:
  assumes "store_live_prefix_text fp io eng kc fs s (Some toks) slen reason override ext hooks = (True, kc', fs')"
    and "t = store_text eng toks slen override" "path = path_for_sha (kdir kc) (sha1_hex t)"
    and "path \<notin> fst ` set fs" "tmp = path @ ''.tmp.'' @ io_pid io"
    and "eng_save_payload eng s = Some payload" "trailer_write hooks t = (ok, tr, len)"
  shows "(eng_quant_bits eng = 2 \<or> eng_quant_bits eng = 4) \<and> length t < 2 ^ 32
    \<and> file_size_fits (Some kc) (of_nat (length t)) (eng_payload_bytes eng s) len
    \<and> (\<exists>x. evict fp io kc (fs_rename (AList.update tmp
         (checkpoint_bytes (word_of_int (eng_quant_bits eng)) (reason_code reason) x
            (of_nat (length (tokens_copy_prefix (Some toks) slen))) (word_of_int (eng_ctx eng s)) (io_now io)
            (eng_payload_bytes eng s) t payload tr) fs) tmp path) (Some (sha1_hex t)) = (kc', fs'))"
proof -
  have ex: "existing_compatible io fs kc path (sha1_hex t) t q c = (False, fs)" for q c
    using assms(4) by (simp add: existing_compatible_def)
  show ?thesis
    using assms(1) unfolding store_live_prefix_text_def Let_def store_text_eq assms(2) [symmetric]
      assms(3) [symmetric] assms(5) [symmetric] ex assms(6,7)
    by (auto simp: option.case_eq_if split: if_splits prod.splits)
qed

lemma reason_code_le: "reason_code r \<le> 6"
  by (auto simp: reason_code_def split: option.splits)

lemma keys_length_ok:
  assumes "\<forall>(p, c) \<in> set fs. length c < m" "length content < m"
  shows "\<forall>(p, c) \<in> set (fs_rename (AList.update tmp content fs) tmp path). length c < m"
proof -
  have u: "(p, c) \<in> set (AList.update k v al) \<Longrightarrow> (p, c) \<in> set al \<or> c = v" for p c k v and al :: fs
    by (induction al) (auto split: if_splits)
  have d: "set (AList.delete tmp al) \<subseteq> set al" for al :: fs by (auto simp: AList.delete_eq)
  show ?thesis
    using assms u d by (fastforce simp: fs_rename_def update_conv dest: u)
qed

lemma store_leaves:
  assumes on: "enabled kc" "budget_bytes kc \<noteq> 0" "io_opendir io" "\<forall>p. io_open io p"
    and call: "store_live_prefix_text fp io eng kc fs s (Some toks) slen reason override ext hooks = (True, kc', fs')"
    and t: "t = store_text eng toks slen override"
    and n: "n = length (tokens_copy_prefix (Some toks) slen)" "0 < n" "n < 2 ^ 31"
    and new: "sha1_hex t \<notin> set (stored_shas fs (kdir kc))" "distinct (stored_shas fs (kdir kc))"
    and sizes: "\<forall>(p, c) \<in> set fs. length c < 2 ^ 63" "52 + length t + length payload + length tr < 2 ^ 63"
    and payload: "eng_save_payload eng s = Some payload" "length payload = unat (eng_payload_bytes eng s)"
    and trailer: "trailer_write hooks t = (ok, tr, len)" "unat len = length tr"
    and scores: "\<forall>es. scores_below_max fp (sha1_hex t) (io_now io) es"
  shows "\<exists>x. map_of fs' (path_for_sha (kdir kc) (sha1_hex t)) =
      Some (checkpoint_bytes (word_of_int (eng_quant_bits eng)) (reason_code reason) x (of_nat n)
        (word_of_int (eng_ctx eng s)) (io_now io) (eng_payload_bytes eng s) t payload tr)"
proof -
  define path where "path = path_for_sha (kdir kc) (sha1_hex t)"
  define tmp where "tmp = path @ ''.tmp.'' @ io_pid io"
  note names = stored_shas_rename [OF path_def tmp_def new(1)]
  from store_success [OF call t path_def names(3) tmp_def payload(1) trailer(1)] n(1)
  obtain x c fs2 where q: "eng_quant_bits eng = 2 \<or> eng_quant_bits eng = 4" "length t < 2 ^ 32"
    "file_size_fits (Some kc) (of_nat (length t)) (eng_payload_bytes eng s) len"
    and c: "c = checkpoint_bytes (word_of_int (eng_quant_bits eng)) (reason_code reason) x (of_nat n)
        (word_of_int (eng_ctx eng s)) (io_now io) (eng_payload_bytes eng s) t payload tr"
    and fs2: "fs2 = fs_rename (AList.update tmp c fs) tmp path"
    and ev: "evict fp io kc fs2 (Some (sha1_hex t)) = (kc', fs')"
    by blast
  have at: "map_of fs2 path = Some c" using names(2) fs2 by simp
  have n0: "(of_nat n :: u32) \<noteq> 0" using n(2,3) by (simp add: word_of_nat_eq_0_iff nat_dvd_not_less)
  have qq: "word_of_int (eng_quant_bits eng) = (2 :: u8) \<or> word_of_int (eng_quant_bits eng) = (4 :: u8)"
    using q(1) by auto
  obtain e where e: "read_entry_file io fs2 path (sha1_hex t) = Some e" "e_sha e = sha1_hex t" "e_path e = path"
    "unat (file_size e) = 52 + length t + length payload + length tr"
    using read_entry_checkpoint [OF at [unfolded c] n0 qq reason_code_le q(2) _ payload(2) sizes(2)] on(4) by blast
  have mem: "e \<in> set (entries (kv_refresh io fs2 kc))"
    by (rule checkpoint_indexed [OF on(1,3) path_def at e(1)])
  have "unat (of_nat (length t) :: u64) = length t" using q(2) by (simp add: unat_of_nat)
  then have fits: "file_size e \<le> budget_bytes kc"
    using q(3) on(2) e(4) payload(2) trailer(2)
    by (auto simp: file_size_fits_eq Let_def word_le_nat_alt)
  have dist: "distinct (map e_sha (entries (kv_refresh io fs2 kc)))"
    using refresh_distinct_shas [OF on(1)] names(1) new fs2 by simp
  have "length c < 2 ^ 63" using sizes(2) by (simp add: c length_checkpoint)
  then have "\<forall>(p, c) \<in> set fs2. length c < 2 ^ 63"
    unfolding fs2 by (rule keys_length_ok [OF sizes(1)])
  have "scores_below_max fp (e_sha e) (io_now io) (entries (kv_refresh io fs2 kc))"
    using scores e(2) by simp
  moreover have "evict fp io kc fs2 (Some (e_sha e)) = (kc', fs')" using ev e(2) by simp
  ultimately have "map_of fs' (e_path e) = map_of fs2 (e_path e)"
    using evict_protected [OF on(1,2) mem fits dist \<open>\<forall>(p, c) \<in> set fs2. length c < 2 ^ 63\<close>] by blast
  then show ?thesis using at c e(3) by (auto simp: path_def)
qed


end
