(* ===== verification/Kv_Examples.thy ===== *)
theory Kv_Examples
  imports Kv_Saved
begin

text \<open>
  A concrete directory, store, engine and integer arithmetic for the eviction score, on which the
  theorems about eviction, lookup, load and store are applied.
\<close>

section \<open>A concrete environment\<close>

definition int_fp :: "int fpops" where
  "int_fp = \<lparr>fp_of_u32 = uint, fp_of_u64 = uint, fp_zero = 0, fp_one = 1, fp_max = 2 ^ 200,
     fp_min_hits = 0, fp_add = (+), fp_mul = (*), fp_div = (div), fp_neg = uminus,
     fp_exp2 = (\<lambda>_. 1), fp_lt = (<), fp_eq = (=)\<rparr>"

definition ex_io :: io where
  "ex_io = \<lparr>io_opendir = True, io_open = (\<lambda>_. True), io_create = True, io_write = True,
     io_partial = [], io_flush = True, io_close = True, io_rename = True, io_truncate = True,
     io_unlink = (\<lambda>_. True), io_now = 50, io_pid = ''17''\<rparr>"

definition ex_kc :: kvstore where
  "ex_kc = \<lparr>enabled = True, kdir = ''d'', budget_bytes = 100, reject_different_quant = False,
     kopt = \<lparr>min_tokens = 1, cold_max_tokens = 0, continued_interval_tokens = 0,
       boundary_trim_tokens = 0, boundary_align_tokens = 0\<rparr>,
     continued_last_store_tokens = 0, entries = []\<rparr>"

definition ex_engine :: "nat engine" where
  "ex_engine = \<lparr>eng_quant_bits = 2, eng_token_text = (\<lambda>_. ''ab''), eng_tokenize_chat = map of_char,
     eng_tokens = (\<lambda>_. Some [1, 2]), eng_ctx = (\<lambda>_. 100), eng_payload_bytes = (\<lambda>_. 3),
     eng_save_payload = (\<lambda>_. Some ''xyz''), eng_load_payload = (\<lambda>s c n. (True, s + 1, drop 3 c)),
     eng_invalidate = (\<lambda>_. 0)\<rparr>"

lemma ex_kc_sel [simp]:
  "enabled ex_kc" "kdir ex_kc = ''d''" "budget_bytes ex_kc = 100" "\<not> reject_different_quant ex_kc"
  "min_tokens (kopt ex_kc) = 1" "cold_max_tokens (kopt ex_kc) = 0"
  by (simp_all add: ex_kc_def)

lemma ex_io_sel [simp]:
  "io_opendir ex_io" "io_open ex_io p" "io_create ex_io" "io_write ex_io" "io_flush ex_io"
  "io_close ex_io" "io_rename ex_io" "io_unlink ex_io p" "io_now ex_io = 50"
  by (simp_all add: ex_io_def)

lemma ex_engine_sel [simp]:
  "eng_quant_bits ex_engine = 2" "eng_tokens ex_engine s = Some [1, 2]" "eng_ctx ex_engine s = 100"
  "eng_payload_bytes ex_engine s = 3" "eng_save_payload ex_engine s = Some ''xyz''"
  "eng_load_payload ex_engine s c n = (True, s + 1, drop 3 c)"
  by (simp_all add: ex_engine_def)

definition ex_file :: "u32 \<Rightarrow> bytes" where
  "ex_file t = checkpoint_bytes 2 1 0 t 100 20 3 ''hello'' ''xyz'' []"

definition ex_fs :: fs where
  "ex_fs = [(''d/'' @ replicate 40 CHR ''a'' @ ''.kv'', ex_file 7),
            (''d/note'', ''x''), (''d/'' @ replicate 40 CHR ''b'' @ ''.kv'', ex_file 9)]"

lemma ex_refresh: "map (\<lambda>e. (e_sha e, uint (e_tokens e), uint (file_size e))) (entries (kv_refresh ex_io ex_fs ex_kc))
   = [(replicate 40 CHR ''a'', 7, 60), (replicate 40 CHR ''b'', 9, 60)]"
  by code_simp

lemma int_scores: "scores_below_max int_fp s now es"
proof -
  have "fp_lt int_fp (eviction_score int_fp e (Some s) now) (fp_max int_fp)" if "e_sha e \<noteq> s" for e
  proof -
    let ?h = "uint (e_hits e)" and ?t = "uint (e_tokens e)" and ?z = "uint (file_size e)"
    have b: "0 \<le> x + 1" "x + 1 \<le> 2 ^ 32" if "x = 0 \<or> x = ?h" for x
      using that uint_lt2p [of "e_hits e"] by auto
    have t: "0 \<le> ?t" "?t \<le> 2 ^ 32" using uint_lt2p [of "e_tokens e"] by auto
    have "(x + 1) * ?t div ?z < 2 ^ 200" if "x = 0 \<or> x = ?h" "0 < ?z" for x
    proof -
      have "(x + 1) * ?t \<le> 2 ^ 32 * 2 ^ 32" using b [OF that(1)] t by (intro mult_mono) auto
      moreover have "0 \<le> (x + 1) * ?t" using b [OF that(1)] t by simp
      then have "(x + 1) * ?t div ?z \<le> (x + 1) * ?t"
        using that(2) by (smt (verit) div_by_1 zdiv_mono2)
      ultimately show ?thesis by simp
    qed
    moreover have "file_size e \<noteq> 0 \<Longrightarrow> 0 < ?z" 
      using uint_0_iff [of "file_size e"] uint_ge_0 [of "file_size e"] by linarith
    ultimately show ?thesis
      using that by (auto simp: eviction_score_def int_fp_def Let_def)
  qed
  then show ?thesis
    by (force simp: scores_below_max_def Let_def int_fp_def)
qed
theorem evict_within_budget_witness:
  "files_size (entries (fst (evict int_fp ex_io ex_kc ex_fs None))) \<le> 100"
proof -
  let ?r = "evict int_fp ex_io ex_kc ex_fs None"
  have 1: "enabled ex_kc" "budget_bytes ex_kc = 100" by (simp_all add: ex_kc_def)
  have "distinct (map e_sha (entries (kv_refresh ex_io ex_fs ex_kc)))" by code_simp
  moreover have "\<forall>(p, c) \<in> set ex_fs. length c < 2 ^ 63"
    by (simp add: ex_fs_def ex_file_def length_checkpoint)
  moreover have "files_size (entries (kv_refresh ex_io ex_fs ex_kc)) = 120" by code_simp
  moreover have "\<forall>p. io_unlink ex_io p" by (simp add: ex_io_def)
  ultimately show ?thesis
    using evict_within_budget [of ex_kc ex_io ex_fs int_fp None "fst ?r" "snd ?r"] 1 by simp
qed

theorem evict_keeps_protected_witness:
  "map_of (snd (evict int_fp ex_io ex_kc ex_fs (Some (replicate 40 CHR ''a''))))
     (''d/'' @ replicate 40 CHR ''a'' @ ''.kv'') = Some (ex_file 7)"
proof -
  let ?r = "evict int_fp ex_io ex_kc ex_fs (Some (replicate 40 CHR ''a''))"
    and ?e = "hd (entries (kv_refresh ex_io ex_fs ex_kc))"
  have 1: "enabled ex_kc" "budget_bytes ex_kc = 100" by (simp_all add: ex_kc_def)
  have d: "distinct (map e_sha (entries (kv_refresh ex_io ex_fs ex_kc)))" by code_simp
  have l: "\<forall>(p, c) \<in> set ex_fs. length c < 2 ^ 63"
    by (simp add: ex_fs_def ex_file_def length_checkpoint)
  have e: "e_sha ?e = replicate 40 CHR ''a''" "e_path ?e = ''d/'' @ replicate 40 CHR ''a'' @ ''.kv''"
    "file_size ?e \<le> 100" "entries (kv_refresh ex_io ex_fs ex_kc) \<noteq> []"
    by code_simp+
  have "map_of (snd ?r) (e_path ?e) = map_of ex_fs (e_path ?e)"
    using evict_keeps_protected [of ex_kc ?e ex_io ex_fs int_fp "fst ?r" "snd ?r"] 1 d l e int_scores
    by simp
  moreover have "map_of ex_fs (''d/'' @ replicate 40 CHR ''a'' @ ''.kv'') = Some (ex_file 7)"
    by (simp add: ex_fs_def)
  ultimately show ?thesis unfolding e(2) by simp
qed

text \<open>The directory after a store of \<open>hello\<close>, and the file it holds.\<close>

definition hello_path :: string where
  "hello_path = path_for_sha ''d'' (sha1_hex ''hello'')"

definition hello_fs :: fs where
  "hello_fs = [(hello_path, ex_file 2)]"

lemma hello_entry:
  "\<exists>e. entries (kv_refresh ex_io hello_fs ex_kc) = [e] \<and> e_path e = hello_path
     \<and> e_sha e = sha1_hex ''hello'' \<and> candidate ex_kc' ''hello you'' 2 100 e"
  if "kopt ex_kc' = kopt ex_kc" "reject_different_quant ex_kc' = False" for ex_kc'
proof -
  have p: "hello_path = ''d/'' @ sha1_hex ''hello'' @ ''.kv''"
    using sha1_hex_name(1) [of "''hello''"] by (simp add: hello_path_def path_for_sha_def path_join_def)
  obtain e where e: "read_entry_file ex_io hello_fs hello_path (sha1_hex ''hello'') = Some e"
    "e_sha e = sha1_hex ''hello''" "e_path e = hello_path" "e_tokens e = 2" "quant_bits e = 2"
    "ctx_size e = 100" "unat (text_bytes e) = 5"
    using read_entry_checkpoint [of hello_fs hello_path 2 1 0 2 100 20 3 "''hello''" "''xyz''" "[]" ex_io
        "sha1_hex ''hello''"]
    by (auto simp: hello_fs_def ex_file_def ex_io_def)
  have "dir_names hello_fs ''d'' = [sha1_hex ''hello'' @ ''.kv'']"
    by (simp add: dir_names_def hello_fs_def p path_join_def)
  then have "entries (kv_refresh ex_io hello_fs ex_kc) = [e]"
    using e(1) p by (simp add: kv_refresh_def ex_kc_def ex_io_def scan_name_def sha_hex_name_sha1
        List.map_filter_simps path_join_def)
  then show ?thesis
    using e that by (simp add: candidate_def usable_entry_def ex_kc_def)
qed

theorem find_text_prefix_best_witness:
  "fst (find_text_prefix ex_io hello_fs ex_kc (Some ''hello you'') 2 100) = 0"
proof -
  let ?r = "find_text_prefix ex_io hello_fs ex_kc (Some ''hello you'') 2 100"
    and ?k = "kv_refresh ex_io hello_fs ex_kc"
  have "kopt ?k = kopt ex_kc" "reject_different_quant ?k = False"
    by (simp_all add: kv_refresh_def ex_kc_def)
  from hello_entry [OF this] obtain e where "entries ?k = [e]" "candidate ?k ''hello you'' 2 100 e"
    by blast
  then show ?thesis
    using find_text_prefix_best [of ex_io hello_fs ex_kc "''hello you''" 2 100 "fst ?r" "snd ?r"]
    by (auto split: if_splits)
qed

theorem load_stored_checkpoint_witness:
  "\<exists>kc' fs' res hooked. try_load_text ex_io ex_engine ex_kc hello_fs 0 (Some ''hello you'') None
      = (2, kc', fs', 1, [1, 2, 32, 121, 111, 117], Some res, hooked)"
proof -
  let ?k = "kv_refresh ex_io hello_fs ex_kc"
  have "kopt ?k = kopt ex_kc" "reject_different_quant ?k = False"
    by (simp_all add: kv_refresh_def ex_kc_def)
  from hello_entry [OF this] obtain e where e: "entries ?k = [e]" "e_path e = hello_path"
    "e_sha e = sha1_hex ''hello''" by blast
  have suf: "eng_tokenize_chat ex_engine '' you'' = [32, 121, 111, 117]" by code_simp
  show ?thesis
    using load_stored_checkpoint [where kc = ex_kc and io = ex_io and fs = hello_fs and t = "''hello''"
        and eng = ex_engine and s = 0 and q = 2 and r = 1 and x = 0 and n = 2 and cx = 100 and now = 20
        and pl = 3 and payload = "''xyz''" and tr = "[]" and suf = "'' you''" and s' = 1 and ts = "[1, 2]"
        and hooks = None] e suf
    by (simp add: hello_fs_def ex_file_def hello_path_def [symmetric]) blast
qed

end
