(* ===== verification/Moe_Map.thy ===== *)
theory Moe_Map
  imports Ds4_Prelude
begin

text \<open>
  The residency maps of the Flash-MoE caches (\<open>src/ds4.c\<close>).  The program keeps three of them: the
  slot bank the routed experts are computed from (\<open>flash_slot_to_expert\<close>, \<open>flash_expert_to_slot\<close>,
  \<open>flash_slot_age\<close>), the CPU-backed L2 (\<open>flash_l2_...\<close>) and the GPU victim L2 (\<open>flash_gpu_l2_...\<close>).
  Each is three flat arrays over all layers: layer \<open>il\<close> has its slots at \<open>il * bank\<close> and its
  experts at \<open>il * n_expert\<close>.  After a shrink the arrays are longer than the slots in use.
  Slots and experts are \<open>int32_t\<close> with -1 for none; ages are 64-bit words.
\<close>

record slot_map =
  sm_bank :: nat
  sm_slot_to_expert :: "int list"
  sm_expert_to_slot :: "int list"
  sm_age :: "u64 list"

section \<open>Access\<close>

definition s2e :: "slot_map \<Rightarrow> nat \<Rightarrow> int \<Rightarrow> int" where
  "s2e m il slot = sm_slot_to_expert m ! (il * sm_bank m + nat slot)"

definition e2s :: "slot_map \<Rightarrow> nat \<Rightarrow> nat \<Rightarrow> int \<Rightarrow> int" where
  "e2s m n_expert il expert = sm_expert_to_slot m ! (il * n_expert + nat expert)"

definition slot_age :: "slot_map \<Rightarrow> nat \<Rightarrow> int \<Rightarrow> u64" where
  "slot_age m il slot = sm_age m ! (il * sm_bank m + nat slot)"

definition set_s2e :: "nat \<Rightarrow> int \<Rightarrow> int \<Rightarrow> slot_map \<Rightarrow> slot_map" where
  "set_s2e il slot v m = m\<lparr>sm_slot_to_expert := (sm_slot_to_expert m)[il * sm_bank m + nat slot := v]\<rparr>"

definition set_e2s :: "nat \<Rightarrow> nat \<Rightarrow> int \<Rightarrow> int \<Rightarrow> slot_map \<Rightarrow> slot_map" where
  "set_e2s n_expert il expert v m =
     m\<lparr>sm_expert_to_slot := (sm_expert_to_slot m)[il * n_expert + nat expert := v]\<rparr>"

definition set_age :: "nat \<Rightarrow> int \<Rightarrow> u64 \<Rightarrow> slot_map \<Rightarrow> slot_map" where
  "set_age il slot v m = m\<lparr>sm_age := (sm_age m)[il * sm_bank m + nat slot := v]\<rparr>"

definition in_expert :: "nat \<Rightarrow> int \<Rightarrow> bool" where
  "in_expert n_expert expert \<longleftrightarrow> 0 \<le> expert \<and> expert < int n_expert"

definition in_slot :: "slot_map \<Rightarrow> int \<Rightarrow> bool" where
  "in_slot m slot \<longleftrightarrow> 0 \<le> slot \<and> slot < int (sm_bank m)"

section \<open>The operations the caches share\<close>

text \<open>The residency test: the slot an expert is mapped to, if the slot agrees.\<close>

definition resident_slot :: "nat \<Rightarrow> slot_map \<Rightarrow> nat \<Rightarrow> int \<Rightarrow> int option" where
  "resident_slot n_expert m il expert =
     (let slot = e2s m n_expert il expert
      in if slot < 0 \<or> slot \<ge> int (sm_bank m) \<or> s2e m il slot \<noteq> expert then None else Some slot)"

definition unmap_evicted :: "nat \<Rightarrow> nat \<Rightarrow> int \<Rightarrow> int \<Rightarrow> slot_map \<Rightarrow> slot_map" where
  "unmap_evicted n_expert il evicted slot m =
     (if in_expert n_expert evicted \<and> e2s m n_expert il evicted = slot
      then set_e2s n_expert il evicted (-1) m else m)"

definition assign_slot :: "nat \<Rightarrow> nat \<Rightarrow> int \<Rightarrow> int \<Rightarrow> u64 \<Rightarrow> slot_map \<Rightarrow> slot_map" where
  "assign_slot n_expert il expert slot age m =
     set_age il slot age (set_e2s n_expert il expert slot (set_s2e il slot expert m))"

text \<open>The oldest of a list of candidate slots: the first whose age is below every earlier one's,
  starting from \<open>UINT64_MAX\<close>.\<close>

definition oldest_slot :: "slot_map \<Rightarrow> nat \<Rightarrow> nat list \<Rightarrow> nat option" where
  "oldest_slot m il cands =
     fst (fold (\<lambda>i (slot, oldest). if slot_age m il (int i) < oldest then (Some i, slot_age m il (int i)) else (slot, oldest))
            cands (None, - 1))"

section \<open>Lemmas\<close>

definition map_shape :: "nat \<Rightarrow> nat \<Rightarrow> slot_map \<Rightarrow> bool" where
  "map_shape n_layer n_expert m \<longleftrightarrow> n_layer * sm_bank m \<le> length (sm_slot_to_expert m)
     \<and> length (sm_expert_to_slot m) = n_layer * n_expert
     \<and> n_layer * sm_bank m \<le> length (sm_age m)"

lemma flat_index_less: "il < n \<Longrightarrow> i < b \<Longrightarrow> il * b + i < n * (b :: nat)"
proof -
  assume "il < n" "i < b"
  then have "il * b + i < Suc il * b" by simp
  also have "\<dots> \<le> n * b" using \<open>il < n\<close> by (intro mult_right_mono) auto
  finally show ?thesis .
qed

lemma flat_index_eq: "i < b \<Longrightarrow> i' < b \<Longrightarrow> il * b + i = il' * b + i' \<longleftrightarrow> il = il' \<and> i = (i' :: nat)"
  by (metis (no_types, lifting) add.commute add_right_imp_eq div_mult_self3 div_less less_nat_zero_code add_0)

lemma bank_set [simp]:
  "sm_bank (set_s2e il s v m) = sm_bank m" "sm_bank (set_e2s ne il e v m) = sm_bank m"
  "sm_bank (set_age il s a m) = sm_bank m" "sm_bank (unmap_evicted ne il ev s m) = sm_bank m"
  "sm_bank (assign_slot ne il e s a m) = sm_bank m"
  by (simp_all add: set_s2e_def set_e2s_def set_age_def unmap_evicted_def assign_slot_def)

lemma in_slot_set [simp]:
  "in_slot (set_s2e il s v m) x = in_slot m x" "in_slot (set_e2s ne il e v m) x = in_slot m x"
  "in_slot (set_age il s a m) x = in_slot m x" "in_slot (unmap_evicted ne il ev s m) x = in_slot m x"
  "in_slot (assign_slot ne il e s a m) x = in_slot m x"
  by (simp_all add: in_slot_def)

lemma map_shape_set [simp]:
  "map_shape nl ne (set_s2e il s v m) = map_shape nl ne m"
  "map_shape nl ne (set_e2s ne' il e v m) = map_shape nl ne m"
  "map_shape nl ne (set_age il s a m) = map_shape nl ne m"
  "map_shape nl ne (unmap_evicted ne' il ev s m) = map_shape nl ne m"
  "map_shape nl ne (assign_slot ne' il e s a m) = map_shape nl ne m"
  by (simp_all add: map_shape_def set_s2e_def set_e2s_def set_age_def unmap_evicted_def assign_slot_def)

lemma s2e_set [simp]:
  "s2e (set_e2s ne il e v m) = s2e m" "s2e (set_age il s a m) = s2e m" "s2e (unmap_evicted ne il ev s m) = s2e m"
  by (simp_all add: fun_eq_iff s2e_def set_e2s_def set_age_def unmap_evicted_def)

lemma e2s_set [simp]:
  "e2s (set_s2e il s v m) = e2s m" "e2s (set_age il s a m) = e2s m"
  by (simp_all add: fun_eq_iff e2s_def set_s2e_def set_age_def)

lemma s2e_set_s2e:
  assumes "map_shape nl ne m" "il < nl" "in_slot m s" "in_slot m s'"
  shows "s2e (set_s2e il s v m) il' s' = (if il' = il \<and> s' = s then v else s2e m il' s')"
proof -
  have i: "nat s < sm_bank m" "nat s' < sm_bank m" using assms by (auto simp: in_slot_def)
  have "il * sm_bank m + nat s < length (sm_slot_to_expert m)"
    using flat_index_less [OF assms(2) i(1)] assms(1) by (simp add: map_shape_def)
  then show ?thesis
    using flat_index_eq [OF i, of il il'] assms(3,4)
    by (auto simp: s2e_def set_s2e_def nth_list_update in_slot_def)
qed

lemma e2s_set_e2s:
  assumes "map_shape nl ne m" "il < nl" "in_expert ne e" "in_expert ne e'"
  shows "e2s (set_e2s ne il e v m) ne il' e' = (if il' = il \<and> e' = e then v else e2s m ne il' e')"
proof -
  have i: "nat e < ne" "nat e' < ne" using assms by (auto simp: in_expert_def)
  have "il * ne + nat e < length (sm_expert_to_slot m)"
    using flat_index_less [OF assms(2) i(1)] assms(1) by (simp add: map_shape_def)
  then show ?thesis
    using flat_index_eq [OF i, of il il'] assms(3,4)
    by (auto simp: e2s_def set_e2s_def nth_list_update in_expert_def)
qed

lemma e2s_unmap:
  assumes "map_shape nl ne m" "il < nl" "in_expert ne e"
  shows "e2s (unmap_evicted ne il ev s m) ne il' e =
    (if il' = il \<and> e = ev \<and> e2s m ne il ev = s then -1 else e2s m ne il' e)"
  using assms e2s_set_e2s [OF assms(1,2) _ assms(3)] by (auto simp: unmap_evicted_def)

text \<open>The consistency the caches rely on: the slot an expert is mapped to holds that expert.\<close>

definition map_ok :: "nat \<Rightarrow> nat \<Rightarrow> slot_map \<Rightarrow> bool" where
  "map_ok nl ne m \<longleftrightarrow> map_shape nl ne m
     \<and> (\<forall>il < nl. \<forall>e. in_expert ne e \<longrightarrow> in_slot m (e2s m ne il e) \<longrightarrow> s2e m il (e2s m ne il e) = e)"

lemma map_ok_shape: "map_ok nl ne m \<Longrightarrow> map_shape nl ne m"
  by (simp add: map_ok_def)

lemma map_okD: "map_ok nl ne m \<Longrightarrow> il < nl \<Longrightarrow> in_expert ne e \<Longrightarrow> in_slot m (e2s m ne il e)
    \<Longrightarrow> s2e m il (e2s m ne il e) = e"
  by (simp add: map_ok_def)

lemma map_ok_age [simp]: "map_ok nl ne (set_age il s a m) = map_ok nl ne m"
  by (simp add: map_ok_def)

lemma resident_slot_iff:
  assumes "map_ok nl ne m" "il < nl" "in_expert ne e"
  shows "resident_slot ne m il e = Some s \<longleftrightarrow> e2s m ne il e = s \<and> in_slot m s"
  using map_okD [OF assms] by (auto simp: resident_slot_def Let_def in_slot_def not_le)

lemma resident_slot_eq:
  assumes "map_ok nl ne m" "il < nl" "in_expert ne e"
  shows "resident_slot ne m il e = (if in_slot m (e2s m ne il e) then Some (e2s m ne il e) else None)"
  using resident_slot_iff [OF assms] by (metis not_None_eq)

lemma resident_age [simp]: "resident_slot ne (set_age il s a m) = resident_slot ne m"
  by (simp add: fun_eq_iff resident_slot_def Let_def)

text \<open>Assigning a slot after unmapping what was in it.\<close>

lemma assign_e2s:
  assumes "map_shape nl ne m" "il < nl" "in_expert ne e" "in_expert ne x"
  shows "e2s (assign_slot ne il e s a m) ne il' x = (if il' = il \<and> x = e then s else e2s m ne il' x)"
  using e2s_set_e2s [of nl ne "set_s2e il s e m" il e x s il'] assms by (simp add: assign_slot_def)

lemma assign_s2e:
  assumes "map_shape nl ne m" "il < nl" "in_slot m s" "in_slot m s'"
  shows "s2e (assign_slot ne il e s a m) il' s' = (if il' = il \<and> s' = s then e else s2e m il' s')"
  using s2e_set_s2e [OF assms] by (simp add: assign_slot_def)

lemma map_ok_assign:
  assumes ok: "map_ok nl ne m" and il: "il < nl" and e: "in_expert ne e" and s: "in_slot m s"
    and ev: "\<And>x. in_expert ne x \<Longrightarrow> e2s m ne il x = s \<Longrightarrow> x = e"
  shows "map_ok nl ne (assign_slot ne il e s a m)"
proof -
  note shape = map_ok_shape [OF ok]
  have "s2e (assign_slot ne il e s a m) il' (e2s (assign_slot ne il e s a m) ne il' x) = x"
    if "il' < nl" "in_expert ne x" "in_slot m (e2s (assign_slot ne il e s a m) ne il' x)" for il' x
    using that map_okD [OF ok that(1,2)] ev [OF that(2)]
    by (auto simp: assign_e2s [OF shape il e] assign_s2e [OF shape il s s]
        assign_s2e [OF shape il s] split: if_splits)
  then show ?thesis using shape by (simp add: map_ok_def)
qed

lemma map_ok_unmap:
  assumes "map_ok nl ne m" "il < nl"
  shows "map_ok nl ne (unmap_evicted ne il ev s m)"
  using assms map_okD [OF assms(1)] e2s_unmap [OF map_ok_shape [OF assms(1)] assms(2)]
  by (auto simp: map_ok_def in_slot_def)

lemma unmap_frees:
  assumes "map_ok nl ne m" "il < nl" "in_slot m s" "in_expert ne x"
    and "e2s (unmap_evicted ne il (s2e m il s) s m) ne il x = s"
  shows False
proof -
  have sx: "s \<noteq> - 1" using assms(3) by (auto simp: in_slot_def)
  note u = e2s_unmap [OF map_ok_shape [OF assms(1)] assms(2,4), of "s2e m il s" s il]
  have "e2s m ne il x = s" using u assms(5) sx by (auto split: if_splits)
  then have "s2e m il s = x" using map_okD [OF assms(1,2,4)] assms(3) by auto
  then show False using u assms(5) sx \<open>e2s m ne il x = s\<close> by auto
qed

text \<open>Installing an expert into a slot: unmap what the slot holds, then assign.\<close>

lemma install_map_ok:
  assumes "map_ok nl ne m" "il < nl" "in_expert ne e" "in_slot m s"
  shows "map_ok nl ne (assign_slot ne il e s a (unmap_evicted ne il (s2e m il s) s m))"
  using unmap_frees [OF assms(1,2,4)] assms
  by (intro map_ok_assign map_ok_unmap) auto

lemma install_resident:
  assumes "map_ok nl ne m" "il < nl" "in_expert ne e" "in_slot m s" "in_expert ne x" "il' < nl"
  shows "resident_slot ne (assign_slot ne il e s a (unmap_evicted ne il (s2e m il s) s m)) il' x =
    (if il' = il \<and> x = e then Some s
     else if il' = il \<and> resident_slot ne m il x = Some s then None
     else resident_slot ne m il' x)"
proof -
  let ?u = "unmap_evicted ne il (s2e m il s) s m"
  let ?m = "assign_slot ne il e s a ?u"
  note shape = map_ok_shape [OF assms(1)]
  have ok: "map_ok nl ne ?m" by (rule install_map_ok [OF assms(1-4)])
  have su: "map_shape nl ne ?u" using shape by simp
  have ex: "e2s ?m ne il' x = (if il' = il \<and> x = e then s else
      if il' = il \<and> x = s2e m il s \<and> e2s m ne il (s2e m il s) = s then -1 else e2s m ne il' x)"
    unfolding assign_e2s [OF su assms(2,3,5)] e2s_unmap [OF shape assms(2,5)] ..
  have none: "\<not> in_slot m (-1)" by (simp add: in_slot_def)
  have same: "e2s m ne il x = s \<Longrightarrow> s2e m il s = x"
    using map_okD [OF assms(1,2,5)] assms(4) by auto
  note r = resident_slot_eq [OF ok assms(6,5)] resident_slot_eq [OF assms(1,2,5)] resident_slot_eq [OF assms(1,6,5)]
  show ?thesis
  proof (cases "il' = il \<and> x = e")
    case True
    then show ?thesis using assms(4) unfolding r(1) ex by simp
  next
    case False
    show ?thesis
    proof (cases "il' = il \<and> e2s m ne il x = s")
      case True
      then show ?thesis using False same none assms(4) unfolding r ex by simp
    next
      case f2: False
      then have "e2s ?m ne il' x = e2s m ne il' x" using False unfolding ex by auto
      then show ?thesis using False f2 unfolding r by auto
    qed
  qed
qed

end
