(* ===== verification/Moe_Io.thy ===== *)
theory Moe_Io
  imports Ds4_Prelude
begin

text \<open>
  Reading one expert record from the sidecar file (\<open>src/ds4.c\<close>, \<open>flash_moe_pread_full\<close> to
  \<open>flash_moe_pread_split\<close>): the retry loop around \<open>pread\<close>, its interruptible variant, the
  page-aligned split of a record into ranges, and the read of the ranges by concurrent workers.

  What \<open>pread\<close> answers is a trace: the list of the outcomes of successive calls.  An outcome is
  an interrupted call, a failed one, or a number of bytes, which the kernel never lets exceed the
  bytes asked for or those left in the file.  After the end of its trace a call fails, so a run of
  the loop that makes finitely many calls is a run on some trace.  Sizes and offsets are naturals;
  the sums the code forms in 64 bits are guarded by it or are written with \<open>wrap64\<close>.
\<close>

datatype io_ev = Eintr | Efail | Got nat

definition INT64_MAX :: nat where "INT64_MAX = 2 ^ 63 - 1"

definition UINT64_MAX :: nat where "UINT64_MAX = 2 ^ 64 - 1"

definition wrap64 :: "nat \<Rightarrow> nat" where "wrap64 n = n mod 2 ^ 64"

definition IO_PAGE_BYTES :: nat where "IO_PAGE_BYTES = 16384"

definition MAX_IO_SPLIT :: nat where "MAX_IO_SPLIT = 16"

section \<open>The read loop\<close>

text \<open>What a call at file position \<open>pos\<close> asking for \<open>want\<close> bytes transfers when the kernel
  would give \<open>m\<close>.\<close>

definition pread_count :: "bytes \<Rightarrow> nat \<Rightarrow> nat \<Rightarrow> nat \<Rightarrow> nat" where
  "pread_count f pos want m = min m (min want (length f - pos))"

text \<open>The loop returns its result and how many bytes it has put at the destination.\<close>

fun pread_full :: "io_ev list \<Rightarrow> bytes \<Rightarrow> nat \<Rightarrow> nat \<Rightarrow> nat \<Rightarrow> bool \<times> nat" where
  "pread_full evs f offset n done =
     (if \<not> done < n then (True, done)
      else
        let remain = n - done; want = (if remain > 2 ^ 30 then 2 ^ 30 else remain)
        in if offset > INT64_MAX \<or> done > INT64_MAX - offset then (False, done)
           else case evs of
             [] \<Rightarrow> (False, done)
           | Eintr # evs \<Rightarrow> pread_full evs f offset n done
           | Efail # evs \<Rightarrow> (False, done)
           | Got m # evs \<Rightarrow>
               let k = pread_count f (offset + done) want m
               in if k = 0 then (False, done) else pread_full evs f offset n (done + k))"

declare pread_full.simps [simp del]

text \<open>The interruptible loop looks at the stop flag before each call: the trace pairs what the flag
  was with the outcome.\<close>

fun pread_full_interruptible ::
  "(bool \<times> io_ev) list \<Rightarrow> bytes \<Rightarrow> nat \<Rightarrow> nat \<Rightarrow> nat \<Rightarrow> bool \<times> nat" where
  "pread_full_interruptible evs f offset n done =
     (if \<not> done < n then (True, done)
      else case evs of
        [] \<Rightarrow> (False, done)
      | (stop, ev) # evs \<Rightarrow>
        if stop then (False, done)
        else
        let remain = n - done; want = (if remain > 2 ^ 20 then 2 ^ 20 else remain)
        in if offset > INT64_MAX \<or> done > INT64_MAX - offset then (False, done)
           else case ev of
             Eintr \<Rightarrow> pread_full_interruptible evs f offset n done
           | Efail \<Rightarrow> (False, done)
           | Got m \<Rightarrow>
               let k = pread_count f (offset + done) want m
               in if k = 0 then (False, done) else pread_full_interruptible evs f offset n (done + k))"

declare pread_full_interruptible.simps [simp del]

section \<open>The split\<close>

definition active_io_split :: "nat \<Rightarrow> int \<Rightarrow> nat" where
  "active_io_split n want =
     (if want \<le> 1 \<or> n = 0 \<or> n mod IO_PAGE_BYTES \<noteq> 0 then 1
      else
        let pages = n div IO_PAGE_BYTES;
            k = nat want;
            k = (if k > pages then pages else k);
            k = (if k > MAX_IO_SPLIT then MAX_IO_SPLIT else k)
        in if k < 1 then 1 else k)"

definition io_split_range :: "nat \<Rightarrow> nat \<Rightarrow> nat \<Rightarrow> nat \<times> nat" where
  "io_split_range n nsplit c =
     (if nsplit \<le> 1 then (0, n)
      else
        let pages = n div IO_PAGE_BYTES;
            ppc = pages div nsplit;
            off = c * ppc * IO_PAGE_BYTES
        in (off, if c = nsplit - 1 then n - off else ppc * IO_PAGE_BYTES))"

text \<open>The read of a record: the result and the writes of the workers, each a destination offset and
  the bytes put there.  Worker \<open>c\<close> runs on the trace \<open>tr c\<close>.\<close>

definition split_job :: "(nat \<Rightarrow> io_ev list) \<Rightarrow> bytes \<Rightarrow> nat \<Rightarrow> nat \<Rightarrow> nat \<Rightarrow> nat \<Rightarrow> bool \<times> nat \<times> bytes" where
  "split_job tr f offset n nsplit c =
     (let (coff, clen) = io_split_range n nsplit c;
          (ok, done) = pread_full (tr c) f (wrap64 (offset + coff)) clen 0
      in (ok, coff, get_at (wrap64 (offset + coff)) done f))"

definition pread_split :: "(nat \<Rightarrow> io_ev list) \<Rightarrow> bytes \<Rightarrow> nat \<Rightarrow> nat \<Rightarrow> int \<Rightarrow> bool \<times> (nat \<times> bytes) list" where
  "pread_split tr f offset n want =
     (let nsplit = active_io_split n want
      in if nsplit \<le> 1
         then let (ok, done) = pread_full (tr 0) f offset n 0 in (ok, [(0, get_at offset done f)])
         else let jobs = map (split_job tr f offset n nsplit) [0..<nsplit]
              in (list_all fst jobs, map snd jobs))"

definition apply_writes :: "(nat \<times> bytes) list \<Rightarrow> nat \<Rightarrow> bytes \<Rightarrow> bytes" where
  "apply_writes ws base buf = fold (\<lambda>(off, data) b. put_at (base + off) data b) ws buf"

section \<open>Lemmas on the loop\<close>

lemma pread_count_le: "pread_count f pos want m \<le> want" "pread_count f pos want m \<le> length f - pos"
  by (auto simp: pread_count_def)

lemma pread_full_unfold:
  "pread_full [] f offset n d = (\<not> d < n, d)"
  "pread_full (e # es) f offset n d =
     (if \<not> d < n then (True, d)
      else if offset > INT64_MAX \<or> d > INT64_MAX - offset then (False, d)
      else case e of Eintr \<Rightarrow> pread_full es f offset n d
      | Efail \<Rightarrow> (False, d)
      | Got m \<Rightarrow> let k = pread_count f (offset + d) (min (n - d) (2 ^ 30)) m
                 in if k = 0 then (False, d) else pread_full es f offset n (d + k))"
  by (auto simp: pread_full.simps [of "[]"] pread_full.simps [of "e # es"] Let_def min_def
      split: io_ev.split)

lemma pread_full_bounds:
  assumes "pread_full evs f offset n done = (ok, done')" "done \<le> n" "done = 0 \<or> offset + done \<le> length f"
  shows "done \<le> done' \<and> done' \<le> n \<and> (done' = 0 \<or> offset + done' \<le> length f) \<and> (ok \<longrightarrow> done' = n)"
  using assms
proof (induction evs arbitrary: "done")
  case Nil
  then show ?case by (auto simp: pread_full_unfold)
next
  case (Cons e es)
  show ?case
  proof (cases "done < n \<and> \<not> (offset > INT64_MAX \<or> done > INT64_MAX - offset)")
    case True
    show ?thesis
    proof (cases e)
      case (Got m)
      define k where "k = pread_count f (offset + done) (min (n - done) (2 ^ 30)) m"
      have k: "k \<le> n - done" "k \<le> length f - (offset + done)"
        using pread_count_le [of f "offset + done" "min (n - done) (2 ^ 30)" m] by (simp_all add: k_def)
      have step: "pread_full (e # es) f offset n done =
          (if k = 0 then (False, done) else pread_full es f offset n (done + k))"
        using True Got by (simp add: pread_full_unfold k_def)
      show ?thesis
      proof (cases "k = 0")
        case True
        then show ?thesis using Cons.prems step by auto
      next
        case False
        have "pread_full es f offset n (done + k) = (ok, done')" using Cons.prems(1) step False by simp
        moreover have "done + k \<le> n" "offset + (done + k) \<le> length f" using k False True by auto
        ultimately show ?thesis using Cons.IH [of "done + k"] by auto
      qed
    qed (use Cons True in \<open>auto simp: pread_full_unfold\<close>)
  next
    case False
    then show ?thesis using Cons.prems by (auto simp: pread_full_unfold split: if_splits)
  qed
qed

lemma pread_full_data:
  assumes "pread_full evs f offset n 0 = (ok, d)"
  shows "d \<le> n" "length (get_at offset d f) = d" "ok \<Longrightarrow> d = n"
  using pread_full_bounds [OF assms] by auto


lemma pread_full_enough:
  assumes "offset + n \<le> length f" "offset + n \<le> INT64_MAX" "done \<le> n"
    and "Efail \<notin> set evs" "Got 0 \<notin> set evs" "n - done \<le> length (filter (\<lambda>e. e \<noteq> Eintr) evs)"
  shows "fst (pread_full evs f offset n done)"
  using assms(3-)
proof (induction evs arbitrary: "done")
  case Nil
  then show ?case by (auto simp: pread_full_unfold)
next
  case (Cons e es)
  show ?case
  proof (cases "done < n")
    case True
    then have g: "\<not> (offset > INT64_MAX \<or> done > INT64_MAX - offset)" using assms(2) by auto
    show ?thesis
    proof (cases e)
      case (Got m)
      define k where "k = pread_count f (offset + done) (min (n - done) (2 ^ 30)) m"
      have "m \<noteq> 0" using Cons.prems Got by auto
      then have k: "0 < k" "k \<le> n - done" using True assms(1) by (auto simp: k_def pread_count_def)
      have "pread_full (e # es) f offset n done = pread_full es f offset n (done + k)"
        using True g Got k by (simp add: pread_full_unfold k_def)
      then show ?thesis using Cons.IH [of "done + k"] Cons.prems k Got by auto
    qed (use Cons True g in \<open>auto simp: pread_full_unfold\<close>)
  qed (simp add: pread_full_unfold)
qed

section \<open>The ranges of a split\<close>

lemma active_io_split_split:
  assumes "active_io_split n want \<noteq> 1"
  shows "n mod IO_PAGE_BYTES = 0" "1 < active_io_split n want" "active_io_split n want \<le> MAX_IO_SPLIT"
    "active_io_split n want \<le> n div IO_PAGE_BYTES"
  using assms by (auto simp: active_io_split_def Let_def MAX_IO_SPLIT_def split: if_splits)

lemma active_io_split_pos: "0 < active_io_split n want"
  by (auto simp: active_io_split_def Let_def)

text \<open>The ranges follow one another: a range starts where the one before it ends, the first at 0
  and the last ends at the end of the record.\<close>

lemma io_split_range_ends:
  assumes "1 < k" "k \<le> n div IO_PAGE_BYTES" "c < k"
  shows "fst (io_split_range n k c) = c * (n div IO_PAGE_BYTES div k) * IO_PAGE_BYTES"
    and "fst (io_split_range n k c) + snd (io_split_range n k c) =
      (if c = k - 1 then n else Suc c * (n div IO_PAGE_BYTES div k) * IO_PAGE_BYTES)"
proof -
  let ?p = "n div IO_PAGE_BYTES div k"
  show "fst (io_split_range n k c) = c * ?p * IO_PAGE_BYTES"
    using assms by (simp add: io_split_range_def Let_def)
  have "c * ?p \<le> k * ?p" using assms by simp
  also have "\<dots> \<le> n div IO_PAGE_BYTES" by simp
  finally have "c * ?p * IO_PAGE_BYTES \<le> n div IO_PAGE_BYTES * IO_PAGE_BYTES" by simp
  also have "\<dots> \<le> n" by simp
  finally show "fst (io_split_range n k c) + snd (io_split_range n k c) =
      (if c = k - 1 then n else Suc c * ?p * IO_PAGE_BYTES)"
    using assms by (auto simp: io_split_range_def Let_def add_mult_distrib)
qed

lemma io_split_range_chain:
  assumes "1 < k" "k \<le> n div IO_PAGE_BYTES" "Suc c < k"
  shows "fst (io_split_range n k (Suc c)) = fst (io_split_range n k c) + snd (io_split_range n k c)"
  using io_split_range_ends [OF assms(1,2)] assms(3) by (auto simp del: mult_Suc)


lemma io_split_range_inside:
  assumes "1 < k" "k \<le> n div IO_PAGE_BYTES" "c < k"
  shows "fst (io_split_range n k c) + snd (io_split_range n k c) \<le> n"
proof -
  have "Suc c * (n div IO_PAGE_BYTES div k) * IO_PAGE_BYTES \<le> k * (n div IO_PAGE_BYTES div k) * IO_PAGE_BYTES"
    using assms(3) by (intro mult_right_mono) auto
  also have "\<dots> \<le> n div IO_PAGE_BYTES * IO_PAGE_BYTES" by (intro mult_right_mono) auto
  also have "\<dots> \<le> n" by simp
  finally show ?thesis using io_split_range_ends(2) [OF assms] by auto
qed

lemma io_split_range_disjoint:
  assumes "1 < k" "k \<le> n div IO_PAGE_BYTES" "c < c'" "c' < k"
  shows "fst (io_split_range n k c) + snd (io_split_range n k c) \<le> fst (io_split_range n k c')"
proof -
  have "Suc c * (n div IO_PAGE_BYTES div k) * IO_PAGE_BYTES \<le> c' * (n div IO_PAGE_BYTES div k) * IO_PAGE_BYTES"
    using assms(3) by (intro mult_right_mono) auto
  then show ?thesis using io_split_range_ends [OF assms(1,2)] assms(3,4) by auto
qed

lemma io_split_range_last:
  assumes "1 < k" "k \<le> n div IO_PAGE_BYTES"
  shows "fst (io_split_range n k (k - 1)) < n"
proof -
  let ?s = "n div IO_PAGE_BYTES div k * IO_PAGE_BYTES"
  have "0 < ?s" using assms by (simp add: IO_PAGE_BYTES_def div_greater_zero_iff)
  moreover have "(k - 1) * ?s + ?s = k * ?s" using assms(1) by (cases k) auto
  moreover have "k * ?s \<le> n"
  proof -
    have "k * ?s = k * (n div IO_PAGE_BYTES div k) * IO_PAGE_BYTES" by simp
    also have "\<dots> \<le> n div IO_PAGE_BYTES * IO_PAGE_BYTES" by (intro mult_right_mono) auto
    also have "\<dots> \<le> n" by simp
    finally show ?thesis .
  qed
  moreover have "fst (io_split_range n k (k - 1)) = (k - 1) * ?s"
    using io_split_range_ends(1) [OF assms, of "k - 1"] assms(1) by (simp add: mult.assoc)
  ultimately show ?thesis by linarith
qed

text \<open>Every byte of the record is in a range.\<close>

lemma io_split_range_cover:
  assumes "1 < k" "k \<le> n div IO_PAGE_BYTES" "p < n"
  obtains c where "c < k" "fst (io_split_range n k c) \<le> p" "p < fst (io_split_range n k c) + snd (io_split_range n k c)"
proof -
  let ?s = "n div IO_PAGE_BYTES div k * IO_PAGE_BYTES"
  have s: "0 < ?s" using assms by (simp add: IO_PAGE_BYTES_def div_greater_zero_iff)
  have f: "c < k \<Longrightarrow> fst (io_split_range n k c) = c * ?s" for c
    using io_split_range_ends(1) [OF assms(1,2)] by simp
  have e: "c < k \<Longrightarrow> fst (io_split_range n k c) + snd (io_split_range n k c) = (if c = k - 1 then n else Suc c * ?s)" for c
    using io_split_range_ends(2) [OF assms(1,2), of c] by (metis mult.assoc)
  show thesis
  proof (cases "p div ?s < k - 1")
    case True
    have "p div ?s * ?s \<le> p" "p < Suc (p div ?s) * ?s"
      using s dividend_less_div_times [of ?s p] by auto
    then show thesis using that [of "p div ?s"] True f e by auto
  next
    case False
    then have "(k - 1) * ?s \<le> p div ?s * ?s" by (intro mult_right_mono) auto
    then have "(k - 1) * ?s \<le> p" by (meson div_times_less_eq_dividend le_trans)
    then show thesis using that [of "k - 1"] assms(1,3) f [of "k - 1"] e [of "k - 1"] by auto
  qed
qed

section \<open>The workers, under any schedule\<close>

text \<open>A worker is where its loop stands: the outcomes it has not consumed and the bytes it has read,
  or its result.  A turn is one iteration of the loop; it also gives the bytes it read.\<close>

datatype worker = Running "io_ev list" nat | Finished bool nat

fun worker_turn :: "bytes \<Rightarrow> nat \<Rightarrow> nat \<Rightarrow> worker \<Rightarrow> worker \<times> bytes" where
  "worker_turn f offset n (Finished ok d) = (Finished ok d, [])"
| "worker_turn f offset n (Running evs d) =
     (if \<not> d < n then (Finished True d, [])
      else if offset > INT64_MAX \<or> d > INT64_MAX - offset then (Finished False d, [])
      else case evs of
        [] \<Rightarrow> (Finished False d, [])
      | Eintr # es \<Rightarrow> (Running es d, [])
      | Efail # es \<Rightarrow> (Finished False d, [])
      | Got m # es \<Rightarrow>
          let k = pread_count f (offset + d) (min (n - d) (2 ^ 30)) m
          in if k = 0 then (Finished False d, []) else (Running es (d + k), get_at (offset + d) k f))"

text \<open>A step of the read: any worker that is still running takes a turn, and its bytes go to their
  place in the destination.\<close>

inductive split_step ::
  "bytes \<Rightarrow> nat \<Rightarrow> nat \<Rightarrow> nat \<Rightarrow> worker list \<times> bytes \<Rightarrow> worker list \<times> bytes \<Rightarrow> bool"
  for f offset n k where
  turn: "i < length ws \<Longrightarrow> ws ! i = Running evs d \<Longrightarrow> io_split_range n k i = (coff, clen)
    \<Longrightarrow> worker_turn f (wrap64 (offset + coff)) clen (Running evs d) = (w, data)
    \<Longrightarrow> split_step f offset n k (ws, buf) (ws[i := w], put_at (coff + d) data buf)"

definition split_start :: "(nat \<Rightarrow> io_ev list) \<Rightarrow> nat \<Rightarrow> bytes \<Rightarrow> worker list \<times> bytes" where
  "split_start tr k buf = (map (\<lambda>c. Running (tr c) 0) [0..<k], buf)"

fun progress :: "worker \<Rightarrow> nat" where
  "progress (Running evs d) = d"
| "progress (Finished ok d) = d"

fun outcome :: "bytes \<Rightarrow> nat \<Rightarrow> nat \<Rightarrow> worker \<Rightarrow> bool \<times> nat" where
  "outcome f offset n (Running evs d) = pread_full evs f offset n d"
| "outcome f offset n (Finished ok d) = (ok, d)"

lemma pread_full_exit:
  "\<not> d < n \<Longrightarrow> pread_full evs f offset n d = (True, d)"
  "d < n \<Longrightarrow> offset > INT64_MAX \<or> d > INT64_MAX - offset \<Longrightarrow> pread_full evs f offset n d = (False, d)"
  by (cases evs; simp add: pread_full_unfold)+

lemma worker_turn_outcome:
  "worker_turn f offset n w = (w', data) \<Longrightarrow> outcome f offset n w' = outcome f offset n w"
  by (cases "(f, offset, n, w)" rule: worker_turn.cases)
    (auto simp: pread_full_unfold pread_full_exit Let_def split: if_splits list.splits io_ev.splits)

lemma worker_turn_cases:
  assumes "worker_turn f offset n (Running evs d) = (w', data)"
  obtains (same) "progress w' = d" "data = []"
  | (got) m where "d < n" "pread_count f (offset + d) (min (n - d) (2 ^ 30)) m \<noteq> 0"
      "progress w' = d + pread_count f (offset + d) (min (n - d) (2 ^ 30)) m"
      "data = get_at (offset + d) (pread_count f (offset + d) (min (n - d) (2 ^ 30)) m) f"
  using assms by (auto simp: Let_def split: if_splits list.splits io_ev.splits)

lemma worker_turn_bytes:
  assumes "worker_turn f offset n w = (w', data)" "progress w \<le> n" "progress w = 0 \<or> offset + progress w \<le> length f"
  shows "progress w' = progress w + length data \<and> progress w' \<le> n
    \<and> data = get_at (offset + progress w) (length data) f
    \<and> (progress w' = 0 \<or> offset + progress w' \<le> length f)"
proof (cases w)
  case (Finished ok d)
  then show ?thesis using assms by (auto simp: get_at_def)
next
  case (Running evs d)
  from assms(1) [unfolded Running] show ?thesis
  proof (cases rule: worker_turn_cases)
    case same
    then show ?thesis using assms Running by (simp add: get_at_def)
  next
    case (got m)
    define k where "k = pread_count f (offset + d) (min (n - d) (2 ^ 30)) m"
    have k: "k \<le> n - d" "k \<le> length f - (offset + d)" "k \<noteq> 0"
      using pread_count_le [of f "offset + d" "min (n - d) (2 ^ 30)" m] got(2) by (simp_all add: k_def)
    have "progress w' = d + k" "data = get_at (offset + d) k f" using got by (simp_all add: k_def)
    moreover have "length (get_at (offset + d) k f) = k" "offset + (d + k) \<le> length f" "d + k \<le> n"
      using k got(1) by auto
    ultimately show ?thesis using Running by simp
  qed
qed

text \<open>What holds of every state a schedule can reach: each worker is on its way to its own outcome,
  and its range holds the bytes of the file as far as it has come; beyond the record nothing changed.\<close>

definition split_inv ::
  "(nat \<Rightarrow> io_ev list) \<Rightarrow> bytes \<Rightarrow> nat \<Rightarrow> nat \<Rightarrow> nat \<Rightarrow> bytes \<Rightarrow> worker list \<times> bytes \<Rightarrow> bool" where
  "split_inv tr f offset n k buf0 s \<longleftrightarrow> length (fst s) = k \<and> length (snd s) = length buf0
     \<and> drop n (snd s) = drop n buf0
     \<and> (\<forall>i < k. let w = fst s ! i; (coff, clen) = io_split_range n k i; o' = wrap64 (offset + coff) in
          progress w \<le> clen \<and> (progress w = 0 \<or> o' + progress w \<le> length f)
          \<and> outcome f o' clen w = pread_full (tr i) f o' clen 0
          \<and> get_at coff (progress w) (snd s) = get_at o' (progress w) f)"

lemma split_inv_start:
  assumes "n \<le> length buf"
  shows "split_inv tr f offset n k buf (split_start tr k buf)"
  using assms by (auto simp: split_inv_def split_start_def get_at_def split: prod.splits)

lemma get_at_extend:
  assumes "coff + d + length data \<le> length xs" "get_at coff d xs = get_at p d f"
    and "data = get_at (p + d) (length data) f" "d = 0 \<or> p + d \<le> length f"
  shows "get_at coff (d + length data) (put_at (coff + d) data xs) = get_at p (d + length data) f"
  unfolding get_at_add using assms by (simp add: get_at_put_at_same get_at_put_at_before)

lemma split_inv_step:
  assumes k: "1 < k" "k \<le> n div IO_PAGE_BYTES" and n: "n \<le> length buf0"
    and inv: "split_inv tr f offset n k buf0 s" and step: "split_step f offset n k s t"
  shows "split_inv tr f offset n k buf0 t"
  using step
proof (cases rule: split_step.cases)
  case (turn i ws evs d coff clen w data buf)
  define o' where "o' = wrap64 (offset + coff)"
  have i: "i < k" using inv turn by (simp add: split_inv_def)
  have old: "j < k \<Longrightarrow> io_split_range n k j = (c', l') \<Longrightarrow>
      progress (ws ! j) \<le> l' \<and> (progress (ws ! j) = 0 \<or> wrap64 (offset + c') + progress (ws ! j) \<le> length f)
          \<and> outcome f (wrap64 (offset + c')) l' (ws ! j) = pread_full (tr j) f (wrap64 (offset + c')) l' 0
          \<and> get_at c' (progress (ws ! j)) buf = get_at (wrap64 (offset + c')) (progress (ws ! j)) f" for j c' l'
    using inv turn by (auto simp: split_inv_def Let_def split: prod.splits)
  note wi = old [OF i turn(5), folded o'_def]
  have d: "progress (ws ! i) = d" using turn by simp
  have t: "worker_turn f o' clen (ws ! i) = (w, data)" using turn by (simp add: o'_def)
  note b = worker_turn_bytes [OF t conjunct1 [OF wi] conjunct1 [OF conjunct2 [OF wi]]]
  have inside: "coff + clen \<le> n" using io_split_range_inside [OF k i] turn by simp
  have len: "length buf = length buf0" using inv turn by (simp add: split_inv_def)
  have fits: "coff + d + length data \<le> length buf" using b d inside n len by linarith
  have "get_at coff (progress w) (put_at (coff + d) data buf) = get_at o' (progress w) f"
    using get_at_extend [OF fits] wi b d by auto
  moreover have "outcome f o' clen w = pread_full (tr i) f o' clen 0"
    using worker_turn_outcome [OF t] wi by simp
  ultimately have mine: "progress w \<le> clen \<and> (progress w = 0 \<or> o' + progress w \<le> length f)
      \<and> outcome f o' clen w = pread_full (tr i) f o' clen 0
      \<and> get_at coff (progress w) (put_at (coff + d) data buf) = get_at o' (progress w) f"
    using b by blast
  have others: "get_at c' p (put_at (coff + d) data buf) = get_at c' p buf"
    if "j < k" "j \<noteq> i" "io_split_range n k j = (c', l')" "p \<le> l'" for j c' l' p
  proof (rule get_at_put_at_disjoint)
    show "c' + p \<le> coff + d \<or> coff + d + length data \<le> c'"
      using io_split_range_disjoint [OF k, of i j] io_split_range_disjoint [OF k, of j i] that i turn b d
      by (cases "i < j") auto
  qed (rule fits)
  have "drop n (put_at (coff + d) data buf) = drop n buf"
  proof -
    have "coff + d + length data \<le> n" using b d inside by linarith
    then show ?thesis using fits by (simp add: put_at_def)
  qed
  then have dr: "drop n (put_at (coff + d) data buf) = drop n buf0" using inv turn by (simp add: split_inv_def)
  have all: "let w' = ws[i := w] ! j; (coff', clen) = io_split_range n k j; o' = wrap64 (offset + coff') in
          progress w' \<le> clen \<and> (progress w' = 0 \<or> o' + progress w' \<le> length f)
          \<and> outcome f o' clen w' = pread_full (tr j) f o' clen 0
          \<and> get_at coff' (progress w') (put_at (coff + d) data buf) = get_at o' (progress w') f"
    if j: "j < k" for j
  proof (cases "j = i")
    case True
    then show ?thesis using mine turn i inv by (simp add: split_inv_def Let_def o'_def)
  next
    case False
    obtain c' l' where r: "io_split_range n k j = (c', l')" by force
    show ?thesis using old [OF j r] others [OF j False r] False by (simp add: Let_def r)
  qed
  show ?thesis
    using inv turn dr all fits by (simp add: split_inv_def length_put_at)
qed

lemma split_inv_reachable:
  assumes "1 < k" "k \<le> n div IO_PAGE_BYTES" "n \<le> length buf"
    and "(split_step f offset n k)\<^sup>*\<^sup>* (split_start tr k buf) s"
  shows "split_inv tr f offset n k buf s"
  using assms(4)
proof (induction rule: rtranclp_induct)
  case base
  then show ?case by (rule split_inv_start [OF assms(3)])
next
  case (step s t)
  then show ?case using split_inv_step [OF assms(1-3)] by blast
qed

section \<open>The bytes a read leaves\<close>

lemma nth_get_at: "i < n \<Longrightarrow> off + n \<le> length xs \<Longrightarrow> get_at off n xs ! i = xs ! (off + i)"
  by (simp add: get_at_def)

lemma get_at_nth:
  assumes "get_at a l xs = get_at b l f" "a \<le> q" "q < a + l" "a + l \<le> length xs"
  shows "xs ! q = f ! (b + (q - a))"
proof -
  have "length (get_at a l xs) = l" using assms(4) by simp
  then have "length (get_at b l f) = l" by (simp only: assms(1))
  then have "l \<le> length f - b" by simp
  then have lf: "b + l \<le> length f" using assms(2,3) by linarith
  have i: "q - a < l" "a + (q - a) = q" using assms(2,3) by auto
  show ?thesis
    using nth_get_at [OF i(1) assms(4)] nth_get_at [OF i(1) lf] by (simp only: assms(1) i(2))
qed

lemma split_read_ok:
  assumes "1 < k" "k \<le> n div IO_PAGE_BYTES" "p + n < 2 ^ 64" "n \<le> length xs" "c < k"
    and "io_split_range n k c = (a, l)"
    and "get_at a l xs = get_at (wrap64 (p + a)) l f" "a \<le> q" "q < a + l"
  shows "xs ! q = f ! (p + q)"
proof -
  have in_n: "a + l \<le> n" using io_split_range_inside [OF assms(1,2,5)] assms(6) by simp
  then have "p + a < 2 ^ 64" using assms(3) by linarith
  then have w: "wrap64 (p + a) = p + a" unfolding wrap64_def by (rule mod_less)
  show ?thesis
    using get_at_nth [OF assms(7) [unfolded w] assms(8,9)] in_n assms(4,8) by simp
qed

lemma get_at_full_split:
  assumes k: "1 < k" "k \<le> n div IO_PAGE_BYTES" and small: "p + n < 2 ^ 64" and len: "n \<le> length xs" "p + n \<le> length f"
    and each: "\<And>c. c < k \<Longrightarrow> get_at (fst (io_split_range n k c)) (snd (io_split_range n k c)) xs
       = get_at (wrap64 (p + fst (io_split_range n k c))) (snd (io_split_range n k c)) f"
  shows "take n xs = get_at p n f"
proof (rule nth_equalityI)
  fix q assume "q < length (take n xs)"
  then have q: "q < n" by simp
  obtain c where c: "c < k" "fst (io_split_range n k c) \<le> q" "q < fst (io_split_range n k c) + snd (io_split_range n k c)"
    using io_split_range_cover [OF k q] .
  from split_read_ok [OF k small len(1) c(1) surjective_pairing each [OF c(1)] c(2,3)] q len show "take n xs ! q = get_at p n f ! q"
    by (simp add: get_at_def)
qed (use len in simp)

lemma split_jobs_ok:
  assumes k: "1 < k" "k \<le> n div IO_PAGE_BYTES" and small: "p + n < 2 ^ 64"
    and ok: "list_all fst (map (split_job tr f p n k) [0..<k])"
  shows "p + n \<le> length f"
    and "c < k \<Longrightarrow> split_job tr f p n k c = (True, fst (io_split_range n k c),
      get_at (p + fst (io_split_range n k c)) (snd (io_split_range n k c)) f)"
proof -
  have job: "split_job tr f p n k c = (True, fst (io_split_range n k c),
      get_at (p + fst (io_split_range n k c)) (snd (io_split_range n k c)) f)
      \<and> (snd (io_split_range n k c) = 0 \<or> p + fst (io_split_range n k c) + snd (io_split_range n k c) \<le> length f)"
    if c: "c < k" for c
  proof -
    obtain a l where r: "io_split_range n k c = (a, l)" by force
    have "a + l \<le> n" using io_split_range_inside [OF k c] r by simp
    then have w: "wrap64 (p + a) = p + a" using small by (simp add: wrap64_def)
    obtain b d where pr: "pread_full (tr c) f (p + a) l 0 = (b, d)" by force
    have "fst (split_job tr f p n k c)" using ok c by (simp add: list_all_iff)
    then have b using r w pr by (simp add: split_job_def)
    then show ?thesis using pread_full_bounds [OF pr] r w pr by (auto simp: split_job_def)
  qed
  then show "c < k \<Longrightarrow> split_job tr f p n k c = (True, fst (io_split_range n k c),
      get_at (p + fst (io_split_range n k c)) (snd (io_split_range n k c)) f)" by blast
  have e: "fst (io_split_range n k (k - 1)) + snd (io_split_range n k (k - 1)) = n"
    using io_split_range_ends(2) [OF k, of "k - 1"] k by simp
  have "fst (io_split_range n k (k - 1)) < n" by (rule io_split_range_last [OF k])
  then show "p + n \<le> length f" using job [of "k - 1"] e k by auto
qed

lemma take_n_eq_put_at:
  assumes "take n xs = get_at p n f" "p + n \<le> length f" "drop n xs = drop n buf" "n \<le> length buf"
  shows "xs = put_at 0 (get_at p n f) buf"
proof -
  have "xs = take n xs @ drop n xs" by simp
  then show ?thesis using assms by (simp add: put_at_def)
qed

lemma apply_chain:
  assumes "\<And>c. c < m \<Longrightarrow> ws ! c = (s c, get_at (p + s c) (l c) f)" "length ws = m"
    and "s 0 = 0" "\<And>c. Suc c < m \<Longrightarrow> s (Suc c) = s c + l c" "0 < m" "s (m - 1) + l (m - 1) = n"
    and "p + n \<le> length f" "base + n \<le> length buf" "\<And>c. c < m \<Longrightarrow> s c + l c \<le> n"
  shows "apply_writes ws base buf = put_at base (get_at p n f) buf"
proof -
  have step: "put_at (base + a) (get_at (p + a) b f) (put_at base (get_at p a f) buf)
      = put_at base (get_at p (a + b) f) buf" if "a + b \<le> n" for a b
    using that assms(7,8) unfolding get_at_add by (intro put_at_adjacent) auto
  have "j < m \<Longrightarrow> apply_writes (take (Suc j) ws) base buf = put_at base (get_at p (s j + l j) f) buf" for j
  proof (induction j)
    case 0
    have "ws ! 0 = (0, get_at p (l 0) f)" using assms(1) [OF 0] assms(3) by simp
    moreover have "take (Suc 0) ws = [ws ! 0]" using assms(2,5) by (cases ws) auto
    ultimately show ?case using assms(3) by (simp add: apply_writes_def)
  next
    case (Suc j)
    have "take (Suc (Suc j)) ws = take (Suc j) ws @ [ws ! Suc j]"
      using Suc.prems assms(2) by (simp add: take_Suc_conv_app_nth)
    then have "apply_writes (take (Suc (Suc j)) ws) base buf
        = put_at (base + s (Suc j)) (get_at (p + s (Suc j)) (l (Suc j)) f) (apply_writes (take (Suc j) ws) base buf)"
      using assms(1) [OF Suc.prems] by (simp add: apply_writes_def)
    also have "\<dots> = put_at base (get_at p (s (Suc j) + l (Suc j)) f) buf"
      using Suc.IH step [OF assms(9) [OF Suc.prems]] assms(4) [OF Suc.prems] Suc.prems by simp
    finally show ?case .
  qed
  from this [of "m - 1"] show ?thesis using assms(2,5,6) by simp
qed

lemma pread_split_ok:
  assumes "pread_split tr f p n want = (True, ws)" "p + n < 2 ^ 64" "base + n \<le> length buf"
  shows "apply_writes ws base buf = put_at base (get_at p n f) buf \<and> (n = 0 \<or> p + n \<le> length f)"
proof (cases "active_io_split n want = 1")
  case True
  obtain ok d where r: "pread_full (tr 0) f p n 0 = (ok, d)" by force
  then show ?thesis using assms True pread_full_bounds [OF r]
    by (auto simp: pread_split_def apply_writes_def)
next
  case False
  let ?k = "active_io_split n want"
  note k = active_io_split_split(2,4) [OF False]
  let ?r = "io_split_range n ?k"
  have ok: "list_all fst (map (split_job tr f p n ?k) [0..<?k])"
    and ws: "ws = map snd (map (split_job tr f p n ?k) [0..<?k])"
    using assms(1) k by (auto simp: pread_split_def Let_def)
  note jobs = split_jobs_ok [OF k assms(2) ok]
  have "apply_writes ws base buf = put_at base (get_at p n f) buf"
  proof (rule apply_chain [where m = ?k and s = "\<lambda>c. fst (?r c)" and l = "\<lambda>c. snd (?r c)"])
    show "\<And>c. c < ?k \<Longrightarrow> ws ! c = (fst (?r c), get_at (p + fst (?r c)) (snd (?r c)) f)"
      using jobs(2) by (simp add: ws)
    show "fst (?r 0) = 0" using io_split_range_ends(1) [OF k, of 0] k by simp
    show "\<And>c. Suc c < ?k \<Longrightarrow> fst (?r (Suc c)) = fst (?r c) + snd (?r c)" by (rule io_split_range_chain [OF k])
    show "fst (?r (?k - 1)) + snd (?r (?k - 1)) = n" using io_split_range_ends(2) [OF k, of "?k - 1"] k by simp
    show "\<And>c. c < ?k \<Longrightarrow> fst (?r c) + snd (?r c) \<le> n" by (rule io_split_range_inside [OF k])
  qed (use k jobs(1) assms(3) ws in auto)
  then show ?thesis using jobs(1) by simp
qed

text \<open>C21. The concurrent read of a record: however the turns of the workers are interleaved, when
  all have finished the read succeeds exactly when reading the ranges one after the other would, and
  when it succeeds the destination holds the record, byte for byte, and is unchanged behind it.\<close>

theorem split_read_any_schedule:
  assumes "1 < active_io_split n want" "n \<le> length buf" "p + n < 2 ^ 64"
    and "(split_step f p n (active_io_split n want))\<^sup>*\<^sup>*
      (split_start tr (active_io_split n want) buf) (ws, buf')"
    and "\<forall>w \<in> set ws. \<exists>ok d. w = Finished ok d"
  shows "(\<forall>w \<in> set ws. \<exists>d. w = Finished True d) = fst (pread_split tr f p n want)
    \<and> (fst (pread_split tr f p n want) \<longrightarrow> p + n \<le> length f \<and> buf' = put_at 0 (get_at p n f) buf)"
proof -
  let ?k = "active_io_split n want"
  have "?k \<noteq> 1" using assms(1) by simp
  note k = active_io_split_split(2,4) [OF this]
  have inv: "split_inv tr f p n ?k buf (ws, buf')" by (rule split_inv_reachable [OF k assms(2,4)])
  have len: "length ws = ?k" "length buf' = length buf" "drop n buf' = drop n buf"
    using inv by (simp_all add: split_inv_def)
  have fin: "\<exists>ok. ws ! c = Finished ok (progress (ws ! c))" if "c < ?k" for c
    using assms(5) that len(1) by (metis nth_mem progress.simps(2))
  have w: "outcome f (wrap64 (p + fst (io_split_range n ?k c))) (snd (io_split_range n ?k c)) (ws ! c)
        = pread_full (tr c) f (wrap64 (p + fst (io_split_range n ?k c))) (snd (io_split_range n ?k c)) 0
      \<and> get_at (fst (io_split_range n ?k c)) (progress (ws ! c)) buf'
        = get_at (wrap64 (p + fst (io_split_range n ?k c))) (progress (ws ! c)) f" if "c < ?k" for c
  proof -
    obtain a l where "io_split_range n ?k c = (a, l)" by force
    then show ?thesis using inv that by (auto simp: split_inv_def Let_def split: prod.splits)
  qed
  have job: "ws ! c = Finished (fst (split_job tr f p n ?k c)) (progress (ws ! c))
      \<and> (fst (split_job tr f p n ?k c) \<longrightarrow> progress (ws ! c) = snd (io_split_range n ?k c))" if c: "c < ?k" for c
  proof -
    obtain a l where r: "io_split_range n ?k c = (a, l)" by force
    obtain ok where o: "ws ! c = Finished ok (progress (ws ! c))" using fin [OF c] by blast
    then have eq: "pread_full (tr c) f (wrap64 (p + a)) l 0 = (ok, progress (ws ! c))"
      using w [OF c] r by (metis fst_conv snd_conv outcome.simps(2))
    then show ?thesis using o r pread_full_bounds [OF eq] by (simp add: split_job_def)
  qed
  have all: "fst (pread_split tr f p n want) = (\<forall>c < ?k. fst (split_job tr f p n ?k c))"
    using k by (auto simp: pread_split_def list_all_iff Let_def)
  have "(\<forall>w \<in> set ws. \<exists>d. w = Finished True d) = (\<forall>c < ?k. fst (split_job tr f p n ?k c))"
    using job len(1) by (metis in_set_conv_nth nth_mem worker.inject(2))
  moreover have "p + n \<le> length f \<and> buf' = put_at 0 (get_at p n f) buf" if ok: "fst (pread_split tr f p n want)"
  proof -
    have "list_all fst (map (split_job tr f p n ?k) [0..<?k])" using ok all by (simp add: list_all_iff)
    then have pn: "p + n \<le> length f" by (rule split_jobs_ok(1) [OF k assms(3)])
    have "take n buf' = get_at p n f"
      using w job ok all assms(2,3) len(2) pn by (intro get_at_full_split [OF k]) auto
    then show ?thesis using take_n_eq_put_at [of n buf' p f buf] pn len assms(2) by simp
  qed
  ultimately show ?thesis using all by blast
qed

definition example_trace :: "nat \<Rightarrow> io_ev list" where
  "example_trace c = (if c = 0 then [Eintr, Got 16384] else [Got 16384])"

theorem split_read_any_schedule_witness:
  "\<exists>ws buf'. (split_step (replicate 32768 CHR ''w'') 0 32768 2)\<^sup>*\<^sup>*
      (split_start example_trace 2 (replicate 32769 CHR ''-'')) (ws, buf')
    \<and> buf' = put_at 0 (get_at 0 32768 (replicate 32768 CHR ''w'')) (replicate 32769 CHR ''-'')"
proof -
  let ?f = "replicate 32768 CHR ''w''" and ?b = "replicate 32769 CHR ''-''"
  let ?s = "split_step ?f 0 32768 2" and ?w = "replicate 16384 CHR ''w''"
  have k: "active_io_split 32768 2 = 2" by (simp add: active_io_split_def IO_PAGE_BYTES_def MAX_IO_SPLIT_def)
  have r: "io_split_range 32768 2 0 = (0, 16384)" "io_split_range 32768 2 (Suc 0) = (16384, 16384)"
    by (simp_all add: io_split_range_def IO_PAGE_BYTES_def Let_def)
  have w: "wrap64 0 = 0" "wrap64 16384 = 16384" by (simp_all add: wrap64_def)
  have step: "?s (ws, b) (ws[i := w], put_at (coff + d) data b)"
    if "i < length ws" "ws ! i = Running evs d" "io_split_range 32768 2 i = (coff, clen)"
      "worker_turn ?f (wrap64 (0 + coff)) clen (Running evs d) = (w, data)" for i ws evs d coff clen w data b
    using that by (rule split_step.turn)
  have start: "split_start example_trace 2 ?b = ([Running [Eintr, Got 16384] 0, Running [Got 16384] 0], ?b)"
    by (simp add: split_start_def example_trace_def upt_rec)
  note eval = pread_count_def INT64_MAX_def get_at_def
  have "?s ([Running [Eintr, Got 16384] 0, Running [Got 16384] 0], ?b)
      ([Running [Eintr, Got 16384] 0, Running [] 16384], put_at 16384 ?w ?b)"
    using step [of 1 "[Running [Eintr, Got 16384] 0, Running [Got 16384] 0]" "[Got 16384]" 0 16384 16384
        "Running [] 16384" ?w ?b] by (simp add: r w eval)
  moreover have "?s ([Running [Eintr, Got 16384] 0, Running [] 16384], put_at 16384 ?w ?b)
      ([Running [Got 16384] 0, Running [] 16384], put_at 0 [] (put_at 16384 ?w ?b))"
    using step [of 0 "[Running [Eintr, Got 16384] 0, Running [] 16384]" "[Eintr, Got 16384]" 0 0 16384
        "Running [Got 16384] 0" "[]"] by (simp add: r w eval)
  moreover have "?s ([Running [Got 16384] 0, Running [] 16384], b)
      ([Running [Got 16384] 0, Finished True 16384], put_at 32768 [] b)" for b
    using step [of 1 "[Running [Got 16384] 0, Running [] 16384]" "[]" 16384 16384 16384
        "Finished True 16384" "[]" b] by (simp add: r w eval)
  moreover have "?s ([Running [Got 16384] 0, Finished True 16384], b)
      ([Running [] 16384, Finished True 16384], put_at 0 ?w b)" for b
    using step [of 0 "[Running [Got 16384] 0, Finished True 16384]" "[Got 16384]" 0 0 16384
        "Running [] 16384" ?w b] by (simp add: r w eval)
  moreover have "?s ([Running [] 16384, Finished True 16384], b)
      ([Finished True 16384, Finished True 16384], put_at 16384 [] b)" for b
    using step [of 0 "[Running [] 16384, Finished True 16384]" "[]" 16384 0 16384
        "Finished True 16384" "[]" b] by (simp add: r w eval)
  ultimately obtain b where run: "?s\<^sup>*\<^sup>* (split_start example_trace 2 ?b) ([Finished True 16384, Finished True 16384], b)"
    unfolding start by (meson converse_rtranclp_into_rtranclp rtranclp.rtrancl_refl)
  have "\<forall>w \<in> set [Finished True 16384, Finished True 16384]. \<exists>d. w = Finished True d" by simp
  then show ?thesis
    using split_read_any_schedule [where n = 32768 and want = 2 and p = 0 and f = ?f and buf = ?b
        and tr = example_trace and ws = "[Finished True 16384, Finished True 16384]" and buf' = b] run k
    by fastforce
qed

section \<open>Every schedule ends\<close>

fun work :: "worker \<Rightarrow> nat" where
  "work (Running evs d) = Suc (length evs)"
| "work (Finished ok d) = 0"

lemma worker_turn_work: "worker_turn f p n (Running evs d) = (w, data) \<Longrightarrow> work w < work (Running evs d)"
  by (auto simp: Let_def split: if_splits list.splits io_ev.splits)

lemma split_step_work:
  assumes "split_step f p n k s t"
  shows "sum_list (map work (fst t)) < sum_list (map work (fst s))"
  using assms
proof (cases rule: split_step.cases)
  case (turn i ws evs d coff clen w data buf)
  have "sum_list (map work (ws[i := w])) + work (ws ! i) = sum_list (map work ws) + work w"
    using turn(3) elem_le_sum_list [of i "map work ws"] by (simp add: map_update sum_list_update)
  then show ?thesis using worker_turn_work turn by fastforce
qed

lemma split_steps_bound:
  "(split_step f p n k ^^ m) a s \<Longrightarrow> m + sum_list (map work (fst s)) \<le> sum_list (map work (fst a))"
proof (induction m arbitrary: s)
  case 0
  then show ?case by simp
next
  case (Suc m)
  then obtain u where u: "(split_step f p n k ^^ m) a u" "split_step f p n k u s"
    by (meson relpowp_Suc_E)
  show ?case using Suc.IH [OF u(1)] split_step_work [OF u(2)] by linarith
qed

lemma work_start: "sum_list (map work (fst (split_start tr k buf))) = (\<Sum>c<k. Suc (length (tr c)))"
  by (simp add: split_start_def o_def interv_sum_list_conv_sum_set_nat atLeast0LessThan)

lemma split_running_steps:
  assumes "i < length (fst s)" "fst s ! i = Running evs d"
  shows "\<exists>t. split_step f p n k s t"
proof -
  obtain coff clen where 1: "io_split_range n k i = (coff, clen)" by force
  obtain w data where 2: "worker_turn f (wrap64 (p + coff)) clen (Running evs d) = (w, data)" by fastforce
  from assms 1 2 have "split_step f p n k (fst s, snd s) ((fst s)[i := w], put_at (coff + d) data (snd s))"
    by (rule split_step.turn)
  then show ?thesis by auto
qed

lemma all_finished_or_running:
  "(\<forall>w \<in> set ws. \<exists>ok d. w = Finished ok d) \<or> (\<exists>i evs d. i < length ws \<and> ws ! i = Running evs d)"
  by (metis in_set_conv_nth worker.exhaust)



text \<open>A read of a record inside the file completes: if no call fails and at least as many calls
  transfer something as the record has bytes, however short each transfer and however many calls
  are interrupted, the loop returns success with every byte read.\<close>

theorem pread_full_completes:
  assumes "offset + n \<le> length f" "offset + n \<le> INT64_MAX"
    and "Efail \<notin> set evs" "Got 0 \<notin> set evs" "n \<le> length (filter (\<lambda>e. e \<noteq> Eintr) evs)"
  shows "pread_full evs f offset n 0 = (True, n)"
proof -
  obtain ok d where r: "pread_full evs f offset n 0 = (ok, d)" by force
  moreover have ok using pread_full_enough [of offset n f 0 evs] assms r by simp
  ultimately show ?thesis using pread_full_data [OF r] by simp
qed

theorem pread_full_completes_witness:
  "pread_full [Eintr, Got 2, Got 9, Eintr, Got 1] ''abcdef'' 1 3 0 = (True, 3)"
  by (rule pread_full_completes) (simp_all add: INT64_MAX_def)

end
