(* ===== verification/Moe_Graph.thy ===== *)
theory Moe_Graph
  imports Moe_Map Moe_Io
begin

text \<open>
  The Flash-MoE part of \<open>ds4_gpu_graph\<close> (\<open>src/ds4.c\<close>) and the memory behind its slots: where a
  slot lies in each of the layouts, and how an expert record gets into it.

  A GPU tensor is its bytes; \<open>flash_mem\<close> gives the tensor behind each pointer field, \<^const>\<open>None\<close>
  where the pointer is NULL.  In the mixed layouts the family banks are views of the mixed bank at
  \<open>family_offset\<close>, so they are not tensors of their own; in the slab layout the mixed banks are
  disjoint views of one slab and are tensors here.  What the environment decides (the
  \<open>DS4_FLASH_MOE_*\<close> variables, the allocator, the outcomes of \<open>pread\<close>) is the record \<open>moe_env\<close>.
  The structure's pointers to host arrays are non-null once the graph is set up and their NULL
  tests are left out, as are timing and diagnostics.
\<close>

record layer_sidecar =
  expert_stride :: nat
  family_offset :: "nat list"
  family_bytes :: "nat list"
  layer_fd :: bytes

datatype tensor_ref =
    Mixed_bank nat
  | Chunk_mixed_bank nat nat
  | Expert_bank nat nat
  | Gate_bank nat
  | Up_bank nat
  | Down_bank nat
  | Gpu_l2_mixed_bank nat

record moe_env =
  env_replay_plan :: bool
  env_mixed_slots6_grouped :: bool
  env_direct_slot_pread :: bool
  env_cache_io_split :: int
  env_alloc :: "nat \<Rightarrow> int \<Rightarrow> bool"
  env_pread :: "nat \<Rightarrow> nat \<Rightarrow> io_ev list"
  env_errno :: bool
  env_gpu_copy :: bool

record graph =
  n_layer :: nat
  n_expert :: nat
  flash_moe :: "layer_sidecar list"
  flash_mixed_slot_bank :: bool
  flash_direct_mmap_bank :: bool
  flash_chunked_mixed_bank :: bool
  flash_per_slot_buffers :: bool
  flash_per_expert_buffers :: bool
  flash_chunk_slots :: nat
  flash_chunk_count :: nat
  flash_mem :: "tensor_ref \<Rightarrow> bytes option"
  flash_per_expert_bank_bytes :: nat
  l1 :: slot_map
  l2 :: slot_map
  l2_buf :: "bytes option list"
  l2_allocated_bytes :: nat
  gpu_l2 :: slot_map
  flash_replay_slot_expert :: "int list"
  flash_replay_slot_valid :: "bool list"
  flash_decode_true_ids :: "int list list"
  flash_decode_slot_ids :: "int list list"
  flash_decode_ids_valid :: "bool list"
  flash_age :: u64
  flash_hits :: u64
  flash_misses :: u64
  flash_installed_bytes :: u64
  flash_replay_hits :: u64
  flash_replay_misses :: u64
  flash_replay_builds :: u64
  flash_replay_invalidations :: u64
  flash_prefill_slot_refs :: u64
  flash_prefill_slot_installs :: u64
  flash_prefill_slot_hits :: u64
  l2_hits :: u64
  l2_misses :: u64
  l2_installs :: u64
  l2_evictions :: u64
  gpu_l2_hits :: u64
  gpu_l2_misses :: u64
  gpu_l2_installs :: u64
  gpu_l2_evictions :: u64

definition MAX_EXPERT :: nat where "MAX_EXPERT = 384"

definition MAX_EXPERT_USED :: nat where "MAX_EXPERT_USED = 6"

definition MAX_CHUNKS :: nat where "MAX_CHUNKS = 16"

definition slot_bank :: "graph \<Rightarrow> nat" where "slot_bank g = sm_bank (l1 g)"

definition slot_ok :: "graph \<Rightarrow> nat \<Rightarrow> int \<Rightarrow> bool" where
  "slot_ok g il slot \<longleftrightarrow> \<not> (il \<ge> n_layer g \<or> slot < 0 \<or> slot \<ge> int (slot_bank g))"

definition expert_ok :: "graph \<Rightarrow> nat \<Rightarrow> int \<Rightarrow> bool" where
  "expert_ok g il expert \<longleftrightarrow> \<not> (il \<ge> n_layer g \<or> expert < 0 \<or> expert \<ge> int (n_expert g))"

section \<open>Tensors\<close>

definition gpu_tensor_write ::
  "(tensor_ref \<Rightarrow> bytes option) \<Rightarrow> tensor_ref \<Rightarrow> nat \<Rightarrow> bytes \<Rightarrow> (tensor_ref \<Rightarrow> bytes option) option" where
  "gpu_tensor_write mem t offset data =
     (case mem t of None \<Rightarrow> None
      | Some b \<Rightarrow>
          if offset > length b \<or> length data > length b - offset then None
          else Some (mem(t := Some (put_at offset data b))))"

definition gpu_tensor_did_modify :: "(tensor_ref \<Rightarrow> bytes option) \<Rightarrow> tensor_ref \<Rightarrow> nat \<Rightarrow> nat \<Rightarrow> bool" where
  "gpu_tensor_did_modify mem t offset n =
     (case mem t of None \<Rightarrow> False | Some b \<Rightarrow> \<not> (offset > length b \<or> n > length b - offset))"

definition gpu_tensor_view :: "(tensor_ref \<Rightarrow> bytes option) \<Rightarrow> tensor_ref \<Rightarrow> nat \<Rightarrow> nat \<Rightarrow> bytes option" where
  "gpu_tensor_view mem t offset n =
     (case mem t of None \<Rightarrow> None
      | Some b \<Rightarrow> if offset > length b \<or> n > length b - offset then None else Some (get_at offset n b))"

definition gpu_tensor_copy ::
  "bool \<Rightarrow> (tensor_ref \<Rightarrow> bytes option) \<Rightarrow> tensor_ref \<Rightarrow> nat \<Rightarrow> tensor_ref \<Rightarrow> nat \<Rightarrow> nat
     \<Rightarrow> (tensor_ref \<Rightarrow> bytes option) option" where
  "gpu_tensor_copy blit mem dst dst_off src src_off n =
     (case (mem dst, mem src) of
        (Some d, Some s) \<Rightarrow>
          if dst_off > length d \<or> n > length d - dst_off \<or> src_off > length s \<or> n > length s - src_off
          then None
          else if n = 0 then Some mem
          else if \<not> blit then None
          else Some (mem(dst := Some (put_at dst_off (get_at src_off n s) d)))
      | _ \<Rightarrow> None)"

section \<open>Where a slot lies\<close>

definition chunk_for_slot :: "graph \<Rightarrow> int \<Rightarrow> (nat \<times> nat \<times> nat) option" where
  "chunk_for_slot g slot =
     (if \<not> flash_chunked_mixed_bank g \<or> flash_chunk_slots g = 0 \<or> flash_chunk_count g = 0
         \<or> slot < 0 \<or> slot \<ge> int (slot_bank g)
      then None
      else let chunk = nat slot div flash_chunk_slots g in
        if chunk \<ge> flash_chunk_count g \<or> chunk \<ge> MAX_CHUNKS then None
        else
          let loc = nat slot - chunk * flash_chunk_slots g;
              slots = slot_bank g - chunk * flash_chunk_slots g;
              slots = (if slots > flash_chunk_slots g then flash_chunk_slots g else slots)
          in if loc \<ge> slots then None else Some (chunk, loc, slots))"

definition ensure_per_slot_buffer :: "moe_env \<Rightarrow> graph \<Rightarrow> nat \<Rightarrow> int \<Rightarrow> bool \<times> graph" where
  "ensure_per_slot_buffer env g il slot =
     (if \<not> flash_per_slot_buffers g \<or> \<not> slot_ok g il slot \<or> slot \<ge> int MAX_EXPERT then (False, g)
      else if flash_mem g (Expert_bank il (nat slot)) \<noteq> None then (True, g)
      else if \<not> env_alloc env il slot then (False, g)
      else
        let stride = expert_stride (flash_moe g ! il)
        in (True, g\<lparr>flash_mem := (flash_mem g)(Expert_bank il (nat slot) := Some (replicate stride (CHR 0x00))),
                    flash_per_expert_bank_bytes :=
                      (if flash_per_expert_bank_bytes g > UINT64_MAX - stride then UINT64_MAX
                       else flash_per_expert_bank_bytes g + stride)\<rparr>))"

text \<open>A destination pointer is a tensor and an offset into it.\<close>

definition mixed_slot_ptr :: "moe_env \<Rightarrow> graph \<Rightarrow> nat \<Rightarrow> int \<Rightarrow> (tensor_ref \<times> nat) option \<times> graph" where
  "mixed_slot_ptr env g il slot =
     (if \<not> slot_ok g il slot then (None, g)
      else let stride = expert_stride (flash_moe g ! il) in
      if flash_per_slot_buffers g then
        let (ok, g) = ensure_per_slot_buffer env g il slot
        in (if \<not> ok then None
            else case flash_mem g (Expert_bank il (nat slot)) of None \<Rightarrow> None
                 | Some b \<Rightarrow> if stride > length b then None else Some (Expert_bank il (nat slot), 0), g)
      else if flash_chunked_mixed_bank g then
        (case chunk_for_slot g slot of None \<Rightarrow> None
         | Some (chunk, loc, _) \<Rightarrow>
             if stride \<noteq> 0 \<and> loc > UINT64_MAX div stride then None
             else case flash_mem g (Chunk_mixed_bank il chunk) of None \<Rightarrow> None
                  | Some b \<Rightarrow> if loc * stride > length b \<or> stride > length b - loc * stride then None
                              else Some (Chunk_mixed_bank il chunk, loc * stride), g)
      else if \<not> flash_mixed_slot_bank g then (None, g)
      else if stride \<noteq> 0 \<and> nat slot > UINT64_MAX div stride then (None, g)
      else (case flash_mem g (Mixed_bank il) of None \<Rightarrow> None
            | Some b \<Rightarrow> if nat slot * stride > length b \<or> stride > length b - nat slot * stride then None
                        else Some (Mixed_bank il, nat slot * stride), g))"

definition family_slot_ptr :: "graph \<Rightarrow> tensor_ref \<Rightarrow> nat \<Rightarrow> nat \<Rightarrow> int \<Rightarrow> nat \<Rightarrow> (tensor_ref \<times> nat) option" where
  "family_slot_ptr g t fbytes slot_stride slot bank =
     (if slot < 0 \<or> slot \<ge> int bank then None
      else if slot_stride \<noteq> 0 \<and> nat slot > UINT64_MAX div slot_stride then None
      else case flash_mem g t of None \<Rightarrow> None
      | Some b \<Rightarrow> if nat slot * slot_stride > length b \<or> fbytes > length b - nat slot * slot_stride then None
                  else Some (t, nat slot * slot_stride))"

text \<open>The family pointers of a direct read.  The two mixed layouts of this function are not reached:
  its caller takes \<^const>\<open>mixed_slot_ptr\<close> there, so only the per-slot and the family layouts are here.\<close>

definition family_tensor :: "nat \<Rightarrow> nat \<Rightarrow> tensor_ref" where
  "family_tensor il fam = (if fam = 0 then Gate_bank il else if fam = 1 then Up_bank il else Down_bank il)"

definition direct_slot_ptrs :: "moe_env \<Rightarrow> graph \<Rightarrow> nat \<Rightarrow> int \<Rightarrow> (tensor_ref \<times> nat) list option \<times> graph" where
  "direct_slot_ptrs env g il slot =
     (if il \<ge> n_layer g \<or> slot < 0 then (None, g)
      else let layer = flash_moe g ! il in
      if flash_per_slot_buffers g then
        let (ok, g) = (if slot \<ge> int (slot_bank g) then (False, g) else ensure_per_slot_buffer env g il slot)
        in (if \<not> ok then None
            else case flash_mem g (Expert_bank il (nat slot)) of None \<Rightarrow> None
            | Some b \<Rightarrow>
                if expert_stride layer > length b then None
                else if list_ex (\<lambda>fam. family_offset layer ! fam > length b
                                  \<or> family_bytes layer ! fam > length b - family_offset layer ! fam) [0, 1, 2]
                then None
                else Some (map (\<lambda>fam. (Expert_bank il (nat slot), family_offset layer ! fam)) [0, 1, 2]), g)
      else
        let ptrs = map (\<lambda>fam. family_slot_ptr g (family_tensor il fam) (family_bytes layer ! fam)
                                (family_bytes layer ! fam) slot (slot_bank g)) [0, 1, 2]
        in (if None \<in> set ptrs then None else Some (map the ptrs), g))"

section \<open>Getting a record into a slot\<close>

definition mem_apply :: "(tensor_ref \<Rightarrow> bytes option) \<Rightarrow> tensor_ref \<times> nat \<Rightarrow> (nat \<times> bytes) list \<Rightarrow> (tensor_ref \<Rightarrow> bytes option)" where
  "mem_apply mem ptr ws =
     (case ptr of (t, off) \<Rightarrow> mem(t := map_option (apply_writes ws off) (mem t)))"

text \<open>The family reads of \<open>pread_slot_direct\<close>: the read of family \<open>fam\<close> is the \<open>fam\<close>-th of the
  environment, and the first that fails ends the loop.\<close>

fun pread_families ::
  "moe_env \<Rightarrow> layer_sidecar \<Rightarrow> int \<Rightarrow> (tensor_ref \<times> nat) list \<Rightarrow> nat list \<Rightarrow> graph \<Rightarrow> bool \<times> graph" where
  "pread_families env layer true_expert dst [] g = (True, g)"
| "pread_families env layer true_expert dst (fam # fams) g =
     (let record_offset = wrap64 (nat true_expert * expert_stride layer);
          n = family_bytes layer ! fam
      in if n = 0 then pread_families env layer true_expert dst fams g
         else if family_offset layer ! fam > UINT64_MAX - record_offset then (False, g)
         else let (ok, ws) = pread_split (env_pread env fam) (layer_fd layer)
                               (record_offset + family_offset layer ! fam) n (env_cache_io_split env);
                  g = g\<lparr>flash_mem := mem_apply (flash_mem g) (dst ! fam) ws\<rparr>
              in if ok then pread_families env layer true_expert dst fams g else (False, g))"

definition pread_slot_direct ::
  "moe_env \<Rightarrow> graph \<Rightarrow> layer_sidecar \<Rightarrow> int \<Rightarrow> (tensor_ref \<times> nat) list \<Rightarrow> bool \<times> graph" where
  "pread_slot_direct env g layer true_expert dst =
     (if true_expert < 0 \<or> true_expert \<ge> int (n_expert g) then (False, g)
      else pread_families env layer true_expert dst [0, 1, 2] g)"

definition upd_mem :: "graph \<Rightarrow> (tensor_ref \<Rightarrow> bytes option) option \<Rightarrow> bool \<times> graph" where
  "upd_mem g r = (case r of None \<Rightarrow> (False, g) | Some mem \<Rightarrow> (True, g\<lparr>flash_mem := mem\<rparr>))"

text \<open>The family layout writes the three banks one after the other; the first write that fails
  leaves the ones before it done.\<close>

fun write_families :: "graph \<Rightarrow> nat \<Rightarrow> int \<Rightarrow> bytes \<Rightarrow> nat list \<Rightarrow> bool \<times> graph" where
  "write_families g il slot src [] = (True, g)"
| "write_families g il slot src (fam # fams) =
     (let layer = flash_moe g ! il; n = family_bytes layer ! fam
      in case gpu_tensor_write (flash_mem g) (family_tensor il fam) (wrap64 (nat slot * n))
                (get_at (family_offset layer ! fam) n src) of
           None \<Rightarrow> (False, g)
         | Some mem \<Rightarrow> write_families (g\<lparr>flash_mem := mem\<rparr>) il slot src fams)"

definition write_slot_from_buf :: "moe_env \<Rightarrow> graph \<Rightarrow> nat \<Rightarrow> int \<Rightarrow> bytes \<Rightarrow> bool \<times> graph" where
  "write_slot_from_buf env g il slot src =
     (if \<not> slot_ok g il slot then (False, g)
      else let stride = expert_stride (flash_moe g ! il) in
      if flash_per_slot_buffers g then
        let (ok, g) = ensure_per_slot_buffer env g il slot
        in if \<not> ok then (False, g)
           else upd_mem g (gpu_tensor_write (flash_mem g) (Expert_bank il (nat slot)) 0 src)
      else if flash_mixed_slot_bank g then
        if flash_chunked_mixed_bank g then
          (case chunk_for_slot g slot of None \<Rightarrow> (False, g)
           | Some (chunk, loc, _) \<Rightarrow>
               if flash_mem g (Chunk_mixed_bank il chunk) = None \<or> (stride \<noteq> 0 \<and> loc > UINT64_MAX div stride)
               then (False, g)
               else upd_mem g (gpu_tensor_write (flash_mem g) (Chunk_mixed_bank il chunk) (loc * stride) src))
        else if flash_mem g (Mixed_bank il) = None \<or> (stride \<noteq> 0 \<and> nat slot > UINT64_MAX div stride)
        then (False, g)
        else upd_mem g (gpu_tensor_write (flash_mem g) (Mixed_bank il) (nat slot * stride) src)
      else write_families g il slot src [0, 1, 2])"

definition mark_slot_modified :: "graph \<Rightarrow> nat \<Rightarrow> int \<Rightarrow> bool" where
  "mark_slot_modified g il slot =
     (if \<not> slot_ok g il slot then False
      else let layer = flash_moe g ! il; stride = expert_stride layer in
      if flash_per_expert_buffers g \<or> flash_per_slot_buffers g then
        let slot_limit = (if flash_per_expert_buffers g then n_expert g else slot_bank g)
        in if slot \<ge> int slot_limit \<or> flash_mem g (Expert_bank il (nat slot)) = None then False
           else gpu_tensor_did_modify (flash_mem g) (Expert_bank il (nat slot)) 0 stride
      else if flash_mixed_slot_bank g then
        if flash_chunked_mixed_bank g then
          (case chunk_for_slot g slot of None \<Rightarrow> False
           | Some (chunk, loc, _) \<Rightarrow>
               if flash_mem g (Chunk_mixed_bank il chunk) = None \<or> (stride \<noteq> 0 \<and> loc > UINT64_MAX div stride)
               then False
               else gpu_tensor_did_modify (flash_mem g) (Chunk_mixed_bank il chunk) (loc * stride) stride)
        else if flash_mem g (Mixed_bank il) = None \<or> (stride \<noteq> 0 \<and> nat slot > UINT64_MAX div stride)
        then False
        else gpu_tensor_did_modify (flash_mem g) (Mixed_bank il) (nat slot * stride) stride
      else list_all (\<lambda>fam. gpu_tensor_did_modify (flash_mem g) (family_tensor il fam)
             (wrap64 (nat slot * (family_bytes layer ! fam))) (family_bytes layer ! fam)) [0, 1, 2])"

text \<open>What the kernels are given of a slot: the bytes of one family.\<close>

definition family_slot_view :: "graph \<Rightarrow> nat \<Rightarrow> nat \<Rightarrow> int \<Rightarrow> bytes option" where
  "family_slot_view g il fam slot =
     (if fam \<ge> 3 \<or> \<not> slot_ok g il slot then None
      else let layer = flash_moe g ! il; stride = expert_stride layer;
               off = family_offset layer ! fam; n = family_bytes layer ! fam in
      if flash_per_slot_buffers g then
        if slot \<ge> int (slot_bank g) \<or> flash_mem g (Expert_bank il (nat slot)) = None then None
        else gpu_tensor_view (flash_mem g) (Expert_bank il (nat slot)) off n
      else if flash_chunked_mixed_bank g then
        (case chunk_for_slot g slot of None \<Rightarrow> None
         | Some (chunk, loc, slots) \<Rightarrow>
             if flash_mem g (Chunk_mixed_bank il chunk) = None \<or> loc \<ge> slots
                \<or> (stride \<noteq> 0 \<and> loc > UINT64_MAX div stride) then None
             else gpu_tensor_view (flash_mem g) (Chunk_mixed_bank il chunk) (off + loc * stride) n)
      else
        let slot_stride = (if flash_mixed_slot_bank g then stride else n)
        in if slot_stride \<noteq> 0 \<and> nat slot > UINT64_MAX div slot_stride then None
           else if flash_mixed_slot_bank g
           then gpu_tensor_view (flash_mem g) (Mixed_bank il) (off + nat slot * slot_stride) n
           else gpu_tensor_view (flash_mem g) (family_tensor il fam) (nat slot * slot_stride) n)"

end
