(* ===== verification/Moe_Cache.thy ===== *)
theory Moe_Cache
  imports Moe_Graph
begin

text \<open>
  The slot cache of Flash-MoE (\<open>src/ds4.c\<close>): the replay plan, the shared eviction policy, the two
  second-level caches, the synchronous install of prefill, the reserve/upload/commit protocol of
  decode, and the cache reset.
\<close>

section \<open>The replay plan\<close>

definition replay_ix :: "graph \<Rightarrow> nat \<Rightarrow> int \<Rightarrow> nat" where
  "replay_ix g il slot = il * slot_bank g + nat slot"

definition replay_invalidate_slot :: "moe_env \<Rightarrow> nat \<Rightarrow> int \<Rightarrow> graph \<Rightarrow> graph" where
  "replay_invalidate_slot env il slot g =
     (if \<not> env_replay_plan env then g
      else if \<not> slot_ok g il slot then g
      else
        let i = replay_ix g il slot
        in g\<lparr>flash_replay_invalidations :=
               (if flash_replay_slot_valid g ! i \<or> flash_replay_slot_expert g ! i \<ge> 0
                then flash_replay_invalidations g + 1 else flash_replay_invalidations g),
             flash_replay_slot_valid := (flash_replay_slot_valid g)[i := False],
             flash_replay_slot_expert := (flash_replay_slot_expert g)[i := -1]\<rparr>)"

definition replay_mark_resident_missing :: "moe_env \<Rightarrow> nat \<Rightarrow> int \<Rightarrow> int \<Rightarrow> graph \<Rightarrow> graph" where
  "replay_mark_resident_missing env il slot true_expert g =
     (if \<not> env_replay_plan env then g
      else if \<not> slot_ok g il slot \<or> \<not> expert_ok g il true_expert then g
      else
        let i = replay_ix g il slot
        in g\<lparr>flash_replay_slot_expert := (flash_replay_slot_expert g)[i := true_expert],
             flash_replay_slot_valid := (flash_replay_slot_valid g)[i := False]\<rparr>)"

definition overwrite_prefix :: "'a list \<Rightarrow> 'a list \<Rightarrow> 'a list" where
  "overwrite_prefix new old = new @ drop (length new) old"

definition record_decode_slots :: "moe_env \<Rightarrow> graph \<Rightarrow> nat \<Rightarrow> int list \<Rightarrow> int list \<Rightarrow> nat \<Rightarrow> graph" where
  "record_decode_slots env g il true_ids slot_ids n_ids =
     (if \<not> (env_replay_plan env \<or> env_mixed_slots6_grouped env
             \<or> flash_chunked_mixed_bank g \<or> flash_direct_mmap_bank g
             \<or> flash_per_expert_buffers g \<or> flash_per_slot_buffers g) then g
      else if il \<ge> n_layer g \<or> n_ids > MAX_EXPERT_USED then g
      else g\<lparr>flash_decode_true_ids := (flash_decode_true_ids g)
                [il := overwrite_prefix (take n_ids true_ids) (flash_decode_true_ids g ! il)],
             flash_decode_slot_ids := (flash_decode_slot_ids g)
                [il := overwrite_prefix (take n_ids slot_ids) (flash_decode_slot_ids g ! il)],
             flash_decode_ids_valid := (flash_decode_ids_valid g)[il := True]\<rparr>)"

text \<open>The loop over the routes of a decode step; \<open>seen\<close> are the slots met before.\<close>

fun note_replay_loop :: "nat \<Rightarrow> (int \<times> int) list \<Rightarrow> int list \<Rightarrow> graph \<Rightarrow> graph" where
  "note_replay_loop il [] seen g = g"
| "note_replay_loop il ((true_expert, slot) # ids) seen g =
     (if \<not> expert_ok g il true_expert \<or> \<not> slot_ok g il slot then note_replay_loop il ids seen g
      else if slot < int MAX_EXPERT \<and> slot \<in> set seen then note_replay_loop il ids seen g
      else
        let seen = (if slot < int MAX_EXPERT then slot # seen else seen); i = replay_ix g il slot
        in if flash_replay_slot_valid g ! i \<and> flash_replay_slot_expert g ! i = true_expert
           then note_replay_loop il ids seen (g\<lparr>flash_replay_hits := flash_replay_hits g + 1\<rparr>)
           else note_replay_loop il ids seen
             (g\<lparr>flash_replay_misses := flash_replay_misses g + 1,
                flash_replay_builds := flash_replay_builds g + 1,
                flash_replay_slot_expert := (flash_replay_slot_expert g)[i := true_expert],
                flash_replay_slot_valid := (flash_replay_slot_valid g)[i := True]\<rparr>))"

definition note_replay_plan_use :: "moe_env \<Rightarrow> graph \<Rightarrow> nat \<Rightarrow> nat \<Rightarrow> graph" where
  "note_replay_plan_use env g il n_ids =
     (if \<not> env_replay_plan env then g
      else if il \<ge> n_layer g \<or> \<not> flash_decode_ids_valid g ! il then g
      else let n_ids = (if n_ids > MAX_EXPERT_USED then MAX_EXPERT_USED else n_ids)
           in note_replay_loop il
                (take n_ids (zip (flash_decode_true_ids g ! il) (flash_decode_slot_ids g ! il))) [] g)"

section \<open>Residency and the eviction policy\<close>

definition find_resident_slot :: "graph \<Rightarrow> nat \<Rightarrow> int \<Rightarrow> int option" where
  "find_resident_slot g il true_expert =
     (if \<not> expert_ok g il true_expert then None
      else resident_slot (n_expert g) (l1 g) il true_expert)"

definition record_prefill_slot_cache :: "graph \<Rightarrow> u32 \<Rightarrow> u64 \<Rightarrow> u64 \<Rightarrow> graph" where
  "record_prefill_slot_cache g refs hits_before misses_before =
     (let g = g\<lparr>flash_prefill_slot_refs := flash_prefill_slot_refs g + ucast refs\<rparr>
      in if flash_misses g > misses_before
         then g\<lparr>flash_prefill_slot_installs := flash_prefill_slot_installs g + (flash_misses g - misses_before)\<rparr>
         else if flash_hits g > hits_before
         then g\<lparr>flash_prefill_slot_hits := flash_prefill_slot_hits g + (flash_hits g - hits_before)\<rparr>
         else g)"

text \<open>\<open>protected\<close> and \<open>reserved\<close> are \<^const>\<open>None\<close> where the pointer is NULL.\<close>

definition is_reserved :: "(nat \<Rightarrow> bool) option \<Rightarrow> nat \<Rightarrow> bool" where
  "is_reserved reserved i = (case reserved of None \<Rightarrow> False | Some r \<Rightarrow> r i)"

definition is_protected :: "(nat \<Rightarrow> bool) option \<Rightarrow> nat \<Rightarrow> int \<Rightarrow> bool" where
  "is_protected protected ne e =
     (case protected of None \<Rightarrow> False | Some p \<Rightarrow> in_expert ne e \<and> p (nat e))"

definition pick_slot :: "nat \<Rightarrow> slot_map \<Rightarrow> nat \<Rightarrow> (nat \<Rightarrow> bool) option \<Rightarrow> (nat \<Rightarrow> bool) option \<Rightarrow> nat option" where
  "pick_slot ne m il protected reserved =
     (let free = filter (\<lambda>i. \<not> is_reserved reserved i) [0..<sm_bank m]
      in case find (\<lambda>i. s2e m il (int i) < 0) free of
           Some i \<Rightarrow> Some i
         | None \<Rightarrow>
             (case oldest_slot m il (filter (\<lambda>i. \<not> is_protected protected ne (s2e m il (int i))) free) of
                Some i \<Rightarrow> Some i
              | None \<Rightarrow> oldest_slot m il free))"

text \<open>The second-level caches always evict: an empty slot, else the oldest, else slot 0.\<close>

definition l2_pick_slot :: "slot_map \<Rightarrow> nat \<Rightarrow> nat" where
  "l2_pick_slot m il =
     (case find (\<lambda>i. s2e m il (int i) < 0) [0..<sm_bank m] of
        Some i \<Rightarrow> i
      | None \<Rightarrow> (case oldest_slot m il [0..<sm_bank m] of Some i \<Rightarrow> i | None \<Rightarrow> 0))"

section \<open>The CPU-backed L2\<close>

definition l2_idx :: "graph \<Rightarrow> nat \<Rightarrow> nat \<Rightarrow> nat" where
  "l2_idx g il slot = il * sm_bank (l2 g) + slot"

definition count_eviction :: "nat \<Rightarrow> slot_map \<Rightarrow> nat \<Rightarrow> int \<Rightarrow> int \<Rightarrow> int \<Rightarrow> bool" where
  "count_eviction ne m il evicted true_expert slot \<longleftrightarrow>
     in_expert ne evicted \<and> evicted \<noteq> true_expert \<and> e2s m ne il evicted = slot"

text \<open>\<open>src\<close> are the bytes from the source pointer on; \<open>expert_stride\<close> of them are copied.  The
  allocator of the buffers (\<open>xmalloc\<close>) exits on failure.\<close>

definition l2_store_record :: "graph \<Rightarrow> nat \<Rightarrow> int \<Rightarrow> bytes \<Rightarrow> bool \<times> graph" where
  "l2_store_record g il true_expert src =
     (if sm_bank (l2 g) = 0 \<or> \<not> expert_ok g il true_expert then (False, g)
      else
        let stride = expert_stride (flash_moe g ! il); m = l2 g;
            slot = (case resident_slot (n_expert g) m il true_expert of
                      Some s \<Rightarrow> nat s | None \<Rightarrow> l2_pick_slot m il);
            idx = l2_idx g il slot;
            g = (if l2_buf g ! idx = None
                 then g\<lparr>l2_allocated_bytes :=
                        (if l2_allocated_bytes g \<le> UINT64_MAX - stride
                         then l2_allocated_bytes g + stride else UINT64_MAX)\<rparr>
                 else g);
            evicted = s2e m il (int slot);
            gone = count_eviction (n_expert g) m il evicted true_expert (int slot);
            m = (if gone then unmap_evicted (n_expert g) il evicted (int slot) m else m)
        in (True, g\<lparr>l2_evictions := (if gone then l2_evictions g + 1 else l2_evictions g),
                    l2_buf := (l2_buf g)[idx := Some (take stride src)],
                    flash_age := flash_age g + 1,
                    l2 := assign_slot (n_expert g) il true_expert (int slot) (flash_age g + 1) m,
                    l2_installs := l2_installs g + 1\<rparr>))"

definition l2_lookup :: "graph \<Rightarrow> nat \<Rightarrow> int \<Rightarrow> bytes option \<times> graph" where
  "l2_lookup g il true_expert =
     (if sm_bank (l2 g) = 0 \<or> \<not> expert_ok g il true_expert then (None, g)
      else case resident_slot (n_expert g) (l2 g) il true_expert of
        None \<Rightarrow> (None, g\<lparr>l2_misses := l2_misses g + 1\<rparr>)
      | Some slot \<Rightarrow>
          (case l2_buf g ! l2_idx g il (nat slot) of
             None \<Rightarrow> (None, g\<lparr>l2_misses := l2_misses g + 1\<rparr>)
           | Some src \<Rightarrow>
               (Some src, g\<lparr>flash_age := flash_age g + 1,
                            l2 := set_age il slot (flash_age g + 1) (l2 g),
                            l2_hits := l2_hits g + 1\<rparr>)))"

definition l2_store_l1_slot :: "moe_env \<Rightarrow> graph \<Rightarrow> nat \<Rightarrow> int \<Rightarrow> int \<Rightarrow> bool \<times> graph" where
  "l2_store_l1_slot env g il true_expert l1_slot =
     (if sm_bank (l2 g) = 0 \<or> \<not> flash_mixed_slot_bank g \<or> true_expert < 0 \<or> l1_slot < 0 then (False, g)
      else case mixed_slot_ptr env g il l1_slot of
        (None, g) \<Rightarrow> (False, g)
      | (Some (t, off), g) \<Rightarrow> l2_store_record g il true_expert (drop off (the (flash_mem g t))))"

section \<open>The GPU victim L2\<close>

definition gpu_l2_copy_record ::
  "moe_env \<Rightarrow> graph \<Rightarrow> nat \<Rightarrow> tensor_ref \<Rightarrow> nat \<Rightarrow> tensor_ref \<Rightarrow> nat \<Rightarrow> bool \<times> graph" where
  "gpu_l2_copy_record env g il dst dst_slot src src_slot =
     (if il \<ge> n_layer g \<or> flash_mem g dst = None \<or> flash_mem g src = None then (False, g)
      else
        let n = expert_stride (flash_moe g ! il)
        in upd_mem g (gpu_tensor_copy (env_gpu_copy env) (flash_mem g) dst (wrap64 (dst_slot * n))
                        src (wrap64 (src_slot * n)) n))"

definition gpu_l2_guard :: "graph \<Rightarrow> nat \<Rightarrow> int \<Rightarrow> int \<Rightarrow> bool" where
  "gpu_l2_guard g il true_expert l1_slot \<longleftrightarrow>
     sm_bank (gpu_l2 g) \<noteq> 0 \<and> expert_ok g il true_expert \<and> slot_ok g il l1_slot
     \<and> flash_mem g (Mixed_bank il) \<noteq> None \<and> flash_mem g (Gpu_l2_mixed_bank il) \<noteq> None"

definition gpu_l2_store_l1_slot :: "moe_env \<Rightarrow> graph \<Rightarrow> nat \<Rightarrow> int \<Rightarrow> int \<Rightarrow> bool \<times> graph" where
  "gpu_l2_store_l1_slot env g il true_expert l1_slot =
     (if \<not> gpu_l2_guard g il true_expert l1_slot then (False, g)
      else
        let m = gpu_l2 g;
            l2_slot = (case resident_slot (n_expert g) m il true_expert of
                         Some s \<Rightarrow> nat s | None \<Rightarrow> l2_pick_slot m il);
            evicted = s2e m il (int l2_slot);
            (ok, g) = gpu_l2_copy_record env g il (Gpu_l2_mixed_bank il) l2_slot (Mixed_bank il) (nat l1_slot)
        in if \<not> ok then (False, g)
           else
             let gone = count_eviction (n_expert g) m il evicted true_expert (int l2_slot);
                 m = (if gone then unmap_evicted (n_expert g) il evicted (int l2_slot) m else m)
             in (True, g\<lparr>gpu_l2_evictions := (if gone then gpu_l2_evictions g + 1 else gpu_l2_evictions g),
                         flash_age := flash_age g + 1,
                         gpu_l2 := assign_slot (n_expert g) il true_expert (int l2_slot) (flash_age g + 1) m,
                         gpu_l2_installs := gpu_l2_installs g + 1\<rparr>))"

definition gpu_l2_promote_to_l1 :: "moe_env \<Rightarrow> graph \<Rightarrow> nat \<Rightarrow> int \<Rightarrow> int \<Rightarrow> bool \<times> graph" where
  "gpu_l2_promote_to_l1 env g il true_expert l1_slot =
     (if \<not> gpu_l2_guard g il true_expert l1_slot then (False, g)
      else case resident_slot (n_expert g) (gpu_l2 g) il true_expert of
        None \<Rightarrow> (False, g\<lparr>gpu_l2_misses := gpu_l2_misses g + 1\<rparr>)
      | Some l2_slot \<Rightarrow>
          let (ok, g) = gpu_l2_copy_record env g il (Mixed_bank il) (nat l1_slot) (Gpu_l2_mixed_bank il) (nat l2_slot)
          in if \<not> ok then (False, g)
             else (True, g\<lparr>flash_age := flash_age g + 1,
                           gpu_l2 := set_age il l2_slot (flash_age g + 1) (gpu_l2 g),
                           gpu_l2_hits := gpu_l2_hits g + 1\<rparr>))"

end
