(* ===== verification/Moe_Store.thy ===== *)
theory Moe_Store
  imports Moe_Cache
begin

text \<open>
  The slots as a store: what is read from a slot after a record was written to it, in every layout.
  The contract is the locale \<open>slot_store\<close>; its clients are proved once, from the laws only, that
  a cache which writes a slot before it maps an expert to it never shows another expert's bytes.
  It is interpreted on the staged write of the slot bank and on the buffers of the CPU L2.
\<close>

section \<open>The contract\<close>

locale slot_store =
  fixes view :: "'g \<Rightarrow> nat \<Rightarrow> nat \<Rightarrow> int \<Rightarrow> bytes option"
    and store :: "'g \<Rightarrow> nat \<Rightarrow> int \<Rightarrow> bytes \<Rightarrow> bool \<times> 'g"
    and part :: "'g \<Rightarrow> nat \<Rightarrow> nat \<Rightarrow> bytes \<Rightarrow> bytes"
    and valid :: "'g \<Rightarrow> nat \<Rightarrow> int \<Rightarrow> bool"
    and record_ok :: "'g \<Rightarrow> nat \<Rightarrow> bytes \<Rightarrow> bool"
    and inv :: "'g \<Rightarrow> bool"
  assumes write_inv: "inv g \<Longrightarrow> valid g il s \<Longrightarrow> record_ok g il src \<Longrightarrow> store g il s src = (b, g') \<Longrightarrow> inv g'"
    and write_part: "inv g \<Longrightarrow> valid g il s \<Longrightarrow> record_ok g il src \<Longrightarrow> store g il s src = (b, g') \<Longrightarrow> part g' = part g"
    and write_view: "inv g \<Longrightarrow> valid g il s \<Longrightarrow> record_ok g il src \<Longrightarrow> store g il s src = (True, g')
      \<Longrightarrow> f < 3 \<Longrightarrow> view g' il f s = Some (part g il f src)"
    and write_other: "inv g \<Longrightarrow> valid g il s \<Longrightarrow> record_ok g il src \<Longrightarrow> store g il s src = (b, g')
      \<Longrightarrow> valid g il' s' \<Longrightarrow> il' \<noteq> il \<or> s' \<noteq> s \<Longrightarrow> view g' il' f s' = view g il' f s'"
begin

definition holds :: "'g \<Rightarrow> nat \<Rightarrow> int \<Rightarrow> bytes \<Rightarrow> bool" where
  "holds g il s rec \<longleftrightarrow> (\<forall>f < 3. view g il f s = Some (part g il f rec))"

text \<open>The occupants of the slots are shown right when every occupied slot holds its occupant's
  record.\<close>

definition shows_records :: "'g \<Rightarrow> (nat \<Rightarrow> int \<Rightarrow> int option) \<Rightarrow> (nat \<Rightarrow> int \<Rightarrow> bytes) \<Rightarrow> bool" where
  "shows_records g occupant rec \<longleftrightarrow>
     (\<forall>il s e. occupant il s = Some e \<longrightarrow> valid g il s \<and> holds g il s (rec il e))"

lemma holds_written:
  assumes "inv g" "valid g il s" "record_ok g il src" "store g il s src = (True, g')"
  shows "holds g' il s src"
  using write_view [OF assms] write_part [OF assms(1-4)] by (simp add: holds_def)

lemma holds_other:
  assumes "inv g" "valid g il s" "record_ok g il src" "store g il s src = (b, g')"
    and "valid g il' s'" "il' \<noteq> il \<or> s' \<noteq> s" "holds g il' s' rec"
  shows "holds g' il' s' rec"
  using assms(7) write_other [OF assms(1-6)] write_part [OF assms(1-4)] by (simp add: holds_def)

text \<open>A change that no other slot shows; a slot filled with a record.\<close>

definition touched :: "'g \<Rightarrow> nat \<Rightarrow> int \<Rightarrow> 'g \<Rightarrow> bool" where
  "touched g il s g' \<longleftrightarrow> part g' = part g
     \<and> (\<forall>il' s' f. valid g il' s' \<longrightarrow> il' \<noteq> il \<or> s' \<noteq> s \<longrightarrow> view g' il' f s' = view g il' f s')"

definition filled :: "'g \<Rightarrow> nat \<Rightarrow> int \<Rightarrow> bytes \<Rightarrow> 'g \<Rightarrow> bool" where
  "filled g il s src g' \<longleftrightarrow> holds g' il s src \<and> touched g il s g'"

lemma touched_refl [simp]: "touched g il s g"
  by (simp add: touched_def)

lemma touched_filled: "touched g il s h \<Longrightarrow> filled h il s src g' \<Longrightarrow> valid h = valid g \<Longrightarrow> filled g il s src g'"
  by (simp add: touched_def filled_def)

lemma store_touched:
  assumes "inv g" "valid g il s" "record_ok g il src" "store g il s src = (b, g')"
  shows "touched g il s g'"
  using write_part [OF assms] write_other [OF assms] by (auto simp: touched_def)

lemma store_filled:
  assumes "inv g" "valid g il s" "record_ok g il src" "store g il s src = (True, g')"
  shows "filled g il s src g'"
  using holds_written [OF assms] store_touched [OF assms] by (auto simp: filled_def)

text \<open>Filling a slot with an expert's record and then making it the occupant of that slot.\<close>

lemma install_shows:
  assumes "valid g il s" "filled g il s (rec il e) g'"
    and "shows_records g occ rec" "\<And>il s. valid g' il s = valid g il s"
    and "\<And>il' t x. occ' il' t = Some x \<Longrightarrow> (if il' = il \<and> t = s then x = e else occ il' t = Some x)"
  shows "shows_records g' occ' rec"
  unfolding shows_records_def
proof (intro allI impI)
  fix il' t x assume a: "occ' il' t = Some x"
  show "valid g' il' t \<and> holds g' il' t (rec il' x)"
  proof (cases "il' = il \<and> t = s")
    case True
    then show ?thesis using assms(1,2,4) assms(5) [OF a] by (simp add: filled_def)
  next
    case False
    then have "occ il' t = Some x" using assms(5) [OF a] by auto
    then have "valid g il' t" "holds g il' t (rec il' x)" using assms(3) by (auto simp: shows_records_def)
    then show ?thesis using assms(2,4) False by (auto simp: filled_def touched_def holds_def)
  qed
qed

text \<open>A write that may have failed half-way, after which the slot has no occupant any more.\<close>

lemma drop_slot_shows:
  assumes "inv g" "valid g il s" "record_ok g il src" "store g il s src = (b, g')"
    and "shows_records g occ rec" "\<And>il s. valid g' il s = valid g il s"
    and "\<And>il' t x. occ' il' t = Some x \<Longrightarrow> occ il' t = Some x \<and> (il' \<noteq> il \<or> t \<noteq> s)"
  shows "shows_records g' occ' rec"
  using assms(5) holds_other [OF assms(1-4)] assms(6,7) unfolding shows_records_def by blast

end

section \<open>Regions of a tensor\<close>

lemma view_after_put:
  assumes "mem t = Some b" "o' + length src \<le> length b"
  shows "o' \<le> off \<Longrightarrow> off + n \<le> o' + length src \<Longrightarrow>
      gpu_tensor_view (mem(t := Some (put_at o' src b))) t off n = Some (get_at (off - o') n src)"
    and "off + n \<le> o' \<or> o' + length src \<le> off \<Longrightarrow>
      gpu_tensor_view (mem(t := Some (put_at o' src b))) t off n = gpu_tensor_view mem t off n"
proof -
  have len: "length (put_at o' src b) = length b" using assms(2) by (rule length_put_at)
  show "gpu_tensor_view (mem(t := Some (put_at o' src b))) t off n = Some (get_at (off - o') n src)"
    if "o' \<le> off" "off + n \<le> o' + length src"
  proof -
    have "get_at off n (put_at o' src b) = get_at (off - o') n src"
      using that assms(2) by (simp add: get_at_def put_at_def drop_take)
    then show ?thesis using that assms(2) len by (simp add: gpu_tensor_view_def)
  qed
  show "gpu_tensor_view (mem(t := Some (put_at o' src b))) t off n = gpu_tensor_view mem t off n"
    if "off + n \<le> o' \<or> o' + length src \<le> off"
    using get_at_put_at_disjoint [OF that assms(2)] len assms(1) by (simp add: gpu_tensor_view_def)
qed

lemma view_other_tensor: "t' \<noteq> t \<Longrightarrow> gpu_tensor_view (mem(t := v)) t' off n = gpu_tensor_view mem t' off n"
  by (simp add: gpu_tensor_view_def)

lemma tensor_write_Some:
  "gpu_tensor_write mem t off src = Some mem' \<longleftrightarrow>
     (\<exists>b. mem t = Some b \<and> off + length src \<le> length b \<and> mem' = mem(t := Some (put_at off src b)))"
  by (auto simp: gpu_tensor_write_def split: option.splits)

lemma slots_disjoint:
  assumes "i \<noteq> j" "a + n \<le> (st :: nat)"
  shows "a + i * st + n \<le> j * st \<or> j * st + st \<le> a + i * st"
proof (cases "i < j")
  case True
  then have "Suc i * st \<le> j * st" by (intro mult_right_mono) auto
  then show ?thesis using assms(2) by simp
next
  case False
  then have "Suc j * st \<le> i * st" using assms(1) by (intro mult_right_mono) auto
  then show ?thesis by simp
qed

section \<open>Well-formed graphs\<close>

definition layer_wf :: "nat \<Rightarrow> nat \<Rightarrow> layer_sidecar \<Rightarrow> bool" where
  "layer_wf ne bank layer \<longleftrightarrow>
     length (family_offset layer) = 3 \<and> length (family_bytes layer) = 3
     \<and> (\<forall>f < 3. family_offset layer ! f + family_bytes layer ! f \<le> expert_stride layer)
     \<and> ne * expert_stride layer \<le> length (layer_fd layer) \<and> length (layer_fd layer) < 2 ^ 63
     \<and> bank * expert_stride layer < 2 ^ 64"

definition layout_wf :: "graph \<Rightarrow> bool" where
  "layout_wf g \<longleftrightarrow>
     (flash_per_slot_buffers g \<longrightarrow> \<not> flash_mixed_slot_bank g)
     \<and> (flash_chunked_mixed_bank g \<longrightarrow> flash_mixed_slot_bank g)
     \<and> (flash_per_expert_buffers g \<longrightarrow> \<not> flash_mixed_slot_bank g \<and> \<not> flash_per_slot_buffers g)
     \<and> (flash_direct_mmap_bank g \<longrightarrow> flash_mixed_slot_bank g \<and> \<not> flash_chunked_mixed_bank g)"

definition graph_wf :: "graph \<Rightarrow> bool" where
  "graph_wf g \<longleftrightarrow> length (flash_moe g) = n_layer g \<and> layout_wf g
     \<and> (\<forall>il < n_layer g. layer_wf (n_expert g) (slot_bank g) (flash_moe g ! il))"

text \<open>The record of an expert in the sidecar file, and its families.\<close>

definition expert_record :: "graph \<Rightarrow> nat \<Rightarrow> int \<Rightarrow> bytes" where
  "expert_record g il e =
     (let layer = flash_moe g ! il
      in get_at (nat e * expert_stride layer) (expert_stride layer) (layer_fd layer))"

definition family_part :: "graph \<Rightarrow> nat \<Rightarrow> nat \<Rightarrow> bytes \<Rightarrow> bytes" where
  "family_part g il f src =
     (let layer = flash_moe g ! il in get_at (family_offset layer ! f) (family_bytes layer ! f) src)"

definition stride_ok :: "graph \<Rightarrow> nat \<Rightarrow> bytes \<Rightarrow> bool" where
  "stride_ok g il src \<longleftrightarrow> length src = expert_stride (flash_moe g ! il)"

text \<open>Everything but the memory and the byte counter of the lazily allocated buffers.\<close>

definition same_but_mem :: "graph \<Rightarrow> graph \<Rightarrow> bool" where
  "same_but_mem g g' \<longleftrightarrow>
     g' = g\<lparr>flash_mem := flash_mem g', flash_per_expert_bank_bytes := flash_per_expert_bank_bytes g'\<rparr>"

lemma same_but_mem_iff:
  "same_but_mem g g' \<longleftrightarrow> (\<exists>m k. g' = g\<lparr>flash_mem := m, flash_per_expert_bank_bytes := k\<rparr>)"
  by (auto simp: same_but_mem_def)

lemma same_but_mem_refl [simp]: "same_but_mem g g"
  by (simp add: same_but_mem_def)

lemma same_but_mem_trans: "same_but_mem a b \<Longrightarrow> same_but_mem b c \<Longrightarrow> same_but_mem a c"
  by (auto simp: same_but_mem_iff) blast

lemma same_but_mem_upd [simp]: "same_but_mem g (g\<lparr>flash_mem := m\<rparr>)"
  by (simp add: same_but_mem_def)

lemma same_but_mem_fields:
  assumes "same_but_mem g g'"
  shows "n_layer g' = n_layer g" "n_expert g' = n_expert g" "flash_moe g' = flash_moe g"
    "flash_mixed_slot_bank g' = flash_mixed_slot_bank g" "flash_direct_mmap_bank g' = flash_direct_mmap_bank g"
    "flash_chunked_mixed_bank g' = flash_chunked_mixed_bank g" "flash_per_slot_buffers g' = flash_per_slot_buffers g"
    "flash_per_expert_buffers g' = flash_per_expert_buffers g" "flash_chunk_slots g' = flash_chunk_slots g"
    "flash_chunk_count g' = flash_chunk_count g" "l1 g' = l1 g" "l2 g' = l2 g" "l2_buf g' = l2_buf g"
    "gpu_l2 g' = gpu_l2 g" "flash_age g' = flash_age g" "slot_bank g' = slot_bank g"
    "slot_ok g' = slot_ok g" "expert_ok g' = expert_ok g" "graph_wf g' = graph_wf g"
    "family_part g' = family_part g" "stride_ok g' = stride_ok g" "expert_record g' = expert_record g"
    "chunk_for_slot g' = chunk_for_slot g"
proof -
  obtain m k where "g' = g\<lparr>flash_mem := m, flash_per_expert_bank_bytes := k\<rparr>"
    using assms unfolding same_but_mem_def by blast
  then show "n_layer g' = n_layer g" "n_expert g' = n_expert g" "flash_moe g' = flash_moe g"
    "flash_mixed_slot_bank g' = flash_mixed_slot_bank g" "flash_direct_mmap_bank g' = flash_direct_mmap_bank g"
    "flash_chunked_mixed_bank g' = flash_chunked_mixed_bank g" "flash_per_slot_buffers g' = flash_per_slot_buffers g"
    "flash_per_expert_buffers g' = flash_per_expert_buffers g" "flash_chunk_slots g' = flash_chunk_slots g"
    "flash_chunk_count g' = flash_chunk_count g" "l1 g' = l1 g" "l2 g' = l2 g" "l2_buf g' = l2_buf g"
    "gpu_l2 g' = gpu_l2 g" "flash_age g' = flash_age g" "slot_bank g' = slot_bank g"
    "slot_ok g' = slot_ok g" "expert_ok g' = expert_ok g" "graph_wf g' = graph_wf g"
    "family_part g' = family_part g" "stride_ok g' = stride_ok g" "expert_record g' = expert_record g"
    "chunk_for_slot g' = chunk_for_slot g"
    by (auto simp: slot_bank_def slot_ok_def expert_ok_def graph_wf_def layout_wf_def family_part_def
        stride_ok_def expert_record_def chunk_for_slot_def Let_def fun_eq_iff)
qed

section \<open>Where the records lie\<close>

text \<open>In the layouts that keep a record in one piece: the tensor of a slot and its offset there.\<close>

definition home :: "graph \<Rightarrow> nat \<Rightarrow> int \<Rightarrow> (tensor_ref \<times> nat) option" where
  "home g il slot =
     (let stride = expert_stride (flash_moe g ! il) in
      if flash_per_slot_buffers g then Some (Expert_bank il (nat slot), 0)
      else if flash_chunked_mixed_bank g then
        map_option (\<lambda>(chunk, loc, _). (Chunk_mixed_bank il chunk, loc * stride)) (chunk_for_slot g slot)
      else Some (Mixed_bank il, nat slot * stride))"

definition whole_layout :: "graph \<Rightarrow> bool" where
  "whole_layout g \<longleftrightarrow> flash_per_slot_buffers g \<or> flash_mixed_slot_bank g"

lemma home_same:
  assumes "same_but_mem g g'"
  shows "home g' = home g" "whole_layout g' = whole_layout g"
  by (simp_all add: fun_eq_iff home_def Let_def whole_layout_def same_but_mem_fields [OF assms])

lemma chunk_for_slot_Some:
  assumes "chunk_for_slot g slot = Some (chunk, loc, slots)"
  shows "loc < slots" "loc < flash_chunk_slots g" "nat slot = chunk * flash_chunk_slots g + loc" "0 \<le> slot"
    "loc \<le> nat slot" "slot < int (slot_bank g)"
proof -
  let ?c = "flash_chunk_slots g"
  have c: "chunk = nat slot div ?c" "loc = nat slot - chunk * ?c" "?c \<noteq> 0" "0 \<le> slot" "slot < int (slot_bank g)"
    "loc < slots" "slots \<le> ?c"
    using assms by (auto simp: chunk_for_slot_def Let_def split: if_splits)
  have "chunk * ?c \<le> nat slot" using c(1) by simp
  then show "loc < slots" "loc < ?c" "nat slot = chunk * ?c + loc" "0 \<le> slot" "loc \<le> nat slot"
    "slot < int (slot_bank g)" using c by auto
qed

lemma wf_layer:
  assumes "graph_wf g" "slot_ok g il slot"
  shows "layer_wf (n_expert g) (slot_bank g) (flash_moe g ! il)" "nat slot < slot_bank g" "0 \<le> slot" "il < n_layer g"
    "nat slot * expert_stride (flash_moe g ! il) < 2 ^ 64"
    "k \<le> nat slot \<Longrightarrow> expert_stride (flash_moe g ! il) \<noteq> 0 \<Longrightarrow> k \<le> UINT64_MAX div expert_stride (flash_moe g ! il)"
proof -
  let ?st = "expert_stride (flash_moe g ! il)"
  show l: "layer_wf (n_expert g) (slot_bank g) (flash_moe g ! il)" "nat slot < slot_bank g" "0 \<le> slot" "il < n_layer g"
    using assms by (auto simp: graph_wf_def slot_ok_def)
  have "nat slot * ?st \<le> slot_bank g * ?st" using l(2) by (intro mult_right_mono) auto
  also have "\<dots> < 2 ^ 64" using l(1) by (simp add: layer_wf_def)
  finally show b: "nat slot * ?st < 2 ^ 64" .
  show "k \<le> UINT64_MAX div ?st" if "k \<le> nat slot" "?st \<noteq> 0"
  proof -
    have "k * ?st \<le> nat slot * ?st" using that by (intro mult_right_mono) auto
    then have "k * ?st \<le> UINT64_MAX" using b unfolding UINT64_MAX_def by linarith
    then show ?thesis using that(2) by (simp add: less_eq_div_iff_mult_less_eq)
  qed
qed

lemma record_view:
  assumes "graph_wf g" "whole_layout g" "slot_ok g il slot" "f < 3"
  shows "family_slot_view g il f slot = (case home g il slot of None \<Rightarrow> None
    | Some (t, o') \<Rightarrow> gpu_tensor_view (flash_mem g) t (family_offset (flash_moe g ! il) ! f + o')
        (family_bytes (flash_moe g ! il) ! f))"
proof -
  note w = wf_layer [OF assms(1,3)]
  have lay: "flash_per_slot_buffers g \<or> flash_mixed_slot_bank g" "flash_chunked_mixed_bank g \<longrightarrow> flash_mixed_slot_bank g"
    using assms(1,2) by (auto simp: whole_layout_def graph_wf_def layout_wf_def)
  consider (slot) "flash_per_slot_buffers g" | (chunk) "\<not> flash_per_slot_buffers g" "flash_chunked_mixed_bank g"
    | (mixed) "\<not> flash_per_slot_buffers g" "\<not> flash_chunked_mixed_bank g" "flash_mixed_slot_bank g"
    using lay by blast
  then show ?thesis
  proof cases
    case slot
    then show ?thesis using assms(3,4)
      by (auto simp: family_slot_view_def home_def Let_def slot_ok_def gpu_tensor_view_def)
  next
    case chunk
    show ?thesis
    proof (cases "chunk_for_slot g slot")
      case None
      then show ?thesis using chunk assms(3,4) by (simp add: family_slot_view_def home_def Let_def)
    next
      case (Some a)
      obtain c loc n where a: "chunk_for_slot g slot = Some (c, loc, n)" using Some by (cases a) auto
      have "\<not> (expert_stride (flash_moe g ! il) \<noteq> 0 \<and> loc > UINT64_MAX div expert_stride (flash_moe g ! il))"
        "loc < n"
        using w(6) [OF chunk_for_slot_Some(5) [OF a]] chunk_for_slot_Some(1) [OF a] by auto
      then show ?thesis using chunk assms(3,4) a
        by (auto simp: family_slot_view_def home_def Let_def gpu_tensor_view_def)
    qed
  next
    case mixed
    then show ?thesis using assms(3,4) w(6) [of "nat slot"]
      by (auto simp: family_slot_view_def home_def Let_def)
  qed
qed

text \<open>Two slots have their records in different tensors or at disjoint places.\<close>

lemma home_apart:
  assumes "graph_wf g" "whole_layout g" "slot_ok g il s" "slot_ok g il' s'" "il' \<noteq> il \<or> s' \<noteq> s"
    and "home g il s = Some (t, o1)" "home g il' s' = Some (t', o2)"
    and "a + n \<le> expert_stride (flash_moe g ! il')"
  shows "t' \<noteq> t \<or> (il' = il \<and> (a + o2 + n \<le> o1 \<or> o1 + expert_stride (flash_moe g ! il) \<le> a + o2))"
proof -
  have ne: "nat s' \<noteq> nat s" if "il' = il" using assms(3-5) that by (auto simp: slot_ok_def)
  show ?thesis
  proof (cases "flash_chunked_mixed_bank g \<and> \<not> flash_per_slot_buffers g")
    case True
    then obtain c l n1 c' l' n2 where c: "chunk_for_slot g s = Some (c, l, n1)" "chunk_for_slot g s' = Some (c', l', n2)"
      and h: "t = Chunk_mixed_bank il c" "o1 = l * expert_stride (flash_moe g ! il)"
        "t' = Chunk_mixed_bank il' c'" "o2 = l' * expert_stride (flash_moe g ! il')"
      using assms(6,7) by (auto simp: home_def Let_def)
    show ?thesis
    proof (cases "t' = t")
      case True
      then have "il' = il" "c' = c" using h by auto
      moreover have "l' \<noteq> l"
        using ne [OF \<open>il' = il\<close>] chunk_for_slot_Some(3) [OF c(1)] chunk_for_slot_Some(3) [OF c(2)] \<open>c' = c\<close> by auto
      ultimately show ?thesis using slots_disjoint [of l' l a n "expert_stride (flash_moe g ! il)"] h assms(8) by auto
    qed simp
  next
    case False
    then show ?thesis
      using assms(6-8) ne slots_disjoint [of "nat s'" "nat s" a n "expert_stride (flash_moe g ! il)"]
      by (auto simp: home_def Let_def split: if_splits)
  qed
qed

section \<open>The staged write\<close>

lemma ensure_buffer:
  assumes "ensure_per_slot_buffer env g il slot = (ok, g')"
  shows "same_but_mem g g'"
    and "t \<noteq> Expert_bank il (nat slot) \<Longrightarrow> flash_mem g' t = flash_mem g t"
    and "ok \<Longrightarrow> flash_mem g' (Expert_bank il (nat slot)) \<noteq> None"
    and "ok \<Longrightarrow> slot_ok g il slot"
    and "flash_mem g t = Some b \<Longrightarrow> flash_mem g' t = Some b"
  using assms by (auto simp: ensure_per_slot_buffer_def same_but_mem_def Let_def split: if_splits)

text \<open>A write to the home of a slot in a memory that may just have got the slot's buffer.\<close>

definition home_write :: "graph \<Rightarrow> nat \<Rightarrow> int \<Rightarrow> bytes \<Rightarrow> graph \<Rightarrow> bool" where
  "home_write g il s src g' \<longleftrightarrow> same_but_mem g g'
     \<and> (\<exists>t o' b. home g il s = Some (t, o') \<and> (\<forall>t'. t' \<noteq> t \<longrightarrow> flash_mem g' t' = flash_mem g t')
          \<and> (flash_mem g t = Some b \<or> flash_mem g t = None \<and> flash_per_slot_buffers g) \<and> o' + length src \<le> length b
          \<and> flash_mem g' t = Some (put_at o' src b))"

text \<open>A failed write to the home of a slot: at most the slot's buffer has come into being.\<close>

definition home_idle :: "graph \<Rightarrow> nat \<Rightarrow> int \<Rightarrow> graph \<Rightarrow> bool" where
  "home_idle g il s g' \<longleftrightarrow> same_but_mem g g'
     \<and> (g' = g \<or> (flash_per_slot_buffers g \<and> (\<forall>t'. t' \<noteq> Expert_bank il (nat s) \<longrightarrow> flash_mem g' t' = flash_mem g t')))"

lemma write_home:
  assumes "graph_wf g" "whole_layout g" "slot_ok g il s" "write_slot_from_buf env g il s src = (b, g')"
  shows "if b then home_write g il s src g' else home_idle g il s g'"
proof -
  have lay: "flash_per_slot_buffers g \<or> flash_mixed_slot_bank g" "flash_chunked_mixed_bank g \<longrightarrow> flash_mixed_slot_bank g"
    using assms(1,2) by (auto simp: whole_layout_def graph_wf_def layout_wf_def)
  consider (slot) "flash_per_slot_buffers g" | (chunk) "\<not> flash_per_slot_buffers g" "flash_chunked_mixed_bank g" "flash_mixed_slot_bank g"
    | (mixed) "\<not> flash_per_slot_buffers g" "\<not> flash_chunked_mixed_bank g" "flash_mixed_slot_bank g"
    using lay by blast
  then show ?thesis
  proof cases
    case slot
    obtain ok h where e: "ensure_per_slot_buffer env g il s = (ok, h)" by force
    note eb = ensure_buffer [OF e]
    show ?thesis
    proof (cases b)
      case True
      then obtain m where m: "ok" "gpu_tensor_write (flash_mem h) (Expert_bank il (nat s)) 0 src = Some m"
        "g' = h\<lparr>flash_mem := m\<rparr>"
        using assms(3,4) slot e by (auto simp: write_slot_from_buf_def Let_def upd_mem_def split: if_splits option.splits)
      then obtain x where x: "flash_mem h (Expert_bank il (nat s)) = Some x" "length src \<le> length x"
        "m = (flash_mem h)(Expert_bank il (nat s) := Some (put_at 0 src x))"
        by (auto simp: tensor_write_Some)
      have "same_but_mem g g'" using same_but_mem_trans [OF eb(1)] m(3) by simp
      moreover have "flash_mem g (Expert_bank il (nat s)) = Some x \<or> flash_mem g (Expert_bank il (nat s)) = None"
        using eb(5) x(1) by (metis not_None_eq)
      ultimately show ?thesis using True slot m x eb(2)
        by (auto simp: home_write_def home_def)
    next
      case False
      then have "g' = h" using assms(3,4) slot e
        by (auto simp: write_slot_from_buf_def Let_def upd_mem_def split: if_splits option.splits)
      then show ?thesis using False slot eb(1,2) by (auto simp: home_idle_def)
    qed
  next
    case chunk
    then show ?thesis using assms(3,4)
      by (auto simp: write_slot_from_buf_def Let_def upd_mem_def tensor_write_Some home_write_def home_idle_def home_def
          split: if_splits option.splits)
  next
    case mixed
    then show ?thesis using assms(3,4)
      by (auto simp: write_slot_from_buf_def Let_def upd_mem_def tensor_write_Some home_write_def home_idle_def home_def
          split: if_splits option.splits)
  qed
qed

lemma home_write_view:
  assumes "graph_wf g" "whole_layout g" "slot_ok g il s" "stride_ok g il src" "home_write g il s src g'" "f < 3"
  shows "family_slot_view g' il f s = Some (family_part g il f src)"
proof -
  let ?l = "flash_moe g ! il"
  obtain t o' b where h: "home g il s = Some (t, o')" "o' + length src \<le> length b" "flash_mem g' t = Some (put_at o' src b)"
    and same: "same_but_mem g g'"
    using assms(5) by (auto simp: home_write_def)
  have l: "family_offset ?l ! f + family_bytes ?l ! f \<le> length src"
    using wf_layer(1) [OF assms(1,3)] assms(4,6) by (simp add: layer_wf_def stride_ok_def)
  define mem where "mem = (flash_mem g')(t := Some b)"
  have "flash_mem g' = mem(t := Some (put_at o' src b))" using h(3) by (auto simp: mem_def)
  moreover have "mem t = Some b" by (simp add: mem_def)
  ultimately have "gpu_tensor_view (flash_mem g') t (family_offset ?l ! f + o') (family_bytes ?l ! f)
      = Some (get_at (family_offset ?l ! f) (family_bytes ?l ! f) src)"
    using view_after_put(1) [of mem t b o' src "family_offset ?l ! f + o'"] h(2) l by simp
  moreover have "graph_wf g'" "whole_layout g'" "slot_ok g' il s" "home g' il s = Some (t, o')" "flash_moe g' = flash_moe g"
    using assms(1-3) h(1) same_but_mem_fields [OF same] home_same [OF same] by simp_all
  ultimately show ?thesis using record_view [of g' il s f] assms(6) by (simp add: family_part_def Let_def)
qed

lemma home_write_other:
  assumes "graph_wf g" "whole_layout g" "slot_ok g il s" "stride_ok g il src"
    and "home_write g il s src g' \<or> home_idle g il s g'"
    and "slot_ok g il' s'" "il' \<noteq> il \<or> s' \<noteq> s"
  shows "family_slot_view g' il' f s' = family_slot_view g il' f s'"
proof (cases "f < 3")
  case False
  then show ?thesis by (simp add: family_slot_view_def)
next
  case True
  have same: "same_but_mem g g'" using assms(5) by (auto simp: home_write_def home_idle_def)
  let ?l = "flash_moe g ! il'"
  have l: "family_offset ?l ! f + family_bytes ?l ! f \<le> expert_stride ?l"
    using wf_layer(1) [OF assms(1,6)] True by (simp add: layer_wf_def)
  have "gpu_tensor_view (flash_mem g') t' (family_offset ?l ! f + o2) (family_bytes ?l ! f)
      = gpu_tensor_view (flash_mem g) t' (family_offset ?l ! f + o2) (family_bytes ?l ! f)"
    if t': "home g il' s' = Some (t', o2)" for t' o2
    using assms(5)
  proof
    assume "home_write g il s src g'"
    then obtain t o' b where h: "home g il s = Some (t, o')" "\<And>t'. t' \<noteq> t \<Longrightarrow> flash_mem g' t' = flash_mem g t'"
      "flash_mem g t = Some b \<or> flash_per_slot_buffers g" "o' + length src \<le> length b" "flash_mem g' t = Some (put_at o' src b)"
      by (auto simp: home_write_def)
    note apart = home_apart [OF assms(1-3,6,7) h(1) t' l]
    show ?thesis
    proof (cases "t' = t")
      case False
      then show ?thesis using h(2) by (simp add: gpu_tensor_view_def)
    next
      case True
      have "\<not> flash_per_slot_buffers g"
        using True t' h(1) apart assms(3,6,7) by (auto simp: home_def Let_def slot_ok_def)
      then have b: "flash_mem g t = Some b" using h(3) by blast
      have "length src = expert_stride (flash_moe g ! il)" using assms(4) by (simp add: stride_ok_def)
      then have "family_offset ?l ! f + o2 + family_bytes ?l ! f \<le> o' \<or> o' + length src \<le> family_offset ?l ! f + o2"
        using apart True by auto
      note view_after_put(2) [of "flash_mem g", OF b h(4) this]
      moreover have "gpu_tensor_view (flash_mem g') t p n
          = gpu_tensor_view ((flash_mem g)(t := Some (put_at o' src b))) t p n" for p n
        using h(5) by (simp add: gpu_tensor_view_def)
      ultimately show ?thesis using True by simp
    qed
  next
    assume "home_idle g il s g'"
    then have "flash_mem g' t' = flash_mem g t'" using t' assms(3,6,7)
      by (auto simp: home_idle_def home_def slot_ok_def Let_def eq_nat_nat_iff split: if_splits)
    then show ?thesis by (simp add: gpu_tensor_view_def)
  qed
  moreover have "graph_wf g'" "whole_layout g'" "slot_ok g' il' s'" "home g' il' s' = home g il' s'" "flash_moe g' = flash_moe g"
    using assms(1,2,6) same_but_mem_fields [OF same] home_same [OF same] by simp_all
  ultimately show ?thesis using record_view [of g' il' s' f] record_view [of g il' s' f] assms(1,2,6) True
    by (auto split: option.splits)
qed

section \<open>The family layout\<close>

lemma family_view:
  assumes "graph_wf g" "\<not> whole_layout g" "slot_ok g il slot" "f < 3"
  shows "family_slot_view g il f slot = gpu_tensor_view (flash_mem g) (family_tensor il f)
    (nat slot * (family_bytes (flash_moe g ! il) ! f)) (family_bytes (flash_moe g ! il) ! f)"
proof -
  let ?n = "family_bytes (flash_moe g ! il) ! f" and ?st = "expert_stride (flash_moe g ! il)"
  note w = wf_layer [OF assms(1,3)]
  have le: "?n \<le> ?st" using w(1) assms(4) unfolding layer_wf_def by (metis add_leD2)
  have "nat slot \<le> UINT64_MAX div ?n" if "?n \<noteq> 0"
  proof -
    have "nat slot * ?n \<le> nat slot * ?st" using le by (intro mult_left_mono) auto
    then have "nat slot * ?n \<le> UINT64_MAX" using w(5) unfolding UINT64_MAX_def by linarith
    then show ?thesis using that by (simp add: less_eq_div_iff_mult_less_eq)
  qed
  moreover have "\<not> flash_chunked_mixed_bank g" using assms(1,2) by (auto simp: graph_wf_def layout_wf_def whole_layout_def)
  ultimately show ?thesis using assms(2-4)
    by (auto simp: family_slot_view_def whole_layout_def Let_def)
qed

lemma family_tensor_eq: "f < 3 \<Longrightarrow> f' < 3 \<Longrightarrow> family_tensor il f = family_tensor il' f' \<longleftrightarrow> il = il' \<and> f = f'"
  by (auto simp: family_tensor_def)

text \<open>The loop over the families: each family in the list gets its part, the others and the other
  slots keep theirs.\<close>

lemma write_families_view:
  assumes "graph_wf g" "\<not> whole_layout g" "slot_ok g il s" "stride_ok g il src"
    and "write_families g il s src fs = (b, g')" "set fs \<subseteq> {0, 1, 2}" "distinct fs"
  shows "same_but_mem g g'
    \<and> (b \<longrightarrow> (\<forall>f \<in> set fs. family_slot_view g' il f s = Some (family_part g il f src)))
    \<and> (\<forall>f il' s'. slot_ok g il' s' \<longrightarrow> f \<notin> set fs \<or> il' \<noteq> il \<or> s' \<noteq> s \<longrightarrow> family_slot_view g' il' f s' = family_slot_view g il' f s')"
  using assms
proof (induction fs arbitrary: g)
  case Nil
  then show ?case by simp
next
  case (Cons f fs)
  let ?l = "flash_moe g ! il" and ?n = "\<lambda>f. family_bytes (flash_moe g ! il) ! f"
  note w = wf_layer [OF Cons.prems(1,3)]
  have f: "f < 3" "f \<notin> set fs" using Cons.prems(6,7) by auto
  have le: "family_offset ?l ! f + ?n f \<le> expert_stride ?l" using w(1) f(1) by (simp add: layer_wf_def)
  have wr: "wrap64 (nat s * ?n f) = nat s * ?n f"
  proof -
    have "nat s * ?n f \<le> nat s * expert_stride ?l" using le by (intro mult_left_mono) auto
    then have "nat s * ?n f < 2 ^ 64" using w(5) by linarith
    then show ?thesis unfolding wrap64_def by (rule mod_less)
  qed
  have len: "length (get_at (family_offset ?l ! f) (?n f) src) = ?n f"
    using le Cons.prems(4) by (simp add: stride_ok_def)
  show ?case
  proof (cases "gpu_tensor_write (flash_mem g) (family_tensor il f) (nat s * ?n f) (get_at (family_offset ?l ! f) (?n f) src)")
    case None
    then have "\<not> b" "g' = g" using Cons.prems(5) wr by (auto simp: Let_def)
    then show ?thesis by simp
  next
    case (Some mem)
    define h where "h = g\<lparr>flash_mem := mem\<rparr>"
    obtain x where x: "flash_mem g (family_tensor il f) = Some x" "nat s * ?n f + ?n f \<le> length x"
      "mem = (flash_mem g)(family_tensor il f := Some (put_at (nat s * ?n f) (get_at (family_offset ?l ! f) (?n f) src) x))"
      using Some len by (auto simp: tensor_write_Some)
    have same: "same_but_mem g h" by (simp add: h_def)
    note sf = same_but_mem_fields [OF same] home_same [OF same]
    have rest: "write_families h il s src fs = (b, g')" using Cons.prems(5) Some wr by (simp add: h_def Let_def)
    have IH: "same_but_mem h g'
      \<and> (b \<longrightarrow> (\<forall>f \<in> set fs. family_slot_view g' il f s = Some (family_part g il f src)))
      \<and> (\<forall>f il' s'. slot_ok g il' s' \<longrightarrow> f \<notin> set fs \<or> il' \<noteq> il \<or> s' \<noteq> s \<longrightarrow> family_slot_view g' il' f s' = family_slot_view h il' f s')"
      using Cons.IH [of h] rest Cons.prems by (simp add: sf)
    have view: "slot_ok g il' s' \<Longrightarrow> f' < 3 \<Longrightarrow> family_slot_view h il' f' s' = gpu_tensor_view mem (family_tensor il' f')
        (nat s' * (family_bytes (flash_moe g ! il') ! f')) (family_bytes (flash_moe g ! il') ! f')" for il' f' s'
      using family_view [of h il' s' f'] Cons.prems(1,2) by (simp add: sf) (simp add: h_def)
    have mine: "family_slot_view h il f s = Some (family_part g il f src)"
      using view [OF Cons.prems(3) f(1)] x view_after_put(1) [of "flash_mem g" _ x "nat s * ?n f"
          "get_at (family_offset ?l ! f) (?n f) src" "nat s * ?n f" "?n f"] len
      by (simp add: family_part_def Let_def get_at_def)
    have others: "family_slot_view h il' f' s' = family_slot_view g il' f' s'"
      if o: "slot_ok g il' s'" "f' \<noteq> f \<or> il' \<noteq> il \<or> s' \<noteq> s" for f' il' s'
    proof (cases "f' < 3")
      case True
      have "gpu_tensor_view mem (family_tensor il' f') p n = gpu_tensor_view (flash_mem g) (family_tensor il' f') p n"
        if "family_tensor il' f' \<noteq> family_tensor il f" for p n
        using that x(3) by (simp add: view_other_tensor)
      moreover have "gpu_tensor_view mem (family_tensor il f) (nat s' * ?n f) (?n f)
          = gpu_tensor_view (flash_mem g) (family_tensor il f) (nat s' * ?n f) (?n f)" if "nat s' \<noteq> nat s"
        using view_after_put(2) [of "flash_mem g" _ x "nat s * ?n f" "get_at (family_offset ?l ! f) (?n f) src"
            "nat s' * ?n f" "?n f"] slots_disjoint [OF that, of 0 "?n f" "?n f"] x len by simp
      moreover have "nat s' \<noteq> nat s" if "s' \<noteq> s" using that o(1) Cons.prems(3) by (auto simp: slot_ok_def)
      ultimately show ?thesis
        using view [OF o(1) True] family_view [OF Cons.prems(1,2) o(1) True] o(2) family_tensor_eq [OF True f(1), of il' il]
        by (cases "il' = il \<and> f' = f") auto
    qed (simp add: family_slot_view_def)
    show ?thesis
    proof (intro conjI impI ballI allI)
      show "same_but_mem g g'" using same_but_mem_trans [OF same] IH by blast
    next
      fix f' assume "b" "f' \<in> set (f # fs)"
      then show "family_slot_view g' il f' s = Some (family_part g il f' src)"
        using IH mine f(2) Cons.prems(3) by (cases "f' = f") auto
    next
      fix f' il' s' assume "slot_ok g il' s'" "f' \<notin> set (f # fs) \<or> il' \<noteq> il \<or> s' \<noteq> s"
      then show "family_slot_view g' il' f' s' = family_slot_view g il' f' s'"
        using IH others [of il' s' f'] by (metis list.set_intros(1,2))
    qed
  qed
qed

section \<open>The staged write is a slot store\<close>

lemma write_slot_families:
  assumes "graph_wf g" "\<not> whole_layout g" "slot_ok g il s"
  shows "write_slot_from_buf env g il s src = write_families g il s src [0, 1, 2]"
  using assms by (simp add: write_slot_from_buf_def whole_layout_def)

lemma write_slot_same:
  assumes "graph_wf g" "slot_ok g il s" "stride_ok g il src" "write_slot_from_buf env g il s src = (b, g')"
  shows "same_but_mem g g'"
proof (cases "whole_layout g")
  case True
  then show ?thesis using write_home [OF assms(1) True assms(2,4)]
    by (auto simp: home_write_def home_idle_def split: if_splits)
next
  case False
  then show ?thesis
    using write_families_view [OF assms(1) False assms(2,3), of "[0, 1, 2]"] assms(4) write_slot_families [OF assms(1) False assms(2)]
    by simp
qed

interpretation bank: slot_store family_slot_view "write_slot_from_buf env" family_part slot_ok stride_ok graph_wf
proof unfold_locales
  fix g g' :: graph and il il' f :: nat and s s' :: int and src :: bytes and b :: bool
  assume a: "graph_wf g" "slot_ok g il s" "stride_ok g il src" "write_slot_from_buf env g il s src = (b, g')"
  show "graph_wf g'" using write_slot_same [OF a] a(1) by (simp add: same_but_mem_fields)
  assume o: "slot_ok g il' s'" "il' \<noteq> il \<or> s' \<noteq> s"
  show "family_slot_view g' il' f s' = family_slot_view g il' f s'"
  proof (cases "whole_layout g")
    case True
    then show ?thesis using write_home [OF a(1) True a(2,4)] home_write_other [OF a(1) True a(2,3) _ o]
      by (auto split: if_splits)
  next
    case False
    then show ?thesis
      using write_families_view [OF a(1) False a(2,3), of "[0, 1, 2]"] a(4) write_slot_families [OF a(1) False a(2)] o by simp
  qed
next
  fix g g' :: graph and il f :: nat and s :: int and src :: bytes
  assume a: "graph_wf g" "slot_ok g il s" "stride_ok g il src" "write_slot_from_buf env g il s src = (True, g')" "f < 3"
  show "family_slot_view g' il f s = Some (family_part g il f src)"
  proof (cases "whole_layout g")
    case True
    then show ?thesis using write_home [OF a(1) True a(2,4)] home_write_view [OF a(1) True a(2,3) _ a(5)] by simp
  next
    case False
    have "f \<in> set [0, 1, 2]" using a(5) by auto
    moreover have "write_families g il s src [0, 1, 2] = (True, g')"
      using a(4) unfolding write_slot_families [OF a(1) False a(2)] .
    ultimately show ?thesis
      using write_families_view [OF a(1) False a(2,3) \<open>write_families g il s src [0, 1, 2] = (True, g')\<close>]
      by fastforce
  qed
next
  fix g g' :: graph and il :: nat and s :: int and src :: bytes and b :: bool
  assume a: "graph_wf g" "slot_ok g il s" "stride_ok g il src" "write_slot_from_buf env g il s src = (b, g')"
  show "family_part g' = family_part g" using write_slot_same [OF a] by (simp add: same_but_mem_fields)
qed

end
