(* ===== verification/Moe_Install.thy ===== *)
theory Moe_Install
  imports Moe_Store
begin

text \<open>
  Installing experts into the slot bank (\<open>src/ds4.c\<close>): the synchronous install of prefill, the
  reserve, upload and commit of decode, their failure paths, the reset of the cache and the
  identity map of the memory-mapped bank.
\<close>

section \<open>Install\<close>

text \<open>\<open>slot_to_expert[slot] = e; expert_to_slot[e] = slot; slot_age[slot] = ++flash_age\<close>.\<close>

definition map_slot :: "nat \<Rightarrow> int \<Rightarrow> int \<Rightarrow> graph \<Rightarrow> graph" where
  "map_slot il true_expert slot g =
     g\<lparr>flash_age := flash_age g + 1,
       l1 := assign_slot (n_expert g) il true_expert slot (flash_age g + 1) (l1 g)\<rparr>"

definition count_hit :: "graph \<Rightarrow> graph" where "count_hit g = g\<lparr>flash_hits := flash_hits g + 1\<rparr>"

definition count_miss :: "graph \<Rightarrow> graph" where "count_miss g = g\<lparr>flash_misses := flash_misses g + 1\<rparr>"

definition touch_slot :: "nat \<Rightarrow> int \<Rightarrow> graph \<Rightarrow> graph" where
  "touch_slot il slot g =
     g\<lparr>flash_age := flash_age g + 1, l1 := set_age il slot (flash_age g + 1) (l1 g)\<rparr>"

text \<open>The two layouts in which slot and expert are the same number.\<close>

definition identity_layout :: "graph \<Rightarrow> bool" where
  "identity_layout g \<longleftrightarrow> flash_direct_mmap_bank g \<or> flash_per_expert_buffers g"

text \<open>The read of a record straight into the slot.  The result also says whether the attempt ended
  the install: it did when it failed and left \<open>errno\<close> set.\<close>

definition install_direct_read :: "moe_env \<Rightarrow> graph \<Rightarrow> nat \<Rightarrow> int \<Rightarrow> nat \<Rightarrow> bool \<times> graph" where
  "install_direct_read env g il true_expert slot =
     (let layer = flash_moe g ! il in
      if flash_mixed_slot_bank g then
        (case mixed_slot_ptr env g il (int slot) of
           (None, g) \<Rightarrow> (False, g)
         | (Some ptr, g) \<Rightarrow>
             let (ok, ws) = pread_split (env_pread env 3) (layer_fd layer)
                   (wrap64 (nat true_expert * expert_stride layer)) (expert_stride layer) (env_cache_io_split env)
             in (ok, g\<lparr>flash_mem := mem_apply (flash_mem g) ptr ws\<rparr>))
      else
        (case direct_slot_ptrs env g il (int slot) of
           (None, g) \<Rightarrow> (False, g)
         | (Some dst, g) \<Rightarrow> pread_slot_direct env g layer true_expert dst))"

text \<open>The read through the staging buffer \<open>flash_install_buf\<close>.\<close>

definition install_staged_read :: "moe_env \<Rightarrow> graph \<Rightarrow> nat \<Rightarrow> int \<Rightarrow> nat \<Rightarrow> bool \<times> graph" where
  "install_staged_read env g il true_expert slot =
     (let layer = flash_moe g ! il;
          (ok, ws) = pread_split (env_pread env 4) (layer_fd layer)
                (wrap64 (nat true_expert * expert_stride layer)) (expert_stride layer) (env_cache_io_split env)
      in if \<not> ok then (False, g)
         else write_slot_from_buf env g il (int slot)
                (apply_writes ws 0 (replicate (expert_stride layer) (CHR 0x00))))"

text \<open>Filling the victim slot: promotion from the GPU L2, saving the victim to the CPU L2, the CPU L2,
  the direct read, the staged read, in that order.\<close>

definition install_fill :: "moe_env \<Rightarrow> graph \<Rightarrow> nat \<Rightarrow> int \<Rightarrow> nat \<Rightarrow> int \<Rightarrow> bool \<times> graph" where
  "install_fill env g il true_expert slot evicted =
     (let (from_gpu, g) = (if sm_bank (gpu_l2 g) \<noteq> 0
                           then gpu_l2_promote_to_l1 env g il true_expert (int slot) else (False, g));
          g = (if sm_bank (l2 g) \<noteq> 0 \<and> in_expert (n_expert g) evicted
               then snd (l2_store_l1_slot env g il evicted (int slot)) else g);
          (wrote, g) =
            (if \<not> from_gpu \<and> sm_bank (l2 g) \<noteq> 0 then
               (case l2_lookup g il true_expert of
                  (None, g) \<Rightarrow> (False, g)
                | (Some src, g) \<Rightarrow> write_slot_from_buf env g il (int slot) src)
             else (from_gpu, g));
          (direct, g) = (if \<not> wrote \<and> env_direct_slot_pread env
                         then install_direct_read env g il true_expert slot else (False, g));
          stop = (\<not> wrote \<and> env_direct_slot_pread env \<and> \<not> direct \<and> env_errno env)
      in if stop then (False, g)
         else
           let (wrote, g) = (if wrote \<or> direct then (True, g) else install_staged_read env g il true_expert slot);
               g = (if wrote \<and> sm_bank (gpu_l2 g) \<noteq> 0 \<and> \<not> from_gpu
                    then snd (gpu_l2_store_l1_slot env g il true_expert (int slot)) else g)
           in if \<not> wrote then (False, g)
              else if direct \<and> \<not> mark_slot_modified g il (int slot) then (False, g)
              else (True, g))"

text \<open>The map update of a filled slot.\<close>

definition install_map :: "moe_env \<Rightarrow> nat \<Rightarrow> int \<Rightarrow> int \<Rightarrow> int \<Rightarrow> graph \<Rightarrow> graph" where
  "install_map env il true_expert slot evicted g =
     (let g = replay_invalidate_slot env il slot g;
          g = g\<lparr>l1 := unmap_evicted (n_expert g) il evicted slot (l1 g)\<rparr>;
          g = map_slot il true_expert slot g
      in replay_mark_resident_missing env il slot true_expert g)"

definition add_installed :: "nat \<Rightarrow> graph \<Rightarrow> graph" where
  "add_installed il g =
     g\<lparr>flash_installed_bytes := flash_installed_bytes g + of_nat (expert_stride (flash_moe g ! il))\<rparr>"

definition install_identity :: "nat \<Rightarrow> int \<Rightarrow> graph \<Rightarrow> bool \<times> int \<times> graph" where
  "install_identity il true_expert g =
     (if true_expert < 0 \<or> true_expert \<ge> int (slot_bank g)
         \<or> (\<not> flash_direct_mmap_bank g \<and> flash_mem g (Expert_bank il (nat true_expert)) = None)
      then (False, -1, g)
      else (True, true_expert, count_hit (map_slot il true_expert true_expert g)))"

definition install :: "moe_env \<Rightarrow> graph \<Rightarrow> nat \<Rightarrow> int \<Rightarrow> (nat \<Rightarrow> bool) option \<Rightarrow> bool \<times> int \<times> graph" where
  "install env g il true_expert protected =
     (if \<not> expert_ok g il true_expert then (False, -1, g)
      else if identity_layout g then install_identity il true_expert g
      else case resident_slot (n_expert g) (l1 g) il true_expert of
        Some existing \<Rightarrow> (True, existing, count_hit (touch_slot il existing g))
      | None \<Rightarrow>
          let g = count_miss g in
          (case pick_slot (n_expert g) (l1 g) il protected None of
             None \<Rightarrow> (False, -1, g)
           | Some slot \<Rightarrow>
               let evicted = s2e (l1 g) il (int slot);
                   (ok, g) = install_fill env g il true_expert slot evicted
               in if \<not> ok then (False, -1, g)
                  else (True, int slot,
                        add_installed il (install_map env il true_expert (int slot) evicted g))))"

section \<open>Decode: reserve, upload, commit\<close>

text \<open>The result is the slot, what it held, and whether the expert has to be read.\<close>

definition reserve_decode_slot ::
  "graph \<Rightarrow> nat \<Rightarrow> int \<Rightarrow> (nat \<Rightarrow> bool) option \<Rightarrow> (nat \<Rightarrow> bool) option \<Rightarrow> (int \<times> int \<times> bool) option \<times> graph" where
  "reserve_decode_slot g il true_expert protected reserved =
     (if \<not> expert_ok g il true_expert then (None, g)
      else if identity_layout g then
        (if is_reserved reserved (nat true_expert) then (None, g)
         else case install_identity il true_expert g of
           (True, slot, g) \<Rightarrow> (Some (slot, -1, False), g)
         | (False, _, g) \<Rightarrow> (None, g))
      else case resident_slot (n_expert g) (l1 g) il true_expert of
        Some existing \<Rightarrow>
          if \<not> is_reserved reserved (nat existing)
          then (Some (existing, -1, False), count_hit (touch_slot il existing g))
          else
            let g = count_miss g in
            (case pick_slot (n_expert g) (l1 g) il protected reserved of
               None \<Rightarrow> (None, g)
             | Some slot \<Rightarrow> (Some (int slot, s2e (l1 g) il (int slot), True), g))
      | None \<Rightarrow>
          let g = count_miss g in
          (case pick_slot (n_expert g) (l1 g) il protected reserved of
             None \<Rightarrow> (None, g)
           | Some slot \<Rightarrow> (Some (int slot, s2e (l1 g) il (int slot), True), g)))"

definition protect_routed_experts :: "nat \<Rightarrow> int list \<Rightarrow> (nat \<Rightarrow> bool) \<Rightarrow> nat \<Rightarrow> bool" where
  "protect_routed_experts ne true_ids protected e \<longleftrightarrow> protected e \<or> (\<exists>x \<in> set true_ids. in_expert ne x \<and> nat x = e)"

definition commit_decode_slot :: "moe_env \<Rightarrow> nat \<Rightarrow> int \<Rightarrow> int \<Rightarrow> int \<Rightarrow> graph \<Rightarrow> graph" where
  "commit_decode_slot env il true_expert slot evicted g =
     (let g = replay_invalidate_slot env il slot g;
          g = g\<lparr>l1 := unmap_evicted (n_expert g) il evicted slot (l1 g)\<rparr>;
          resident = s2e (l1 g) il slot;
          g = (if resident \<noteq> evicted \<and> resident \<noteq> true_expert
               then g\<lparr>l1 := unmap_evicted (n_expert g) il resident slot (l1 g)\<rparr> else g);
          g = map_slot il true_expert slot g
      in replay_mark_resident_missing env il slot true_expert g)"

definition invalidate_decode_slot :: "moe_env \<Rightarrow> nat \<Rightarrow> int \<Rightarrow> graph \<Rightarrow> graph" where
  "invalidate_decode_slot env il slot g =
     (if \<not> slot_ok g il slot then g
      else
        let resident = s2e (l1 g) il slot;
            g = replay_invalidate_slot env il slot g;
            m = unmap_evicted (n_expert g) il resident slot (l1 g)
        in g\<lparr>l1 := set_age il slot 0 (set_s2e il slot (-1) m)\<rparr>)"

definition upload_decode_slot :: "moe_env \<Rightarrow> graph \<Rightarrow> nat \<Rightarrow> int \<Rightarrow> int \<Rightarrow> int \<Rightarrow> bytes \<Rightarrow> bool \<times> graph" where
  "upload_decode_slot env g il true_expert slot evicted src =
     (if \<not> expert_ok g il true_expert \<or> \<not> slot_ok g il slot then (False, g)
      else
        let (wrote, g) = write_slot_from_buf env g il slot src
        in if \<not> wrote then (False, invalidate_decode_slot env il slot g)
           else
             let g = (if sm_bank (gpu_l2 g) \<noteq> 0 then snd (gpu_l2_store_l1_slot env g il true_expert slot) else g);
                 g = commit_decode_slot env il true_expert slot evicted g
             in (True, add_installed il g))"

definition upload_prefill_slot :: "moe_env \<Rightarrow> graph \<Rightarrow> nat \<Rightarrow> int \<Rightarrow> int \<Rightarrow> int \<Rightarrow> bytes \<Rightarrow> bool \<times> graph" where
  "upload_prefill_slot env g il true_expert slot evicted src =
     (if \<not> expert_ok g il true_expert \<or> \<not> slot_ok g il slot then (False, g)
      else
        let (wrote, g) = write_slot_from_buf env g il slot src
        in if \<not> wrote then (False, invalidate_decode_slot env il slot g)
           else (True, add_installed il (commit_decode_slot env il true_expert slot evicted g)))"

definition prefetch_slot_from_buf :: "moe_env \<Rightarrow> graph \<Rightarrow> nat \<Rightarrow> int \<Rightarrow> u32 \<Rightarrow> bytes \<Rightarrow> bool \<times> graph" where
  "prefetch_slot_from_buf env g il true_expert refs src =
     (let hits_before = flash_hits g; misses_before = flash_misses g
      in case reserve_decode_slot g il true_expert None None of
           (None, g) \<Rightarrow> (False, g)
         | (Some (slot, evicted, miss), g) \<Rightarrow>
             let (ok, g) = (if miss then upload_prefill_slot env g il true_expert slot evicted src else (True, g))
             in (ok, if ok then record_prefill_slot_cache g refs hits_before misses_before else g))"

section \<open>Reset\<close>

definition init_identity_layer :: "nat \<Rightarrow> graph \<Rightarrow> graph" where
  "init_identity_layer il g = fold (\<lambda>e. map_slot il (int e) (int e)) [0..<n_expert g] g"

definition init_direct_mmap_identity :: "graph \<Rightarrow> graph" where
  "init_direct_mmap_identity g =
     (if \<not> flash_direct_mmap_bank g \<or> slot_bank g < n_expert g then g
      else fold init_identity_layer [0..<n_layer g] g)"

definition clear_prefix :: "nat \<Rightarrow> 'a \<Rightarrow> 'a list \<Rightarrow> 'a list" where
  "clear_prefix n v xs = replicate (min n (length xs)) v @ drop n xs"

definition reset_slot_cache :: "graph \<Rightarrow> graph" where
  "reset_slot_cache g =
     (if slot_bank g = 0 then g
      else
        let n = n_layer g * slot_bank g; m = l1 g;
            g = g\<lparr>l1 := m\<lparr>sm_slot_to_expert := clear_prefix n (-1) (sm_slot_to_expert m),
                          sm_expert_to_slot := clear_prefix (n_layer g * n_expert g) (-1) (sm_expert_to_slot m),
                          sm_age := clear_prefix n 0 (sm_age m)\<rparr>,
                  flash_age := 0,
                  flash_replay_slot_valid := clear_prefix n False (flash_replay_slot_valid g),
                  flash_replay_slot_expert := clear_prefix n (-1) (flash_replay_slot_expert g),
                  flash_decode_ids_valid := map (\<lambda>_. False) (flash_decode_ids_valid g),
                  flash_decode_true_ids := map (map (\<lambda>_. -1)) (flash_decode_true_ids g),
                  flash_decode_slot_ids := map (map (\<lambda>_. -1)) (flash_decode_slot_ids g)\<rparr>
        in if flash_direct_mmap_bank g then init_direct_mmap_identity g else g)"

end
