(* ===== verification/Moe_Inv.thy ===== *)
theory Moe_Inv
  imports Moe_Install
begin

text \<open>
  The invariant of the slot cache: the maps are consistent, and every slot of the bank holds the
  bytes of the expert its \<open>slot_to_expert\<close> entry names.  Each operation is shown to keep it, from the
  laws of the slot store.
\<close>

section \<open>The invariant\<close>

definition occupant :: "graph \<Rightarrow> nat \<Rightarrow> int \<Rightarrow> int option" where
  "occupant g il s =
     (if slot_ok g il s \<and> in_expert (n_expert g) (s2e (l1 g) il s) then Some (s2e (l1 g) il s) else None)"

definition content_ok :: "graph \<Rightarrow> bool" where
  "content_ok g \<longleftrightarrow> bank.shows_records g (occupant g) (expert_record g)"

definition cache_ok :: "graph \<Rightarrow> bool" where
  "cache_ok g \<longleftrightarrow> graph_wf g \<and> \<not> identity_layout g \<and> map_ok (n_layer g) (n_expert g) (l1 g) \<and> content_ok g"

lemma content_ok_iff:
  "content_ok g \<longleftrightarrow> (\<forall>il s. slot_ok g il s \<longrightarrow> in_expert (n_expert g) (s2e (l1 g) il s) \<longrightarrow>
     (\<forall>f < 3. family_slot_view g il f s = Some (family_part g il f (expert_record g il (s2e (l1 g) il s)))))"
  by (auto simp: content_ok_def bank.shows_records_def bank.holds_def occupant_def)

text \<open>Equality of graphs up to what no slot shows and no map holds: counters, ages, the replay plan.\<close>

definition same_slots :: "graph \<Rightarrow> graph \<Rightarrow> bool" where
  "same_slots g g' \<longleftrightarrow> n_layer g' = n_layer g \<and> n_expert g' = n_expert g \<and> flash_moe g' = flash_moe g
     \<and> flash_mixed_slot_bank g' = flash_mixed_slot_bank g \<and> flash_direct_mmap_bank g' = flash_direct_mmap_bank g
     \<and> flash_chunked_mixed_bank g' = flash_chunked_mixed_bank g \<and> flash_per_slot_buffers g' = flash_per_slot_buffers g
     \<and> flash_per_expert_buffers g' = flash_per_expert_buffers g \<and> flash_chunk_slots g' = flash_chunk_slots g
     \<and> flash_chunk_count g' = flash_chunk_count g \<and> sm_bank (l1 g') = sm_bank (l1 g)
     \<and> (\<forall>t. (\<forall>il. t \<noteq> Gpu_l2_mixed_bank il) \<longrightarrow> flash_mem g' t = flash_mem g t)"

lemma same_slots_refl [simp]: "same_slots g g"
  by (simp add: same_slots_def)

lemma same_slots_trans: "same_slots a b \<Longrightarrow> same_slots b c \<Longrightarrow> same_slots a c"
  by (simp add: same_slots_def)

lemma same_slots_fields:
  assumes "same_slots g g'"
  shows "n_layer g' = n_layer g" "n_expert g' = n_expert g" "slot_ok g' = slot_ok g" "expert_ok g' = expert_ok g"
    "graph_wf g' = graph_wf g" "identity_layout g' = identity_layout g" "expert_record g' = expert_record g"
    "family_part g' = family_part g" "family_slot_view g' = family_slot_view g" "stride_ok g' = stride_ok g"
proof -
  note s = assms [unfolded same_slots_def]
  show "n_layer g' = n_layer g" "n_expert g' = n_expert g" "slot_ok g' = slot_ok g" "expert_ok g' = expert_ok g"
    "graph_wf g' = graph_wf g" "identity_layout g' = identity_layout g" "expert_record g' = expert_record g"
    "family_part g' = family_part g" "stride_ok g' = stride_ok g"
    using s by (simp_all add: fun_eq_iff slot_ok_def expert_ok_def graph_wf_def layout_wf_def slot_bank_def
        identity_layout_def expert_record_def family_part_def stride_ok_def)
  have ch: "chunk_for_slot g' = chunk_for_slot g"
    using s by (simp add: fun_eq_iff chunk_for_slot_def slot_bank_def Let_def)
  have mem: "flash_mem g' (Mixed_bank a) = flash_mem g (Mixed_bank a)"
    "flash_mem g' (Chunk_mixed_bank a c) = flash_mem g (Chunk_mixed_bank a c)"
    "flash_mem g' (Expert_bank a c) = flash_mem g (Expert_bank a c)"
    "flash_mem g' (family_tensor a c) = flash_mem g (family_tensor a c)" for a c
    using s by (simp_all add: family_tensor_def)
  have v: "gpu_tensor_view (flash_mem g') (Mixed_bank a) p n = gpu_tensor_view (flash_mem g) (Mixed_bank a) p n"
    "gpu_tensor_view (flash_mem g') (Chunk_mixed_bank a c) p n = gpu_tensor_view (flash_mem g) (Chunk_mixed_bank a c) p n"
    "gpu_tensor_view (flash_mem g') (Expert_bank a c) p n = gpu_tensor_view (flash_mem g) (Expert_bank a c) p n"
    "gpu_tensor_view (flash_mem g') (family_tensor a c) p n = gpu_tensor_view (flash_mem g) (family_tensor a c) p n" for a c p n
    by (simp_all add: gpu_tensor_view_def mem)
  show "family_slot_view g' = family_slot_view g"
    unfolding fun_eq_iff family_slot_view_def Let_def
    by (simp only: mem v s ch slot_ok_def slot_bank_def simp_thms)
qed

lemma same_slots_cache_ok:
  assumes "same_slots g g'" "l1 g' = l1 g"
  shows "cache_ok g' = cache_ok g"
  using assms same_slots_fields [OF assms(1)] by (simp add: cache_ok_def content_ok_iff)

lemma same_slots_hit [simp]: "same_slots g (count_hit g)" "l1 (count_hit g) = l1 g"
  by (simp_all add: same_slots_def count_hit_def)

lemma same_slots_miss [simp]: "same_slots g (count_miss g)" "l1 (count_miss g) = l1 g"
  by (simp_all add: same_slots_def count_miss_def)

lemma same_slots_installed [simp]: "same_slots g (add_installed il g)" "l1 (add_installed il g) = l1 g"
  by (simp_all add: same_slots_def add_installed_def)

lemma same_slots_if: "same_slots g a \<Longrightarrow> same_slots g b \<Longrightarrow> same_slots g (if c then a else b)"
  by simp

lemma same_slots_replay_upd [simp]:
  "same_slots g (g\<lparr>flash_replay_invalidations := n, flash_replay_slot_valid := v, flash_replay_slot_expert := e\<rparr>)"
  "same_slots g (g\<lparr>flash_replay_slot_expert := e, flash_replay_slot_valid := v\<rparr>)"
  by (simp_all add: same_slots_def)

lemma same_slots_invalidate [simp]: "same_slots g (replay_invalidate_slot env il slot g)"
proof (cases "env_replay_plan env \<and> slot_ok g il slot")
  case True
  then show ?thesis unfolding replay_invalidate_slot_def Let_def by (simp only: if_False not_True_eq_False same_slots_replay_upd)
next
  case False
  then have "replay_invalidate_slot env il slot g = g" unfolding replay_invalidate_slot_def by auto
  then show ?thesis by simp
qed

lemma l1_invalidate [simp]: "l1 (replay_invalidate_slot env il slot g) = l1 g"
  by (simp add: replay_invalidate_slot_def Let_def)

lemma same_slots_missing [simp]: "same_slots g (replay_mark_resident_missing env il slot e g)"
proof (cases "env_replay_plan env \<and> slot_ok g il slot \<and> expert_ok g il e")
  case True
  then show ?thesis unfolding replay_mark_resident_missing_def Let_def
    by (simp only: if_False not_True_eq_False de_Morgan_disj simp_thms same_slots_replay_upd)
next
  case False
  then have "replay_mark_resident_missing env il slot e g = g" unfolding replay_mark_resident_missing_def by auto
  then show ?thesis by simp
qed

lemma l1_missing [simp]: "l1 (replay_mark_resident_missing env il slot e g) = l1 g"
  by (simp add: replay_mark_resident_missing_def Let_def)

lemma same_slots_prefill_upd:
  "same_slots g (g\<lparr>flash_prefill_slot_refs := r\<rparr>)"
  "same_slots g (g\<lparr>flash_prefill_slot_refs := r, flash_prefill_slot_installs := i\<rparr>)"
  "same_slots g (g\<lparr>flash_prefill_slot_refs := r, flash_prefill_slot_hits := i\<rparr>)"
  by (simp_all add: same_slots_def)

lemma same_slots_prefill [simp]: "same_slots g (record_prefill_slot_cache g refs h m)"
  unfolding record_prefill_slot_cache_def Let_def by (simp only: same_slots_prefill_upd if_cancel split: if_split) blast

lemma l1_prefill [simp]: "l1 (record_prefill_slot_cache g refs h m) = l1 g"
  by (simp add: record_prefill_slot_cache_def Let_def)

lemma cache_ok_counters [simp]:
  "cache_ok (count_hit g) = cache_ok g" "cache_ok (count_miss g) = cache_ok g"
  "cache_ok (add_installed il g) = cache_ok g" "cache_ok (replay_invalidate_slot env il slot g) = cache_ok g"
  "cache_ok (replay_mark_resident_missing env il slot e g) = cache_ok g"
  "cache_ok (record_prefill_slot_cache g refs h m) = cache_ok g"
  by (rule same_slots_cache_ok; simp)+

lemma same_slots_touch [simp]: "same_slots g (touch_slot il slot g)"
  by (simp add: same_slots_def touch_slot_def)

lemma cache_ok_touch [simp]: "cache_ok (touch_slot il slot g) = cache_ok g"
proof -
  note s = same_slots_fields [OF same_slots_touch [of g il slot]]
  have "l1 (touch_slot il slot g) = set_age il slot (flash_age g + 1) (l1 g)" by (simp add: touch_slot_def)
  then show ?thesis using s by (simp add: cache_ok_def content_ok_iff)
qed

lemma same_but_mem_slots:
  assumes "same_but_mem g g'"
  shows "occupant g' = occupant g" "identity_layout g' = identity_layout g"
  by (simp_all add: fun_eq_iff occupant_def identity_layout_def same_but_mem_fields [OF assms])

section \<open>Commit and invalidate\<close>

lemma commit_eq:
  assumes "map_ok (n_layer g) (n_expert g) (l1 g)" "slot_ok g il slot" "expert_ok g il e"
  shows "\<exists>a. l1 (commit_decode_slot env il e slot evicted g) =
      assign_slot (n_expert g) il e slot a
        (let m = unmap_evicted (n_expert g) il evicted slot (l1 g); r = s2e (l1 g) il slot
         in if r \<noteq> evicted \<and> r \<noteq> e then unmap_evicted (n_expert g) il r slot m else m)"
    and "same_slots g (commit_decode_slot env il e slot evicted g)"
proof -
  let ?g = "replay_invalidate_slot env il slot g"
  have n: "n_expert ?g = n_expert g" "l1 ?g = l1 g"
    using same_slots_fields [OF same_slots_invalidate] by simp_all
  show "\<exists>a. l1 (commit_decode_slot env il e slot evicted g) =
      assign_slot (n_expert g) il e slot a
        (let m = unmap_evicted (n_expert g) il evicted slot (l1 g); r = s2e (l1 g) il slot
         in if r \<noteq> evicted \<and> r \<noteq> e then unmap_evicted (n_expert g) il r slot m else m)"
    by (rule exI [of _ "flash_age ?g + 1"]) (simp add: commit_decode_slot_def Let_def map_slot_def n)
  have "same_slots g (commit_decode_slot env il e slot evicted g) = same_slots g ?g"
    using n by (simp add: commit_decode_slot_def Let_def same_slots_def map_slot_def replay_mark_resident_missing_def)
  then show "same_slots g (commit_decode_slot env il e slot evicted g)" by simp
qed

text \<open>After the unmaps of a commit no expert but the new one is mapped to the slot, whatever the
  caller believes to have been evicted.\<close>

lemma commit_unmaps:
  assumes ok: "map_ok nl ne m" and il: "il < nl" and s: "in_slot m slot" and x: "in_expert ne x"
    and to: "e2s (let m' = unmap_evicted ne il evicted slot m; r = s2e m il slot
         in if r \<noteq> evicted \<and> r \<noteq> e then unmap_evicted ne il r slot m' else m') ne il x = slot"
  shows "x = e"
proof (rule ccontr)
  assume ne: "x \<noteq> e"
  let ?m = "unmap_evicted ne il evicted slot m" and ?r = "s2e m il slot"
  have ok': "map_ok nl ne ?m" by (rule map_ok_unmap [OF ok il])
  have s1: "slot \<noteq> -1" using s by (auto simp: in_slot_def)
  note u = e2s_unmap [OF map_ok_shape [OF ok] il x, of evicted slot il]
  note u' = e2s_unmap [OF map_ok_shape [OF ok'] il x, of ?r slot il]
  have mx: "e2s m ne il x = slot"
    using to s1 u u' by (auto simp: Let_def split: if_splits)
  then have r: "?r = x" using map_okD [OF ok il x] s by simp
  show False
  proof (cases "?r = evicted")
    case True
    then show ?thesis using to s1 u mx r ne by (simp add: Let_def)
  next
    case False
    then have "e2s ?m ne il x = slot" using u mx r by simp
    then show ?thesis using to s1 u' r ne False by (simp add: Let_def split: if_splits)
  qed
qed

lemma commit_map_ok:
  assumes "map_ok (n_layer g) (n_expert g) (l1 g)" "slot_ok g il slot" "expert_ok g il e"
  shows "map_ok (n_layer g) (n_expert g) (l1 (commit_decode_slot env il e slot evicted g))"
proof -
  have i: "il < n_layer g" "in_slot (l1 g) slot" "in_expert (n_expert g) e"
    using assms by (auto simp: slot_ok_def expert_ok_def in_slot_def in_expert_def slot_bank_def)
  obtain a where a: "l1 (commit_decode_slot env il e slot evicted g) =
      assign_slot (n_expert g) il e slot a
        (let m = unmap_evicted (n_expert g) il evicted slot (l1 g); r = s2e (l1 g) il slot
         in if r \<noteq> evicted \<and> r \<noteq> e then unmap_evicted (n_expert g) il r slot m else m)" (is "_ = assign_slot _ _ _ _ _ ?m")
    using commit_eq(1) [OF assms] by blast
  have "map_ok (n_layer g) (n_expert g) ?m"
    using map_ok_unmap [OF assms(1) i(1)] map_ok_unmap [OF map_ok_unmap [OF assms(1) i(1)] i(1)] by (simp add: Let_def)
  then show ?thesis unfolding a
    by (rule map_ok_assign [OF _ i(1,3)]) (use i(2) commit_unmaps [OF assms(1) i(1,2)] in \<open>auto simp: Let_def\<close>)
qed

lemma commit_occupant:
  assumes "map_ok (n_layer g) (n_expert g) (l1 g)" "slot_ok g il slot" "expert_ok g il e"
    and "occupant (commit_decode_slot env il e slot evicted g) il' t = Some x"
  shows "if il' = il \<and> t = slot then x = e else occupant g il' t = Some x"
proof -
  let ?c = "commit_decode_slot env il e slot evicted g"
  have i: "il < n_layer g" "in_slot (l1 g) slot" "map_shape (n_layer g) (n_expert g) (l1 g)"
    using assms map_ok_shape by (auto simp: slot_ok_def in_slot_def slot_bank_def)
  note f = same_slots_fields [OF commit_eq(2) [OF assms(1-3)]]
  have t: "slot_ok g il' t" "s2e (l1 ?c) il' t = x" "in_expert (n_expert g) x"
    using assms(4) by (auto simp: occupant_def f split: if_splits)
  then have "in_slot (l1 g) t" by (auto simp: slot_ok_def in_slot_def slot_bank_def)
  moreover obtain a where "l1 ?c = assign_slot (n_expert g) il e slot a
        (let m = unmap_evicted (n_expert g) il evicted slot (l1 g); r = s2e (l1 g) il slot
         in if r \<noteq> evicted \<and> r \<noteq> e then unmap_evicted (n_expert g) il r slot m else m)"
    using commit_eq(1) [OF assms(1-3)] by blast
  ultimately have "s2e (l1 ?c) il' t = (if il' = il \<and> t = slot then e else s2e (l1 g) il' t)"
    using i by (simp add: Let_def assign_s2e [where nl = "n_layer g"])
  then show ?thesis using t by (auto simp: occupant_def)
qed

lemma gpu_copy_slots:
  assumes "gpu_l2_copy_record env g il (Gpu_l2_mixed_bank il) ds src ss = (b, g')"
  shows "same_slots g g'" "l1 g' = l1 g"
  using assms
  by (auto simp: gpu_l2_copy_record_def Let_def upd_mem_def gpu_tensor_copy_def same_slots_def
      split: if_splits option.splits)

lemma gpu_store_slots:
  assumes "gpu_l2_store_l1_slot env g il e s = (b, g')"
  shows "same_slots g g'" "l1 g' = l1 g"
proof -
  define ls where "ls = (case resident_slot (n_expert g) (gpu_l2 g) il e of Some s \<Rightarrow> nat s | None \<Rightarrow> l2_pick_slot (gpu_l2 g) il)"
  obtain ok h where c: "gpu_l2_copy_record env g il (Gpu_l2_mixed_bank il) ls (Mixed_bank il) (nat s) = (ok, h)" by fastforce
  note h = gpu_copy_slots [OF c]
  have "g' = g \<or> (same_slots h g' \<and> l1 g' = l1 h)"
  proof (cases "gpu_l2_guard g il e s")
    case True
    then show ?thesis using assms c unfolding gpu_l2_store_l1_slot_def Let_def ls_def [symmetric]
      by (auto simp: same_slots_def split: if_splits)
  qed (use assms in \<open>simp add: gpu_l2_store_l1_slot_def\<close>)
  then show "same_slots g g'" "l1 g' = l1 g" using h same_slots_trans [OF h(1)] by auto
qed

lemma invalidate_slots:
  assumes "slot_ok g il slot"
  shows "same_slots g (invalidate_decode_slot env il slot g)"
    and "l1 (invalidate_decode_slot env il slot g) =
      set_age il slot 0 (set_s2e il slot (-1) (unmap_evicted (n_expert g) il (s2e (l1 g) il slot) slot (l1 g)))"
proof -
  have n: "n_expert (replay_invalidate_slot env il slot g) = n_expert g"
    using same_slots_fields [OF same_slots_invalidate] by simp
  have "same_slots g (replay_invalidate_slot env il slot g)" by simp
  then show "same_slots g (invalidate_decode_slot env il slot g)"
    using assms by (simp add: invalidate_decode_slot_def Let_def same_slots_def)
  show "l1 (invalidate_decode_slot env il slot g) =
      set_age il slot 0 (set_s2e il slot (-1) (unmap_evicted (n_expert g) il (s2e (l1 g) il slot) slot (l1 g)))"
    using assms by (simp add: invalidate_decode_slot_def Let_def n)
qed

lemma invalidate_map_ok:
  assumes "map_ok (n_layer g) (n_expert g) (l1 g)" "slot_ok g il slot"
  shows "map_ok (n_layer g) (n_expert g) (l1 (invalidate_decode_slot env il slot g))"
    and "occupant (invalidate_decode_slot env il slot g) il' t = Some x
      \<Longrightarrow> occupant g il' t = Some x \<and> (il' \<noteq> il \<or> t \<noteq> slot)"
proof -
  have i: "il < n_layer g" "in_slot (l1 g) slot" using assms(2) by (auto simp: slot_ok_def in_slot_def slot_bank_def)
  let ?u = "unmap_evicted (n_expert g) il (s2e (l1 g) il slot) slot (l1 g)"
  have u: "map_ok (n_layer g) (n_expert g) ?u" by (rule map_ok_unmap [OF assms(1) i(1)])
  have s: "s2e (set_s2e il slot (-1) ?u) il'' t = (if il'' = il \<and> t = slot then -1 else s2e (l1 g) il'' t)"
    if "in_slot (l1 g) t" for il'' t
    using s2e_set_s2e [OF map_ok_shape [OF u] i(1)] i(2) that by simp
  show "map_ok (n_layer g) (n_expert g) (l1 (invalidate_decode_slot env il slot g))"
    unfolding invalidate_slots(2) [OF assms(2)] map_ok_def
  proof (intro conjI allI impI)
    show "map_shape (n_layer g) (n_expert g) (set_age il slot 0 (set_s2e il slot (-1) ?u))"
      using map_ok_shape [OF assms(1)] by simp
  next
    fix il' e
    assume a: "il' < n_layer g" "in_expert (n_expert g) e"
      and "in_slot (set_age il slot 0 (set_s2e il slot (-1) ?u)) (e2s (set_age il slot 0 (set_s2e il slot (-1) ?u)) (n_expert g) il' e)"
    then have sl: "in_slot (l1 g) (e2s ?u (n_expert g) il' e)" by simp
    then have "s2e ?u il' (e2s ?u (n_expert g) il' e) = e" using map_okD [OF u a] by simp
    moreover have "\<not> (il' = il \<and> e2s ?u (n_expert g) il' e = slot)"
      using unmap_frees [OF assms(1) i a(2)] by auto
    ultimately have "s2e (set_s2e il slot (-1) ?u) il' (e2s ?u (n_expert g) il' e) = e"
      unfolding s [OF sl] by (simp only: if_False) simp
    then show "s2e (set_age il slot 0 (set_s2e il slot (-1) ?u)) il' (e2s (set_age il slot 0 (set_s2e il slot (-1) ?u)) (n_expert g) il' e) = e"
      by simp
  qed
  show "occupant g il' t = Some x \<and> (il' \<noteq> il \<or> t \<noteq> slot)"
    if "occupant (invalidate_decode_slot env il slot g) il' t = Some x"
  proof -
    have t: "slot_ok g il' t" "s2e (set_s2e il slot (-1) ?u) il' t = x" "in_expert (n_expert g) x"
      using that by (auto simp: occupant_def invalidate_slots [OF assms(2)] same_slots_fields [OF invalidate_slots(1) [OF assms(2)]]
          split: if_splits)
    then have "in_slot (l1 g) t" by (auto simp: slot_ok_def in_slot_def slot_bank_def)
    then show ?thesis using s t by (auto simp: occupant_def in_expert_def split: if_splits)
  qed
qed

section \<open>Uploads\<close>

lemma expert_record_length:
  assumes "graph_wf g" "expert_ok g il e"
  shows "stride_ok g il (expert_record g il e)"
proof -
  let ?l = "flash_moe g ! il"
  have l: "layer_wf (n_expert g) (slot_bank g) ?l" and e: "nat e < n_expert g" "0 \<le> e"
    using assms by (auto simp: graph_wf_def expert_ok_def)
  have "Suc (nat e) * expert_stride ?l \<le> n_expert g * expert_stride ?l" using e by (intro mult_right_mono) auto
  also have "\<dots> \<le> length (layer_fd ?l)" using l by (simp add: layer_wf_def)
  finally show ?thesis by (simp add: stride_ok_def expert_record_def Let_def)
qed

text \<open>After a good write the commit makes the expert the occupant; after a bad one the slot is dropped.\<close>

lemma fill_good:
  assumes ok: "cache_ok g" and s: "slot_ok g il slot" and e: "expert_ok g il e" and sb: "same_but_mem g h"
    and w: "bank.filled g il slot (expert_record g il e) h"
    and same: "same_slots h h'" "l1 h' = l1 h"
  shows "cache_ok (commit_decode_slot env il e slot evicted h')"
proof -
  have g: "graph_wf g" "map_ok (n_layer g) (n_expert g) (l1 g)" "content_ok g" "\<not> identity_layout g"
    using ok by (simp_all add: cache_ok_def)
  note f = same_but_mem_fields [OF sb] same_but_mem_slots [OF sb] same_slots_fields [OF same(1)]
  have h': "map_ok (n_layer h') (n_expert h') (l1 h')" "slot_ok h' il slot" "expert_ok h' il e"
    using g(2) s e same(2) by (simp_all add: f)
  let ?c = "commit_decode_slot env il e slot evicted h'"
  note fc = same_slots_fields [OF commit_eq(2) [OF h']]
  have occ: "occupant h' = occupant g" using same by (simp add: fun_eq_iff occupant_def f)
  have "bank.shows_records h (occupant ?c) (expert_record g)"
  proof (rule bank.install_shows [where g = g and il = il and s = slot and e = e and occ = "occupant g"])
    show "slot_ok g il slot" "bank.filled g il slot (expert_record g il e) h" by (rule s w)+
    show "bank.shows_records g (occupant g) (expert_record g)" using g(3) by (simp add: content_ok_def)
    show "slot_ok h il' s' = slot_ok g il' s'" for il' s' by (simp add: f)
    show "occupant ?c il' t = Some x \<Longrightarrow> if il' = il \<and> t = slot then x = e else occupant g il' t = Some x" for il' t x
      using commit_occupant [OF h', of env evicted il' t x] occ by auto
  qed
  then have "content_ok ?c"
    unfolding content_ok_def bank.shows_records_def bank.holds_def by (simp add: fc f)
  moreover have "map_ok (n_layer ?c) (n_expert ?c) (l1 ?c)"
    using commit_map_ok [OF h'] by (simp add: fc)
  ultimately show ?thesis using g(1,4) by (simp add: cache_ok_def fc f)
qed

lemma upload_good:
  assumes ok: "cache_ok g" and s: "slot_ok g il slot" and e: "expert_ok g il e"
    and w: "write_slot_from_buf env g il slot (expert_record g il e) = (True, h)"
    and same: "same_slots h h'" "l1 h' = l1 h"
  shows "cache_ok (commit_decode_slot env il e slot evicted h')"
proof -
  have g: "graph_wf g" using ok by (simp add: cache_ok_def)
  show ?thesis
    by (rule fill_good [OF ok s e _ _ same])
      (rule write_slot_same [OF g s expert_record_length [OF g e] w] bank.store_filled [OF g s expert_record_length [OF g e] w])+
qed

lemma upload_bad:
  assumes ok: "cache_ok g" and s: "slot_ok g il slot" and src: "stride_ok g il src"
    and w: "write_slot_from_buf env g il slot src = (b, h)"
  shows "cache_ok (invalidate_decode_slot env il slot h)"
proof -
  have g: "graph_wf g" "map_ok (n_layer g) (n_expert g) (l1 g)" "content_ok g" "\<not> identity_layout g"
    using ok by (simp_all add: cache_ok_def)
  note f = same_but_mem_fields [OF write_slot_same [OF g(1) s src w]] same_but_mem_slots [OF write_slot_same [OF g(1) s src w]]
  have h: "map_ok (n_layer h) (n_expert h) (l1 h)" "slot_ok h il slot" using g(2) s by (simp_all add: f)
  let ?c = "invalidate_decode_slot env il slot h"
  note fc = same_slots_fields [OF invalidate_slots(1) [OF h(2)]]
  have "bank.shows_records h (occupant ?c) (expert_record g)"
  proof (rule bank.drop_slot_shows [OF g(1) s src w])
    show "bank.shows_records g (occupant g) (expert_record g)" using g(3) by (simp add: content_ok_def)
    show "slot_ok h il' s' = slot_ok g il' s'" for il' s' by (simp add: f)
    show "occupant ?c il' t = Some x \<Longrightarrow> occupant g il' t = Some x \<and> (il' \<noteq> il \<or> t \<noteq> slot)" for il' t x
      using invalidate_map_ok(2) [OF h] by (simp add: f)
  qed
  then have "content_ok ?c"
    unfolding content_ok_def bank.shows_records_def bank.holds_def by (simp add: fc f)
  moreover have "map_ok (n_layer ?c) (n_expert ?c) (l1 ?c)"
    using invalidate_map_ok(1) [OF h] by (simp add: fc)
  ultimately show ?thesis using g(1,4) by (simp add: cache_ok_def fc f)
qed

lemma upload_prefill_ok:
  assumes "cache_ok g" "upload_prefill_slot env g il e slot evicted (expert_record g il e) = (b, g')"
  shows "cache_ok g'"
proof (cases "expert_ok g il e \<and> slot_ok g il slot")
  case True
  obtain w h where w: "write_slot_from_buf env g il slot (expert_record g il e) = (w, h)" by force
  have src: "stride_ok g il (expert_record g il e)"
    using expert_record_length assms(1) True by (simp add: cache_ok_def)
  show ?thesis
    using assms(2) w True upload_good [OF assms(1) _ _ _ same_slots_refl refl, of il slot e env h evicted]
      upload_bad [OF assms(1) _ src w]
    by (cases w) (auto simp: upload_prefill_slot_def)
qed (use assms in \<open>auto simp: upload_prefill_slot_def\<close>)

lemma upload_decode_ok:
  assumes "cache_ok g" "upload_decode_slot env g il e slot evicted (expert_record g il e) = (b, g')"
  shows "cache_ok g'"
proof (cases "expert_ok g il e \<and> slot_ok g il slot")
  case True
  obtain w h where w: "write_slot_from_buf env g il slot (expert_record g il e) = (w, h)" by force
  have src: "stride_ok g il (expert_record g il e)"
    using expert_record_length assms(1) True by (simp add: cache_ok_def)
  define h' where "h' = (if sm_bank (gpu_l2 h) \<noteq> 0 then snd (gpu_l2_store_l1_slot env h il e slot) else h)"
  have h': "same_slots h h'" "l1 h' = l1 h"
    using gpu_store_slots [of env h il e slot] by (auto simp: h'_def prod_eq_iff)
  show ?thesis
  proof (cases w)
    case True
    then have "g' = add_installed il (commit_decode_slot env il e slot evicted h')"
      using assms(2) w \<open>expert_ok g il e \<and> slot_ok g il slot\<close> by (simp add: upload_decode_slot_def Let_def h'_def)
    moreover have "cache_ok (commit_decode_slot env il e slot evicted h')"
      using upload_good [OF assms(1) _ _ _ h'] w True \<open>expert_ok g il e \<and> slot_ok g il slot\<close> by simp
    ultimately show ?thesis by simp
  next
    case False
    then have "g' = invalidate_decode_slot env il slot h"
      using assms(2) w \<open>expert_ok g il e \<and> slot_ok g il slot\<close> by (simp add: upload_decode_slot_def)
    then show ?thesis using upload_bad [OF assms(1) _ src w] \<open>expert_ok g il e \<and> slot_ok g il slot\<close> by simp
  qed
qed (use assms in \<open>auto simp: upload_decode_slot_def\<close>)

end
