(* ===== verification/Moe_Fill.thy ===== *)
theory Moe_Fill
  imports Moe_Inv
begin

text \<open>
  The reads of the synchronous install (\<open>src/ds4.c\<close>): a read that succeeds, straight into the slot
  or through the staging buffer, fills the slot with the expert's record, in every layout.
\<close>

section \<open>The record in the file\<close>

lemma record_offset:
  assumes "graph_wf g" "expert_ok g il e"
  shows "wrap64 (nat e * expert_stride (flash_moe g ! il)) = nat e * expert_stride (flash_moe g ! il)"
    and "nat e * expert_stride (flash_moe g ! il) + expert_stride (flash_moe g ! il) \<le> length (layer_fd (flash_moe g ! il))"
    and "length (layer_fd (flash_moe g ! il)) < 2 ^ 63"
proof -
  let ?l = "flash_moe g ! il"
  have l: "layer_wf (n_expert g) (slot_bank g) ?l" and e: "nat e < n_expert g"
    using assms by (auto simp: graph_wf_def expert_ok_def)
  have "Suc (nat e) * expert_stride ?l \<le> n_expert g * expert_stride ?l" using e by (intro mult_right_mono) auto
  also have "\<dots> \<le> length (layer_fd ?l)" using l by (simp add: layer_wf_def)
  finally show b: "nat e * expert_stride ?l + expert_stride ?l \<le> length (layer_fd ?l)" by simp
  show fd: "length (layer_fd ?l) < 2 ^ 63" using l by (simp add: layer_wf_def)
  have "(2::nat) ^ 63 < 2 ^ 64" by simp
  then have "nat e * expert_stride ?l < 2 ^ 64" using b fd by linarith
  then show "wrap64 (nat e * expert_stride ?l) = nat e * expert_stride ?l" unfolding wrap64_def by (rule mod_less)
qed

section \<open>Layouts that keep the record in one piece\<close>

lemma home_write_filled:
  assumes "graph_wf g" "whole_layout g" "slot_ok g il s" "stride_ok g il src" "home_write g il s src g'"
  shows "bank.filled g il s src g'"
proof -
  have "same_but_mem g g'" using assms(5) by (simp add: home_write_def)
  note f = same_but_mem_fields [OF this]
  show ?thesis
    using home_write_view [OF assms] home_write_other [OF assms(1-4)] assms(5)
    by (auto simp: bank.filled_def bank.touched_def bank.holds_def f)
qed

lemma mixed_slot_ptr_home:
  assumes "graph_wf g" "slot_ok g il s" "flash_mixed_slot_bank g" "mixed_slot_ptr env g il s = (Some (t, off), h)"
  shows "h = g" "home g il s = Some (t, off)"
    "\<exists>b. flash_mem g t = Some b \<and> off + expert_stride (flash_moe g ! il) \<le> length b"
  using assms
  by (auto simp: mixed_slot_ptr_def home_def Let_def graph_wf_def layout_wf_def split: if_splits option.splits)

section \<open>Reads that may fail\<close>

lemma split_write_inside:
  assumes "pread_split tr f p n want = (ok, ws)" "(off, d) \<in> set ws"
  shows "off + length d \<le> n"
proof (cases "active_io_split n want = 1")
  case True
  obtain ok' k where r: "pread_full (tr 0) f p n 0 = (ok', k)" by force
  then show ?thesis using assms True pread_full_bounds [OF r]
    by (auto simp: pread_split_def get_at_def)
next
  case False
  let ?k = "active_io_split n want"
  note k = active_io_split_split(2,4) [OF False]
  obtain c where c: "c < ?k" "(off, d) = snd (split_job tr f p n ?k c)"
    using assms k by (auto simp: pread_split_def Let_def)
  obtain a l where r: "io_split_range n ?k c = (a, l)" by force
  obtain ok' j where pf: "pread_full (tr c) f (wrap64 (p + a)) l 0 = (ok', j)" by force
  have "off = a" "length d \<le> j" "j \<le> l"
    using c(2) r pf pread_full_bounds [OF pf] by (auto simp: split_job_def)
  then show ?thesis using io_split_range_inside [OF k c(1)] r by simp
qed

lemma apply_writes_outside:
  assumes "\<And>off d. (off, d) \<in> set ws \<Longrightarrow> off + length d \<le> n" "base + n \<le> length buf"
  shows "length (apply_writes ws base buf) = length buf
    \<and> (\<forall>off m. off + m \<le> base \<or> base + n \<le> off \<longrightarrow> get_at off m (apply_writes ws base buf) = get_at off m buf)"
  using assms
proof (induction ws arbitrary: buf)
  case Nil
  then show ?case by (simp add: apply_writes_def)
next
  case (Cons w ws)
  obtain a d where w: "w = (a, d)" by force
  have d: "a + length d \<le> n" using Cons.prems(1) w by auto
  let ?b = "put_at (base + a) d buf"
  have len: "length ?b = length buf" using d Cons.prems(2) by (simp add: length_put_at)
  have "get_at off m ?b = get_at off m buf" if "off + m \<le> base \<or> base + n \<le> off" for off m
    by (rule get_at_put_at_disjoint) (use that d Cons.prems(2) in auto)
  then show ?case using Cons.IH [of ?b] Cons.prems len w by (simp add: apply_writes_def)
qed

lemma view_outside:
  assumes "pread_split tr f p n want = (ok, ws)" "mem t = Some b" "base + n \<le> length b"
    and "t' \<noteq> t \<or> off + m \<le> base \<or> base + n \<le> off"
  shows "gpu_tensor_view (mem_apply mem (t, base) ws) t' off m = gpu_tensor_view mem t' off m"
    and "\<exists>b'. mem_apply mem (t, base) ws t = Some b' \<and> length b' = length b"
  using apply_writes_outside [OF split_write_inside [OF assms(1)] assms(3)] assms(2,4)
  by (auto simp: mem_apply_def gpu_tensor_view_def)

lemma mixed_touched:
  assumes "graph_wf g" "slot_ok g il s" "flash_mixed_slot_bank g" "home g il s = Some (t, base)" "flash_mem g t = Some b"
    and "base + expert_stride (flash_moe g ! il) \<le> length b"
    and "pread_split tr f p (expert_stride (flash_moe g ! il)) want = (ok, ws)"
  shows "bank.touched g il s (g\<lparr>flash_mem := mem_apply (flash_mem g) (t, base) ws\<rparr>)"
proof -
  let ?g = "g\<lparr>flash_mem := mem_apply (flash_mem g) (t, base) ws\<rparr>"
  have same: "same_but_mem g ?g" by simp
  note f = same_but_mem_fields [OF same] home_same [OF same]
  have w: "whole_layout g" using assms(3) by (simp add: whole_layout_def)
  have "family_slot_view ?g il' fam s' = family_slot_view g il' fam s'"
    if o: "slot_ok g il' s'" "il' \<noteq> il \<or> s' \<noteq> s" and fam: "fam < 3" for il' s' fam
  proof -
    let ?l = "flash_moe g ! il'"
    have l: "family_offset ?l ! fam + family_bytes ?l ! fam \<le> expert_stride ?l"
      using wf_layer(1) [OF assms(1) o(1)] fam by (simp add: layer_wf_def)
    have "gpu_tensor_view (mem_apply (flash_mem g) (t, base) ws) t' (family_offset ?l ! fam + o2) (family_bytes ?l ! fam)
        = gpu_tensor_view (flash_mem g) t' (family_offset ?l ! fam + o2) (family_bytes ?l ! fam)"
      if t': "home g il' s' = Some (t', o2)" for t' o2
      using home_apart [OF assms(1) w assms(2) o assms(4) t' l]
      by (intro view_outside(1) [where mem = "flash_mem g", OF assms(7,5,6)]) auto
    then show ?thesis
      using record_view [OF assms(1) w o(1) fam] record_view [of ?g il' s' fam] assms(1) w o(1) fam
      by (auto simp: f split: option.splits)
  qed
  then have "family_slot_view ?g il' fam s' = family_slot_view g il' fam s'"
    if "slot_ok g il' s'" "il' \<noteq> il \<or> s' \<noteq> s" for il' s' fam
    using that by (cases "fam < 3") (auto simp: family_slot_view_def)
  then show ?thesis by (simp add: bank.touched_def f)
qed

section \<open>The family reads\<close>

lemma put_at_nth:
  assumes "off + length src \<le> length b" "i < length b"
  shows "put_at off src b ! i = (if off \<le> i \<and> i < off + length src then src ! (i - off) else b ! i)"
  using assms by (cases "i < off") (auto simp: put_at_def nth_append)

lemma view_kept:
  assumes "gpu_tensor_view mem t off n = Some (get_at off n rec)" "mem t = Some b"
    and "off' + n' \<le> length b" "off' + n' \<le> length rec" "off + n \<le> length rec"
  shows "gpu_tensor_view (mem(t := Some (put_at off' (get_at off' n' rec) b))) t off n = Some (get_at off n rec)"
proof -
  let ?b = "put_at off' (get_at off' n' rec) b"
  have n': "length (get_at off' n' rec) = n'" using assms(4) by (simp add: get_at_def)
  have len: "length ?b = length b" using assms(3) n' by (simp add: length_put_at)
  have v: "off + n \<le> length b" "get_at off n b = get_at off n rec"
    using assms(1,2) by (auto simp: gpu_tensor_view_def split: if_splits)
  have "get_at off n ?b = get_at off n rec"
  proof (rule nth_equalityI)
    show "length (get_at off n ?b) = length (get_at off n rec)"
      using v(1) assms(5) len by (simp add: get_at_def)
  next
    fix i assume "i < length (get_at off n ?b)"
    then have i: "i < n" by (simp add: get_at_def)
    have b: "b ! (off + i) = rec ! (off + i)"
      using arg_cong [OF v(2), of "\<lambda>x. x ! i"] i v(1) assms(5) by (simp add: get_at_def)
    have "?b ! (off + i) = rec ! (off + i)"
    proof (cases "off' \<le> off + i \<and> off + i < off' + n'")
      case True
      then have "?b ! (off + i) = get_at off' n' rec ! (off + i - off')"
        using put_at_nth [of off' "get_at off' n' rec" b "off + i"] assms(3) n' i v(1) by simp
      also have "\<dots> = drop off' rec ! (off + i - off')" unfolding get_at_def by (rule nth_take) (use True in linarith)
      also have "\<dots> = rec ! (off + i)" using True assms(4) by (subst nth_drop) auto
      finally show ?thesis .
    next
      case False
      then have "?b ! (off + i) = b ! (off + i)"
        using put_at_nth [of off' "get_at off' n' rec" b "off + i"] assms(3) n' i v(1) by auto
      then show ?thesis using b by simp
    qed
    then show "get_at off n ?b ! i = get_at off n rec ! i"
      using i v(1) assms(5) len by (simp add: get_at_def)
  qed
  then show ?thesis using v(1) len by (simp add: gpu_tensor_view_def)
qed

text \<open>Reading the families one after the other.  The destinations of two families are in different
  tensors, or both lie in the slot's own buffer at their offsets in the record.\<close>

definition fam_dst :: "graph \<Rightarrow> nat \<Rightarrow> (tensor_ref \<times> nat) list \<Rightarrow> bool" where
  "fam_dst g il dst \<longleftrightarrow> length dst = 3 \<and> (\<forall>f < 3. \<exists>b. flash_mem g (fst (dst ! f)) = Some b
        \<and> snd (dst ! f) + family_bytes (flash_moe g ! il) ! f \<le> length b)
     \<and> (\<forall>f < 3. \<forall>f' < 3. f \<noteq> f' \<longrightarrow> fst (dst ! f) \<noteq> fst (dst ! f')
        \<or> (snd (dst ! f) = family_offset (flash_moe g ! il) ! f \<and> snd (dst ! f') = family_offset (flash_moe g ! il) ! f'))"

definition fam_view :: "graph \<Rightarrow> nat \<Rightarrow> (tensor_ref \<times> nat) list \<Rightarrow> nat \<Rightarrow> bytes option" where
  "fam_view g il dst f = gpu_tensor_view (flash_mem g) (fst (dst ! f)) (snd (dst ! f)) (family_bytes (flash_moe g ! il) ! f)"

lemma record_part:
  assumes "graph_wf g" "expert_ok g il e" "f < 3"
  shows "family_part g il f (expert_record g il e) =
      get_at (nat e * expert_stride (flash_moe g ! il) + family_offset (flash_moe g ! il) ! f)
        (family_bytes (flash_moe g ! il) ! f) (layer_fd (flash_moe g ! il))"
    and "family_offset (flash_moe g ! il) ! f + family_bytes (flash_moe g ! il) ! f \<le> length (expert_record g il e)"
proof -
  have l: "layer_wf (n_expert g) (slot_bank g) (flash_moe g ! il)"
    using assms by (auto simp: graph_wf_def expert_ok_def)
  then have le: "family_offset (flash_moe g ! il) ! f + family_bytes (flash_moe g ! il) ! f \<le> expert_stride (flash_moe g ! il)"
    using assms(3) by (simp add: layer_wf_def)
  then show "family_offset (flash_moe g ! il) ! f + family_bytes (flash_moe g ! il) ! f \<le> length (expert_record g il e)"
    using expert_record_length [OF assms(1,2)] by (simp add: stride_ok_def)
  show "family_part g il f (expert_record g il e) =
      get_at (nat e * expert_stride (flash_moe g ! il) + family_offset (flash_moe g ! il) ! f)
        (family_bytes (flash_moe g ! il) ! f) (layer_fd (flash_moe g ! il))"
    using le by (simp add: family_part_def expert_record_def Let_def get_at_def drop_take ac_simps min_def)
qed

lemma pread_families_ok:
  assumes "graph_wf g" "expert_ok g il e" "fam_dst g il dst"
    and "pread_families env (flash_moe g ! il) e dst fs g = (True, g')" "set fs \<subseteq> {0, 1, 2}"
  shows "same_but_mem g g' \<and> fam_dst g' il dst
    \<and> ((\<forall>f < 3. f \<in> set fs \<or> fam_view g il dst f = Some (family_part g il f (expert_record g il e))
           \<longrightarrow> fam_view g' il dst f = Some (family_part g il f (expert_record g il e))))
    \<and> ((\<forall>t off n. (\<forall>f < 3. fst (dst ! f) \<noteq> t \<or> off + n \<le> snd (dst ! f)
             \<or> snd (dst ! f) + family_bytes (flash_moe g ! il) ! f \<le> off)
         \<longrightarrow> gpu_tensor_view (flash_mem g') t off n = gpu_tensor_view (flash_mem g) t off n))"
  using assms
proof (induction fs arbitrary: g)
  case Nil
  then show ?case by simp
next
  case (Cons f fs)
  let ?l = "flash_moe g ! il" and ?R = "expert_record g il e"
  let ?n = "family_bytes ?l ! f" and ?o = "family_offset ?l ! f" and ?p = "nat e * expert_stride ?l"
  note ro = record_offset [OF Cons.prems(1,2)]
  have f: "f < 3" using Cons.prems(5) by auto
  note rp = record_part [OF Cons.prems(1,2) f]
  obtain t off where d: "dst ! f = (t, off)" by force
  obtain x where x: "flash_mem g t = Some x" "off + ?n \<le> length x" using Cons.prems(3) f d by (auto simp: fam_dst_def)
  show ?case
  proof (cases "?n = 0")
    case True
    then have "fam_view g il dst f = Some (family_part g il f ?R)"
      using x d by (simp add: fam_view_def gpu_tensor_view_def family_part_def Let_def get_at_def)
    then show ?thesis using Cons.IH [of g] Cons.prems True by (auto simp: Let_def)
  next
    case False
    have R: "length ?R = expert_stride ?l" using expert_record_length [OF Cons.prems(1,2)] by (simp add: stride_ok_def)
    have "(2::nat) ^ 63 < 2 ^ 64" by simp
    then have b64: "?p + ?o + ?n < 2 ^ 64" using rp(2) R ro(2,3) by linarith
    then have ov: "\<not> ?o > UINT64_MAX - ?p" unfolding UINT64_MAX_def by linarith
    obtain ok ws where r: "pread_split (env_pread env f) (layer_fd ?l) (?p + ?o) ?n (env_cache_io_split env) = (ok, ws)" by force
    have ok: ok using Cons.prems(4) False ov r by (auto simp: Let_def ro(1) split: if_splits)
    define h where "h = g\<lparr>flash_mem := (flash_mem g)(t := Some (put_at off (get_at ?o ?n ?R) x))\<rparr>"
    have "apply_writes ws off x = put_at off (get_at ?o ?n ?R) x"
      using pread_split_ok [of _ _ "?p + ?o", OF _ b64] r ok x rp(1) by (simp add: family_part_def Let_def)
    then have "pread_families env ?l e dst fs h = (True, g')"
      using Cons.prems(4) False ov r ok x d by (simp add: Let_def ro(1) mem_apply_def h_def)
    moreover have same: "same_but_mem g h" by (simp add: h_def)
    moreover note sf = same_but_mem_fields [OF same]
    moreover have len: "length (put_at off (get_at ?o ?n ?R) x) = length x"
      using x R rp(2) by (simp add: length_put_at)
    then have fd: "fam_dst h il dst"
      using Cons.prems(3) x by (auto simp: fam_dst_def sf) (auto simp: h_def)
    ultimately have IH: "same_but_mem h g' \<and> fam_dst g' il dst
    \<and> ((\<forall>f < 3. f \<in> set fs \<or> fam_view h il dst f = Some (family_part g il f ?R)
         \<longrightarrow> fam_view g' il dst f = Some (family_part g il f ?R)))
    \<and> ((\<forall>t off n. (\<forall>f < 3. fst (dst ! f) \<noteq> t \<or> off + n \<le> snd (dst ! f)
           \<or> snd (dst ! f) + family_bytes ?l ! f \<le> off)
       \<longrightarrow> gpu_tensor_view (flash_mem g') t off n = gpu_tensor_view (flash_mem h) t off n))"
      using Cons.IH [of h] Cons.prems(1,2,5) by (simp add: sf)
    have mine: "fam_view h il dst f = Some (family_part g il f ?R)"
      using view_after_put(1) [of "flash_mem g" t x off "get_at ?o ?n ?R" off ?n] x d R rp(2)
      by (simp add: fam_view_def sf h_def family_part_def Let_def get_at_def)
    have kept: "fam_view h il dst f' = Some (family_part g il f' ?R)"
      if f': "f' < 3" "f' \<noteq> f" "fam_view g il dst f' = Some (family_part g il f' ?R)" for f'
    proof (cases "fst (dst ! f') = t")
      case False
      then show ?thesis using f'(3) by (simp add: fam_view_def sf h_def gpu_tensor_view_def)
    next
      case True
      then have "snd (dst ! f') = family_offset ?l ! f'" "off = ?o" using Cons.prems(3) f f'(1,2) d by (auto simp: fam_dst_def)
      then show ?thesis
        using view_kept [of "flash_mem g" t _ _ ?R x off ?n] f'(3) True x rp(2) record_part(2) [OF Cons.prems(1,2) f'(1)]
        by (simp add: fam_view_def sf h_def family_part_def Let_def)
    qed
    have other: "gpu_tensor_view (flash_mem h) t' off' n' = gpu_tensor_view (flash_mem g) t' off' n'"
      if "\<forall>f < 3. fst (dst ! f) \<noteq> t' \<or> off' + n' \<le> snd (dst ! f) \<or> snd (dst ! f) + family_bytes ?l ! f \<le> off'" for t' off' n'
    proof (cases "t' = t")
      case False
      then show ?thesis by (simp add: h_def gpu_tensor_view_def)
    next
      case True
      have "off' + n' \<le> off \<or> off + ?n \<le> off'" using that f d True by force
      then show ?thesis
        using view_after_put(2) [of "flash_mem g" t x off "get_at ?o ?n ?R" off' n'] x R rp(2) True by (simp add: h_def)
    qed
    show ?thesis using IH mine kept other same_but_mem_trans [OF same] by (metis set_ConsD)
  qed
qed

text \<open>The two layouts that read the families.\<close>

lemma less3: "(f :: nat) < 3 \<longleftrightarrow> f = 0 \<or> f = 1 \<or> f = 2"
  by auto

lemma pread_families_outside:
  assumes "fam_dst g il dst" "pread_families env (flash_moe g ! il) e dst fs g = (b, g')" "set fs \<subseteq> {0, 1, 2}"
  shows "same_but_mem g g' \<and> fam_dst g' il dst
    \<and> (\<forall>t off n. (\<forall>f < 3. fst (dst ! f) \<noteq> t \<or> off + n \<le> snd (dst ! f)
             \<or> snd (dst ! f) + family_bytes (flash_moe g ! il) ! f \<le> off)
         \<longrightarrow> gpu_tensor_view (flash_mem g') t off n = gpu_tensor_view (flash_mem g) t off n)"
  using assms
proof (induction fs arbitrary: g)
  case Nil
  then show ?case by simp
next
  case (Cons f fs)
  let ?l = "flash_moe g ! il"
  let ?n = "family_bytes ?l ! f" and ?o = "family_offset ?l ! f" and ?p = "wrap64 (nat e * expert_stride ?l)"
  have f: "f < 3" using Cons.prems(3) by auto
  obtain t off where d: "dst ! f = (t, off)" by force
  obtain x where x: "flash_mem g t = Some x" "off + ?n \<le> length x" using Cons.prems(1) f d by (auto simp: fam_dst_def)
  obtain ok ws where r: "pread_split (env_pread env f) (layer_fd ?l) (?p + ?o) ?n (env_cache_io_split env) = (ok, ws)" by force
  define h where "h = g\<lparr>flash_mem := mem_apply (flash_mem g) (t, off) ws\<rparr>"
  have same: "same_but_mem g h" by (simp add: h_def)
  note sf = same_but_mem_fields [OF same]
  consider (skip) "?n = 0" | (over) "?n \<noteq> 0" "g' = g" | (rd) "?n \<noteq> 0" "\<not> ?o > UINT64_MAX - ?p"
    using Cons.prems(2) by (cases "?n = 0"; cases "?o > UINT64_MAX - ?p") (auto simp: Let_def)
  then show ?case
  proof cases
    case skip
    then show ?thesis using Cons.IH [of g] Cons.prems by (auto simp: Let_def)
  next
    case over
    then show ?thesis using Cons.prems(1) by simp
  next
    case rd
    have g': "if ok then pread_families env ?l e dst fs h = (b, g') else g' = h"
      using Cons.prems(2) rd r d by (auto simp: Let_def h_def split: if_splits)
    note vo = view_outside [where mem = "flash_mem g", OF r x]
    have v: "gpu_tensor_view (flash_mem h) t' off' n' = gpu_tensor_view (flash_mem g) t' off' n'"
      if "\<forall>f < 3. fst (dst ! f) \<noteq> t' \<or> off' + n' \<le> snd (dst ! f) \<or> snd (dst ! f) + family_bytes ?l ! f \<le> off'" for t' off' n'
      using that f d vo(1) [of t' off' n'] by (fastforce simp: h_def)
    have "\<exists>b'. flash_mem h t = Some b' \<and> length b' = length x" using vo(2) [of t "off + ?n" 0] by (simp add: h_def)
    moreover have "flash_mem h t' = flash_mem g t'" if "t' \<noteq> t" for t' using that by (simp add: h_def mem_apply_def)
    ultimately have fd: "fam_dst h il dst"
      using Cons.prems(1) x unfolding fam_dst_def sf by (metis option.inject)
    then show ?thesis using g' v Cons.IH [of h] Cons.prems(3) same_but_mem_trans [OF same] same
      by (cases ok) (simp_all add: sf)
  qed
qed

text \<open>Where a family of a slot lies in these two layouts.\<close>

definition floc :: "graph \<Rightarrow> nat \<Rightarrow> nat \<Rightarrow> int \<Rightarrow> tensor_ref \<times> nat" where
  "floc g il f s = (if flash_per_slot_buffers g then (Expert_bank il (nat s), family_offset (flash_moe g ! il) ! f)
     else (family_tensor il f, nat s * (family_bytes (flash_moe g ! il) ! f)))"

lemma floc_same: "same_but_mem g g' \<Longrightarrow> floc g' = floc g"
  by (simp add: fun_eq_iff floc_def same_but_mem_fields)

lemma floc_view:
  assumes "graph_wf g" "\<not> flash_mixed_slot_bank g" "slot_ok g il s" "f < 3"
  shows "family_slot_view g il f s = gpu_tensor_view (flash_mem g) (fst (floc g il f s)) (snd (floc g il f s))
    (family_bytes (flash_moe g ! il) ! f)"
proof (cases "flash_per_slot_buffers g")
  case True
  then have "whole_layout g" "home g il s = Some (Expert_bank il (nat s), 0)" by (simp_all add: whole_layout_def home_def)
  then show ?thesis using record_view [OF assms(1) _ assms(3,4)] True by (simp add: floc_def)
next
  case False
  then show ?thesis using family_view [OF assms(1) _ assms(3,4)] assms(2) by (simp add: floc_def whole_layout_def)
qed

lemma floc_apart:
  assumes "slot_ok g il s" "slot_ok g il' s'" "il' \<noteq> il \<or> s' \<noteq> s" "f < 3" "f' < 3"
  shows "fst (floc g il f s) \<noteq> fst (floc g il' f' s')
    \<or> snd (floc g il' f' s') + family_bytes (flash_moe g ! il') ! f' \<le> snd (floc g il f s)
    \<or> snd (floc g il f s) + family_bytes (flash_moe g ! il) ! f \<le> snd (floc g il' f' s')"
proof (cases "flash_per_slot_buffers g \<or> il' \<noteq> il \<or> f' \<noteq> f")
  case True
  then show ?thesis using assms family_tensor_eq [OF assms(4,5), of il il'] by (auto simp: floc_def slot_ok_def eq_nat_nat_iff)
next
  case False
  then have "nat s' \<noteq> nat s" using assms(1-3) by (auto simp: slot_ok_def)
  from slots_disjoint [OF this, of 0 _ "family_bytes (flash_moe g ! il) ! f"] show ?thesis
    using False by (auto simp: floc_def)
qed

lemma slot_ptrs_dst:
  assumes "graph_wf g" "slot_ok g il s" "flash_per_slot_buffers g" "direct_slot_ptrs env g il s = (Some dst, h)"
  shows "same_but_mem g h \<and> fam_dst h il dst \<and> (\<forall>t. t \<noteq> Expert_bank il (nat s) \<longrightarrow> flash_mem h t = flash_mem g t)
    \<and> dst = map (\<lambda>f. floc g il f s) [0, 1, 2]"
proof -
  let ?l = "flash_moe g ! il"
  have s: "0 \<le> s" "s < int (slot_bank g)" "il < n_layer g" using assms(2) by (auto simp: slot_ok_def)
  obtain ok h' where e: "ensure_per_slot_buffer env g il s = (ok, h')" by force
  let ?bad = "\<lambda>b fam. family_offset ?l ! fam > length b \<or> family_bytes ?l ! fam > length b - family_offset ?l ! fam"
  have eq: "direct_slot_ptrs env g il s =
      (if \<not> ok then None
       else case flash_mem h' (Expert_bank il (nat s)) of None \<Rightarrow> None
       | Some b \<Rightarrow> if expert_stride ?l > length b then None else if list_ex (?bad b) [0, 1, 2] then None
                   else Some (map (\<lambda>fam. (Expert_bank il (nat s), family_offset ?l ! fam)) [0, 1, 2]), h')"
    unfolding direct_slot_ptrs_def Let_def using s assms(3) e by (simp only: if_True if_False not_le not_less simp_thms) simp
  have h': "h' = h" using assms(4) unfolding eq by simp
  have ok: ok using assms(4) unfolding eq by (rule_tac ccontr) simp
  obtain b where b: "flash_mem h (Expert_bank il (nat s)) = Some b"
    using assms(4) ok unfolding eq h' by (cases "flash_mem h (Expert_bank il (nat s))") simp_all
  have d3: "\<not> list_ex (?bad b) [0, 1, 2]" "dst = map (\<lambda>f. (Expert_bank il (nat s), family_offset ?l ! f)) [0, 1, 2]"
    using assms(4) ok b unfolding eq h' by (simp_all only: option.case if_True if_False not_True_eq_False prod.inject split: if_splits) simp_all
  have d: "h' = h" "ok" "dst = map (\<lambda>f. (Expert_bank il (nat s), family_offset ?l ! f)) [0, 1, 2]"
    "\<exists>b. flash_mem h (Expert_bank il (nat s)) = Some b
      \<and> (\<forall>f < 3. family_offset ?l ! f \<le> length b \<and> family_bytes ?l ! f \<le> length b - family_offset ?l ! f)"
    using h' ok d3 b by (simp_all add: less3)
  note eb = ensure_buffer [OF e, unfolded d(1)]
  note sf = same_but_mem_fields [OF eb(1)]
  have "fam_dst h il dst" using d(3,4) by (auto simp: fam_dst_def sf less3)
  then show ?thesis using eb(1,2) d(3) assms(3) by (simp add: floc_def)
qed

lemma family_ptrs_dst:
  assumes "graph_wf g" "slot_ok g il s" "\<not> whole_layout g" "direct_slot_ptrs env g il s = (Some dst, h)"
  shows "h = g" "fam_dst g il dst" "dst = map (\<lambda>f. floc g il f s) [0, 1, 2]"
proof -
  let ?l = "flash_moe g ! il"
  have s: "0 \<le> s" "s < int (slot_bank g)" "il < n_layer g" using assms(2) by (auto simp: slot_ok_def)
  have ns: "\<not> flash_per_slot_buffers g" using assms(3) by (simp add: whole_layout_def)
  have fp: "family_slot_ptr g t n n s (slot_bank g) = Some p \<Longrightarrow> p = (t, nat s * n) \<and> (\<exists>b. flash_mem g t = Some b \<and> nat s * n + n \<le> length b)"
    for t n p using s by (auto simp: family_slot_ptr_def split: if_splits option.splits)
  let ?ptr = "\<lambda>fam. family_slot_ptr g (family_tensor il fam) (family_bytes ?l ! fam) (family_bytes ?l ! fam) s (slot_bank g)"
  have eq: "direct_slot_ptrs env g il s = (if None \<in> set (map ?ptr [0, 1, 2]) then None else Some (map the (map ?ptr [0, 1, 2])), g)"
    unfolding direct_slot_ptrs_def Let_def using s ns by (simp only: if_False not_le not_less simp_thms) simp
  have n: "None \<notin> set (map ?ptr [0, 1, 2])"
  proof (rule ccontr)
    assume "\<not> None \<notin> set (map ?ptr [0, 1, 2])"
    then have "direct_slot_ptrs env g il s = (None, g)" unfolding eq by (simp only: not_not if_True)
    then show False using assms(4) by simp
  qed
  then have p: "\<exists>p. ?ptr f = Some p" if "f < 3" for f using that by (auto simp: less3 eq_commute [of None])
  have d: "h = g" "dst = map (the \<circ> ?ptr) [0, 1, 2]"
    using assms(4) unfolding eq if_not_P [OF n] by auto
  have q: "?ptr f = Some (family_tensor il f, nat s * (family_bytes ?l ! f))"
    "\<exists>b. flash_mem g (family_tensor il f) = Some b \<and> nat s * (family_bytes ?l ! f) + family_bytes ?l ! f \<le> length b"
    if "f < 3" for f
    using p [OF that] fp [of "family_tensor il f" "family_bytes ?l ! f"] by auto
  have d: "h = g" "dst = map (\<lambda>f. (family_tensor il f, nat s * (family_bytes ?l ! f))) [0, 1, 2]"
    "\<forall>f < 3. \<exists>b. flash_mem g (family_tensor il f) = Some b \<and> nat s * (family_bytes ?l ! f) + family_bytes ?l ! f \<le> length b"
    using d q by (simp_all add: less3)
  show "h = g" by (rule d(1))
  show "dst = map (\<lambda>f. floc g il f s) [0, 1, 2]" using d(2) ns by (simp add: floc_def)
  show "fam_dst g il dst" using d(3) family_tensor_eq by (auto simp: fam_dst_def d(2) less3)
qed

lemma ptrs_none:
  assumes "\<not> flash_mixed_slot_bank g" "slot_ok g il s" "direct_slot_ptrs env g il s = (p, h)"
  shows "same_but_mem g h \<and> (\<forall>t. (flash_per_slot_buffers g \<longrightarrow> t \<noteq> Expert_bank il (nat s)) \<longrightarrow> flash_mem h t = flash_mem g t)"
proof (cases "flash_per_slot_buffers g")
  case True
  obtain ok h' where e: "ensure_per_slot_buffer env g il s = (ok, h')" by force
  have "snd (direct_slot_ptrs env g il s) = h'" using assms(2) True e by (simp add: direct_slot_ptrs_def Let_def slot_ok_def)
  then have "h = h'" using assms(3) by simp
  then show ?thesis using ensure_buffer(1,2) [OF e] True by auto
next
  case False
  then have "snd (direct_slot_ptrs env g il s) = g" by (simp add: direct_slot_ptrs_def Let_def)
  then show ?thesis using assms(3) by simp
qed

lemma floc_touched:
  assumes "graph_wf g" "\<not> flash_mixed_slot_bank g" "slot_ok g il s" "same_but_mem g g'"
    and v: "\<And>t off n. (\<forall>f < 3. fst (floc g il f s) \<noteq> t \<or> off + n \<le> snd (floc g il f s)
          \<or> snd (floc g il f s) + family_bytes (flash_moe g ! il) ! f \<le> off)
        \<Longrightarrow> (flash_per_slot_buffers g \<longrightarrow> t \<noteq> Expert_bank il (nat s))
        \<Longrightarrow> gpu_tensor_view (flash_mem g') t off n = gpu_tensor_view (flash_mem g) t off n"
  shows "bank.touched g il s g'"
  unfolding bank.touched_def
proof (intro conjI allI impI)
  note f2 = same_but_mem_fields [OF assms(4)]
  show "family_part g' = family_part g" by (simp add: f2)
  fix il' s' f assume s': "slot_ok g il' s'" "il' \<noteq> il \<or> s' \<noteq> s"
  show "family_slot_view g' il' f s' = family_slot_view g il' f s'"
  proof (cases "f < 3")
    case True
    have "gpu_tensor_view (flash_mem g') (fst (floc g il' f s')) (snd (floc g il' f s')) (family_bytes (flash_moe g ! il') ! f)
        = gpu_tensor_view (flash_mem g) (fst (floc g il' f s')) (snd (floc g il' f s')) (family_bytes (flash_moe g ! il') ! f)"
      by (rule v) (use floc_apart [OF assms(3) s' _ True] s' assms(3) in \<open>auto simp: floc_def slot_ok_def eq_nat_nat_iff\<close>)
    then show ?thesis
      using floc_view [of g' il' s' f] floc_view [OF assms(1,2) s'(1) True] assms(1,2) s'(1) True
      by (simp add: f2 floc_same [OF assms(4)])
  qed (simp add: family_slot_view_def)
qed

lemma pread_slot_filled:
  assumes "graph_wf g" "slot_ok g il s" "expert_ok g il e" "\<not> flash_mixed_slot_bank g"
    and d: "direct_slot_ptrs env g il s = (Some dst, h)"
    and r: "pread_slot_direct env h (flash_moe g ! il) e dst = (b, g')"
  shows "same_but_mem g g'" "bank.touched g il s g'" "b \<Longrightarrow> bank.filled g il s (expert_record g il e) g'"
proof -
  have dst: "same_but_mem g h" "fam_dst h il dst" "dst = map (\<lambda>f. floc g il f s) [0, 1, 2]"
    "\<And>t. (flash_per_slot_buffers g \<longrightarrow> t \<noteq> Expert_bank il (nat s)) \<Longrightarrow> flash_mem h t = flash_mem g t"
    using slot_ptrs_dst [OF assms(1,2) _ d] family_ptrs_dst [OF assms(1,2) _ d] assms(4)
    by (cases "flash_per_slot_buffers g"; auto simp: whole_layout_def)+
  note f1 = same_but_mem_fields [OF dst(1)]
  have pf: "pread_families env (flash_moe h ! il) e dst [0, 1, 2] h = (b, g')"
    using r assms(3) by (auto simp: pread_slot_direct_def f1 expert_ok_def split: if_splits)
  have loc: "dst ! f = floc g il f s" if "f < 3" for f using that by (auto simp: dst(3) less3)
  have all: "same_but_mem h g'"
    "\<And>t off n. (\<forall>f < 3. fst (dst ! f) \<noteq> t \<or> off + n \<le> snd (dst ! f) \<or> snd (dst ! f) + family_bytes (flash_moe g ! il) ! f \<le> off)
        \<Longrightarrow> gpu_tensor_view (flash_mem g') t off n = gpu_tensor_view (flash_mem h) t off n"
    using pread_families_outside [OF dst(2) pf] by (auto simp: f1)
  show same: "same_but_mem g g'" using same_but_mem_trans [OF dst(1) all(1)] .
  show t: "bank.touched g il s g'"
    by (rule floc_touched [OF assms(1,4,2) same])
      (use all(2) dst(4) loc in \<open>simp add: gpu_tensor_view_def\<close>)
  note f2 = same_but_mem_fields [OF same]
  show "bank.filled g il s (expert_record g il e) g'" if b
  proof -
    have fv: "fam_view g' il dst f = Some (family_part g il f (expert_record g il e))" if "f < 3" for f
    proof -
      have "f \<in> set [0, 1, 2]" using that by auto
      moreover have "pread_families env (flash_moe h ! il) e dst [0, 1, 2] h = (True, g')" using pf \<open>b\<close> by simp
      note pread_families_ok [OF _ _ dst(2) this]
      moreover have "set [0, 1, 2 :: nat] \<subseteq> {0, 1, 2}" by simp
      ultimately show ?thesis using assms(1,3) that unfolding f1 by blast
    qed
    have "family_slot_view g' il f s = Some (family_part g il f (expert_record g il e))" if "f < 3" for f
      using fv [OF that] floc_view [of g' il s f] loc [OF that] assms(1,2,4) that by (simp add: f2 floc_same [OF same] fam_view_def)
    then show ?thesis using t by (simp add: bank.filled_def bank.holds_def f2)
  qed
qed

section \<open>The two reads of the install\<close>

lemma direct_read_filled:
  assumes "graph_wf g" "slot_ok g il (int s)" "expert_ok g il e" "install_direct_read env g il e s = (b, g')"
  shows "same_but_mem g g'" "bank.touched g il (int s) g'" "b \<Longrightarrow> bank.filled g il (int s) (expert_record g il e) g'"
proof -
  have "same_but_mem g g' \<and> bank.touched g il (int s) g' \<and> (b \<longrightarrow> bank.filled g il (int s) (expert_record g il e) g')"
  proof (cases "flash_mixed_slot_bank g")
    case mixed: True
    obtain p h where p: "mixed_slot_ptr env g il (int s) = (p, h)" by force
    show ?thesis
    proof (cases p)
      case None
      have "h = g" using p assms(1) mixed
        by (auto simp: mixed_slot_ptr_def Let_def graph_wf_def layout_wf_def split: if_splits option.splits)
      then show ?thesis using assms(4) mixed p None by (simp add: install_direct_read_def Let_def)
    next
      case (Some ptr)
      obtain t base where ptr: "ptr = (t, base)" by force
      let ?l = "flash_moe g ! il"
      note h = mixed_slot_ptr_home [OF assms(1,2) mixed, of env t base h]
      obtain x where x: "h = g" "home g il (int s) = Some (t, base)" "flash_mem g t = Some x" "base + expert_stride ?l \<le> length x"
        using h p Some ptr by auto
      note ro = record_offset [OF assms(1,3)]
      obtain ws where ws: "pread_split (env_pread env 3) (layer_fd ?l) (nat e * expert_stride ?l) (expert_stride ?l)
            (env_cache_io_split env) = (b, ws)"
        and g': "g' = g\<lparr>flash_mem := mem_apply (flash_mem g) (t, base) ws\<rparr>"
        using assms(4) mixed p Some ptr x(1) by (auto simp: install_direct_read_def Let_def ro(1) split: prod.splits)
      have t: "bank.touched g il (int s) g'" unfolding g' by (rule mixed_touched [OF assms(1,2) mixed x(2-4) ws])
      moreover have "bank.filled g il (int s) (expert_record g il e) g'" if b
      proof -
        have "(2::nat) ^ 63 < 2 ^ 64" by simp
        then have b64: "nat e * expert_stride ?l + expert_stride ?l < 2 ^ 64" using ro(2,3) by linarith
        have "apply_writes ws base x = put_at base (expert_record g il e) x"
          using pread_split_ok [OF _ b64 x(4)] ws that by (simp add: expert_record_def Let_def)
        then have "home_write g il (int s) (expert_record g il e) g'"
          using x expert_record_length [OF assms(1,3)] by (auto simp: home_write_def g' mem_apply_def stride_ok_def)
        then show ?thesis using home_write_filled [OF assms(1) _ assms(2) expert_record_length [OF assms(1,3)]] mixed
          by (simp add: whole_layout_def)
      qed
      ultimately show ?thesis by (simp add: g')
    qed
  next
    case nm: False
    obtain p h where p: "direct_slot_ptrs env g il (int s) = (p, h)" by force
    show ?thesis
    proof (cases p)
      case None
      then have "\<not> b" "g' = h" using assms(4) nm p by (auto simp: install_direct_read_def Let_def)
      note n = ptrs_none [OF nm assms(2) p]
      then show ?thesis using floc_touched [OF assms(1) nm assms(2), of h] \<open>\<not> b\<close> \<open>g' = h\<close>
        by (simp add: gpu_tensor_view_def)
    next
      case (Some dst)
      then show ?thesis using pread_slot_filled [OF assms(1-3) nm, of env dst h b g'] assms(4) nm p
        by (simp add: install_direct_read_def Let_def)
    qed
  qed
  then show "same_but_mem g g'" "bank.touched g il (int s) g'" "b \<Longrightarrow> bank.filled g il (int s) (expert_record g il e) g'"
    by blast+
qed

lemma staged_read_filled:
  assumes "graph_wf g" "slot_ok g il (int s)" "expert_ok g il e" "install_staged_read env g il e s = (True, g')"
  shows "same_but_mem g g'" "bank.filled g il (int s) (expert_record g il e) g'"
proof -
  let ?l = "flash_moe g ! il"
  note ro = record_offset [OF assms(1,3)]
  obtain ws where ws: "pread_split (env_pread env 4) (layer_fd ?l) (nat e * expert_stride ?l) (expert_stride ?l)
        (env_cache_io_split env) = (True, ws)"
    and w: "write_slot_from_buf env g il (int s) (apply_writes ws 0 (replicate (expert_stride ?l) (CHR 0x00))) = (True, g')"
    using assms(4) by (auto simp: install_staged_read_def Let_def ro(1) split: prod.splits if_splits)
  have "(2::nat) ^ 63 < 2 ^ 64" by simp
  then have b64: "nat e * expert_stride ?l + expert_stride ?l < 2 ^ 64" using ro(2,3) by linarith
  have "length (expert_record g il e) = expert_stride ?l"
    using expert_record_length [OF assms(1,3)] by (simp add: stride_ok_def)
  then have "apply_writes ws 0 (replicate (expert_stride ?l) (CHR 0x00)) = expert_record g il e"
    using pread_split_ok [OF ws b64, of 0 "replicate (expert_stride ?l) (CHR 0x00)"]
    by (simp add: expert_record_def Let_def put_at_def)
  then have w: "write_slot_from_buf env g il (int s) (expert_record g il e) = (True, g')" using w by simp
  show "same_but_mem g g'" by (rule write_slot_same [OF assms(1,2) expert_record_length [OF assms(1,3)] w])
  show "bank.filled g il (int s) (expert_record g il e) g'"
    by (rule bank.store_filled [OF assms(1,2) expert_record_length [OF assms(1,3)] w])
qed

text \<open>The fill of the install, with both second-level caches off.\<close>

lemma install_fill_filled:
  assumes "graph_wf g" "slot_ok g il (int s)" "expert_ok g il e" "sm_bank (l2 g) = 0" "sm_bank (gpu_l2 g) = 0"
    and "install_fill env g il e s evicted = (True, g')"
  shows "same_but_mem g g'" "bank.filled g il (int s) (expert_record g il e) g'"
proof -
  obtain d h where d: "(if env_direct_slot_pread env then install_direct_read env g il e s else (False, g)) = (d, h)" by force
  have dr: "same_but_mem g h" "bank.touched g il (int s) h" "d \<Longrightarrow> bank.filled g il (int s) (expert_record g il e) h"
    using direct_read_filled [OF assms(1-3), of env d h] d by (auto split: if_splits)
  note f = same_but_mem_fields [OF dr(1)]
  have h: "graph_wf h" "slot_ok h il (int s)" "expert_ok h il e" "sm_bank (l2 h) = 0" "sm_bank (gpu_l2 h) = 0"
    using assms(1-5) by (simp_all add: f)
  obtain w k where w: "install_staged_read env h il e s = (w, k)" by force
  have fill: "install_fill env g il e s evicted =
      (if env_direct_slot_pread env \<and> \<not> d \<and> env_errno env then (False, h)
       else let (wrote, g) = (if d then (True, h) else (w, k));
                g = (if wrote \<and> sm_bank (gpu_l2 g) \<noteq> 0 then snd (gpu_l2_store_l1_slot env g il e (int s)) else g)
            in if \<not> wrote then (False, g)
               else if d \<and> \<not> mark_slot_modified g il (int s) then (False, g) else (True, g))"
  proof (cases "env_direct_slot_pread env")
    case True
    then have "install_direct_read env g il e s = (d, h)" using d by simp
    then show ?thesis using assms(4,5) True w by (simp add: install_fill_def Let_def)
  next
    case False
    then have "d = False" "h = g" using d by auto
    then show ?thesis using assms(4,5) False w by (simp add: install_fill_def Let_def)
  qed
  have "same_but_mem g g' \<and> bank.filled g il (int s) (expert_record g il e) g'"
  proof (cases d)
    case True
    then have "g' = h" using assms(6) h(5) unfolding fill by (auto simp: Let_def split: if_splits)
    then show ?thesis using dr True by simp
  next
    case False
    then have w': w using assms(6) unfolding fill by (auto simp: Let_def split: if_splits)
    then have st: "install_staged_read env h il e s = (True, k)" using w by simp
    note sr = staged_read_filled [OF h(1-3) st]
    have "g' = k" using assms(6) False w' h(5) unfolding fill
      by (auto simp: Let_def same_but_mem_fields [OF sr(1)] split: if_splits)
    then show ?thesis using sr same_but_mem_trans [OF dr(1)] bank.touched_filled [OF dr(2)] by (simp add: f)
  qed
  then show "same_but_mem g g'" "bank.filled g il (int s) (expert_record g il e) g'" by blast+
qed

end
