(* ===== verification/Moe_Steps.thy ===== *)
theory Moe_Steps
  imports Moe_Fill
begin

text \<open>
  The operations of the Flash-MoE slot cache as steps (\<open>src/ds4.c\<close>): the eviction policy, the
  contracts of reserve, install, prefetch and reset, and the relation of the states the cache can
  reach, in all of which the kernels are given the bytes of the expert they asked for.
\<close>

section \<open>The eviction policy\<close>

lemma oldest_fold:
  fixes m :: slot_map and a :: u64
  shows "fold (\<lambda>i (slot, oldest). if slot_age m il (int i) < oldest then (Some i, slot_age m il (int i)) else (slot, oldest))
      cands (s, a) = (s', a') \<Longrightarrow>
    a' \<le> a \<and> (\<forall>j \<in> set cands. a' \<le> slot_age m il (int j))
    \<and> (if a' = a then s' = s else (\<exists>i \<in> set cands. s' = Some i \<and> slot_age m il (int i) = a'))"
proof (induction cands arbitrary: s a)
  case Nil
  then show ?case by simp
next
  case (Cons i cs)
  show ?case
  proof (cases "slot_age m il (int i) < a")
    case True
    then show ?thesis using Cons.IH [of "Some i" "slot_age m il (int i)"] Cons.prems
      by (auto split: if_splits)
  next
    case False
    then show ?thesis using Cons.IH [of s a] Cons.prems by (auto split: if_splits)
  qed
qed

lemma oldest_slot_Some:
  assumes "oldest_slot m il cands = Some i"
  shows "i \<in> set cands" "j \<in> set cands \<Longrightarrow> slot_age m il (int i) \<le> slot_age m il (int j)"
    "slot_age m il (int i) < - 1"
proof -
  obtain s a where f: "fold (\<lambda>i (slot, oldest). if slot_age m il (int i) < oldest then (Some i, slot_age m il (int i)) else (slot, oldest))
      cands (None, - 1) = (s, a)" by fastforce
  have "s = Some i" using assms f by (simp add: oldest_slot_def)
  with oldest_fold [OF f] show "i \<in> set cands" "j \<in> set cands \<Longrightarrow> slot_age m il (int i) \<le> slot_age m il (int j)"
    "slot_age m il (int i) < - 1"
    by (auto split: if_splits simp: less_le)
qed

lemma oldest_slot_None:
  "oldest_slot m il cands = None \<longleftrightarrow> (\<forall>j \<in> set cands. slot_age m il (int j) = - 1)"
proof -
  obtain s a where f: "fold (\<lambda>i (slot, oldest). if slot_age m il (int i) < oldest then (Some i, slot_age m il (int i)) else (slot, oldest))
      cands (None, - 1) = (s, a)" by fastforce
  show ?thesis using oldest_fold [OF f] f
    by (auto simp: oldest_slot_def split: if_splits) (metis word_order.extremum_uniqueI)+
qed

lemma find_SomeD: "find P xs = Some x \<Longrightarrow> x \<in> set xs \<and> P x"
  by (auto simp: find_Some_iff)

lemma pick_slot_Some:
  assumes "pick_slot ne m il protected reserved = Some i"
  shows "i < sm_bank m \<and> \<not> is_reserved reserved i \<and>
    (s2e m il (int i) < 0
     \<or> (\<forall>j < sm_bank m. \<not> is_reserved reserved j \<longrightarrow> 0 \<le> s2e m il (int j))
        \<and> (if \<exists>j < sm_bank m. \<not> is_reserved reserved j \<and> \<not> is_protected protected ne (s2e m il (int j)) \<and> slot_age m il (int j) \<noteq> - 1
            then \<not> is_protected protected ne (s2e m il (int i))
              \<and> (\<forall>j < sm_bank m. \<not> is_reserved reserved j \<longrightarrow> \<not> is_protected protected ne (s2e m il (int j))
                   \<longrightarrow> slot_age m il (int i) \<le> slot_age m il (int j))
            else (\<forall>j < sm_bank m. \<not> is_reserved reserved j \<longrightarrow> slot_age m il (int i) \<le> slot_age m il (int j))))"
proof -
  let ?free = "filter (\<lambda>i. \<not> is_reserved reserved i) [0..<sm_bank m]"
  let ?open = "filter (\<lambda>i. \<not> is_protected protected ne (s2e m il (int i))) ?free"
  show ?thesis
  proof (cases "find (\<lambda>i. s2e m il (int i) < 0) ?free")
    case (Some k)
    then have "k = i" using assms by (simp add: pick_slot_def Let_def)
    then show ?thesis using find_SomeD [OF Some] by simp
  next
    case None
    then have full: "\<forall>j < sm_bank m. \<not> is_reserved reserved j \<longrightarrow> 0 \<le> s2e m il (int j)" by (auto simp: find_None_iff)
    show ?thesis
    proof (cases "oldest_slot m il ?open")
      case (Some k)
      then have "k = i" using assms None by (simp add: pick_slot_def Let_def)
      note o = oldest_slot_Some [OF Some [unfolded this]]
      have "\<exists>j < sm_bank m. \<not> is_reserved reserved j \<and> \<not> is_protected protected ne (s2e m il (int j)) \<and> slot_age m il (int j) \<noteq> - 1"
        using o(1,3) by (intro exI [of _ i]) auto
      then show ?thesis using o full by auto
    next
      case n: None
      then have "oldest_slot m il ?free = Some i" using assms None by (simp add: pick_slot_def Let_def)
      note o = oldest_slot_Some [OF this]
      have "\<not> (\<exists>j < sm_bank m. \<not> is_reserved reserved j \<and> \<not> is_protected protected ne (s2e m il (int j)) \<and> slot_age m il (int j) \<noteq> - 1)"
        using n unfolding oldest_slot_None by auto
      then show ?thesis using o full by auto
    qed
  qed
qed

lemma pick_slot_None:
  "pick_slot ne m il protected reserved = None \<longleftrightarrow>
     (\<forall>j < sm_bank m. \<not> is_reserved reserved j \<longrightarrow> 0 \<le> s2e m il (int j) \<and> slot_age m il (int j) = - 1)"
proof -
  let ?free = "filter (\<lambda>i. \<not> is_reserved reserved i) [0..<sm_bank m]"
  let ?open = "filter (\<lambda>i. \<not> is_protected protected ne (s2e m il (int i))) ?free"
  have eq: "pick_slot ne m il protected reserved = None \<longleftrightarrow>
      find (\<lambda>i. s2e m il (int i) < 0) ?free = None \<and> oldest_slot m il ?open = None \<and> oldest_slot m il ?free = None"
    by (simp only: pick_slot_def Let_def split: option.split) auto
  show ?thesis unfolding eq find_None_iff oldest_slot_None by auto
qed

section \<open>What a commit maps\<close>

lemma commit_resident:
  assumes "map_ok (n_layer g) (n_expert g) (l1 g)" "slot_ok g il slot" "expert_ok g il e"
  shows "resident_slot (n_expert g) (l1 (commit_decode_slot env il e slot evicted g)) il e = Some slot"
proof -
  have i: "il < n_layer g" "in_slot (l1 g) slot" "in_expert (n_expert g) e" "map_shape (n_layer g) (n_expert g) (l1 g)"
    using assms map_ok_shape by (auto simp: slot_ok_def expert_ok_def in_slot_def in_expert_def slot_bank_def)
  obtain a where a: "l1 (commit_decode_slot env il e slot evicted g) =
      assign_slot (n_expert g) il e slot a
        (let m = unmap_evicted (n_expert g) il evicted slot (l1 g); r = s2e (l1 g) il slot
         in if r \<noteq> evicted \<and> r \<noteq> e then unmap_evicted (n_expert g) il r slot m else m)" (is "_ = assign_slot _ _ _ _ _ ?m")
    using commit_eq(1) [OF assms] by blast
  have shape: "map_shape (n_layer g) (n_expert g) ?m" "in_slot ?m slot" using i by (simp_all add: Let_def)
  have bank: "sm_bank (assign_slot (n_expert g) il e slot a ?m) = sm_bank (l1 g)" by (simp add: assign_slot_def Let_def)
  show ?thesis unfolding a resident_slot_def Let_def [of "e2s _ _ _ _"]
    unfolding assign_e2s [OF shape(1) i(1,3,3)] bank
    using assign_s2e [OF shape(1) i(1) shape(2,2)] i(2) by (simp add: in_slot_def)
qed

section \<open>Reserve and prefetch\<close>

lemma resident_slot_ok:
  assumes "resident_slot (n_expert g) (l1 g) il e = Some s" "expert_ok g il e"
  shows "slot_ok g il s" "s2e (l1 g) il s = e"
  using assms by (auto simp: resident_slot_def Let_def slot_ok_def expert_ok_def slot_bank_def split: if_splits)

lemma pick_slot_ok:
  assumes "pick_slot (n_expert g) (l1 g) il protected reserved = Some i" "il < n_layer g"
  shows "slot_ok g il (int i)" "\<not> is_reserved reserved i"
  using pick_slot_Some [OF assms(1)] assms(2) by (auto simp: slot_ok_def slot_bank_def)

lemma touch_map: "resident_slot ne (l1 (touch_slot il s g)) = resident_slot ne (l1 g)"
    "s2e (l1 (touch_slot il s g)) = s2e (l1 g)"
  by (simp_all add: touch_slot_def fun_eq_iff)

lemma hit_map: "n_expert (count_hit g) = n_expert g" "n_expert (touch_slot il s g) = n_expert g"
    "n_expert (count_miss g) = n_expert g" "slot_ok (count_miss g) = slot_ok g"
  by (simp_all add: count_hit_def touch_slot_def count_miss_def slot_ok_def slot_bank_def fun_eq_iff)

text \<open>What a reservation promises: the slot is in the bank and not reserved; a hit is the slot of the
  expert, a miss names what the slot holds.\<close>

lemma reserve_spec:
  assumes "cache_ok g" "reserve_decode_slot g il e protected reserved = (r, g')"
  shows "cache_ok g' \<and> same_slots g g' \<and>
    (case r of None \<Rightarrow> \<not> expert_ok g il e \<or> pick_slot (n_expert g) (l1 g) il protected reserved = None
     | Some (s, evicted, miss) \<Rightarrow> expert_ok g il e \<and> slot_ok g' il s \<and> \<not> is_reserved reserved (nat s)
         \<and> (if miss then evicted = s2e (l1 g') il s \<and> l1 g' = l1 g
            else resident_slot (n_expert g') (l1 g') il e = Some s))"
proof -
  have id: "\<not> identity_layout g" using assms(1) by (simp add: cache_ok_def)
  have hit: "same_slots g (count_hit (touch_slot il s g))" for s by (rule same_slots_trans [OF same_slots_touch same_slots_hit(1)])
  consider (bad) "\<not> expert_ok g il e" | (hit) s where "expert_ok g il e" "resident_slot (n_expert g) (l1 g) il e = Some s"
      "\<not> is_reserved reserved (nat s)"
    | (miss) "expert_ok g il e" "\<forall>s. resident_slot (n_expert g) (l1 g) il e = Some s \<longrightarrow> is_reserved reserved (nat s)"
    by blast
  then show ?thesis
  proof cases
    case bad
    then show ?thesis using assms by (auto simp: reserve_decode_slot_def)
  next
    case hit
    then have r: "r = Some (s, -1, False)" "g' = count_hit (touch_slot il s g)"
      using assms(2) id by (auto simp: reserve_decode_slot_def)
    then show ?thesis using assms(1) hit resident_slot_ok [OF hit(2,1)] \<open>\<And>s. same_slots g (count_hit (touch_slot il s g))\<close> [of s]
      by (simp add: hit_map touch_map same_slots_fields(3) [OF \<open>\<And>s. same_slots g (count_hit (touch_slot il s g))\<close> [of s]])
  next
    case miss
    then have il: "il < n_layer g" by (auto simp: expert_ok_def)
    have eq: "reserve_decode_slot g il e protected reserved =
        (case pick_slot (n_expert g) (l1 g) il protected reserved of
           None \<Rightarrow> (None, count_miss g) | Some slot \<Rightarrow> (Some (int slot, s2e (l1 g) il (int slot), True), count_miss g))"
      using miss id by (auto simp: reserve_decode_slot_def Let_def hit_map split: option.split)
    show ?thesis
    proof (cases "pick_slot (n_expert g) (l1 g) il protected reserved")
      case None
      then show ?thesis using assms unfolding eq by auto
    next
      case (Some i)
      then show ?thesis using assms(1,2) miss(1) pick_slot_ok [OF Some il] unfolding eq by (auto simp: hit_map)
    qed
  qed
qed

lemma prefetch_ok:
  assumes "cache_ok g" "prefetch_slot_from_buf env g il e refs (expert_record g il e) = (b, g')"
  shows "cache_ok g'"
proof -
  obtain r h where r: "reserve_decode_slot g il e None None = (r, h)" by force
  note rs = reserve_spec [OF assms(1) r]
  show ?thesis
  proof (cases r)
    case None
    then show ?thesis using assms(2) r rs by (auto simp: prefetch_slot_from_buf_def Let_def)
  next
    case (Some x)
    obtain s ev miss where x: "x = (s, ev, miss)" by (cases x) auto
    obtain ok k where k: "(if miss then upload_prefill_slot env h il e s ev (expert_record g il e) else (True, h)) = (ok, k)" by force
    have "expert_record h = expert_record g" using rs same_slots_fields(7) by blast
    then have "cache_ok k" using k rs upload_prefill_ok [of h env il e s ev ok k] by (auto split: if_splits)
    moreover have "g' = (if ok then record_prefill_slot_cache k refs (flash_hits g) (flash_misses g) else k)"
      using assms(2) r Some x k by (auto simp: prefetch_slot_from_buf_def Let_def split: if_splits prod.splits)
    ultimately show ?thesis by simp
  qed
qed

section \<open>Install\<close>

lemma install_map_commit:
  assumes "s2e (l1 g) il slot = evicted" "map_shape (n_layer g) (n_expert g) (l1 g)" "slot_ok g il slot"
  shows "install_map env il e slot evicted g = commit_decode_slot env il e slot evicted g"
proof -
  have "s2e (l1 (replay_invalidate_slot env il slot g)) il slot = evicted" using assms(1) by simp
  then show ?thesis using assms(2,3) by (simp add: install_map_def commit_decode_slot_def Let_def unmap_evicted_def)
qed

text \<open>A successful install, with the second-level caches off, leaves the expert in its slot.\<close>

lemma install_spec:
  assumes "cache_ok g" "sm_bank (l2 g) = 0" "sm_bank (gpu_l2 g) = 0"
    and "install env g il e protected = (True, slot, g')"
  shows "cache_ok g' \<and> expert_ok g' il e \<and> resident_slot (n_expert g') (l1 g') il e = Some slot"
proof -
  have id: "\<not> identity_layout g" and ok: "graph_wf g" "map_ok (n_layer g) (n_expert g) (l1 g)"
    using assms(1) by (simp_all add: cache_ok_def)
  have e: "expert_ok g il e" using assms(4) by (auto simp: install_def split: if_splits)
  show ?thesis
  proof (cases "resident_slot (n_expert g) (l1 g) il e")
    case (Some s)
    have "same_slots g (count_hit (touch_slot il s g))" by (rule same_slots_trans [OF same_slots_touch same_slots_hit(1)])
    note f = same_slots_fields [OF this]
    show ?thesis using assms(1,4) e id Some 
      by (auto simp: install_def touch_map hit_map) (use f(4) e in simp)
  next
    case None
    obtain i where i: "pick_slot (n_expert g) (l1 g) il protected None = Some i"
      using assms(4) e id None by (auto simp: install_def Let_def hit_map split: option.splits)
    let ?g = "count_miss g" and ?ev = "s2e (l1 g) il (int i)"
    note f = same_slots_fields [OF same_slots_miss(1) [of g]]
    obtain h where h: "install_fill env ?g il e i ?ev = (True, h)"
      and g': "slot = int i" "g' = add_installed il (install_map env il e (int i) ?ev h)"
      using assms(4) e id None i by (auto simp: install_def Let_def hit_map split: if_splits prod.splits)
    have s: "slot_ok ?g il (int i)" using pick_slot_ok [OF i] e by (simp add: expert_ok_def hit_map)
    have l2: "sm_bank (l2 ?g) = 0" "sm_bank (gpu_l2 ?g) = 0" using assms(2,3) by (simp_all add: count_miss_def)
    have e': "expert_ok ?g il e" "graph_wf ?g" using e ok by (simp_all add: f)
    note fill = install_fill_filled [OF e'(2) s e'(1) l2 h]
    note fh = same_but_mem_fields [OF fill(1)]
    have h': "map_ok (n_layer h) (n_expert h) (l1 h)" "slot_ok h il (int i)" "expert_ok h il e"
      using ok(2) s e by (simp_all add: fh f)
    have m: "install_map env il e (int i) ?ev h = commit_decode_slot env il e (int i) ?ev h"
      by (rule install_map_commit) (use h' map_ok_shape in \<open>auto simp: fh\<close>)
    have "cache_ok (commit_decode_slot env il e (int i) ?ev h)"
      using fill_good [OF _ s e'(1) fill same_slots_refl refl] assms(1) by simp
    moreover note commit_resident [OF h']
    moreover note fc = same_slots_fields [OF commit_eq(2) [OF h']]
    ultimately show ?thesis using h'(3)
      by (simp add: g' m same_slots_fields [OF same_slots_installed(1)] fc)
  qed
qed

section \<open>Reset\<close>

definition arrays_ok :: "graph \<Rightarrow> bool" where
  "arrays_ok g \<longleftrightarrow> map_shape (n_layer g) (n_expert g) (l1 g)"

lemma clear_prefix_nth: "i < n \<Longrightarrow> n \<le> length xs \<Longrightarrow> clear_prefix n v xs ! i = v"
  by (simp add: clear_prefix_def nth_append)

lemma clear_prefix_length: "length (clear_prefix n v xs) = length xs"
  by (simp add: clear_prefix_def)

lemma reset_ok:
  assumes "graph_wf g" "map_shape (n_layer g) (n_expert g) (l1 g)" "\<not> identity_layout g"
  shows "cache_ok (reset_slot_cache g)"
proof (cases "slot_bank g = 0")
  case True
  have "map_ok (n_layer g) (n_expert g) (l1 g)"
    using assms(2) True by (auto simp: map_ok_def in_slot_def slot_bank_def)
  then show ?thesis using assms(1,3) True
    by (auto simp: reset_slot_cache_def cache_ok_def content_ok_iff slot_ok_def)
next
  case False
  define m where "m = l1 (reset_slot_cache g)"
  have g': "reset_slot_cache g = (reset_slot_cache g)\<lparr>l1 := m\<rparr>" "same_slots g (reset_slot_cache g)"
    using False assms(3) by (simp_all add: m_def reset_slot_cache_def Let_def identity_layout_def same_slots_def)
  have sh: "n_layer g * slot_bank g \<le> length (sm_slot_to_expert (l1 g))"
    "length (sm_expert_to_slot (l1 g)) = n_layer g * n_expert g" "n_layer g * slot_bank g \<le> length (sm_age (l1 g))"
    using assms(2) by (simp_all add: map_shape_def slot_bank_def)
  have m: "sm_bank m = slot_bank g" "sm_slot_to_expert m = clear_prefix (n_layer g * slot_bank g) (-1) (sm_slot_to_expert (l1 g))"
    "sm_expert_to_slot m = clear_prefix (n_layer g * n_expert g) (-1) (sm_expert_to_slot (l1 g))"
    "sm_age m = clear_prefix (n_layer g * slot_bank g) 0 (sm_age (l1 g))"
    using False assms(3) by (simp_all add: m_def reset_slot_cache_def Let_def identity_layout_def slot_bank_def)
  have shape: "map_shape (n_layer g) (n_expert g) m" using sh by (simp add: map_shape_def m clear_prefix_length)
  have e2s: "e2s m (n_expert g) il e = -1" if "il < n_layer g" "in_expert (n_expert g) e" for il e
    using that flat_index_less [of il "n_layer g" "nat e" "n_expert g"] sh nat_less_iff [of e "n_expert g"]
    by (simp add: e2s_def m in_expert_def clear_prefix_nth)
  have s2e: "s2e m il s = -1" if "slot_ok g il s" for il s
    using that flat_index_less [of il "n_layer g" "nat s" "slot_bank g"] sh nat_less_iff [of s "slot_bank g"]
    by (simp add: s2e_def m slot_ok_def clear_prefix_nth)
  have "map_ok (n_layer g) (n_expert g) m" using shape e2s by (auto simp: map_ok_def in_slot_def)
  then show ?thesis
    using assms(1,3) s2e by (simp add: cache_ok_def content_ok_iff same_slots_fields [OF g'(2)] m_def [symmetric] in_expert_def)
qed

section \<open>Steps\<close>

text \<open>A step of the cache is one call of its operations, with any arguments and in any environment;
  the records uploaded are those the reader has read.  An install that fails is not among them:
  \<open>install_failure_shows_stale\<close> says why.\<close>

inductive flash_step :: "graph \<Rightarrow> graph \<Rightarrow> bool" where
  reserve: "reserve_decode_slot g il e protected reserved = (r, g') \<Longrightarrow> flash_step g g'"
| upload_decode: "upload_decode_slot env g il e slot evicted (expert_record g il e) = (b, g') \<Longrightarrow> flash_step g g'"
| upload_prefill: "upload_prefill_slot env g il e slot evicted (expert_record g il e) = (b, g') \<Longrightarrow> flash_step g g'"
| prefetch: "prefetch_slot_from_buf env g il e refs (expert_record g il e) = (b, g') \<Longrightarrow> flash_step g g'"
| install: "sm_bank (l2 g) = 0 \<Longrightarrow> sm_bank (gpu_l2 g) = 0 \<Longrightarrow> install env g il e protected = (True, slot, g')
    \<Longrightarrow> flash_step g g'"
| reset: "flash_step g (reset_slot_cache g)"
| ids: "flash_step g (record_decode_slots env g il true_ids slot_ids n_ids)"
| replay: "flash_step g (note_replay_plan_use env g il n_ids)"

lemma replay_loop_slots: "same_slots g (note_replay_loop il ids seen g) \<and> l1 (note_replay_loop il ids seen g) = l1 g"
proof (induction il ids seen g rule: note_replay_loop.induct)
  case (2 il e s ids seen g)
  have *: "same_slots g (g\<lparr>flash_replay_hits := a\<rparr>)"
    "same_slots g (g\<lparr>flash_replay_misses := a, flash_replay_builds := b, flash_replay_slot_expert := c, flash_replay_slot_valid := d\<rparr>)" for a b c d
    by (simp_all add: same_slots_def)
  consider "\<not> expert_ok g il e \<or> \<not> slot_ok g il s"
    | "\<not> (\<not> expert_ok g il e \<or> \<not> slot_ok g il s)" "s < int MAX_EXPERT \<and> s \<in> set seen"
    | "\<not> (\<not> expert_ok g il e \<or> \<not> slot_ok g il s)" "\<not> (s < int MAX_EXPERT \<and> s \<in> set seen)"
      "flash_replay_slot_valid g ! replay_ix g il s \<and> flash_replay_slot_expert g ! replay_ix g il s = e"
    | "\<not> (\<not> expert_ok g il e \<or> \<not> slot_ok g il s)" "\<not> (s < int MAX_EXPERT \<and> s \<in> set seen)"
      "\<not> (flash_replay_slot_valid g ! replay_ix g il s \<and> flash_replay_slot_expert g ! replay_ix g il s = e)"
    by blast
  then show ?case
  proof cases
    case 1
    then show ?thesis using "2.IH"(1) by simp
  next
    case 2
    then show ?thesis using "2.IH"(2) by (simp del: de_Morgan_disj)
  next
    case 3
    show ?thesis using "2.IH"(3) [OF 3(1,2) refl refl 3(3)] 3 by (auto simp: Let_def split: if_splits intro: same_slots_trans [OF *(1)])
  next
    case 4
    show ?thesis using "2.IH"(4) [OF 4(1,2) refl refl 4(3)] 4 by (auto simp: Let_def split: if_splits intro: same_slots_trans [OF *(2)])
  qed
qed simp

lemma step_cache_ok:
  assumes "flash_step g g'" "cache_ok g"
  shows "cache_ok g'"
  using assms(1)
proof (cases rule: flash_step.cases)
  case (reserve il e protected reserved r)
  then show ?thesis using reserve_spec [OF assms(2)] by blast
next
  case (upload_decode env il e slot evicted b)
  then show ?thesis using upload_decode_ok [OF assms(2)] by blast
next
  case (upload_prefill env il e slot evicted b)
  then show ?thesis using upload_prefill_ok [OF assms(2)] by blast
next
  case (prefetch env il e refs b)
  then show ?thesis using prefetch_ok [OF assms(2)] by blast
next
  case (install env il e protected slot)
  then show ?thesis using install_spec [OF assms(2)] by blast
next
  case reset
  then show ?thesis using reset_ok assms(2) map_ok_shape by (auto simp: cache_ok_def)
next
  case (ids env il true_ids slot_ids n_ids)
  have "same_slots g g'" "l1 g' = l1 g" unfolding ids by (auto simp: record_decode_slots_def same_slots_def)
  then show ?thesis using same_slots_cache_ok assms(2) by blast
next
  case (replay env il n_ids)
  have "same_slots g g' \<and> l1 g' = l1 g"
    unfolding replay note_replay_plan_use_def Let_def using replay_loop_slots by (simp split: if_split)
  then show ?thesis using same_slots_cache_ok assms(2) by blast
qed

lemma steps_cache_ok:
  assumes "flash_step\<^sup>*\<^sup>* g g'" "cache_ok g"
  shows "cache_ok g'"
  using assms by (induction rule: rtranclp_induct) (auto intro: step_cache_ok)

lemma resident_shown:
  assumes "cache_ok g" "find_resident_slot g il e = Some s" "f < 3"
  shows "family_slot_view g il f s = Some (family_part g il f (expert_record g il e))"
proof -
  have e: "expert_ok g il e" "resident_slot (n_expert g) (l1 g) il e = Some s"
    using assms(2) by (auto simp: find_resident_slot_def split: if_splits)
  note r = resident_slot_ok [OF e(2,1)]
  then show ?thesis using assms(1,3) e(1) by (auto simp: cache_ok_def content_ok_iff in_expert_def expert_ok_def)
qed


text \<open>The eviction policy: the slot picked is never reserved; an empty slot goes first; else, if
  an unprotected slot has an age below the maximum, the oldest of the unprotected; else the oldest of all.\<close>

theorem pick_slot_policy:
  assumes "pick_slot ne m il protected reserved = Some i"
  shows "i < sm_bank m \<and> \<not> is_reserved reserved i \<and>
    (s2e m il (int i) < 0
     \<or> (\<forall>j < sm_bank m. \<not> is_reserved reserved j \<longrightarrow> 0 \<le> s2e m il (int j))
        \<and> (if \<exists>j < sm_bank m. \<not> is_reserved reserved j \<and> \<not> is_protected protected ne (s2e m il (int j)) \<and> slot_age m il (int j) \<noteq> - 1
            then \<not> is_protected protected ne (s2e m il (int i))
              \<and> (\<forall>j < sm_bank m. \<not> is_reserved reserved j \<longrightarrow> \<not> is_protected protected ne (s2e m il (int j))
                   \<longrightarrow> slot_age m il (int i) \<le> slot_age m il (int j))
            else (\<forall>j < sm_bank m. \<not> is_reserved reserved j \<longrightarrow> slot_age m il (int i) \<le> slot_age m il (int j))))"
  by (rule pick_slot_Some [OF assms])

text \<open>C34. What a reservation promises in a consistent cache: it keeps the cache consistent, the slot is
  in the bank and not reserved; on a hit it is the slot of the expert, on a miss the maps are untouched
  and the expert it names is the one in the slot; it fails only for a bad id or when no slot can be picked.\<close>

theorem reserve_decode_contract:
  assumes "cache_ok g" "reserve_decode_slot g il e protected reserved = (r, g')"
  shows "cache_ok g' \<and>
    (case r of None \<Rightarrow> \<not> expert_ok g il e \<or> pick_slot (n_expert g) (l1 g) il protected reserved = None
     | Some (s, evicted, miss) \<Rightarrow> expert_ok g il e \<and> slot_ok g' il s \<and> \<not> is_reserved reserved (nat s)
         \<and> (if miss then evicted = s2e (l1 g') il s \<and> l1 g' = l1 g
            else resident_slot (n_expert g') (l1 g') il e = Some s))"
  using reserve_spec [OF assms] by blast


end
