(* ===== verification/Moe_Examples.thy ===== *)
theory Moe_Examples
  imports Moe_Steps
begin

text \<open>
  A small slot bank on which the properties of the cache are run: one layer of two experts, records of
  two bytes, one slot, the mixed layout.  On it too: what an install that fails half-way leaves behind.
\<close>

section \<open>The example\<close>

definition example_layer :: layer_sidecar where
  "example_layer = \<lparr>expert_stride = 2, family_offset = [0, 1, 1], family_bytes = [1, 1, 1], layer_fd = ''abcd''\<rparr>"

definition example_graph :: graph where
  "example_graph = \<lparr>n_layer = 1, n_expert = 2, flash_moe = [example_layer], flash_mixed_slot_bank = True,
     flash_direct_mmap_bank = False, flash_chunked_mixed_bank = False, flash_per_slot_buffers = False,
     flash_per_expert_buffers = False, flash_chunk_slots = 0, flash_chunk_count = 0,
     flash_mem = (\<lambda>t. if t = Mixed_bank 0 then Some ''--'' else None), flash_per_expert_bank_bytes = 0,
     l1 = \<lparr>sm_bank = 1, sm_slot_to_expert = [-1], sm_expert_to_slot = [-1, -1], sm_age = [0]\<rparr>,
     l2 = \<lparr>sm_bank = 0, sm_slot_to_expert = [], sm_expert_to_slot = [], sm_age = []\<rparr>,
     l2_buf = [], l2_allocated_bytes = 0,
     gpu_l2 = \<lparr>sm_bank = 0, sm_slot_to_expert = [], sm_expert_to_slot = [], sm_age = []\<rparr>,
     flash_replay_slot_expert = [-1], flash_replay_slot_valid = [False], flash_decode_true_ids = [],
     flash_decode_slot_ids = [], flash_decode_ids_valid = [], flash_age = 0, flash_hits = 0, flash_misses = 0,
     flash_installed_bytes = 0, flash_replay_hits = 0, flash_replay_misses = 0, flash_replay_builds = 0,
     flash_replay_invalidations = 0, flash_prefill_slot_refs = 0, flash_prefill_slot_installs = 0,
     flash_prefill_slot_hits = 0, l2_hits = 0, l2_misses = 0, l2_installs = 0, l2_evictions = 0,
     gpu_l2_hits = 0, gpu_l2_misses = 0, gpu_l2_installs = 0, gpu_l2_evictions = 0\<rparr>"

definition example_env :: "bool \<Rightarrow> io_ev list \<Rightarrow> moe_env" where
  "example_env direct reads = \<lparr>env_replay_plan = False, env_mixed_slots6_grouped = False,
     env_direct_slot_pread = direct, env_cache_io_split = 1, env_alloc = (\<lambda>_ _. True),
     env_pread = (\<lambda>_ _. reads), env_errno = True, env_gpu_copy = True\<rparr>"

text \<open>Expert 0 is installed; then the direct read of expert 1 transfers one byte and fails.\<close>

definition example_installed :: graph where
  "example_installed = snd (snd (install (example_env True [Got 2]) (reset_slot_cache example_graph) 0 0 None))"

definition example_failed :: graph where
  "example_failed = snd (snd (install (example_env True [Got 1, Efail]) example_installed 0 1 None))"

lemmas example_defs = example_graph_def example_layer_def example_env_def

lemma active_io_split_small: "active_io_split 2 1 = 1"
  by (simp add: active_io_split_def IO_PAGE_BYTES_def)

lemma example_wf: "graph_wf example_graph" "arrays_ok example_graph" "\<not> identity_layout example_graph"
  by (auto simp: example_defs graph_wf_def layout_wf_def layer_wf_def slot_bank_def arrays_ok_def map_shape_def
      identity_layout_def less3)

lemma example_reset_ok: "cache_ok (reset_slot_cache example_graph)"
  using reset_ok example_wf by (simp add: arrays_ok_def)

lemma read_two: "pread_full [Got 2] ''abcd'' 0 2 0 = (True, 2)" "pread_full [Got (Suc 0), Efail] ''abcd'' 2 2 0 = (False, 1)"
  by (simp_all add: pread_full.simps pread_count_def INT64_MAX_def Let_def)

text \<open>Evaluation of the operations on the example.\<close>

lemmas eval_maps = s2e_def e2s_def slot_age_def set_s2e_def set_e2s_def set_age_def in_expert_def resident_slot_def
  unmap_evicted_def assign_slot_def oldest_slot_def pick_slot_def is_reserved_def is_protected_def

lemmas eval_graph = slot_ok_def expert_ok_def slot_bank_def identity_layout_def find_resident_slot_def
  count_miss_def count_hit_def map_slot_def touch_slot_def add_installed_def replay_invalidate_slot_def
  replay_mark_resident_missing_def mem_apply_def apply_writes_def put_at_def get_at_def mixed_slot_ptr_def
  family_slot_view_def gpu_tensor_view_def mark_slot_modified_def gpu_tensor_did_modify_def

lemmas eval_install = install_def install_fill_def install_direct_read_def install_map_def

lemma example_reset: "reset_slot_cache example_graph = example_graph"
  by (simp add: example_defs reset_slot_cache_def slot_bank_def clear_prefix_def Let_def)

lemma example_installed_eq:
  "example_installed = example_graph\<lparr>flash_mem := (flash_mem example_graph)(Mixed_bank 0 := Some ''ab''),
     l1 := \<lparr>sm_bank = 1, sm_slot_to_expert = [0], sm_expert_to_slot = [0, -1], sm_age = [1]\<rparr>,
     flash_age := 1, flash_misses := 1, flash_installed_bytes := 2\<rparr>"
  "install (example_env True [Got 2]) example_graph 0 0 None = (True, 0, example_installed)"
  unfolding example_installed_def example_reset
  by (simp_all add: example_defs eval_maps eval_graph eval_install pread_split_def
      active_io_split_small read_two wrap64_def UINT64_MAX_def Let_def)

lemma age_below_max: "(1 :: u64) < - 1"
  by code_simp

lemma example_failed_eq:
  "example_failed = example_installed\<lparr>flash_mem := (flash_mem example_graph)(Mixed_bank 0 := Some ''cb''),
     flash_misses := 2\<rparr>"
  "install (example_env True [Got 1, Efail]) example_installed 0 1 None = (False, -1, example_failed)"
  unfolding example_failed_def example_installed_eq(1)
  by (simp_all add: age_below_max example_defs eval_maps eval_graph eval_install pread_split_def
      active_io_split_small read_two wrap64_def UINT64_MAX_def Let_def)

section \<open>A failed install\<close>

lemma example_view:
  "family_slot_view example_installed 0 0 0 = Some ''a''" "family_slot_view example_failed 0 0 0 = Some ''c''"
  "family_part g' 0 0 (expert_record g' 0 0) = ''a''" if "flash_moe g' = [example_layer]"
  using that by (simp_all add: example_failed_eq example_installed_eq example_defs eval_graph UINT64_MAX_def Let_def
      family_part_def expert_record_def)

lemma example_steps: "flash_step\<^sup>*\<^sup>* (reset_slot_cache example_graph) example_installed"
proof -
  have "flash_step example_graph example_installed"
    by (rule flash_step.install [OF _ _ example_installed_eq(2)]) (simp_all add: example_defs)
  then show ?thesis unfolding example_reset by blast
qed


section \<open>Witnesses\<close>



lemma example_pick: "pick_slot 2 \<lparr>sm_bank = 2, sm_slot_to_expert = [1, 0], sm_expert_to_slot = [1, 0], sm_age = [7, 9]\<rparr> 0
    (Some (\<lambda>e. e = 1)) None = Some 1"
  by (simp add: eval_maps upt_rec)

theorem pick_slot_policy_witness:
  "\<not> is_protected (Some (\<lambda>e. e = 1)) 2 (s2e \<lparr>sm_bank = 2, sm_slot_to_expert = [1, 0], sm_expert_to_slot = [1, 0], sm_age = [7, 9]\<rparr> 0 1)"
  using pick_slot_policy [OF example_pick] by (simp add: s2e_def is_protected_def in_expert_def is_reserved_def split: if_splits)

theorem reserve_decode_contract_witness:
  "find_resident_slot example_graph 0 1 = None
     \<and> (\<exists>g'. reserve_decode_slot example_graph 0 1 None None = (Some (0, -1, True), g') \<and> cache_ok g')"
proof -
  obtain g' where g': "reserve_decode_slot example_graph 0 1 None None = (Some (0, -1, True), g')"
    by (simp add: reserve_decode_slot_def example_defs eval_maps eval_graph Let_def)
  moreover have "cache_ok g'" using reserve_decode_contract [OF example_reset_ok [unfolded example_reset] g'] by blast
  moreover have "find_resident_slot example_graph 0 1 = None"
    by (simp add: example_defs eval_maps eval_graph Let_def)
  ultimately show ?thesis by blast
qed

end
