(* ===== verification/Json.thy ===== *)
theory Json
  imports Ds4_Prelude "HOL-Library.Sublist"
begin

text \<open>
  The server's JSON reader and writer (\<open>src/ds4_server.c\<close>): strings with their escapes, the skipper
  of ignored values, raw values and their minified form, message content, and the escaping of output.

  A \<open>const char **p\<close> is the rest of the C string it points at; NUL is the end of the list.  A parser
  returns what it read and the rest, \<^const>\<open>None\<close> where the code returns false: every caller then
  fails too, so the position after a failure is not modelled.  \<open>strtod\<close> of the C library is modelled
  as far as it decides where a number ends.  A \<open>buf\<close> is the bytes appended to it.
\<close>

named_theorems json_defs \<open>definitions of the readers\<close>

section \<open>Lexical parts\<close>

definition json_ws :: "bytes \<Rightarrow> bytes" where
  "json_ws s = dropWhile is_cspace s"

definition json_lit :: "bytes \<Rightarrow> bytes \<Rightarrow> bytes option" where
  "json_lit lit s = (if take (length lit) s = lit then Some (drop (length lit) s) else None)"

definition json_hex :: "char \<Rightarrow> int" where
  "json_hex c =
     (let n = of_char c :: int
      in if 48 \<le> n \<and> n \<le> 57 then n - 48
         else if 97 \<le> n \<and> n \<le> 102 then 10 + n - 97
         else if 65 \<le> n \<and> n \<le> 70 then 10 + n - 65
         else -1)"

definition utf8_put :: "u32 \<Rightarrow> bytes" where
  "utf8_put cp =
     (if cp \<le> 0x7f then [byte_of cp]
      else if cp \<le> 0x7ff then
        [byte_of (0xc0 OR drop_bit 6 cp), byte_of (0x80 OR (cp AND 0x3f))]
      else if cp \<le> 0xffff then
        [byte_of (0xe0 OR drop_bit 12 cp), byte_of (0x80 OR (drop_bit 6 cp AND 0x3f)),
         byte_of (0x80 OR (cp AND 0x3f))]
      else
        [byte_of (0xf0 OR drop_bit 18 cp), byte_of (0x80 OR (drop_bit 12 cp AND 0x3f)),
         byte_of (0x80 OR (drop_bit 6 cp AND 0x3f)), byte_of (0x80 OR (cp AND 0x3f))])"

fun json_u16_digits :: "nat \<Rightarrow> u32 \<Rightarrow> bytes \<Rightarrow> (u32 \<times> bytes) option" where
  "json_u16_digits 0 cp s = Some (cp, s)"
| "json_u16_digits (Suc n) cp [] = None"
| "json_u16_digits (Suc n) cp (c # s) =
     (let h = json_hex c
      in if h < 0 then None else json_u16_digits n (push_bit 4 cp OR of_int h) s)"

fun json_u16 :: "bytes \<Rightarrow> (u32 \<times> bytes) option" where
  "json_u16 (b # u # s) = (if b \<noteq> CHR 0x5c \<or> u \<noteq> CHR ''u'' then None else json_u16_digits 4 0 s)"
| "json_u16 _ = None"

section \<open>Strings\<close>

lemma json_u16_digits_length: "json_u16_digits n cp s = Some (cp', r) \<Longrightarrow> length s = n + length r"
  by (induction n cp s rule: json_u16_digits.induct) (auto simp: Let_def split: if_splits)

lemma json_u16_length: "json_u16 s = Some (cp, r) \<Longrightarrow> length s = 6 + length r"
  by (cases s rule: json_u16.cases) (auto split: if_splits dest: json_u16_digits_length)

definition surrogate_pair :: "u32 \<Rightarrow> u32 \<Rightarrow> u32" where
  "surrogate_pair cp lo =
     (if 0xdc00 \<le> lo \<and> lo \<le> 0xdfff then 0x10000 + push_bit 10 (cp - 0xd800) + (lo - 0xdc00) else cp)"

text \<open>The loop of \<open>json_string\<close>; \<open>b\<close> is the buffer so far.\<close>

function (sequential) json_string_loop :: "bytes \<Rightarrow> bytes \<Rightarrow> (bytes \<times> bytes) option" where
  "json_string_loop b [] = None"
| "json_string_loop b (c # s) =
     (if c = CHR 0x22 then Some (b, s)
      else if c \<noteq> CHR 0x5c then json_string_loop (b @ [c]) s
      else case s of [] \<Rightarrow> None
        | d # s' \<Rightarrow>
            if d = CHR 0x22 \<or> d = CHR 0x5c \<or> d = CHR ''/'' then json_string_loop (b @ [d]) s'
            else if d = CHR ''b'' then json_string_loop (b @ [CHR 0x08]) s'
            else if d = CHR ''f'' then json_string_loop (b @ [CHR 0x0c]) s'
            else if d = CHR ''n'' then json_string_loop (b @ [CHR 0x0a]) s'
            else if d = CHR ''r'' then json_string_loop (b @ [CHR 0x0d]) s'
            else if d = CHR ''t'' then json_string_loop (b @ [CHR 0x09]) s'
            else if d = CHR ''u'' then
              (case json_u16 (c # s) of None \<Rightarrow> None
               | Some (cp, r) \<Rightarrow>
                   if 0xd800 \<le> cp \<and> cp \<le> 0xdbff then
                     (case json_u16 r of
                        None \<Rightarrow> json_string_loop (b @ utf8_put cp) r
                      | Some (lo, r') \<Rightarrow> json_string_loop (b @ utf8_put (surrogate_pair cp lo)) r')
                   else json_string_loop (b @ utf8_put cp) r)
            else None)"
  by pat_completeness auto
termination
  by (relation "measure (length \<circ> snd)") (auto dest!: json_u16_length json_u16_digits_length)

definition json_string :: "bytes \<Rightarrow> (bytes \<times> bytes) option" where
  "json_string s =
     (case json_ws s of c # s \<Rightarrow> if c \<noteq> CHR 0x22 then None else json_string_loop [] s | [] \<Rightarrow> None)"

section \<open>Numbers\<close>

text \<open>Where the subject sequence of \<open>strtod\<close> ends: a decimal or hexadecimal number, an infinity or a
  NaN, after an optional sign; \<^const>\<open>None\<close> when there is none.\<close>

definition strtod_exp :: "char \<Rightarrow> bytes \<Rightarrow> bytes" where
  "strtod_exp mark s =
     (case s of [] \<Rightarrow> []
      | c # r \<Rightarrow>
          if c_tolower c \<noteq> mark then s
          else let r' = (case r of d # r'' \<Rightarrow> if d = CHR ''+'' \<or> d = CHR ''-'' then r'' else r | [] \<Rightarrow> [])
               in if takeWhile is_digit r' = [] then s else dropWhile is_digit r')"

definition strtod_digits :: "(char \<Rightarrow> bool) \<Rightarrow> char \<Rightarrow> bytes \<Rightarrow> bytes option" where
  "strtod_digits dig mark s =
     (let r = dropWhile dig s;
          (frac, r) = (case r of d # r' \<Rightarrow> if d = CHR ''.'' \<and> (takeWhile dig s \<noteq> [] \<or> takeWhile dig r' \<noteq> [])
                                        then (takeWhile dig r', dropWhile dig r') else ([], r)
                       | [] \<Rightarrow> ([], []))
      in if takeWhile dig s = [] \<and> frac = [] then None else Some (strtod_exp mark r))"

definition strtod_word :: "bytes \<Rightarrow> bytes \<Rightarrow> bytes option" where
  "strtod_word w s = (if map c_tolower (take (length w) s) = w then Some (drop (length w) s) else None)"

definition strtod_nan_tail :: "bytes \<Rightarrow> bytes" where
  "strtod_nan_tail s =
     (let alnum = (\<lambda>c. is_digit c \<or> (let n = of_char (c_tolower c) :: nat in 97 \<le> n \<and> n \<le> 122) \<or> c = CHR ''_'')
      in case s of c # r \<Rightarrow> if c \<noteq> CHR ''('' then s
                            else (case dropWhile alnum r of d # r' \<Rightarrow> if d = CHR '')'' then r' else s | [] \<Rightarrow> s)
         | [] \<Rightarrow> [])"

definition strtod_end :: "bytes \<Rightarrow> bytes option" where
  "strtod_end s =
     (let s = (case json_ws s of c # r \<Rightarrow> if c = CHR ''+'' \<or> c = CHR ''-'' then r else c # r | [] \<Rightarrow> [])
      in case strtod_word ''infinity'' s of Some r \<Rightarrow> Some r | None \<Rightarrow>
         case strtod_word ''inf'' s of Some r \<Rightarrow> Some r | None \<Rightarrow>
         case strtod_word ''nan'' s of Some r \<Rightarrow> Some (strtod_nan_tail r) | None \<Rightarrow>
         case (case strtod_word ''0x'' s of Some r \<Rightarrow> strtod_digits is_xdigit CHR ''p'' r | None \<Rightarrow> None) of
           Some r \<Rightarrow> Some r
         | None \<Rightarrow> strtod_digits is_digit CHR ''e'' s)"

text \<open>The number's text and the rest.  \<open>strtod\<close> always ends after where it starts when it converts.\<close>

definition json_number :: "bytes \<Rightarrow> (bytes \<times> bytes) option" where
  "json_number s =
     (let s = json_ws s
      in case strtod_end s of None \<Rightarrow> None | Some r \<Rightarrow> Some (take (length s - length r) s, r))"

definition json_bool :: "bytes \<Rightarrow> (bool \<times> bytes) option" where
  "json_bool s =
     (let s = json_ws s
      in case json_lit ''true'' s of Some r \<Rightarrow> Some (True, r)
         | None \<Rightarrow> (case json_lit ''false'' s of Some r \<Rightarrow> Some (False, r) | None \<Rightarrow> None))"

section \<open>Every reader consumes\<close>

text \<open>The rest a reader returns is a proper suffix of its input.\<close>

lemma strict_ConsI: "suffix r s \<Longrightarrow> strict_suffix r (c # s)"
  by (auto simp: strict_suffix_def suffix_def)

lemma strict_ConsI': "strict_suffix r s \<Longrightarrow> strict_suffix r (c # s)"
  by (auto intro: strict_ConsI)

lemma suffix_ws: "suffix (json_ws s) s"
  by (simp add: json_ws_def suffix_dropWhile)

lemma strict_ws: "strict_suffix r (json_ws s) \<Longrightarrow> strict_suffix r s"
  using suffix_ws suffix_order.less_le_trans by blast

lemma strict_ws_Cons: "json_ws s = c # t \<Longrightarrow> suffix r t \<Longrightarrow> strict_suffix r s"
  by (rule strict_ws) (simp add: strict_ConsI)

lemma strict_drop: "n \<noteq> 0 \<Longrightarrow> n \<le> length s \<Longrightarrow> strict_suffix (drop n s) s"
  by (auto simp: strict_suffix_def suffix_drop) (metis diff_less length_drop less_irrefl neq0_conv order_less_le_trans)

lemma json_lit_strict: "json_lit lit s = Some r \<Longrightarrow> lit \<noteq> [] \<Longrightarrow> strict_suffix r s"
  by (auto simp: json_lit_def intro!: strict_drop split: if_splits) (metis linear take_all)

lemma json_u16_digits_rest: "json_u16_digits n cp s = Some (cp', r) \<Longrightarrow> r = drop n s"
  by (induction n cp s rule: json_u16_digits.induct) (auto simp: Let_def split: if_splits)

lemma json_u16_strict:
  assumes "json_u16 s = Some (cp, r)"
  shows "strict_suffix r s"
proof -
  obtain b u t where "s = b # u # t" "r = drop 4 t"
    using assms by (cases s rule: json_u16.cases) (auto split: if_splits dest: json_u16_digits_rest)
  then show ?thesis by (auto intro!: strict_ConsI suffix_ConsI suffix_drop)
qed

lemma json_string_loop_strict: "json_string_loop b s = Some (v, r) \<Longrightarrow> strict_suffix r s"
proof (induction b s rule: json_string_loop.induct)
  case (2 b c s)
  consider (quote) "c = CHR 0x22" | (plain) "c \<noteq> CHR 0x22" "c \<noteq> CHR 0x5c" | (esc) "c = CHR 0x5c"
    by blast
  then show ?case
  proof cases
    case quote
    then show ?thesis using "2.prems" by (simp add: strict_ConsI)
  next
    case plain
    then show ?thesis using "2.prems" "2.IH"(1) by (auto intro: strict_ConsI')
  next
    case esc
    then obtain d s' where s: "s = d # s'" using "2.prems" by (cases s) auto
    show ?thesis
    proof (cases "d = CHR ''u''")
      case True
      then obtain cp q where q: "json_u16 (c # s) = Some (cp, q)" using "2.prems" esc s by (auto split: option.splits)
      obtain q' b' where q': "json_string_loop b' q' = Some (v, r)" "suffix q' q" "strict_suffix r q'"
      proof (cases "0xd800 \<le> cp \<and> cp \<le> 0xdbff")
        case hi: True
        show ?thesis
        proof (cases "json_u16 q")
          case None
          then show ?thesis using that [of "b @ utf8_put cp" q] "2.prems" "2.IH"(8) esc s True q hi by auto
        next
          case (Some z)
          obtain lo q2 where z: "z = (lo, q2)" by force
          then show ?thesis using that [of "b @ utf8_put (surrogate_pair cp lo)" q2] "2.prems" "2.IH"(9) esc s True q hi Some
              json_u16_strict [of q lo q2] by auto
        qed
      next
        case False
        then show ?thesis using that [of "b @ utf8_put cp" q] "2.prems" "2.IH"(10) esc s True q by auto
      qed
      then show ?thesis using json_u16_strict [OF q] suffix_order.less_trans suffix_order.less_le_trans by metis
    next
      case nu: False
      have e: "c \<noteq> CHR 0x22" "\<not> c \<noteq> CHR 0x5c" using esc by auto
      have "\<exists>b'. json_string_loop b' s' = Some (v, r) \<and> strict_suffix r s'"
        using "2.prems" nu esc s "2.IH"(2) [OF e s] "2.IH"(3) [OF e s] "2.IH"(4) [OF e s] "2.IH"(5) [OF e s]
          "2.IH"(6) [OF e s] "2.IH"(7) [OF e s]
        by (auto split: if_splits)
      then show ?thesis using s by (auto intro: strict_ConsI')
    qed
  qed
qed simp

lemma json_string_strict: "json_string s = Some (v, r) \<Longrightarrow> strict_suffix r s"
  by (auto simp: json_string_def split: list.splits if_splits dest!: json_string_loop_strict
      intro: strict_ws_Cons)

lemma dropWhile_strict: "takeWhile P s \<noteq> [] \<Longrightarrow> strict_suffix (dropWhile P s) s"
  by (metis strict_suffix_def suffix_dropWhile takeWhile_dropWhile_id append_self_conv2)

lemma strtod_exp_suffix: "suffix (strtod_exp mark s) s"
proof (cases s)
  case (Cons c r)
  define r' where "r' = (case r of d # r'' \<Rightarrow> if d = CHR ''+'' \<or> d = CHR ''-'' then r'' else r | [] \<Rightarrow> [])"
  have "suffix r' r" by (auto simp: r'_def suffix_def split: list.split)
  then have "suffix (dropWhile is_digit r') r" using suffix_dropWhile suffix_order.trans by blast
  then show ?thesis using Cons by (simp add: strtod_exp_def Let_def r'_def [symmetric] suffix_ConsI)
qed (simp add: strtod_exp_def)

lemma strtod_digits_strict:
  assumes "strtod_digits dig mark s = Some r"
  shows "strict_suffix r s"
proof (cases "takeWhile dig s = []")
  case False
  obtain q where q: "suffix q (dropWhile dig s)" "r = strtod_exp mark q"
  proof (cases "dropWhile dig s")
    case Nil
    then show ?thesis using that [of "[]"] assms False unfolding strtod_digits_def Let_def Nil by simp
  next
    case (Cons d r')
    then show ?thesis
      using that [of "dropWhile dig r'"] that [of "d # r'"] assms False suffix_ConsI [OF suffix_dropWhile, of dig r' d]
      by (auto simp: strtod_digits_def Let_def split: if_splits)
  qed
  then show ?thesis using dropWhile_strict [OF False] strtod_exp_suffix
    by (metis suffix_order.le_less_trans suffix_order.trans)
next
  case True
  then have d: "dropWhile dig s = s" by (metis append_Nil takeWhile_dropWhile_id)
  from assms True obtain s' where "s = CHR ''.'' # s'" "r = strtod_exp mark (dropWhile dig s')"
    by (auto simp: strtod_digits_def Let_def d split: if_splits list.splits)
  then show ?thesis using strtod_exp_suffix suffix_dropWhile suffix_order.trans by (blast intro: strict_ConsI)
qed

lemma strtod_word_strict: "strtod_word w s = Some r \<Longrightarrow> w \<noteq> [] \<Longrightarrow> strict_suffix r s"
proof -
  assume a: "strtod_word w s = Some r" "w \<noteq> []"
  then have "length (take (length w) s) = length w" by (metis length_map option.distinct(1) strtod_word_def)
  then show ?thesis using a by (auto simp: strtod_word_def intro!: strict_drop split: if_splits)
qed

lemma strtod_nan_suffix: "suffix (strtod_nan_tail s) s"
proof (cases s)
  case (Cons c r)
  have "suffix r' r" if "dropWhile P r = d # r'" for P d r'
    using suffix_dropWhile [of P r] that by (metis suffix_ConsD)
  then show ?thesis using Cons by (auto simp: strtod_nan_tail_def Let_def suffix_ConsI split: list.split)
qed (simp add: strtod_nan_tail_def)

lemma strtod_end_strict:
  assumes "strtod_end s = Some r"
  shows "strict_suffix r s"
proof -
  define t where "t = (case json_ws s of c # r \<Rightarrow> if c = CHR ''+'' \<or> c = CHR ''-'' then r else c # r | [] \<Rightarrow> [])"
  have "strict_suffix r t"
    using assms unfolding strtod_end_def Let_def t_def [symmetric]
    by (auto split: option.splits dest: strtod_word_strict strtod_digits_strict
        intro: suffix_order.le_less_trans [OF strtod_nan_suffix] suffix_order.less_trans)
  moreover have "suffix t s"
  proof (cases "json_ws s")
    case (Cons c q)
    then show ?thesis using suffix_ws [of s] suffix_ConsD [of c q s] by (simp add: t_def)
  qed (simp add: t_def)
  ultimately show ?thesis by (rule suffix_order.less_le_trans)
qed

lemma json_number_strict: "json_number s = Some (v, r) \<Longrightarrow> strict_suffix r s"
  by (auto simp: json_number_def Let_def split: option.splits dest!: strtod_end_strict intro: strict_ws)

section \<open>Ignored values\<close>

definition JSON_MAX_NESTING :: nat where "JSON_MAX_NESTING = 256"

text \<open>The three mutually recursive skippers; the loops of the array and the object are the functions
  \<open>..._items\<close> and \<open>..._members\<close>.  They end because a skipped value is never empty.\<close>

function (sequential)
  json_skip_value_depth :: "nat \<Rightarrow> bytes \<Rightarrow> bytes option" and
  json_skip_array_depth :: "nat \<Rightarrow> bytes \<Rightarrow> bytes option" and
  json_skip_items :: "nat \<Rightarrow> bytes \<Rightarrow> bytes option" and
  json_skip_object_depth :: "nat \<Rightarrow> bytes \<Rightarrow> bytes option" and
  json_skip_members :: "nat \<Rightarrow> bytes \<Rightarrow> bytes option"
where
  "json_skip_value_depth depth s =
     (let s = json_ws s
      in if take 1 s = [CHR 0x22] then map_option snd (json_string s)
         else if take 1 s = ''{'' then json_skip_object_depth depth s
         else if take 1 s = ''['' then json_skip_array_depth depth s
         else case json_lit ''true'' s of Some r \<Rightarrow> Some r | None \<Rightarrow>
              case json_lit ''false'' s of Some r \<Rightarrow> Some r | None \<Rightarrow>
              case json_lit ''null'' s of Some r \<Rightarrow> Some r | None \<Rightarrow> map_option snd (json_number s))"
| "json_skip_array_depth depth s =
     (if depth \<ge> JSON_MAX_NESTING then None
      else case json_ws s of [] \<Rightarrow> None
      | c # r \<Rightarrow>
          if c \<noteq> CHR ''['' then None
          else case json_ws r of d # r' \<Rightarrow> if d = CHR '']'' then Some r' else json_skip_items depth (d # r')
               | [] \<Rightarrow> json_skip_items depth [])"
| "json_skip_items depth s =
     (case json_skip_value_depth (depth + 1) s of None \<Rightarrow> None
      | Some r \<Rightarrow>
          (case json_ws r of [] \<Rightarrow> None
           | c # r' \<Rightarrow> if c = CHR '']'' then Some r'
                       else if c \<noteq> CHR '','' then None
                       else json_skip_items depth r'))"
| "json_skip_object_depth depth s =
     (if depth \<ge> JSON_MAX_NESTING then None
      else case json_ws s of [] \<Rightarrow> None
      | c # r \<Rightarrow>
          if c \<noteq> CHR ''{'' then None
          else case json_ws r of d # r' \<Rightarrow> if d = CHR ''}'' then Some r' else json_skip_members depth (d # r')
               | [] \<Rightarrow> json_skip_members depth [])"
| "json_skip_members depth s =
     (case json_string s of None \<Rightarrow> None
      | Some (key, r) \<Rightarrow>
          (case json_ws r of [] \<Rightarrow> None
           | c # r \<Rightarrow>
               if c \<noteq> CHR '':'' then None
               else case json_skip_value_depth (depth + 1) r of None \<Rightarrow> None
                 | Some r \<Rightarrow>
                     (case json_ws r of [] \<Rightarrow> None
                      | c # r' \<Rightarrow> if c = CHR ''}'' then Some r'
                                  else if c \<noteq> CHR '','' then None
                                  else json_skip_members depth r')))"
  by pat_completeness auto

abbreviation skip_dom where
  "skip_dom \<equiv> json_skip_value_depth_json_skip_array_depth_json_skip_items_json_skip_object_depth_json_skip_members_dom"

lemma skip_strict_dom:
  "skip_dom (Inl (Inl (d, s))) \<Longrightarrow> json_skip_value_depth d s = Some r \<Longrightarrow> strict_suffix r s"
  "skip_dom (Inl (Inr (d, s))) \<Longrightarrow> json_skip_array_depth d s = Some r \<Longrightarrow> strict_suffix r s"
  "skip_dom (Inr (Inl (d, s))) \<Longrightarrow> json_skip_items d s = Some r \<Longrightarrow> strict_suffix r s"
  "skip_dom (Inr (Inr (Inl (d, s)))) \<Longrightarrow> json_skip_object_depth d s = Some r \<Longrightarrow> strict_suffix r s"
  "skip_dom (Inr (Inr (Inr (d, s)))) \<Longrightarrow> json_skip_members d s = Some r \<Longrightarrow> strict_suffix r s"
proof (induction d s and d s and d s and d s and d s arbitrary: r and r and r and r and r rule: json_skip_value_depth_json_skip_array_depth_json_skip_items_json_skip_object_depth_json_skip_members.pinduct)
  case (1 depth s)
  let ?s = "json_ws s"
  have "strict_suffix r ?s"
    using "1.prems" "1.IH" json_lit_strict [of _ ?s r] json_string_strict [of ?s _ r] json_number_strict [of ?s _ r]
    by (auto simp: json_skip_value_depth.psimps [OF "1.hyps"] Let_def split: if_splits option.splits)
  then show ?case by (rule strict_ws)
next
  case (2 depth s)
  then obtain c t where c: "json_ws s = c # t" "\<not> JSON_MAX_NESTING \<le> depth" "\<not> c \<noteq> CHR ''[''"
    by (auto simp: json_skip_array_depth.psimps split: if_splits list.splits)
  show ?case
  proof (cases "json_ws t")
    case Nil
    then show ?thesis using 2 c by (auto simp: json_skip_array_depth.psimps strict_suffix_def)
  next
    case (Cons d t')
    then have "suffix r t"
      using "2.prems" "2.IH"(2) [OF c(2,1,3) Cons] c suffix_ws [of t]
      by (auto simp: json_skip_array_depth.psimps [OF "2.hyps"] split: if_splits dest: suffix_ConsD
          intro: suffix_order.trans [OF suffix_order.less_imp_le])
    then show ?thesis by (rule strict_ws_Cons [OF c(1)])
  qed
next
  case (3 depth s)
  then obtain q where q: "json_skip_value_depth (depth + 1) s = Some q"
    by (auto simp: json_skip_items.psimps split: option.splits)
  then obtain c t where c: "json_ws q = c # t"
    using 3 by (auto simp: json_skip_items.psimps split: list.splits)
  have "suffix r t"
    using "3.prems" "3.IH"(2) [OF q c] q c
    by (auto simp: json_skip_items.psimps [OF "3.hyps"] split: if_splits)
  then have "strict_suffix r q" by (rule strict_ws_Cons [OF c])
  then show ?case using "3.IH"(1) [OF q] by (rule suffix_order.less_trans)
next
  case (4 depth s)
  then obtain c t where c: "json_ws s = c # t" "\<not> JSON_MAX_NESTING \<le> depth" "\<not> c \<noteq> CHR ''{''"
    by (auto simp: json_skip_object_depth.psimps split: if_splits list.splits)
  show ?case
  proof (cases "json_ws t")
    case Nil
    then show ?thesis using 4 c by (auto simp: json_skip_object_depth.psimps strict_suffix_def)
  next
    case (Cons d t')
    then have "suffix r t"
      using "4.prems" "4.IH"(2) [OF c(2,1,3) Cons] c suffix_ws [of t]
      by (auto simp: json_skip_object_depth.psimps [OF "4.hyps"] split: if_splits dest: suffix_ConsD
          intro: suffix_order.trans [OF suffix_order.less_imp_le])
    then show ?thesis by (rule strict_ws_Cons [OF c(1)])
  qed
next
  case (5 depth s)
  then obtain key q where q: "json_string s = Some (key, q)"
    by (auto simp: json_skip_members.psimps split: option.splits)
  then obtain c t where c: "json_ws q = c # t" "\<not> c \<noteq> CHR '':''"
    using 5 by (auto simp: json_skip_members.psimps split: list.splits if_splits)
  then obtain u where u: "json_skip_value_depth (depth + 1) t = Some u"
    using 5 q by (auto simp: json_skip_members.psimps split: option.splits)
  then obtain d v where d: "json_ws u = d # v"
    using 5 q c by (auto simp: json_skip_members.psimps split: list.splits)
  have "suffix r v"
    using "5.prems" "5.IH"(2) [OF q refl c u d] q c u d
    by (auto simp: json_skip_members.psimps [OF "5.hyps"] split: if_splits)
  then have "strict_suffix r t"
    using strict_ws_Cons [OF d] "5.IH"(1) [OF q refl c u] by (metis suffix_order.less_trans)
  then have "strict_suffix r q" using strict_ws_Cons [OF c(1)] by (simp add: strict_suffix_def)
  then show ?case using json_string_strict [OF q] by (rule suffix_order.less_trans)
qed

lemma skip_total: "All skip_dom"
proof (relation "measure (\<lambda>x. case x of Inl (Inl (d, s)) \<Rightarrow> 3 * length s + 1 | Inl (Inr (d, s)) \<Rightarrow> 3 * length s
     | Inr (Inl (d, s)) \<Rightarrow> 3 * length s + 2 | Inr (Inr (Inl (d, s))) \<Rightarrow> 3 * length s | Inr (Inr (Inr (d, s))) \<Rightarrow> 3 * length s + 2)",
    goal_cases)
  have ws: "length (json_ws s) \<le> length s" for s by (simp add: json_ws_def length_dropWhile_le)
  have wsC: "json_ws s = c # t \<Longrightarrow> length t < length s" for s c t using ws [of s] by simp
  note less = suffix_length_less
  {
    case 1 then show ?case by simp
  next
    case (2 depth s x) then show ?case using ws [of s] by simp
  next
    case (3 depth s x) then show ?case using ws [of s] by simp
  next
    case (4 depth s c t) then show ?case using wsC by force
  next
    case (5 depth s c t d u) then show ?case using wsC [of s c t] wsC [of t d u] by simp
  next
    case 6 then show ?case by simp
  next
    case (7 depth s q c t) then show ?case using wsC [of q c t] less [OF skip_strict_dom(1)] by force
  next
    case (8 depth s c t) then show ?case using wsC by force
  next
    case (9 depth s c t d u) then show ?case using wsC [of s c t] wsC [of t d u] by simp
  next
    case (10 depth s k key q c t) then show ?case using wsC [of q c t] less [OF json_string_strict [of s key q]] by simp
  next
    case (11 depth s k key q c t u d v)
    then show ?case using wsC [of q c t] wsC [of u d v] less [OF json_string_strict [of s key q]] less [OF skip_strict_dom(1)] by force
  }
qed

termination json_skip_value_depth
  by (rule skip_total)

lemmas json_skip_strict = skip_strict_dom [OF skip_total [THEN spec]]

end
