(* ===== verification/Json_Values.thy ===== *)
theory Json_Values
  imports Json
begin

text \<open>
  Values of the server's JSON layer (\<open>src/ds4_server.c\<close>): the text of an ignored value, its minified
  form, the text content of a chat message, and the escaping of strings into JSON.  A C string read
  from a buffer ends at its first NUL: \<open>c_str\<close>.
\<close>

definition c_str :: "bytes \<Rightarrow> bytes" where
  "c_str b = takeWhile (\<lambda>c. c \<noteq> CHR 0x00) b"

lemma c_str_id: "CHR 0x00 \<notin> set s \<Longrightarrow> c_str s = s"
  by (simp add: c_str_def takeWhile_eq_all_conv) blast

section \<open>Values\<close>

definition json_skip_value :: "bytes \<Rightarrow> bytes option" where
  "json_skip_value s = json_skip_value_depth 0 s"

definition json_raw_value :: "bytes \<Rightarrow> (bytes \<times> bytes) option" where
  "json_raw_value s =
     (let start = json_ws s
      in case json_skip_value start of None \<Rightarrow> None
         | Some r \<Rightarrow> Some (take (length start - length r) start, r))"

fun json_minify_loop :: "bool \<Rightarrow> bool \<Rightarrow> bytes \<Rightarrow> bytes" where
  "json_minify_loop in_string escape [] = []"
| "json_minify_loop in_string escape (c # s) =
     (if in_string then
        c # (if escape then json_minify_loop True False s
             else if c = CHR 0x5c then json_minify_loop True True s
             else if c = CHR 0x22 then json_minify_loop False False s
             else json_minify_loop True False s)
      else if c = CHR 0x22 then c # json_minify_loop True escape s
      else if \<not> is_cspace c then c # json_minify_loop False escape s
      else json_minify_loop False escape s)"

definition json_minify_raw_value :: "bytes option \<Rightarrow> bytes" where
  "json_minify_raw_value json =
     (let start = json_ws (case json of Some s \<Rightarrow> s | None \<Rightarrow> ''null'')
      in case json_skip_value start of
           None \<Rightarrow> (case json of Some s \<Rightarrow> s | None \<Rightarrow> ''null'')
         | Some r \<Rightarrow> json_minify_loop False False (take (length start - length r) start))"

lemma json_skip_value_strict: "json_skip_value s = Some r \<Longrightarrow> strict_suffix r s"
  unfolding json_skip_value_def by (rule json_skip_strict(1))

section \<open>Message content\<close>

text \<open>\<open>json_ws(p); if (**p == ',') (*p)++; json_ws(p);\<close>\<close>

definition after_comma :: "bytes \<Rightarrow> bytes" where
  "after_comma s =
     (case json_ws s of [] \<Rightarrow> [] | c # r \<Rightarrow> if c = CHR '','' then json_ws r else json_ws (c # r))"

lemma after_comma_suffix: "suffix (after_comma s) s"
proof (cases "json_ws s")
  case (Cons c r)
  have c: "suffix (c # r) s" using suffix_ws [of s] Cons by simp
  then show ?thesis
    using suffix_order.trans [OF suffix_ws suffix_ConsD [OF c]] suffix_order.trans [OF suffix_ws c] Cons
    by (simp add: after_comma_def)
qed (simp add: after_comma_def)

lemma after_comma_le: "length (after_comma s) \<le> length s"
  using after_comma_suffix suffix_length_le by blast

lemma json_ws_le: "length (json_ws s) \<le> length s"
  using suffix_ws suffix_length_le by blast

text \<open>The members of a content part: the text of every \<open>"text"\<close> member is appended to \<open>b\<close>.\<close>

function (sequential) content_members :: "bytes \<Rightarrow> bytes \<Rightarrow> (bytes \<times> bytes) option" where
  "content_members b s =
     (if s = [] then None
      else if hd s = CHR ''}'' then Some (b, tl s)
      else case json_string s of None \<Rightarrow> None
      | Some (key, r) \<Rightarrow>
          (case json_ws r of [] \<Rightarrow> None
           | c # r' \<Rightarrow>
               if c \<noteq> CHR '':'' then None
               else if c_str key = ''text'' then
                 (case json_string r' of None \<Rightarrow> None
                  | Some (v, r'') \<Rightarrow> content_members (b @ c_str v) (after_comma r''))
               else
                 (case json_skip_value r' of None \<Rightarrow> None
                  | Some r'' \<Rightarrow> content_members b (after_comma r''))))"
  by pat_completeness auto

lemma member_shorter:
  assumes "strict_suffix r s" "json_ws r = c # r'" "strict_suffix r'' r'"
  shows "length (after_comma r'') < length s"
  using suffix_length_less [OF assms(1)] suffix_length_less [OF assms(3)] json_ws_le [of r] after_comma_le [of r''] assms(2)
  by simp

termination content_members
  by (relation "measure (length \<circ> snd)")
    (auto intro: member_shorter json_string_strict json_skip_value_strict)

declare content_members.simps [simp del]

lemma content_members_suffix: "content_members b s = Some (v, r) \<Longrightarrow> strict_suffix r s"
proof (induction b s rule: content_members.induct)
  case (1 b s)
  have ac: "strict_suffix r (after_comma q'') \<Longrightarrow> strict_suffix q'' q' \<Longrightarrow> json_ws q = c # q' \<Longrightarrow> strict_suffix q s \<Longrightarrow> strict_suffix r s"
    for q q' q'' c
    using after_comma_suffix [of q''] strict_ws_Cons [of q c q' q'']
    by (meson suffix_order.less_imp_le suffix_order.less_le_trans suffix_order.less_trans)
  show ?case
  proof (cases "s = [] \<or> hd s = CHR ''}''")
    case True
    then show ?thesis using "1.prems" unfolding content_members.simps [of b s] by (cases s) (auto intro: strict_ConsI)
  next
    case False
    then obtain key q where q: "json_string s = Some (key, q)"
      using "1.prems" by (auto simp: content_members.simps [of b s] split: option.splits)
    obtain c q' where c: "json_ws q = c # q'" "\<not> c \<noteq> CHR '':''"
      using "1.prems" False q by (auto simp: content_members.simps [of b s] split: list.splits if_splits)
    have f: "s \<noteq> []" "hd s \<noteq> CHR ''}''" using False by auto
    show ?thesis
    proof (cases "c_str key = ''text''")
      case True
      then obtain w q'' where w: "json_string q' = Some (w, q'')" "content_members (b @ c_str w) (after_comma q'') = Some (v, r)"
        using "1.prems" False q c by (auto simp: content_members.simps [of b s] split: option.splits)
      show ?thesis
        using ac [OF "1.IH"(1) [OF f q refl c True w(1) refl w(2)] json_string_strict [OF w(1)] c(1) json_string_strict [OF q]] .
    next
      case nt: False
      then obtain q'' where w: "json_skip_value q' = Some q''" "content_members b (after_comma q'') = Some (v, r)"
        using "1.prems" False q c by (auto simp: content_members.simps [of b s] split: option.splits)
      show ?thesis
        using ac [OF "1.IH"(2) [OF f q refl c nt w] json_skip_value_strict [OF w(1)] c(1) json_string_strict [OF q]] .
    qed
  qed
qed

function (sequential) content_items :: "bytes \<Rightarrow> bytes \<Rightarrow> (bytes \<times> bytes) option" where
  "content_items b s =
     (if s = [] then None
      else if hd s = CHR '']'' then Some (b, tl s)
      else if hd s = CHR 0x22 then
        (case json_string s of None \<Rightarrow> None | Some (v, r) \<Rightarrow> content_items (b @ c_str v) (after_comma r))
      else if hd s = CHR ''{'' then
        (case content_members b (json_ws (tl s)) of None \<Rightarrow> None | Some (b', r) \<Rightarrow> content_items b' (after_comma r))
      else
        (case json_skip_value s of None \<Rightarrow> None | Some r \<Rightarrow> content_items b (after_comma r)))"
  by pat_completeness auto

termination content_items
proof (relation "measure (length \<circ> snd)", goal_cases)
  case 1 show ?case by simp
next
  case (2 b s k v r)
  then show ?case using suffix_length_less [OF json_string_strict [of s v r]] after_comma_le [of r] by simp
next
  case (3 b s k b' r)
  then have "length r < length (json_ws (tl s))" using suffix_length_less [OF content_members_suffix [of b "json_ws (tl s)" b' r]] by simp
  then show ?case using json_ws_le [of "tl s"] after_comma_le [of r] 3(1) by (cases s) auto
next
  case (4 b s r)
  then show ?case using suffix_length_less [OF json_skip_value_strict [of s r]] after_comma_le [of r] by simp
qed

declare content_items.simps [simp del]

definition json_content :: "bytes \<Rightarrow> (bytes \<times> bytes) option" where
  "json_content s =
     (let s = json_ws s
      in if take 1 s = [CHR 0x22] then json_string s
         else case json_lit ''null'' s of Some r \<Rightarrow> Some ([], r)
         | None \<Rightarrow>
             if take 1 s \<noteq> ''['' then map_option (\<lambda>r. ([], r)) (json_skip_value s)
             else content_items [] (json_ws (drop 1 s)))"

section \<open>Escaping\<close>

definition hex_lower :: "nat \<Rightarrow> char" where
  "hex_lower n = char_of (if n < 10 then 48 + n else 87 + n)"

definition json_escape_char :: "char \<Rightarrow> bytes" where
  "json_escape_char c =
     (let n = of_char c :: nat
      in if c = CHR 0x22 \<or> c = CHR 0x5c then [CHR 0x5c, c]
         else if c = CHR 0x0a then [CHR 0x5c, CHR ''n'']
         else if c = CHR 0x0d then [CHR 0x5c, CHR ''r'']
         else if c = CHR 0x09 then [CHR 0x5c, CHR ''t'']
         else if n < 32 then [CHR 0x5c, CHR ''u'', CHR ''0'', CHR ''0'', hex_lower (n div 16), hex_lower (n mod 16)]
         else [c])"

definition json_escape :: "bytes \<Rightarrow> bytes" where
  "json_escape s = [CHR 0x22] @ concat (map json_escape_char (c_str s)) @ [CHR 0x22]"

definition json_escape_n :: "bytes \<Rightarrow> nat \<Rightarrow> bytes" where
  "json_escape_n s n = json_escape (take n s)"

definition json_escape_fragment_n :: "bytes \<Rightarrow> nat \<Rightarrow> bytes" where
  "json_escape_fragment_n s n = concat (map json_escape_char (take n s))"

section \<open>What is written is read back\<close>

lemma json_u16_frame: "json_u16_digits n cp d = Some (x, []) \<Longrightarrow> json_u16_digits n cp (d @ s) = Some (x, s)"
  by (induction n cp d rule: json_u16_digits.induct) (auto simp: Let_def split: if_splits)

lemma control_escapes:
  "\<forall>n \<in> set [1..<32]. json_u16_digits 4 0 [CHR ''0'', CHR ''0'', hex_lower (n div 16), hex_lower (n mod 16)] = Some (of_nat n, [])
     \<and> utf8_put (of_nat n) = [char_of n] \<and> \<not> 0xd800 \<le> (of_nat n :: u32)"
  by code_simp

lemma read_escaped_char:
  assumes "c \<noteq> CHR 0x00"
  shows "json_string_loop b (json_escape_char c @ s) = json_string_loop (b @ [c]) s"
proof (cases "json_escape_char c = [CHR 0x5c, CHR ''u'', CHR ''0'', CHR ''0'', hex_lower (of_char c div 16), hex_lower (of_char c mod 16)]
    \<and> (of_char c :: nat) < 32")
  case True
  let ?n = "of_char c :: nat"
  have "?n \<noteq> 0"
  proof
    assume "?n = 0"
    then have "c = char_of (0 :: nat)" by (metis char_of_char)
    then show False using assms by (simp add: char_of_def)
  qed
  then have n: "?n \<in> set [1..<32]" using True by auto
  note ce = control_escapes [rule_format, OF n]
  have "json_u16_digits 4 0 ([CHR ''0'', CHR ''0'', hex_lower (?n div 16), hex_lower (?n mod 16)] @ s) = Some (of_nat ?n, s)"
    using json_u16_frame ce by blast
  then show ?thesis using True ce by simp
next
  case False
  then show ?thesis by (auto simp: json_escape_char_def Let_def split: if_splits)
qed

lemma read_escaped: "CHR 0x00 \<notin> set s \<Longrightarrow> json_string_loop b (concat (map json_escape_char s) @ t) = json_string_loop (b @ s) t"
proof (induction s arbitrary: b)
  case (Cons c s)
  then have "c \<noteq> CHR 0x00" by auto
  then show ?case using Cons read_escaped_char [of c b "concat (map json_escape_char s) @ t"] by simp
qed simp

lemma json_string_escape: "json_string (json_escape s @ rest) = Some (c_str s, rest)"
proof -
  have "CHR 0x00 \<notin> set (c_str s)" by (auto simp: c_str_def dest: set_takeWhileD)
  then show ?thesis
    using read_escaped [of "c_str s" "[]" "CHR 0x22 # rest"]
    by (simp add: json_string_def json_escape_def json_ws_def is_cspace_def Let_def)
qed

section \<open>Nesting\<close>

lemma skip_array_open: "json_skip_array_depth d (CHR ''['' # s) = (if d \<ge> JSON_MAX_NESTING then None else
    case json_ws s of d' # r' \<Rightarrow> if d' = CHR '']'' then Some r' else json_skip_items d (d' # r') | [] \<Rightarrow> json_skip_items d [])"
  by (simp add: json_ws_def is_cspace_def Let_def)

lemma skip_value_open: "json_skip_value_depth d (CHR ''['' # s) = json_skip_array_depth d (CHR ''['' # s)"
  by (subst json_skip_value_depth.simps) (simp add: json_ws_def is_cspace_def Let_def del: json_skip_value_depth.simps json_skip_array_depth.simps)

declare json_skip_value_depth.simps [simp del] json_skip_array_depth.simps [simp del] json_skip_items.simps [simp del]
  json_skip_object_depth.simps [simp del] json_skip_members.simps [simp del]

lemma nesting_ok:
  "0 < k \<Longrightarrow> d + k \<le> JSON_MAX_NESTING \<Longrightarrow>
     json_skip_value_depth d (replicate k CHR ''['' @ replicate k CHR '']'' @ r) = Some r"
proof (induction k arbitrary: d r)
  case (Suc k)
  show ?case
  proof (cases "k = 0")
    case True
    then show ?thesis using Suc.prems by (simp add: skip_value_open skip_array_open json_ws_def is_cspace_def Let_def)
  next
    case False
    let ?s = "replicate k CHR ''['' @ replicate k CHR '']'' @ CHR '']'' # r"
    have s: "replicate (Suc k) CHR ''['' @ replicate (Suc k) CHR '']'' @ r = CHR ''['' # ?s"
      by (simp add: replicate_append_same [symmetric])
    obtain t where t: "?s = CHR ''['' # t" using False by (cases k) auto
    have "json_skip_value_depth (d + 1) ?s = Some (CHR '']'' # r)"
      using Suc.IH [of "d + 1" "CHR '']'' # r"] Suc.prems False by simp
    moreover have "json_ws ?s = ?s" "json_ws (CHR '']'' # r) = CHR '']'' # r"
      unfolding t by (simp_all add: json_ws_def is_cspace_def Let_def)
    ultimately have "json_skip_array_depth d (CHR ''['' # ?s) = Some r"
      using Suc.prems unfolding skip_array_open t by (simp add: json_skip_items.simps [of d "CHR ''['' # t"])
    then show ?thesis unfolding s skip_value_open .
  qed
qed simp

lemma nesting_too_deep:
  "d \<le> JSON_MAX_NESTING \<Longrightarrow> json_skip_value_depth d (replicate (Suc (JSON_MAX_NESTING - d)) CHR ''['' @ r) = None"
proof (induction "JSON_MAX_NESTING - d" arbitrary: d)
  case 0
  then show ?case by (simp add: skip_value_open skip_array_open)
next
  case (Suc k)
  then have d: "d < JSON_MAX_NESTING" "k = JSON_MAX_NESTING - (d + 1)" by simp_all
  let ?s = "replicate (Suc k) CHR ''['' @ r"
  have IH: "json_skip_value_depth (d + 1) ?s = None" using Suc.hyps(1) [of "d + 1"] d by simp
  have ws: "json_ws ?s = ?s" by (simp add: json_ws_def is_cspace_def Let_def)
  have "json_skip_array_depth d (CHR ''['' # ?s) = None"
    using d IH unfolding skip_array_open ws by (simp add: json_skip_items.simps)
  then show ?case using d Suc.hyps(2) by (simp add: skip_value_open Suc_diff_Suc)
qed

end
