(* ===== verification/Stream_Text.thy ===== *)
theory Stream_Text
  imports Json_Values
begin

text \<open>
  What a streaming response may send already (\<open>src/ds4_server.c\<close>): the stop sequences of a request,
  the tail that is held back because a stop sequence may start in it, and the incomplete UTF-8
  character at the end of the text that is held back for the next token.
\<close>

section \<open>Stop sequences\<close>

record stop_list =
  stop_v :: "bytes list"
  stop_max_len :: nat

definition stop_list_clear :: stop_list where
  "stop_list_clear = \<lparr>stop_v = [], stop_max_len = 0\<rparr>"

definition stop_list_push :: "stop_list \<Rightarrow> bytes \<Rightarrow> stop_list" where
  "stop_list_push stops b =
     (let s = c_str b
      in if s = [] then stops
         else \<lparr>stop_v = stop_v stops @ [s],
               stop_max_len = (if length s > stop_max_len stops then length s else stop_max_len stops)\<rparr>)"

function (sequential) parse_stop_items :: "stop_list \<Rightarrow> bytes \<Rightarrow> (stop_list \<times> bytes) option" where
  "parse_stop_items stops s =
     (if s = [] then None
      else if hd s = CHR '']'' then Some (stops, tl s)
      else if hd s = CHR 0x22 then
        (case json_string s of None \<Rightarrow> None
         | Some (v, r) \<Rightarrow> parse_stop_items (stop_list_push stops v) (after_comma r))
      else
        (case json_skip_value s of None \<Rightarrow> None | Some r \<Rightarrow> parse_stop_items stops (after_comma r)))"
  by pat_completeness auto

lemma after_comma_shorter: "strict_suffix r s \<Longrightarrow> length (after_comma r) < length s"
  using after_comma_le [of r] suffix_length_less [of r s] by simp

termination parse_stop_items
  by (relation "measure (length \<circ> snd)")
    (auto intro: after_comma_shorter json_string_strict json_skip_value_strict)

declare parse_stop_items.simps [simp del]

definition parse_stop :: "bytes \<Rightarrow> (stop_list \<times> bytes) option" where
  "parse_stop s =
     (let s = json_ws s
      in if take 1 s = [CHR 0x22] then
           map_option (\<lambda>(v, r). (stop_list_push stop_list_clear v, r)) (json_string s)
         else if take 1 s \<noteq> ''['' then map_option (\<lambda>r. (stop_list_clear, r)) (json_skip_value s)
         else parse_stop_items stop_list_clear (json_ws (drop 1 s)))"

text \<open>\<open>strstr(text + start, needle) - text\<close>.\<close>

definition strstr_from :: "bytes \<Rightarrow> nat \<Rightarrow> bytes \<Rightarrow> nat option" where
  "strstr_from str start needle = find (\<lambda>i. prefix needle (drop i str)) [start..<length str + 1]"

text \<open>The earliest match of any stop sequence; the first in the list where two start together.\<close>

definition stop_list_find_from :: "stop_list \<Rightarrow> bytes \<Rightarrow> nat \<Rightarrow> (nat \<times> nat) option" where
  "stop_list_find_from stops str start =
     fold (\<lambda>s best.
        case strstr_from str start s of None \<Rightarrow> best
        | Some ppos \<Rightarrow>
            (case best of None \<Rightarrow> Some (ppos, length s)
             | Some (best_pos, best_len) \<Rightarrow> if ppos < best_pos then Some (ppos, length s) else best))
       (stop_v stops) None"

definition stop_list_stream_safe_len :: "stop_list \<Rightarrow> nat \<Rightarrow> nat" where
  "stop_list_stream_safe_len stops text_len =
     (if stop_v stops = [] \<or> stop_max_len stops \<le> 1 then text_len
      else let hold = stop_max_len stops - 1
           in if text_len > hold then text_len - hold else 0)"

section \<open>Lemmas on stop sequences\<close>

definition stop_wf :: "stop_list \<Rightarrow> bool" where
  "stop_wf stops \<longleftrightarrow> (\<forall>s \<in> set (stop_v stops). s \<noteq> [] \<and> length s \<le> stop_max_len stops)"

lemma stop_wf_clear [simp]: "stop_wf stop_list_clear"
  by (simp add: stop_wf_def stop_list_clear_def)

lemma stop_wf_push: "stop_wf stops \<Longrightarrow> stop_wf (stop_list_push stops b)"
  by (fastforce simp: stop_wf_def stop_list_push_def Let_def)

lemma stop_wf_items: "parse_stop_items stops s = Some (stops', r) \<Longrightarrow> stop_wf stops \<Longrightarrow> stop_wf stops'"
proof (induction stops s rule: parse_stop_items.induct)
  case (1 stops s)
  show ?case using "1.prems" "1.IH" stop_wf_push [OF "1.prems"(2)] unfolding parse_stop_items.simps [of stops s]
    by (auto split: if_splits option.splits)
qed

lemma parse_stop_wf: "parse_stop s = Some (stops, r) \<Longrightarrow> stop_wf stops"
  by (auto simp: parse_stop_def Let_def split: if_splits intro: stop_wf_push stop_wf_items)

lemma strstr_Some:
  "strstr_from str start needle = Some i \<longleftrightarrow>
     start \<le> i \<and> i \<le> length str \<and> prefix needle (drop i str) \<and> (\<forall>j. start \<le> j \<longrightarrow> j < i \<longrightarrow> \<not> prefix needle (drop j str))"
proof
  assume "strstr_from str start needle = Some i"
  then obtain k where k: "k < length [start..<length str + 1]" "i = [start..<length str + 1] ! k"
      "prefix needle (drop ([start..<length str + 1] ! k) str)"
      "\<forall>j < k. \<not> prefix needle (drop ([start..<length str + 1] ! j) str)"
    by (auto simp: strstr_from_def find_Some_iff)
  have "\<not> prefix needle (drop j str)" if "start \<le> j" "j < i" for j
    using k(4) [rule_format, of "j - start"] k(1,2) that by (simp del: upt_Suc add: nth_upt)
  then show "start \<le> i \<and> i \<le> length str \<and> prefix needle (drop i str) \<and> (\<forall>j. start \<le> j \<longrightarrow> j < i \<longrightarrow> \<not> prefix needle (drop j str))"
    using k by (auto simp del: upt_Suc simp: nth_upt)
next
  assume a: "start \<le> i \<and> i \<le> length str \<and> prefix needle (drop i str) \<and> (\<forall>j. start \<le> j \<longrightarrow> j < i \<longrightarrow> \<not> prefix needle (drop j str))"
  have "i - start < length [start..<length str + 1]" "[start..<length str + 1] ! (i - start) = i"
    "\<forall>j < i - start. \<not> prefix needle (drop ([start..<length str + 1] ! j) str)"
    using a by (auto simp del: upt_Suc simp: nth_upt)
  then show "strstr_from str start needle = Some i"
    unfolding strstr_from_def find_Some_iff using a by metis
qed

lemma strstr_None: "strstr_from str start needle = None \<longleftrightarrow> (\<forall>j. start \<le> j \<longrightarrow> j \<le> length str \<longrightarrow> \<not> prefix needle (drop j str))"
  by (auto simp: strstr_from_def find_None_iff)

text \<open>\<open>occurs stops str start pos s\<close>: the stop sequence \<open>s\<close> stands at \<open>pos\<close>.\<close>

definition occurs :: "stop_list \<Rightarrow> bytes \<Rightarrow> nat \<Rightarrow> nat \<Rightarrow> bytes \<Rightarrow> bool" where
  "occurs stops str start pos s \<longleftrightarrow> s \<in> set (stop_v stops) \<and> start \<le> pos \<and> pos \<le> length str \<and> prefix s (drop pos str)"

lemma find_fold:
  fixes str :: bytes and start :: nat
  defines f_def: "f \<equiv> \<lambda>s best. case strstr_from str start s of None \<Rightarrow> best
        | Some ppos \<Rightarrow> (case best of None \<Rightarrow> Some (ppos, length s)
             | Some (best_pos, best_len) \<Rightarrow> if ppos < best_pos then Some (ppos, length s) else best)"
  shows "fold f vs best = r \<Longrightarrow>
    (r = None \<longleftrightarrow> best = None \<and> (\<forall>s \<in> set vs. strstr_from str start s = None))
    \<and> (\<forall>p l. r = Some (p, l) \<longrightarrow>
        (best = Some (p, l) \<or> (\<exists>s \<in> set vs. strstr_from str start s = Some p \<and> l = length s))
        \<and> (\<forall>q m. best = Some (q, m) \<longrightarrow> p \<le> q) \<and> (\<forall>s \<in> set vs. \<forall>q. strstr_from str start s = Some q \<longrightarrow> p \<le> q))"
proof (induction vs arbitrary: best)
  case (Cons s vs)
  have IH: "fold f vs (f s best) = r" using Cons.prems by simp
  show ?case using Cons.IH [OF IH]
    by (cases "strstr_from str start s"; cases best) (auto simp: f_def split: if_splits)
qed simp

lemma find_from_Some:
  assumes "stop_list_find_from stops str start = Some (pos, len)"
  shows "(\<exists>s. occurs stops str start pos s \<and> len = length s) \<and> (\<forall>q s. occurs stops str start q s \<longrightarrow> pos \<le> q)"
proof -
  note f = find_fold [OF assms [unfolded stop_list_find_from_def]]
  have "\<exists>s \<in> set (stop_v stops). strstr_from str start s = Some pos \<and> len = length s"
    and first: "\<forall>s \<in> set (stop_v stops). \<forall>q. strstr_from str start s = Some q \<longrightarrow> pos \<le> q" using f by auto
  then have "\<exists>s. occurs stops str start pos s \<and> len = length s" by (auto simp: occurs_def strstr_Some)
  moreover have "pos \<le> q" if o: "occurs stops str start q s" for q s
  proof -
    obtain q' where q': "strstr_from str start s = Some q'"
      using o by (cases "strstr_from str start s") (auto simp: occurs_def strstr_None)
    then have "q' \<le> q" using o by (auto simp: occurs_def strstr_Some not_less [symmetric])
    moreover have "pos \<le> q'" using first o q' by (auto simp: occurs_def)
    ultimately show ?thesis by simp
  qed
  ultimately show ?thesis by blast
qed

lemma find_from_None: "stop_list_find_from stops str start = None \<longleftrightarrow> (\<forall>q s. \<not> occurs stops str start q s)"
proof -
  have "stop_list_find_from stops str start = None \<longleftrightarrow> (\<forall>s \<in> set (stop_v stops). strstr_from str start s = None)"
    using find_fold [OF refl, of str start "stop_v stops" None] by (simp add: stop_list_find_from_def)
  then show ?thesis by (auto simp: occurs_def strstr_None)
qed

text \<open>Streaming never sends a byte of a stop sequence: when no stop sequence has occurred yet in
  the text, then however the text goes on, the first one starts at or after the length that was
  declared safe to send.\<close>

theorem stream_holds_stop:
  assumes "parse_stop request = Some (stops, r)" "start \<le> length str" "stop_list_find_from stops str start = None"
    and "stop_list_find_from stops (str @ rest) start = Some (pos, len)"
  shows "stop_list_stream_safe_len stops (length str) \<le> pos"
proof -
  note wf = parse_stop_wf [OF assms(1)]
  obtain s where s: "occurs stops (str @ rest) start pos s" using find_from_Some [OF assms(4)] by blast
  then have l: "s \<noteq> []" "length s \<le> stop_max_len stops" "stop_v stops \<noteq> []" using wf by (auto simp: stop_wf_def occurs_def)
  have "length str < pos + length s"
  proof (rule ccontr)
    assume "\<not> length str < pos + length s"
    then have p: "pos + length s \<le> length str" by simp
    have "prefix s (drop pos str @ rest)" using s p by (simp add: occurs_def)
    then have "prefix s (drop pos str)" by (rule prefix_length_prefix) (use p in auto)
    then have "occurs stops str start pos s" using s p by (simp add: occurs_def)
    then show False using assms(3) by (simp add: find_from_None)
  qed
  then show ?thesis using l by (auto simp: stop_list_stream_safe_len_def Let_def)
qed

section \<open>UTF-8\<close>

definition byte_val :: "char \<Rightarrow> nat" where "byte_val c = of_char c"

definition utf8_expected_len :: "char \<Rightarrow> nat" where
  "utf8_expected_len c =
     (let n = byte_val c
      in if n < 0x80 then 1 else if 0xc2 \<le> n \<and> n \<le> 0xdf then 2 else if 0xe0 \<le> n \<and> n \<le> 0xef then 3
         else if 0xf0 \<le> n \<and> n \<le> 0xf4 then 4 else 1)"

definition is_cont :: "char \<Rightarrow> bool" where
  "is_cont c \<longleftrightarrow> 0x80 \<le> byte_val c \<and> byte_val c < 0xc0"

text \<open>The backward loop over continuation bytes, at most four of them.\<close>

fun utf8_back :: "bytes \<Rightarrow> nat \<Rightarrow> nat \<Rightarrow> nat \<Rightarrow> nat" where
  "utf8_back s start 0 cont = 0"
| "utf8_back s start (Suc p) cont =
     (if Suc p > start \<and> cont < 4 \<and> is_cont (s ! p) then utf8_back s start p (cont + 1) else Suc p)"

definition utf8_stream_safe_len :: "bytes \<Rightarrow> nat \<Rightarrow> nat \<Rightarrow> bool \<Rightarrow> nat" where
  "utf8_stream_safe_len s start limit final =
     (if final \<or> limit \<le> start then limit
      else
        let p = utf8_back s start limit 0
        in if p = limit then (if utf8_expected_len (s ! (limit - 1)) > 1 then limit - 1 else limit)
           else if p = start \<and> is_cont (s ! p) then start
           else let lead = p - 1; need = utf8_expected_len (s ! lead)
                in if limit - lead < need then lead else limit)"

text \<open>A character as the code sees it: a lead byte and as many continuation bytes as it asks for.\<close>

definition utf8_char :: "bytes \<Rightarrow> bool" where
  "utf8_char w \<longleftrightarrow> w \<noteq> [] \<and> \<not> is_cont (hd w) \<and> length w = utf8_expected_len (hd w) \<and> (\<forall>c \<in> set (tl w). is_cont c)"

lemma utf8_expected_len_le: "1 \<le> utf8_expected_len c" "utf8_expected_len c \<le> 4"
  by (simp_all add: utf8_expected_len_def Let_def)

lemma utf8_back_conts:
  assumes "length cs + cont \<le> 4" "\<forall>c \<in> set cs. is_cont c" "\<not> is_cont lead \<or> length cs + cont = 4" "start \<le> length pre"
  shows "utf8_back (pre @ lead # cs @ rest) start (Suc (length pre + length cs)) cont = Suc (length pre)"
  using assms
proof (induction cs arbitrary: cont rest rule: rev_induct)
  case Nil
  then show ?case by (auto simp: nth_append)
next
  case (snoc c cs)
  have "(pre @ lead # (cs @ [c]) @ rest) ! (Suc (length pre + length cs)) = c" by (simp add: nth_append)
  then show ?case using snoc.IH [of "cont + 1" "c # rest"] snoc.prems by simp
qed

lemma safe_len_char:
  assumes "part \<noteq> []" "\<not> is_cont (hd part)" "\<forall>c \<in> set (tl part). is_cont c" "length part \<le> utf8_expected_len (hd part)"
    and "start \<le> length pre"
  shows "utf8_stream_safe_len (pre @ part) start (length (pre @ part)) False =
    (if length part < utf8_expected_len (hd part) then length pre else length (pre @ part))"
proof -
  obtain lead cs where p: "part = lead # cs" using assms(1) by (cases part) auto
  have cs: "\<not> is_cont lead" "\<forall>c \<in> set cs. is_cont c" "Suc (length cs) \<le> utf8_expected_len lead" using assms p by auto
  then have "length cs \<le> 4" using utf8_expected_len_le [of lead] by simp
  then have b: "utf8_back (pre @ part) start (length (pre @ part)) 0 = Suc (length pre)"
    using utf8_back_conts [of cs 0 lead start pre "[]"] cs assms(5) p by simp
  show ?thesis
  proof (cases "cs = []")
    case True
    then show ?thesis using b p assms(5) cs utf8_expected_len_le [of lead]
      by (auto simp: utf8_stream_safe_len_def Let_def nth_append)
  next
    case False
    then show ?thesis using b p assms(5) cs
      by (auto simp: utf8_stream_safe_len_def Let_def nth_append)
  qed
qed

text \<open>Streaming never splits a character: of a text that is whole characters and the beginning of
  one more, exactly the whole characters are safe to send before the text is final.\<close>

theorem stream_whole_characters:
  assumes "\<forall>w \<in> set ws. utf8_char w" "utf8_char (part @ missing)" "missing \<noteq> []"
  shows "utf8_stream_safe_len (sent @ concat ws @ part) (length sent) (length (sent @ concat ws @ part)) False
    = length (sent @ concat ws)"
proof (cases "part = []")
  case False
  have h: "hd (part @ missing) = hd part" "tl (part @ missing) = tl part @ missing" using False by auto
  then have "length part < utf8_expected_len (hd part)" using assms(2,3) by (cases missing) (auto simp: utf8_char_def)
  then show ?thesis
    using safe_len_char [of part "length sent" "sent @ concat ws"] assms(2) False h by (auto simp: utf8_char_def)
next
  case True
  show ?thesis
  proof (cases ws rule: rev_cases)
    case Nil
    then show ?thesis using True by (simp add: utf8_stream_safe_len_def)
  next
    case (snoc vs w)
    then have "utf8_char w" using assms(1) by simp
    then show ?thesis using safe_len_char [of w "length sent" "sent @ concat vs"] True snoc
      by (auto simp: utf8_char_def)
  qed
qed

end
