(* ===== verification/Dsml_Syntax.thy ===== *)
theory Dsml_Syntax
  imports Stream_Text
begin

text \<open>
  The tool-call markup (DSML) of the server (\<open>src/ds4_server.c\<close>): its three spellings, the search for
  its markers, attributes and entities, and how much of a text with tool calls may be streamed.
\<close>

section \<open>The three spellings\<close>

text \<open>The bytes of the fullwidth vertical line.\<close>

definition bar :: bytes where "bar = [CHR 0xef, CHR 0xbd, CHR 0x9c]"

definition DS4_DSML :: bytes where "DS4_DSML = bar @ ''DSML'' @ bar"

definition DS4_DSML_SHORT :: bytes where "DS4_DSML_SHORT = ''DSML'' @ bar"

record dsml_syntax =
  tool_calls_start :: bytes
  tool_calls_end :: bytes
  invoke_start :: bytes
  invoke_end :: bytes
  param_start :: bytes
  param_end :: bytes

text \<open>The array \<open>dsml_syntaxes\<close>; a pointer into it is its index, the style.\<close>

datatype dsml_style = Dsml | Dsml_short | Plain_xml

definition dsml_mark :: "dsml_style \<Rightarrow> bytes" where
  "dsml_mark style = (case style of Dsml \<Rightarrow> DS4_DSML | Dsml_short \<Rightarrow> DS4_DSML_SHORT | Plain_xml \<Rightarrow> [])"

definition dsml_syntaxes :: "dsml_style \<Rightarrow> dsml_syntax" where
  "dsml_syntaxes style =
     (let mark = dsml_mark style
      in \<lparr>tool_calls_start = ''<'' @ mark @ ''tool_calls>'', tool_calls_end = ''</'' @ mark @ ''tool_calls>'',
          invoke_start = ''<'' @ mark @ ''invoke'', invoke_end = ''</'' @ mark @ ''invoke>'',
          param_start = ''<'' @ mark @ ''parameter'', param_end = ''</'' @ mark @ ''parameter>''\<rparr>)"

definition dsml_styles :: "dsml_style list" where
  "dsml_styles = [Dsml, Dsml_short, Plain_xml]"

section \<open>Searching\<close>

definition strstr :: "bytes \<Rightarrow> bytes \<Rightarrow> nat option" where
  "strstr s needle = strstr_from s 0 needle"

definition strchr :: "bytes \<Rightarrow> char \<Rightarrow> nat option" where
  "strchr s c = find (\<lambda>i. s ! i = c) [0..<length s]"

text \<open>The earliest of the candidates that are there.\<close>

definition earliest :: "nat option list \<Rightarrow> nat option" where
  "earliest cands =
     fold (\<lambda>c best. case c of None \<Rightarrow> best
        | Some i \<Rightarrow> (case best of None \<Rightarrow> Some i | Some b \<Rightarrow> if i < b then Some i else best)) cands None"

definition find_any_tool_start :: "bytes \<Rightarrow> nat option" where
  "find_any_tool_start s = earliest (map (\<lambda>sty. strstr s (tool_calls_start (dsml_syntaxes sty))) dsml_styles)"

definition find_any_tool_end :: "bytes \<Rightarrow> nat option" where
  "find_any_tool_end s = earliest (map (\<lambda>sty. strstr s (tool_calls_end (dsml_syntaxes sty))) dsml_styles)"

text \<open>The flags \<open>saw_start\<close>, \<open>saw_end\<close>, \<open>orphan_end\<close>.\<close>

definition observe_tool_markers :: "bytes \<Rightarrow> bool \<times> bool \<times> bool \<Rightarrow> bool \<times> bool \<times> bool" where
  "observe_tool_markers scan flags =
     (case flags of (saw_start, saw_end, orphan_end) \<Rightarrow>
        let start = find_any_tool_start scan;
            end_scan = (if saw_start then Some scan
                        else case start of Some i \<Rightarrow> Some (drop i scan) | None \<Rightarrow> None);
            end = (case end_scan of Some s \<Rightarrow> find_any_tool_end s | None \<Rightarrow> None)
        in (saw_start \<or> start \<noteq> None,
            saw_end \<or> end \<noteq> None,
            orphan_end \<or> (end = None \<and> \<not> saw_start \<and> start = None \<and> find_any_tool_end scan \<noteq> None)))"

fun trim_tool_separator_ws :: "bytes \<Rightarrow> nat \<Rightarrow> nat \<Rightarrow> nat" where
  "trim_tool_separator_ws raw start 0 = 0"
| "trim_tool_separator_ws raw start (Suc limit) =
     (if Suc limit > start \<and> is_cspace (raw ! limit) then trim_tool_separator_ws raw start limit else Suc limit)"

definition find_last_substr :: "bytes \<Rightarrow> bytes \<Rightarrow> nat option" where
  "find_last_substr s needle =
     (if needle = [] then None else find (\<lambda>i. prefix needle (drop i s)) (rev [0..<length s + 1]))"

section \<open>Entities and attributes\<close>

definition dsml_entities :: "(bytes \<times> char) list" where
  "dsml_entities = [(''&amp;'', CHR ''&''), (''&lt;'', CHR ''<''), (''&gt;'', CHR ''>''),
     (''&quot;'', CHR 0x22), (''&apos;'', CHR 0x27)]"

function (sequential) dsml_unescape_text :: "bytes \<Rightarrow> bytes" where
  "dsml_unescape_text [] = []"
| "dsml_unescape_text (c # s) =
     (if c \<noteq> CHR ''&'' then c # dsml_unescape_text s
      else case find (\<lambda>(ent, _). prefix ent (c # s)) dsml_entities of
        Some (ent, d) \<Rightarrow> d # dsml_unescape_text (drop (length ent - 1) s)
      | None \<Rightarrow> CHR ''&'' # dsml_unescape_text s)"
  by pat_completeness auto
termination
  by (relation "measure length") (auto simp: less_Suc_eq_le)

text \<open>The attribute pattern is cut to the 63 bytes of \<open>pat\<close>; the names used are short.\<close>

definition dsml_attr :: "bytes \<Rightarrow> bytes \<Rightarrow> bytes option" where
  "dsml_attr tag name =
     (let pat = take 63 (name @ ''='' @ [CHR 0x22])
      in case strstr tag pat of None \<Rightarrow> None
         | Some i \<Rightarrow>
             let p = drop (i + length pat) tag
             in case strchr p CHR 0x22 of None \<Rightarrow> None
                | Some q \<Rightarrow> Some (dsml_unescape_text (take q p)))"

section \<open>Streaming a text with tool calls\<close>

text \<open>The last \<open><\<close> at or after \<open>scan\<close> and before \<open>i\<close>.\<close>

definition last_lt :: "bytes \<Rightarrow> nat \<Rightarrow> nat \<Rightarrow> nat option" where
  "last_lt raw scan i = find (\<lambda>j. raw ! j = CHR ''<'') (rev [scan..<i])"

definition text_stream_safe_limit :: "bytes \<Rightarrow> nat \<Rightarrow> nat \<Rightarrow> bool \<Rightarrow> bool \<Rightarrow> nat" where
  "text_stream_safe_limit raw start raw_len has_tools final =
     (if raw_len \<le> start then raw_len
      else if \<not> has_tools then utf8_stream_safe_len raw start raw_len final
      else case find_any_tool_start (drop start raw) of
        Some tool \<Rightarrow>
          utf8_stream_safe_len raw start (trim_tool_separator_ws raw start (start + tool)) True
      | None \<Rightarrow>
          if final then utf8_stream_safe_len raw start raw_len final
          else
            let limit = trim_tool_separator_ws raw start raw_len;
                scan = (if raw_len - start > 80 then raw_len - 80 else start);
                limit = (case last_lt raw scan raw_len of
                           Some marker \<Rightarrow> if marker < limit then marker else limit
                         | None \<Rightarrow> limit);
                limit = trim_tool_separator_ws raw start limit
            in utf8_stream_safe_len raw start limit final)"

definition dsml_entity_stream_safe_len :: "bytes \<Rightarrow> nat \<Rightarrow> nat \<Rightarrow> nat" where
  "dsml_entity_stream_safe_len raw start limit =
     (let scan = (if limit > start + 6 then limit - 6 else start)
      in case find (\<lambda>j. raw ! j = CHR ''&'') (rev [scan..<limit]) of
           None \<Rightarrow> limit
         | Some amp \<Rightarrow>
             let tail = get_at amp (limit - amp) raw
             in if list_ex (\<lambda>(ent, _). length tail < length ent \<and> prefix tail ent) dsml_entities
                then amp else limit)"

definition tool_param_value_stream_safe_len :: "bytes \<Rightarrow> nat \<Rightarrow> nat \<Rightarrow> bytes \<Rightarrow> bool \<Rightarrow> nat" where
  "tool_param_value_stream_safe_len raw start raw_len pend is_string =
     (let scan = (if raw_len > start + length pend then raw_len - length pend else start);
          limit = (case last_lt raw scan raw_len of
                     None \<Rightarrow> raw_len
                   | Some marker \<Rightarrow>
                       let tail = get_at marker (raw_len - marker) raw
                       in if length tail < length pend \<and> prefix tail pend then marker else raw_len);
          limit = (if is_string then dsml_entity_stream_safe_len raw start limit else limit)
      in utf8_stream_safe_len raw start limit False)"

end
