(* ===== verification/Dsml_Tracker.thy ===== *)
theory Dsml_Tracker
  imports Dsml_Syntax
begin

text \<open>
  The incremental recognizer of tool calls (\<open>dsml_decode_tracker_update\<close> of \<open>src/ds4_server.c\<close>): it
  is called with the text generated so far after every token and decides whether the next token is
  protocol syntax or payload.  The text is the first \<open>raw_len\<close> bytes of \<open>raw\<close>.
\<close>

section \<open>Literals\<close>

definition raw_full_lit :: "bytes \<Rightarrow> nat \<Rightarrow> bytes \<Rightarrow> bool" where
  "raw_full_lit raw pos lit \<longleftrightarrow>
     pos \<le> length raw \<and> length raw - pos \<ge> length lit \<and> get_at pos (length lit) raw = lit"

definition raw_partial_lit :: "bytes \<Rightarrow> nat \<Rightarrow> bytes \<Rightarrow> bool" where
  "raw_partial_lit raw pos lit \<longleftrightarrow>
     \<not> (pos > length raw \<or> length raw - pos \<ge> length lit) \<and> drop pos raw = take (length raw - pos) lit"

definition raw_partial_any :: "bytes \<Rightarrow> nat \<Rightarrow> bytes \<Rightarrow> bytes \<Rightarrow> bool" where
  "raw_partial_any raw pos a b \<longleftrightarrow> raw_partial_lit raw pos a \<or> raw_partial_lit raw pos b"

definition raw_partial_lit_min :: "bytes \<Rightarrow> nat \<Rightarrow> bytes \<Rightarrow> nat \<Rightarrow> bool" where
  "raw_partial_lit_min raw pos lit min_len \<longleftrightarrow>
     \<not> (pos > length raw \<or> length raw - pos \<ge> length lit) \<and> length raw - pos \<ge> min_len
     \<and> drop pos raw = take (length raw - pos) lit"

definition find_lit_bounded :: "bytes \<Rightarrow> bytes \<Rightarrow> nat option" where
  "find_lit_bounded s lit =
     (if lit = [] then Some 0
      else if length s < length lit then None
      else find (\<lambda>i. get_at i (length lit) s = lit) [0..<length s - length lit + 1])"

definition dsml_max_tool_start_len :: nat where
  "dsml_max_tool_start_len =
     fold (\<lambda>sty m. let n = length (tool_calls_start (dsml_syntaxes sty)) in if n > m then n else m) dsml_styles 0"

definition dsml_find_tool_start :: "bytes \<Rightarrow> (nat \<times> dsml_style) option" where
  "dsml_find_tool_start raw =
     map_option (\<lambda>(p, sty). (p + length (tool_calls_start (dsml_syntaxes sty)), sty))
       (fold (\<lambda>sty best.
          case find_lit_bounded raw (tool_calls_start (dsml_syntaxes sty)) of None \<Rightarrow> best
          | Some p \<Rightarrow> (case best of None \<Rightarrow> Some (p, sty)
                       | Some (b, _) \<Rightarrow> if p < b then Some (p, sty) else best))
          dsml_styles None)"

definition dsml_find_tool_start_from :: "bytes \<Rightarrow> nat \<Rightarrow> (nat \<times> dsml_style) option" where
  "dsml_find_tool_start_from raw start =
     (if start > length raw then None
      else map_option (\<lambda>(rel, sty). (start + rel, sty)) (dsml_find_tool_start (drop start raw)))"

definition dsml_attr_is_string_true :: "bytes \<Rightarrow> nat \<Rightarrow> nat \<Rightarrow> bool" where
  "dsml_attr_is_string_true raw tag_start tag_end =
     (if tag_end \<le> tag_start \<or> tag_end > length raw then False
      else dsml_attr (get_at tag_start (tag_end - tag_start) raw) ''string'' = Some ''true'')"

section \<open>The tracker\<close>

datatype dsml_decode_state = Outside | Structural | String_body | Json_structural | Json_string

datatype dsml_track_mode = Track_search | Track_structural | Track_string_body | Track_json_param | Track_done

record dsml_decode_tracker =
  dt_mode :: dsml_track_mode
  dt_decode :: dsml_decode_state
  dt_syn :: dsml_style
  dt_pos :: nat
  json_in_string :: bool
  json_escaped :: bool

text \<open>\<open>syn\<close> is NULL until a start marker is found and is not read before; here it is any style.\<close>

definition dsml_decode_tracker_init :: dsml_decode_tracker where
  "dsml_decode_tracker_init =
     \<lparr>dt_mode = Track_search, dt_decode = Outside, dt_syn = Dsml, dt_pos = 0,
      json_in_string = False, json_escaped = False\<rparr>"

definition dsml_decode_state_is_tool :: "dsml_decode_state \<Rightarrow> bool" where
  "dsml_decode_state_is_tool state \<longleftrightarrow> state \<noteq> Outside"

definition dsml_decode_state_uses_payload_sampling :: "dsml_decode_state \<Rightarrow> bool" where
  "dsml_decode_state_uses_payload_sampling state \<longleftrightarrow> state = String_body \<or> state = Json_string"

text \<open>One turn of the loops: the function returns, or goes round again.\<close>

datatype turn = Return dsml_decode_tracker | Again dsml_decode_tracker

definition skip_ws :: "bytes \<Rightarrow> nat \<Rightarrow> nat" where
  "skip_ws raw pos = pos + length (takeWhile is_cspace (drop pos raw))"

definition search_turn :: "bytes \<Rightarrow> dsml_decode_tracker \<Rightarrow> turn" where
  "search_turn raw dt =
     (case dsml_find_tool_start_from raw (dt_pos dt) of
        None \<Rightarrow>
          let hold = dsml_max_tool_start_len
          in Return (dt\<lparr>dt_pos := (if length raw > hold then length raw - hold else 0), dt_decode := Outside\<rparr>)
      | Some (pos, syn) \<Rightarrow>
          Again (dt\<lparr>dt_syn := syn, dt_pos := pos, dt_mode := Track_structural, dt_decode := Structural\<rparr>))"

definition string_turn :: "bytes \<Rightarrow> dsml_decode_tracker \<Rightarrow> turn" where
  "string_turn raw dt =
     (let pend = param_end (dsml_syntaxes (dt_syn dt)) in
      if dt_pos dt < length raw then
        if raw_full_lit raw (dt_pos dt) pend then
          Again (dt\<lparr>dt_pos := dt_pos dt + length pend, dt_mode := Track_structural, dt_decode := Structural\<rparr>)
        else if raw_partial_lit_min raw (dt_pos dt) pend 2 then Return (dt\<lparr>dt_decode := Structural\<rparr>)
        else Again (dt\<lparr>dt_pos := dt_pos dt + 1\<rparr>)
      else Return (dt\<lparr>dt_decode := String_body\<rparr>))"

definition json_advance :: "bytes \<Rightarrow> dsml_decode_tracker \<Rightarrow> dsml_decode_tracker" where
  "json_advance raw dt =
     (let c = raw ! dt_pos dt; dt = dt\<lparr>dt_pos := dt_pos dt + 1\<rparr>
      in if json_in_string dt then
           if json_escaped dt then dt\<lparr>json_escaped := False\<rparr>
           else if c = CHR 0x5c then dt\<lparr>json_escaped := True\<rparr>
           else if c = CHR 0x22 then dt\<lparr>json_in_string := False\<rparr>
           else dt
         else if c = CHR 0x22 then dt\<lparr>json_in_string := True\<rparr>
         else dt)"

definition json_turn :: "bytes \<Rightarrow> dsml_decode_tracker \<Rightarrow> turn" where
  "json_turn raw dt =
     (let pend = param_end (dsml_syntaxes (dt_syn dt)) in
      if dt_pos dt < length raw then
        if \<not> json_in_string dt \<and> raw_full_lit raw (dt_pos dt) pend then
          Again (dt\<lparr>dt_pos := dt_pos dt + length pend, dt_mode := Track_structural, dt_decode := Structural\<rparr>)
        else if \<not> json_in_string dt \<and> raw_partial_lit_min raw (dt_pos dt) pend 2 then
          Return (dt\<lparr>dt_decode := Structural\<rparr>)
        else Again (json_advance raw dt)
      else Return (dt\<lparr>dt_decode := (if json_in_string dt then Json_string else Json_structural)\<rparr>))"

definition structural_turn :: "bytes \<Rightarrow> dsml_decode_tracker \<Rightarrow> turn" where
  "structural_turn raw dt =
     (let syn = dsml_syntaxes (dt_syn dt); dt = dt\<lparr>dt_pos := skip_ws raw (dt_pos dt)\<rparr>; pos = dt_pos dt in
      if pos \<ge> length raw then Return (dt\<lparr>dt_decode := Structural\<rparr>)
      else if raw_full_lit raw pos (tool_calls_end syn) then
        Return (dt\<lparr>dt_mode := Track_done, dt_pos := pos + length (tool_calls_end syn), dt_decode := Outside\<rparr>)
      else if raw_full_lit raw pos (invoke_end syn) then
        Again (dt\<lparr>dt_pos := pos + length (invoke_end syn)\<rparr>)
      else if raw_full_lit raw pos (invoke_start syn) then
        (case strchr (drop pos raw) CHR ''>'' of
           None \<Rightarrow> Return (dt\<lparr>dt_decode := Structural\<rparr>)
         | Some k \<Rightarrow> Again (dt\<lparr>dt_pos := pos + k + 1\<rparr>))
      else if raw_full_lit raw pos (param_start syn) then
        (case strchr (drop pos raw) CHR ''>'' of
           None \<Rightarrow> Return (dt\<lparr>dt_decode := Structural\<rparr>)
         | Some k \<Rightarrow>
             let tag_after = pos + k + 1; dt = dt\<lparr>dt_pos := tag_after\<rparr>
             in if dsml_attr_is_string_true raw pos tag_after
                then Again (dt\<lparr>dt_mode := Track_string_body, dt_decode := String_body\<rparr>)
                else Again (dt\<lparr>dt_mode := Track_json_param, json_in_string := False, json_escaped := False,
                               dt_decode := Json_structural\<rparr>))
      else if raw_partial_lit raw pos (tool_calls_end syn) \<or> raw_partial_lit raw pos (invoke_start syn)
              \<or> raw_partial_lit raw pos (invoke_end syn) \<or> raw_partial_lit raw pos (param_start syn)
              \<or> raw_partial_lit raw pos (param_end syn)
           then Return (dt\<lparr>dt_decode := Structural\<rparr>)
      else Return (dt\<lparr>dt_decode := Structural\<rparr>))"

definition track_turn :: "bytes \<Rightarrow> dsml_decode_tracker \<Rightarrow> turn" where
  "track_turn raw dt =
     (case dt_mode dt of
        Track_done \<Rightarrow> Return (dt\<lparr>dt_decode := Outside\<rparr>)
      | Track_search \<Rightarrow> search_turn raw dt
      | Track_string_body \<Rightarrow> string_turn raw dt
      | Track_json_param \<Rightarrow> json_turn raw dt
      | Track_structural \<Rightarrow> structural_turn raw dt)"

lemma literals_nonempty [simp]:
  "0 < length (tool_calls_start (dsml_syntaxes sty))" "0 < length (param_end (dsml_syntaxes sty))"
  "0 < length (invoke_end (dsml_syntaxes sty))"
  by (simp_all add: dsml_syntaxes_def Let_def)

lemma get_at_prefix: "get_at p (length lit) s = lit \<longleftrightarrow> prefix lit (drop p s)"
  by (metis append_eq_conv_conj get_at_def prefix_def)

lemma full_iff: "raw_full_lit raw pos lit \<longleftrightarrow> pos \<le> length raw \<and> prefix lit (drop pos raw)"
  unfolding raw_full_lit_def get_at_prefix by (auto dest: prefix_length_le)

lemma partial_iff:
  "raw_partial_lit_min raw pos lit m \<longleftrightarrow> pos \<le> length raw \<and> m \<le> length raw - pos \<and> strict_prefix (drop pos raw) lit"
proof -
  have "drop pos raw = take (length raw - pos) lit \<longleftrightarrow> prefix (drop pos raw) lit"
    if "length raw - pos < length lit"
    using that by (metis append_eq_conv_conj length_drop prefix_def)
  moreover have "strict_prefix (drop pos raw) lit \<longleftrightarrow> prefix (drop pos raw) lit \<and> length raw - pos < length lit"
    by (metis length_drop prefix_length_less prefix_order.le_less prefix_order.less_le strict_prefixI less_irrefl)
  ultimately show ?thesis by (auto simp: raw_partial_lit_min_def)
qed

lemma find_lit_bounded_Some:
  assumes "lit \<noteq> []"
  shows "find_lit_bounded s lit = Some i \<longleftrightarrow> prefix lit (drop i s) \<and> (\<forall>j < i. \<not> prefix lit (drop j s))"
    and "find_lit_bounded s lit = None \<longleftrightarrow> (\<forall>j. \<not> prefix lit (drop j s))"
proof -
  have out: "j < length s - length lit + 1 \<and> length lit \<le> length s" if "prefix lit (drop j s)" for j
    using prefix_length_le [OF that] assms by (cases "j \<le> length s") auto
  show "find_lit_bounded s lit = Some i \<longleftrightarrow> prefix lit (drop i s) \<and> (\<forall>j < i. \<not> prefix lit (drop j s))"
    using out [of i] assms by (auto simp: find_lit_bounded_def find_Some_iff get_at_prefix simp del: upt_Suc)
  show "find_lit_bounded s lit = None \<longleftrightarrow> (\<forall>j. \<not> prefix lit (drop j s))"
    using out assms by (auto simp: find_lit_bounded_def find_None_iff get_at_prefix simp del: upt_Suc)
qed

section \<open>The loop\<close>

lemma strchr_Some: "strchr s c = Some k \<longleftrightarrow> k < length s \<and> s ! k = c \<and> (\<forall>j < k. s ! j \<noteq> c)"
  by (auto simp: strchr_def find_Some_iff)

lemma strchr_None: "strchr s c = None \<longleftrightarrow> c \<notin> set s"
  by (auto simp: strchr_def find_None_iff in_set_conv_nth)

text \<open>\<open>start_at raw p sty\<close>: the start marker of style \<open>sty\<close> stands at \<open>p\<close>.\<close>

definition start_at :: "bytes \<Rightarrow> nat \<Rightarrow> dsml_style \<Rightarrow> bool" where
  "start_at raw p sty \<longleftrightarrow> prefix (tool_calls_start (dsml_syntaxes sty)) (drop p raw)"

lemma start_fold:
  "fold (\<lambda>sty best.
          case find_lit_bounded raw (tool_calls_start (dsml_syntaxes sty)) of None \<Rightarrow> best
          | Some p \<Rightarrow> (case best of None \<Rightarrow> Some (p, sty)
                       | Some (b, _) \<Rightarrow> if p < b then Some (p, sty) else best)) stys best = r \<Longrightarrow>
    (r = None \<longleftrightarrow> best = None \<and> (\<forall>sty \<in> set stys. \<forall>p. \<not> start_at raw p sty))
    \<and> (\<forall>p sty. r = Some (p, sty) \<longrightarrow> (best = Some (p, sty) \<or> sty \<in> set stys \<and> start_at raw p sty)
        \<and> (\<forall>q sty'. best = Some (q, sty') \<longrightarrow> p \<le> q) \<and> (\<forall>sty' \<in> set stys. \<forall>q. start_at raw q sty' \<longrightarrow> p \<le> q))"
proof (induction stys arbitrary: best)
  case (Cons sty stys)
  let ?lit = "tool_calls_start (dsml_syntaxes sty)"
  have lit: "?lit \<noteq> []" using literals_nonempty(1) [of sty] by blast
  show ?case
  proof (cases "find_lit_bounded raw ?lit")
    case None
    then have no: "\<forall>p. \<not> start_at raw p sty" unfolding start_at_def find_lit_bounded_Some(2) [OF lit] .
    show ?thesis using Cons.IH [of best] Cons.prems None no by simp blast
  next
    case (Some p)
    then have p: "start_at raw p sty" "\<And>q. start_at raw q sty \<Longrightarrow> p \<le> q"
      unfolding start_at_def find_lit_bounded_Some(1) [OF lit] by (auto simp: not_less [symmetric])
    show ?thesis
    proof (cases best)
      case None
      then show ?thesis using Cons.IH [of "Some (p, sty)"] Cons.prems Some p by (auto intro: order_trans)
    next
      case (Some b)
      obtain q sty' where b: "best = Some (q, sty')" using Some by force
      show ?thesis
      proof (cases "p < q")
        case True
        then show ?thesis using Cons.IH [of "Some (p, sty)"] Cons.prems \<open>find_lit_bounded raw ?lit = Some p\<close> b p by fastforce
      next
        case False
        then show ?thesis using Cons.IH [of best] Cons.prems \<open>find_lit_bounded raw ?lit = Some p\<close> b p by fastforce
      qed
    qed
  qed
qed simp

lemma set_styles [simp]: "set dsml_styles = UNIV"
  using dsml_style.exhaust by (auto simp: dsml_styles_def)

text \<open>No start marker is a prefix of another.\<close>

lemma start_not_prefix:
  assumes "a \<noteq> b"
  shows "\<not> prefix (tool_calls_start (dsml_syntaxes a)) (tool_calls_start (dsml_syntaxes b))"
  using assms by (cases a; cases b) (simp_all add: dsml_syntaxes_def dsml_mark_def DS4_DSML_def DS4_DSML_SHORT_def bar_def Let_def)

lemma start_style_unique:
  assumes "start_at raw p sty" "start_at raw p sty'"
  shows "sty = sty'"
proof (rule ccontr)
  assume ne: "sty \<noteq> sty'"
  from prefix_same_cases [OF assms [unfolded start_at_def]] show False
    using start_not_prefix [OF ne] start_not_prefix [OF ne [symmetric]] by (elim disjE) simp_all
qed

lemma find_start_Some:
  "dsml_find_tool_start raw = Some (n, sty) \<longleftrightarrow>
     (\<exists>p. n = p + length (tool_calls_start (dsml_syntaxes sty)) \<and> start_at raw p sty
        \<and> (\<forall>q sty'. start_at raw q sty' \<longrightarrow> p \<le> q))"
    (is "?l = ?r")
  and find_start_None: "dsml_find_tool_start raw = None \<longleftrightarrow> (\<forall>p sty. \<not> start_at raw p sty)"
proof -
  define r where "r = fold (\<lambda>sty best.
          case find_lit_bounded raw (tool_calls_start (dsml_syntaxes sty)) of None \<Rightarrow> best
          | Some p \<Rightarrow> (case best of None \<Rightarrow> Some (p, sty)
                       | Some (b, _) \<Rightarrow> if p < b then Some (p, sty) else best)) dsml_styles None"
  note f = start_fold [OF r_def [symmetric]]
  have eq: "dsml_find_tool_start raw = map_option (\<lambda>(p, sty). (p + length (tool_calls_start (dsml_syntaxes sty)), sty)) r"
    by (simp add: dsml_find_tool_start_def r_def)
  show "dsml_find_tool_start raw = None \<longleftrightarrow> (\<forall>p sty. \<not> start_at raw p sty)"
    using f by (simp add: eq) blast
  show "?l = ?r"
  proof
    assume ?l
    then show ?r using f by (auto simp: eq)
  next
    assume ?r
    then obtain p where p: "n = p + length (tool_calls_start (dsml_syntaxes sty))" "start_at raw p sty"
      "\<forall>q sty'. start_at raw q sty' \<longrightarrow> p \<le> q" by blast
    then obtain q sty' where r: "r = Some (q, sty')" using f by (cases r) auto
    then have q: "start_at raw q sty'" "q \<le> p" using f p(2) by auto
    then have "q = p" using p(3) by force
    then show ?l using start_style_unique [of raw p sty' sty] q p(1,2) r by (simp add: eq)
  qed
qed

lemma turn_progress:
  assumes "track_turn raw dt = Again dt'"
  shows "dt_pos dt < dt_pos dt' \<and> dt_pos dt' \<le> length raw"
proof (cases "dt_mode dt")
  case Track_search
  then obtain pos syn where f: "dsml_find_tool_start_from raw (dt_pos dt) = Some (pos, syn)" and d: "dt_pos dt' = pos"
    using assms by (auto simp: track_turn_def search_turn_def Let_def split: option.splits)
  then obtain rel where rel: "dt_pos dt \<le> length raw" "pos = dt_pos dt + rel" "dsml_find_tool_start (drop (dt_pos dt) raw) = Some (rel, syn)"
  proof -
    have "dt_pos dt \<le> length raw"
      "map_option (\<lambda>(rel, sty). (dt_pos dt + rel, sty)) (dsml_find_tool_start (drop (dt_pos dt) raw)) = Some (pos, syn)"
      using f by (auto simp: dsml_find_tool_start_from_def split: if_splits)
    then show ?thesis using that by (cases "dsml_find_tool_start (drop (dt_pos dt) raw)") auto
  qed
  then obtain p where p: "rel = p + length (tool_calls_start (dsml_syntaxes syn))" "start_at (drop (dt_pos dt) raw) p syn"
    unfolding find_start_Some by blast
  define l where "l = length (tool_calls_start (dsml_syntaxes syn))"
  have "0 < l" "l \<le> length raw - dt_pos dt - p"
    using prefix_length_le [OF p(2) [unfolded start_at_def]] literals_nonempty(1) [of syn] by (simp_all add: l_def)
  then have "rel \<le> length raw - dt_pos dt" using p(1) by (simp add: l_def [symmetric])
  then show ?thesis using rel(1,2) p(1) d literals_nonempty(1) [of syn] by simp
next
  case Track_structural
  define pos where "pos = skip_ws raw (dt_pos dt)"
  have ge: "dt_pos dt \<le> pos" by (simp add: pos_def skip_ws_def)
  have "pos < dt_pos dt' \<and> dt_pos dt' \<le> length raw"
    using assms Track_structural literals_nonempty(3) [of "dt_syn dt"]
    by (auto simp: track_turn_def structural_turn_def Let_def pos_def [symmetric] full_iff strchr_Some
        split: if_splits option.splits dest!: prefix_length_le)
  then show ?thesis using ge by simp
next
  case Track_string_body
  then show ?thesis using assms literals_nonempty(2) [of "dt_syn dt"]
    by (auto simp: track_turn_def string_turn_def Let_def full_iff split: if_splits dest!: prefix_length_le)
next
  case Track_json_param
  then show ?thesis using assms literals_nonempty(2) [of "dt_syn dt"]
    by (auto simp: track_turn_def json_turn_def json_advance_def Let_def full_iff split: if_splits dest!: prefix_length_le)
next
  case Track_done
  then show ?thesis using assms by (simp add: track_turn_def)
qed

function dsml_decode_tracker_update :: "bytes \<Rightarrow> dsml_decode_tracker \<Rightarrow> dsml_decode_tracker" where
  "dsml_decode_tracker_update raw dt =
     (case track_turn raw dt of Return dt' \<Rightarrow> dt' | Again dt' \<Rightarrow> dsml_decode_tracker_update raw dt')"
  by auto
termination
  by (relation "measure (\<lambda>(raw, dt). length raw - dt_pos dt)") (auto dest!: turn_progress)

declare dsml_decode_tracker_update.simps [simp del]

lemma update_return: "track_turn raw dt = Return r \<Longrightarrow> dsml_decode_tracker_update raw dt = r"
  by (simp add: dsml_decode_tracker_update.simps [of raw dt])

lemma update_again: "track_turn raw dt = Again dt' \<Longrightarrow> dsml_decode_tracker_update raw dt = dsml_decode_tracker_update raw dt'"
  by (subst dsml_decode_tracker_update.simps) simp

section \<open>How the text is cut does not matter\<close>

text \<open>The decision of the last call is not read by the next.\<close>

lemma turn_decode:
  "(\<exists>r. track_turn raw dt = Return r \<and> track_turn raw (dt\<lparr>dt_decode := d\<rparr>) = Return r)
   \<or> (\<exists>dt' d'. track_turn raw dt = Again dt' \<and> track_turn raw (dt\<lparr>dt_decode := d\<rparr>) = Again (dt'\<lparr>dt_decode := d'\<rparr>))"
proof (cases dt)
  case (fields m dc sty p i e)
  show ?thesis
  proof (cases m)
    case Track_search
    then show ?thesis
      by (cases "dsml_find_tool_start_from raw p") (auto simp: fields track_turn_def search_turn_def Let_def)
  next
    case Track_structural
    then show ?thesis by (simp add: fields track_turn_def structural_turn_def Let_def split: option.split)
  next
    case Track_string_body
    then show ?thesis by (simp add: fields track_turn_def string_turn_def Let_def)
  next
    case Track_json_param
    then show ?thesis by (simp add: fields track_turn_def json_turn_def json_advance_def Let_def)
  next
    case Track_done
    then show ?thesis by (simp add: fields track_turn_def)
  qed
qed

lemma decode_irrelevant: "dsml_decode_tracker_update raw (dt\<lparr>dt_decode := d\<rparr>) = dsml_decode_tracker_update raw dt"
proof (induction raw dt arbitrary: d rule: dsml_decode_tracker_update.induct)
  case (1 raw dt)
  from turn_decode [of raw dt d] show ?case
    using "1.IH" by (auto simp: update_return update_again)
qed

lemma full_extend: "raw_full_lit raw pos lit \<Longrightarrow> raw_full_lit (raw @ x) pos lit"
  by (auto simp: full_iff prefix_def)

lemma skip_ws_extend:
  assumes "skip_ws raw pos < length raw"
  shows "skip_ws (raw @ x) pos = skip_ws raw pos"
proof -
  have "pos \<le> length raw" using assms by (simp add: skip_ws_def)
  moreover obtain c where c: "c \<in> set (drop pos raw)" "\<not> is_cspace c"
  proof (rule ccontr)
    assume "\<not> thesis"
    then have "takeWhile is_cspace (drop pos raw) = drop pos raw" using that by (subst takeWhile_eq_all_conv) blast
    then have "pos + (length raw - pos) < length raw" using assms by (simp only: skip_ws_def length_drop)
    then show False by simp
  qed
  ultimately show ?thesis by (simp add: skip_ws_def takeWhile_append1 [where P = is_cspace, OF c])
qed

lemma skip_ws_skip_ws: "pos \<le> length raw \<Longrightarrow> skip_ws (raw @ x) (skip_ws raw pos) = skip_ws (raw @ x) pos"
proof -
  assume p: "pos \<le> length raw"
  let ?t = "takeWhile is_cspace (drop pos raw)"
  have d: "drop pos raw = ?t @ dropWhile is_cspace (drop pos raw)" by simp
  have "drop (length ?t) (drop pos raw) = dropWhile is_cspace (drop pos raw)" by (metis dropWhile_eq_drop)
  then have r: "drop (skip_ws raw pos) raw = dropWhile is_cspace (drop pos raw)" by (simp add: skip_ws_def add.commute)
  have le: "skip_ws raw pos \<le> length raw" using p length_takeWhile_le [of is_cspace "drop pos raw"] by (simp add: skip_ws_def)
  have "takeWhile is_cspace (drop pos raw @ x) = ?t @ takeWhile is_cspace (dropWhile is_cspace (drop pos raw) @ x)"
  proof (cases "dropWhile is_cspace (drop pos raw)")
    case Nil
    then have all: "\<And>c. c \<in> set (drop pos raw) \<Longrightarrow> is_cspace c" by (simp add: dropWhile_eq_Nil_conv)
    have t: "?t = drop pos raw" using Nil d by (metis append_Nil2)
    show ?thesis by (simp only: takeWhile_append2 [OF all] t Nil append_Nil)
  next
    case (Cons c w)
    then have c: "\<not> is_cspace c" "c \<in> set (drop pos raw)"
      using hd_dropWhile [of is_cspace "drop pos raw"] set_dropWhileD [of c is_cspace "drop pos raw"] by auto
    then show ?thesis using Cons by (simp add: takeWhile_append1 [where P = is_cspace, OF c(2,1)])
  qed
  then have "takeWhile is_cspace (drop pos (raw @ x)) = ?t @ takeWhile is_cspace (dropWhile is_cspace (drop pos raw) @ x)"
    using p by simp
  then show "skip_ws (raw @ x) (skip_ws raw pos) = skip_ws (raw @ x) pos"
    using le r p by (simp add: skip_ws_def)
qed

lemma strchr_extend: "strchr s c = Some k \<Longrightarrow> strchr (s @ x) c = Some k"
  by (auto simp: strchr_Some nth_append)

text \<open>At one place no two of the markers that are looked for inside a block can stand.\<close>

lemma literals_apart:
  "\<not> prefix (tool_calls_end (dsml_syntaxes sty)) (invoke_end (dsml_syntaxes sty))"
  "\<not> prefix (invoke_end (dsml_syntaxes sty)) (tool_calls_end (dsml_syntaxes sty))"
  "\<not> prefix (tool_calls_end (dsml_syntaxes sty)) (invoke_start (dsml_syntaxes sty))"
  "\<not> prefix (invoke_start (dsml_syntaxes sty)) (tool_calls_end (dsml_syntaxes sty))"
  "\<not> prefix (tool_calls_end (dsml_syntaxes sty)) (param_start (dsml_syntaxes sty))"
  "\<not> prefix (param_start (dsml_syntaxes sty)) (tool_calls_end (dsml_syntaxes sty))"
  "\<not> prefix (invoke_end (dsml_syntaxes sty)) (invoke_start (dsml_syntaxes sty))"
  "\<not> prefix (invoke_start (dsml_syntaxes sty)) (invoke_end (dsml_syntaxes sty))"
  "\<not> prefix (invoke_end (dsml_syntaxes sty)) (param_start (dsml_syntaxes sty))"
  "\<not> prefix (param_start (dsml_syntaxes sty)) (invoke_end (dsml_syntaxes sty))"
  "\<not> prefix (invoke_start (dsml_syntaxes sty)) (param_start (dsml_syntaxes sty))"
  "\<not> prefix (param_start (dsml_syntaxes sty)) (invoke_start (dsml_syntaxes sty))"
  by (cases sty; simp add: dsml_syntaxes_def dsml_mark_def DS4_DSML_def DS4_DSML_SHORT_def bar_def Let_def)+

lemma full_exclusive:
  assumes "raw_full_lit raw pos a" "\<not> prefix a b" "\<not> prefix b a"
  shows "\<not> raw_full_lit raw pos b"
  using assms prefix_same_cases by (auto simp: full_iff)

text \<open>A marker starts with \<open><\<close> and has no other.\<close>

lemma start_lt:
  "start_at raw p sty \<Longrightarrow> p < length raw \<and> raw ! p = CHR ''<''"
proof -
  assume "start_at raw p sty"
  then obtain z where "drop p raw = CHR ''<'' # z" by (auto simp: start_at_def dsml_syntaxes_def Let_def prefix_def)
  then show ?thesis by (metis drop_all list.distinct(1) not_le nth_Cons_0 hd_drop_conv_nth list.sel(1))
qed

lemma start_inner:
  assumes "0 < k" "k < length (tool_calls_start (dsml_syntaxes sty))"
  shows "tool_calls_start (dsml_syntaxes sty) ! k \<noteq> CHR ''<''"
proof -
  obtain z where z: "tool_calls_start (dsml_syntaxes sty) = CHR ''<'' # z" by (simp add: dsml_syntaxes_def Let_def)
  have "CHR ''<'' \<notin> set (tl (tool_calls_start (dsml_syntaxes sty)))"
    by (cases sty) (simp_all add: dsml_syntaxes_def dsml_mark_def DS4_DSML_def DS4_DSML_SHORT_def bar_def Let_def)
  moreover have "z ! (k - 1) \<in> set z" using assms z by (intro nth_mem) simp
  ultimately show ?thesis using assms(1) z by (auto simp: nth_Cons')
qed

lemma start_extend: "start_at raw p sty \<Longrightarrow> start_at (raw @ x) p sty"
  using start_lt [of raw p sty] by (auto simp: start_at_def prefix_def)

lemma start_shrink:
  assumes "start_at (raw @ x) p sty" "p + length (tool_calls_start (dsml_syntaxes sty)) \<le> length raw"
  shows "start_at raw p sty"
proof -
  have "prefix (tool_calls_start (dsml_syntaxes sty)) (drop p raw @ x)" using assms by (simp add: start_at_def)
  then show ?thesis unfolding start_at_def by (rule prefix_length_prefix) (use assms(2) in auto)
qed

lemma start_no_overlap:
  assumes "start_at raw p sty" "start_at (raw @ x) q sty'" "q < p"
  shows "start_at raw q sty'"
proof (rule start_shrink [OF assms(2)], rule ccontr)
  let ?l = "tool_calls_start (dsml_syntaxes sty')"
  assume "\<not> q + length ?l \<le> length raw"
  then have k: "0 < p - q" "p - q < length ?l" using start_lt [OF assms(1)] assms(3) by auto
  obtain z where "drop q (raw @ x) = ?l @ z" using assms(2) by (auto simp: start_at_def prefix_def)
  then have "?l ! (p - q) = drop q (raw @ x) ! (p - q)" using k by (simp add: nth_append)
  also have "\<dots> = (raw @ x) ! p" using start_lt [OF assms(1)] assms(3) by (subst nth_drop) simp_all
  also have "\<dots> = raw ! p" using start_lt [OF assms(1)] by (simp add: nth_append)
  finally show False using start_inner [OF k] start_lt [OF assms(1)] by simp
qed

end
