(* ===== verification/Dsml_Cut.thy ===== *)
theory Dsml_Cut
  imports Dsml_Tracker
begin

text \<open>
  The tracker is fed with a text that grows by one token at a time.  Here: the way the text is cut
  into tokens does not change what the tracker says, provided that no token ends right after a
  \<open><\<close> (the tracker waits for two bytes of a closing tag before it holds back).
\<close>

definition clean_cut :: "bytes \<Rightarrow> bool" where
  "clean_cut raw \<longleftrightarrow> raw = [] \<or> last raw \<noteq> CHR ''<''"

text \<open>In the search mode the position is never beyond the bytes that are kept for a split marker.\<close>

definition tracker_ok :: "bytes \<Rightarrow> dsml_decode_tracker \<Rightarrow> bool" where
  "tracker_ok raw dt \<longleftrightarrow>
     dt_pos dt \<le> length raw \<and> (dt_mode dt = Track_search \<longrightarrow> dt_pos dt \<le> length raw - dsml_max_tool_start_len)"

lemma pend_shape: "\<exists>c z. param_end (dsml_syntaxes sty) = CHR ''<'' # c # z"
  by (simp add: dsml_syntaxes_def Let_def)

lemma not_full_extend:
  assumes pos: "pos < length raw" and cut: "clean_cut raw"
    and no: "\<not> raw_full_lit raw pos (param_end (dsml_syntaxes sty))"
      "\<not> raw_partial_lit_min raw pos (param_end (dsml_syntaxes sty)) 2"
  shows "\<not> raw_full_lit (raw @ x) pos (param_end (dsml_syntaxes sty))"
    and "\<not> raw_partial_lit_min (raw @ x) pos (param_end (dsml_syntaxes sty)) 2"
proof -
  let ?l = "param_end (dsml_syntaxes sty)"
  have d: "drop pos (raw @ x) = drop pos raw @ x" using pos by simp
  have short: "\<not> (2 \<le> length raw - pos \<and> strict_prefix (drop pos raw) ?l)" "\<not> prefix ?l (drop pos raw)"
    using no pos by (auto simp: full_iff partial_iff)
  have one: False if p: "prefix (drop pos raw) ?l"
  proof -
    have "length raw - pos = 1" using short p pos by (cases "drop pos raw = ?l") auto
    then have l: "pos = length raw - 1" using pos by simp
    obtain c z where "?l = CHR ''<'' # c # z" using pend_shape by blast
    then have "raw ! pos = CHR ''<''" using p pos by (auto simp: Cons_nth_drop_Suc [symmetric])
    then show False using cut l pos last_conv_nth [of raw] by (cases "raw = []") (simp_all add: clean_cut_def)
  qed
  show "\<not> raw_full_lit (raw @ x) pos ?l"
  proof
    assume "raw_full_lit (raw @ x) pos ?l"
    then have "prefix ?l (drop pos raw @ x)" unfolding full_iff d by blast
    moreover have "prefix (drop pos raw) (drop pos raw @ x)" by simp
    ultimately show False using prefix_same_cases short(2) one by blast
  qed
  show "\<not> raw_partial_lit_min (raw @ x) pos ?l 2"
    using one d by (auto simp: partial_iff strict_prefix_def intro: append_prefixD)
qed

lemma start_at_drop: "s \<le> length raw \<Longrightarrow> start_at (drop s raw) p sty = start_at raw (s + p) sty"
  by (simp add: start_at_def add.commute)

lemma tool_start_from_Some:
  "dsml_find_tool_start_from raw s = Some (n, sty) \<longleftrightarrow>
     s \<le> length raw \<and> (\<exists>p \<ge> s. n = p + length (tool_calls_start (dsml_syntaxes sty)) \<and> start_at raw p sty
        \<and> (\<forall>q \<ge> s. \<forall>sty'. start_at raw q sty' \<longrightarrow> p \<le> q))" (is "?l = ?r")
  and tool_start_from_None: "dsml_find_tool_start_from raw s = None \<longleftrightarrow> s > length raw \<or> (\<forall>p \<ge> s. \<forall>sty. \<not> start_at raw p sty)"
proof -
  have inside: "dsml_find_tool_start_from raw s = None \<longleftrightarrow> dsml_find_tool_start (drop s raw) = None" if "s \<le> length raw"
    using that by (simp add: dsml_find_tool_start_from_def)
  show "dsml_find_tool_start_from raw s = None \<longleftrightarrow> s > length raw \<or> (\<forall>p \<ge> s. \<forall>sty. \<not> start_at raw p sty)"
  proof (cases "s \<le> length raw")
    case True
    then show ?thesis
      by (auto simp: inside find_start_None start_at_drop) (metis le_add_diff_inverse)
  qed (simp add: dsml_find_tool_start_from_def)
  show "?l = ?r"
  proof
    assume l: ?l
    then have s: "s \<le> length raw" by (auto simp: dsml_find_tool_start_from_def split: if_splits)
    then obtain rel where rel: "dsml_find_tool_start (drop s raw) = Some (rel, sty)" "n = s + rel"
      using l by (auto simp: dsml_find_tool_start_from_def)
    then obtain p where "rel = p + length (tool_calls_start (dsml_syntaxes sty))" "start_at raw (s + p) sty"
      "\<forall>q sty'. start_at raw (s + q) sty' \<longrightarrow> p \<le> q"
      using s by (auto simp: find_start_Some start_at_drop)
    then show ?r using s rel(2) by (intro conjI exI [of _ "s + p"]) (auto simp: le_iff_add)
  next
    assume r: ?r
    then obtain p where p: "s \<le> p" "n = p + length (tool_calls_start (dsml_syntaxes sty))" "start_at raw p sty"
      "\<forall>q \<ge> s. \<forall>sty'. start_at raw q sty' \<longrightarrow> p \<le> q" and s: "s \<le> length raw" by blast
    have "dsml_find_tool_start (drop s raw) = Some (p - s + length (tool_calls_start (dsml_syntaxes sty)), sty)"
      unfolding find_start_Some using p s
      by (intro exI [of _ "p - s"]) (auto simp: start_at_drop le_diff_conv add.commute)
    then show ?l using s p(1,2) by (simp add: dsml_find_tool_start_from_def)
  qed
qed

section \<open>A step of the short text is a step of the long one\<close>

lemma search_extend:
  assumes "search_turn raw dt = Again dt'"
  shows "search_turn (raw @ x) dt = Again dt'"
proof -
  obtain n sty where f: "dsml_find_tool_start_from raw (dt_pos dt) = Some (n, sty)"
    using assms by (auto simp: search_turn_def Let_def split: option.splits)
  then obtain p where p: "dt_pos dt \<le> p" "n = p + length (tool_calls_start (dsml_syntaxes sty))" "start_at raw p sty"
    "\<forall>q \<ge> dt_pos dt. \<forall>sty'. start_at raw q sty' \<longrightarrow> p \<le> q" "dt_pos dt \<le> length raw"
    unfolding tool_start_from_Some by blast
  have "p \<le> q" if "dt_pos dt \<le> q" "start_at (raw @ x) q sty'" for q sty'
    using p(4) that start_no_overlap [OF p(3) that(2)] by (metis not_le)
  then have "dsml_find_tool_start_from (raw @ x) (dt_pos dt) = Some (n, sty)"
    unfolding tool_start_from_Some using p start_extend [OF p(3)] by auto
  then show ?thesis using assms f by (simp add: search_turn_def)
qed

lemma attr_extend:
  assumes "n \<le> length raw"
  shows "dsml_attr_is_string_true (raw @ x) p n = dsml_attr_is_string_true raw p n"
  using assms by (auto simp: dsml_attr_is_string_true_def get_at_def)

lemma structural_extend:
  assumes "structural_turn raw dt = Again dt'"
  shows "structural_turn (raw @ x) dt = Again dt'"
proof -
  define pos where "pos = skip_ws raw (dt_pos dt)"
  let ?syn = "dsml_syntaxes (dt_syn dt)"
  have p: "pos < length raw" using assms by (auto simp: structural_turn_def Let_def pos_def split: if_splits)
  then have ws: "skip_ws (raw @ x) (dt_pos dt) = pos" using skip_ws_extend by (simp add: pos_def)
  have len: "pos \<le> length raw" "\<not> length raw + length x \<le> pos" "drop pos (raw @ x) = drop pos raw @ x" using p by auto
  have lt: "pos + k + 1 \<le> length raw" if "strchr (drop pos raw) c = Some k" for k c
    using that by (auto simp: strchr_Some)
  consider (invoke_end) "\<not> raw_full_lit raw pos (tool_calls_end ?syn)" "raw_full_lit raw pos (invoke_end ?syn)"
    | (invoke) "\<not> raw_full_lit raw pos (tool_calls_end ?syn)" "\<not> raw_full_lit raw pos (invoke_end ?syn)"
        "raw_full_lit raw pos (invoke_start ?syn)"
    | (param) "\<not> raw_full_lit raw pos (tool_calls_end ?syn)" "\<not> raw_full_lit raw pos (invoke_end ?syn)"
        "\<not> raw_full_lit raw pos (invoke_start ?syn)" "raw_full_lit raw pos (param_start ?syn)"
    using assms p by (auto simp: structural_turn_def Let_def pos_def [symmetric] split: if_splits)
  then show ?thesis
  proof cases
    case invoke_end
    note e = full_extend [OF invoke_end(2), of x]
    show ?thesis using assms p ws invoke_end e full_exclusive [OF e literals_apart(2,1)]
      by (simp add: structural_turn_def Let_def pos_def [symmetric])
  next
    case invoke
    note e = full_extend [OF invoke(3), of x]
    show ?thesis using assms p ws invoke e full_exclusive [OF e literals_apart(4,3)] full_exclusive [OF e literals_apart(8,7)]
      by (cases "strchr (drop pos raw) CHR ''>''")
        (auto simp: structural_turn_def Let_def pos_def [symmetric] len(3) strchr_extend split: if_splits)
  next
    case param
    note e = full_extend [OF param(4), of x]
    show ?thesis
      using assms p ws param e full_exclusive [OF e literals_apart(6,5)] full_exclusive [OF e literals_apart(10,9)]
        full_exclusive [OF e literals_apart(12,11)] attr_extend [of _ raw x pos] lt
      by (cases "strchr (drop pos raw) CHR ''>''")
        (auto simp: structural_turn_def Let_def pos_def [symmetric] len(3) strchr_extend split: if_splits)
  qed
qed

lemma string_extend:
  assumes "string_turn raw dt = Again dt'" "clean_cut raw"
  shows "string_turn (raw @ x) dt = Again dt'"
  using assms not_full_extend [of "dt_pos dt" raw "dt_syn dt" x] full_extend [of raw "dt_pos dt" _ x]
  by (auto simp: string_turn_def Let_def split: if_splits)

lemma json_extend:
  assumes "json_turn raw dt = Again dt'" "clean_cut raw"
  shows "json_turn (raw @ x) dt = Again dt'"
proof -
  have "dt_pos dt < length raw" using assms(1) by (auto simp: json_turn_def Let_def split: if_splits)
  then have "json_advance (raw @ x) dt = json_advance raw dt" by (simp add: json_advance_def Let_def nth_append)
  then show ?thesis
    using assms not_full_extend [of "dt_pos dt" raw "dt_syn dt" x] full_extend [of raw "dt_pos dt" _ x]
    by (auto simp: json_turn_def Let_def split: if_splits)
qed

lemma again_extend:
  assumes "track_turn raw dt = Again dt'" "clean_cut raw"
  shows "track_turn (raw @ x) dt = Again dt'"
  using assms search_extend structural_extend string_extend json_extend
  by (simp add: track_turn_def split: dsml_track_mode.splits)


lemma again_not_search: "track_turn raw dt = Again dt' \<Longrightarrow> dt_mode dt' \<noteq> Track_search"
  by (auto simp: track_turn_def search_turn_def string_turn_def json_turn_def json_advance_def structural_turn_def Let_def
      split: dsml_track_mode.splits option.splits if_splits)

lemma again_ok: "track_turn raw dt = Again dt' \<Longrightarrow> tracker_ok raw dt'"
  using turn_progress again_not_search by (auto simp: tracker_ok_def)

section \<open>Where the short text ends\<close>

text \<open>A call that returns on the short text leaves a state from which the long text is read as before.\<close>

lemma start_len: "length (tool_calls_start (dsml_syntaxes sty)) \<le> dsml_max_tool_start_len"
  by (cases sty) (simp_all add: dsml_max_tool_start_len_def dsml_styles_def dsml_syntaxes_def dsml_mark_def DS4_DSML_def
      DS4_DSML_SHORT_def bar_def Let_def)

lemma search_return:
  assumes "search_turn raw dt = Return r" "dt_mode dt = Track_search" "tracker_ok raw dt"
  shows "dsml_decode_tracker_update (raw @ x) r = dsml_decode_tracker_update (raw @ x) dt"
proof -
  let ?h = dsml_max_tool_start_len
  have none: "dsml_find_tool_start_from raw (dt_pos dt) = None"
    and r: "r = dt\<lparr>dt_pos := length raw - ?h, dt_decode := Outside\<rparr>"
    using assms(1) by (auto simp: search_turn_def Let_def split: option.splits)
  have le: "dt_pos dt \<le> length raw - ?h" using assms(2,3) by (simp add: tracker_ok_def)
  then have no: "\<not> start_at raw p sty" if "dt_pos dt \<le> p" for p sty using none that by (auto simp: tool_start_from_None)
  have later: "length raw - ?h \<le> p" if "dt_pos dt \<le> p" "start_at (raw @ x) p sty" for p sty
    using start_shrink [OF that(2)] no [OF that(1)] start_len [of sty] by fastforce
  have "dsml_find_tool_start_from (raw @ x) (length raw - ?h) = dsml_find_tool_start_from (raw @ x) (dt_pos dt)"
  proof (cases "dsml_find_tool_start_from (raw @ x) (dt_pos dt)")
    case None
    then have "dsml_find_tool_start_from (raw @ x) (length raw - ?h) = None"
      using le by (auto simp: tool_start_from_None)
    then show ?thesis using None by simp
  next
    case (Some r')
    obtain n sty where ns: "r' = (n, sty)" by force
    obtain p where p: "dt_pos dt \<le> p" "n = p + length (tool_calls_start (dsml_syntaxes sty))" "start_at (raw @ x) p sty"
      "\<forall>q \<ge> dt_pos dt. \<forall>sty'. start_at (raw @ x) q sty' \<longrightarrow> p \<le> q"
      using Some unfolding ns tool_start_from_Some by blast
    have "dsml_find_tool_start_from (raw @ x) (length raw - ?h) = Some (n, sty)"
      unfolding tool_start_from_Some using p later [OF p(1,3)] le by auto
    then show ?thesis using Some ns by simp
  qed
  then have "track_turn (raw @ x) (dt\<lparr>dt_pos := length raw - ?h\<rparr>) = track_turn (raw @ x) dt"
    using assms(2) by (cases dt) (simp add: track_turn_def search_turn_def Let_def split: option.split)
  then have "dsml_decode_tracker_update (raw @ x) (dt\<lparr>dt_pos := length raw - ?h\<rparr>) = dsml_decode_tracker_update (raw @ x) dt"
    by (subst (1 2) dsml_decode_tracker_update.simps) simp
  then show ?thesis using decode_irrelevant [where d = Outside and dt = "dt\<lparr>dt_pos := length raw - ?h\<rparr>"] by (simp add: r)
qed

lemma structural_skip:
  assumes "dt_pos dt \<le> length raw" "dt_mode dt = Track_structural"
  shows "dsml_decode_tracker_update (raw @ x) (dt\<lparr>dt_pos := skip_ws raw (dt_pos dt), dt_decode := d\<rparr>)
       = dsml_decode_tracker_update (raw @ x) dt"
proof -
  have "track_turn (raw @ x) (dt\<lparr>dt_pos := skip_ws raw (dt_pos dt)\<rparr>) = track_turn (raw @ x) dt"
    using assms by (cases dt) (simp add: track_turn_def structural_turn_def skip_ws_skip_ws Let_def)
  then have "dsml_decode_tracker_update (raw @ x) (dt\<lparr>dt_pos := skip_ws raw (dt_pos dt)\<rparr>) = dsml_decode_tracker_update (raw @ x) dt"
    by (subst (1 2) dsml_decode_tracker_update.simps) simp
  then show ?thesis using decode_irrelevant [where d = d and dt = "dt\<lparr>dt_pos := skip_ws raw (dt_pos dt)\<rparr>"] by simp
qed

lemma structural_return:
  assumes "structural_turn raw dt = Return r" "dt_mode dt = Track_structural" "dt_pos dt \<le> length raw"
  shows "dsml_decode_tracker_update (raw @ x) r = dsml_decode_tracker_update (raw @ x) dt"
proof (cases "skip_ws raw (dt_pos dt) < length raw \<and> raw_full_lit raw (skip_ws raw (dt_pos dt)) (tool_calls_end (dsml_syntaxes (dt_syn dt)))")
  case True
  then have "structural_turn (raw @ x) dt = Return r" "dt_mode r = Track_done" "dt_decode r = Outside"
    using assms(1) full_extend [of raw _ _ x] by (auto simp: structural_turn_def Let_def skip_ws_extend)
  then show ?thesis using assms(2) by (simp add: update_return track_turn_def)
next
  case False
  then have "r = dt\<lparr>dt_pos := skip_ws raw (dt_pos dt), dt_decode := Structural\<rparr>"
    using assms(1) by (auto simp: structural_turn_def Let_def split: if_splits option.splits)
  then show ?thesis using structural_skip [OF assms(3,2)] by simp
qed

lemma return_extend:
  assumes "track_turn raw dt = Return r" "tracker_ok raw dt"
  shows "dsml_decode_tracker_update (raw @ x) r = dsml_decode_tracker_update (raw @ x) dt"
proof (cases "dt_mode dt")
  case Track_search
  then show ?thesis using assms search_return by (simp add: track_turn_def)
next
  case Track_structural
  then show ?thesis using assms structural_return by (simp add: track_turn_def tracker_ok_def)
next
  case Track_string_body
  then show ?thesis using assms(1) by (auto simp: track_turn_def string_turn_def Let_def decode_irrelevant split: if_splits)
next
  case Track_json_param
  then show ?thesis using assms(1) by (auto simp: track_turn_def json_turn_def Let_def decode_irrelevant split: if_splits)
next
  case Track_done
  then show ?thesis using assms(1) by (auto simp: track_turn_def decode_irrelevant)
qed

lemma update_append:
  assumes "clean_cut raw" "tracker_ok raw dt"
  shows "dsml_decode_tracker_update (raw @ x) (dsml_decode_tracker_update raw dt) = dsml_decode_tracker_update (raw @ x) dt"
  using assms
proof (induction raw dt rule: dsml_decode_tracker_update.induct)
  case (1 raw dt)
  show ?case
  proof (cases "track_turn raw dt")
    case (Return r)
    then show ?thesis using return_extend [OF Return "1.prems"(2)] by (simp add: update_return)
  next
    case (Again dt')
    then show ?thesis
      using "1.IH" [OF Again "1.prems"(1) again_ok [OF Again]] again_extend [OF Again "1.prems"(1)]
      by (simp add: update_again)
  qed
qed

lemma update_ok:
  assumes "tracker_ok raw dt"
  shows "tracker_ok raw (dsml_decode_tracker_update raw dt)"
  using assms
proof (induction raw dt rule: dsml_decode_tracker_update.induct)
  case (1 raw dt)
  show ?case
  proof (cases "track_turn raw dt")
    case (Return r)
    have "dt_pos r \<le> length raw"
      using Return "1.prems" length_takeWhile_le [of is_cspace "drop (dt_pos dt) raw"]
      by (auto simp: track_turn_def search_turn_def string_turn_def json_turn_def structural_turn_def Let_def tracker_ok_def
          skip_ws_def full_iff split: dsml_track_mode.splits option.splits if_splits dest!: prefix_length_le)
    moreover have "dt_mode r = Track_search \<longrightarrow> dt_pos r \<le> length raw - dsml_max_tool_start_len"
      using Return
      by (auto simp: track_turn_def search_turn_def string_turn_def json_turn_def structural_turn_def Let_def
          split: dsml_track_mode.splits option.splits if_splits)
    ultimately show ?thesis using Return by (simp add: tracker_ok_def update_return)
  next
    case (Again dt')
    then show ?thesis using "1.IH" [OF Again again_ok [OF Again]] by (simp add: update_again)
  qed
qed

section \<open>A whole generation\<close>

text \<open>The decode loop appends the text of each token and calls the tracker on everything so far.\<close>

fun track_pieces :: "bytes \<Rightarrow> dsml_decode_tracker \<Rightarrow> bytes list \<Rightarrow> dsml_decode_tracker" where
  "track_pieces raw dt [] = dt"
| "track_pieces raw dt (piece # pieces) =
     track_pieces (raw @ piece) (dsml_decode_tracker_update (raw @ piece) dt) pieces"

lemma ok_extend: "tracker_ok raw dt \<Longrightarrow> tracker_ok (raw @ x) dt"
  by (auto simp: tracker_ok_def)

lemma clean_append: "clean_cut raw \<Longrightarrow> clean_cut x \<Longrightarrow> clean_cut (raw @ x)"
  by (cases "x = []") (auto simp: clean_cut_def last_append)

lemma track_pieces_one:
  assumes "\<forall>p \<in> set (butlast pieces). clean_cut p" "clean_cut raw" "tracker_ok raw dt" "pieces \<noteq> []"
  shows "track_pieces raw dt pieces = dsml_decode_tracker_update (raw @ concat pieces) dt"
  using assms
proof (induction raw dt pieces rule: track_pieces.induct)
  case (2 raw dt piece pieces)
  show ?case
  proof (cases "pieces = []")
    case False
    have "clean_cut (raw @ piece)" using 2 False by (simp add: clean_append)
    then show ?thesis
      using 2 False update_append [of "raw @ piece" dt "concat pieces"] update_ok ok_extend by auto
  qed simp
qed simp

text \<open>C23. Feeding the recognizer of tool calls with the pieces of a generation, one call per token on
  the text so far, gives the same state as one call on the whole text, whatever the tokens are, as
  long as no token but the last ends in \<open><\<close>: the position, the mode and the answer never
  depend on where the text was cut, be it inside a start marker, a tag, white space or a value.\<close>

theorem tracker_ignores_cuts:
  assumes "\<forall>p \<in> set (butlast pieces). clean_cut p" "pieces \<noteq> []"
  shows "track_pieces [] dsml_decode_tracker_init pieces
       = dsml_decode_tracker_update (concat pieces) dsml_decode_tracker_init"
  using assms track_pieces_one [of pieces "[]" dsml_decode_tracker_init]
  by (simp add: clean_cut_def tracker_ok_def dsml_decode_tracker_init_def)

end
