(* ===== verification/Dsml_Stream.thy ===== *)
theory Dsml_Stream
  imports Dsml_Cut
begin

text \<open>
  While a text with tools is generated, only the part before a tool block is streamed.  Here: whatever
  \<open>text_stream_safe_limit\<close> releases stays outside of every block that the rest of the text completes.
\<close>

lemma earliest_fold:
  fixes cands :: "nat option list"
  shows "fold (\<lambda>c best. case c of None \<Rightarrow> best
        | Some i \<Rightarrow> (case best of None \<Rightarrow> Some i | Some b \<Rightarrow> if i < b then Some i else best)) cands best = r \<Longrightarrow>
   (r = None \<longleftrightarrow> best = None \<and> (\<forall>c \<in> set cands. c = None))
   \<and> (\<forall>i. r = Some i \<longrightarrow> (best = Some i \<or> Some i \<in> set cands) \<and> (\<forall>j. best = Some j \<or> Some j \<in> set cands \<longrightarrow> i \<le> j))"
proof (induction cands arbitrary: best)
  case (Cons c cands)
  show ?case
  proof (cases c)
    case None
    then show ?thesis using Cons.IH [of best] Cons.prems by auto
  next
    case (Some i)
    let ?best = "case best of None \<Rightarrow> Some i | Some b \<Rightarrow> if i < b then Some i else best"
    have b: "\<exists>b'. ?best = Some b' \<and> b' \<le> i \<and> (\<forall>b. best = Some b \<longrightarrow> b' \<le> b) \<and> (b' = i \<or> best = Some b')"
      by (cases best) auto
    then obtain b' where b': "?best = Some b'" "b' \<le> i" "\<forall>b. best = Some b \<longrightarrow> b' \<le> b" "b' = i \<or> best = Some b'" by blast
    have "fold (\<lambda>c best. case c of None \<Rightarrow> best
        | Some i \<Rightarrow> (case best of None \<Rightarrow> Some i | Some b \<Rightarrow> if i < b then Some i else best)) cands (Some b') = r"
      using Cons.prems Some b'(1) by simp
    from Cons.IH [OF this] show ?thesis using Some b'(2-4) by (cases r) (auto intro: order_trans)
  qed
qed auto

lemma earliest_Some: "earliest cands = Some i \<longleftrightarrow> Some i \<in> set cands \<and> (\<forall>j. Some j \<in> set cands \<longrightarrow> i \<le> j)"
  and earliest_None: "earliest cands = None \<longleftrightarrow> (\<forall>c \<in> set cands. c = None)"
proof -
  note e = earliest_fold [where best = None and cands = cands, OF earliest_def [symmetric]]
  show none: "earliest cands = None \<longleftrightarrow> (\<forall>c \<in> set cands. c = None)" using e by simp
  show "earliest cands = Some i \<longleftrightarrow> Some i \<in> set cands \<and> (\<forall>j. Some j \<in> set cands \<longrightarrow> i \<le> j)"
  proof
    assume r: "Some i \<in> set cands \<and> (\<forall>j. Some j \<in> set cands \<longrightarrow> i \<le> j)"
    then obtain k where k: "earliest cands = Some k" using none by (cases "earliest cands") auto
    then have "Some k \<in> set cands" "k \<le> i" using e r by auto
    then show "earliest cands = Some i" using r k by force
  qed (use e in auto)
qed

lemma strstr_start:
  "strstr s (tool_calls_start (dsml_syntaxes sty)) = Some i \<longleftrightarrow> start_at s i sty \<and> (\<forall>j < i. \<not> start_at s j sty)"
  "strstr s (tool_calls_start (dsml_syntaxes sty)) = None \<longleftrightarrow> (\<forall>j. \<not> start_at s j sty)"
proof -
  show "strstr s (tool_calls_start (dsml_syntaxes sty)) = Some i \<longleftrightarrow> start_at s i sty \<and> (\<forall>j < i. \<not> start_at s j sty)"
    unfolding strstr_def strstr_Some start_at_def [symmetric] by (auto dest: start_lt)
  show "strstr s (tool_calls_start (dsml_syntaxes sty)) = None \<longleftrightarrow> (\<forall>j. \<not> start_at s j sty)"
    unfolding strstr_def strstr_None start_at_def [symmetric] using start_lt less_imp_le by blast
qed

lemma any_start_Some:
  "find_any_tool_start s = Some i \<longleftrightarrow> (\<exists>sty. start_at s i sty) \<and> (\<forall>q sty. start_at s q sty \<longrightarrow> i \<le> q)"
  and any_start_None: "find_any_tool_start s = None \<longleftrightarrow> (\<forall>q sty. \<not> start_at s q sty)"
proof -
  let ?c = "map (\<lambda>sty. strstr s (tool_calls_start (dsml_syntaxes sty))) dsml_styles"
  have c: "Some j \<in> set ?c \<longleftrightarrow> (\<exists>sty. start_at s j sty \<and> (\<forall>k < j. \<not> start_at s k sty))" for j
  proof -
    have "Some j \<in> set ?c \<longleftrightarrow> (\<exists>sty. strstr s (tool_calls_start (dsml_syntaxes sty)) = Some j)"
      unfolding set_map set_styles image_iff bex_UNIV by (subst eq_commute) (rule refl)
    then show ?thesis unfolding strstr_start(1) .
  qed
  have least: "\<exists>j \<le> q. start_at s j sty \<and> (\<forall>k < j. \<not> start_at s k sty)" if "start_at s q sty" for q sty
    using LeastI [of "\<lambda>j. start_at s j sty", OF that] Least_le [of "\<lambda>j. start_at s j sty", OF that]
      not_less_Least [of _ "\<lambda>j. start_at s j sty"] by blast
  show "find_any_tool_start s = Some i \<longleftrightarrow> (\<exists>sty. start_at s i sty) \<and> (\<forall>q sty. start_at s q sty \<longrightarrow> i \<le> q)"
    unfolding find_any_tool_start_def earliest_Some c
  proof
    assume "(\<exists>sty. start_at s i sty \<and> (\<forall>k < i. \<not> start_at s k sty))
      \<and> (\<forall>j. (\<exists>sty. start_at s j sty \<and> (\<forall>k < j. \<not> start_at s k sty)) \<longrightarrow> i \<le> j)"
    then show "(\<exists>sty. start_at s i sty) \<and> (\<forall>q sty. start_at s q sty \<longrightarrow> i \<le> q)"
      using least by (blast intro: le_trans)
  next
    assume "(\<exists>sty. start_at s i sty) \<and> (\<forall>q sty. start_at s q sty \<longrightarrow> i \<le> q)"
    then show "(\<exists>sty. start_at s i sty \<and> (\<forall>k < i. \<not> start_at s k sty))
      \<and> (\<forall>j. (\<exists>sty. start_at s j sty \<and> (\<forall>k < j. \<not> start_at s k sty)) \<longrightarrow> i \<le> j)"
      by (auto simp: not_less [symmetric])
  qed
  show "find_any_tool_start s = None \<longleftrightarrow> (\<forall>q sty. \<not> start_at s q sty)"
    unfolding find_any_tool_start_def earliest_None by (simp add: strstr_start(2)) blast
qed

section \<open>Trimming\<close>

definition trim_stop :: "bytes \<Rightarrow> nat \<Rightarrow> nat \<Rightarrow> bool" where
  "trim_stop raw start k \<longleftrightarrow> k \<le> start \<or> \<not> is_cspace (raw ! (k - 1))"

lemma trim_props:
  "trim_tool_separator_ws raw start n \<le> n \<and> trim_stop raw start (trim_tool_separator_ws raw start n)
   \<and> (\<forall>k \<le> n. trim_stop raw start k \<longrightarrow> k \<le> trim_tool_separator_ws raw start n \<or> k \<le> start)"
  by (induction n) (auto simp: trim_stop_def le_Suc_eq)


lemma utf8_back_le: "utf8_back s start p cont \<le> p"
  by (induction s start p cont rule: utf8_back.induct) (auto intro: le_SucI)

lemma utf8_safe_le: "utf8_stream_safe_len s start limit final \<le> limit"
  using utf8_back_le [of s start limit 0] by (auto simp: utf8_stream_safe_len_def Let_def)

lemma trim_mono:
  assumes "n \<le> m" "start \<le> m" "\<And>k. k < n \<Longrightarrow> raw ! k = raw' ! k"
  shows "trim_tool_separator_ws raw start n \<le> max start (trim_tool_separator_ws raw' start m)"
proof -
  let ?k = "trim_tool_separator_ws raw start n"
  have k: "?k \<le> n" "trim_stop raw start ?k" using trim_props by blast+
  have "trim_stop raw' start ?k" using k assms(3) [of "?k - 1"] by (cases "?k") (auto simp: trim_stop_def)
  then have "?k \<le> trim_tool_separator_ws raw' start m \<or> ?k \<le> start" using trim_props [of raw' start m] k(1) assms(1) by simp
  then show ?thesis by auto
qed

lemma trim_ge: "start \<le> m \<Longrightarrow> start \<le> trim_tool_separator_ws raw start m"
  by (induction m) (auto simp: le_Suc_eq)

lemma find_later: "find P xs = None \<Longrightarrow> find P (xs @ ys) = find P ys"
  by (induction xs) (auto split: if_splits)

lemma find_last_bound:
  assumes "find P (rev [a..<b]) = r" "P m" "a \<le> m" "m < b" "\<forall>j. m < j \<and> j < b \<longrightarrow> \<not> P j"
  shows "r = Some m"
proof -
  have "[a..<b] = [a..<m] @ m # [Suc m..<b]" using assms(3,4) by (metis le_add_diff_inverse less_imp_le upt_add_eq_append upt_conv_Cons)
  then have "rev [a..<b] = rev [Suc m..<b] @ m # rev [a..<m]" by simp
  moreover have "find P (rev [Suc m..<b]) = None" using assms(5) by (auto simp: find_None_iff)
  ultimately show ?thesis using assms(1,2) find_later [of P "rev [Suc m..<b]"] by simp
qed

text \<open>A start marker that the text cuts is the last thing with a \<open><\<close>.\<close>

lemma cut_marker:
  assumes "start_at (raw @ x) m sty" "m < length raw" "\<not> start_at raw m sty"
  shows "raw ! m = CHR ''<''" "\<forall>j. m < j \<and> j < length raw \<longrightarrow> raw ! j \<noteq> CHR ''<''" "length raw - m < 80"
proof -
  let ?l = "tool_calls_start (dsml_syntaxes sty)"
  show "raw ! m = CHR ''<''" using start_lt [OF assms(1)] assms(2) by (simp add: nth_append)
  have short: "length raw < m + length ?l" using start_shrink [OF assms(1)] assms(3) by (meson not_le)
  show "length raw - m < 80"
    using short start_len [of sty]
    by (simp add: dsml_max_tool_start_len_def dsml_styles_def dsml_syntaxes_def dsml_mark_def Let_def DS4_DSML_def DS4_DSML_SHORT_def bar_def)
  show "\<forall>j. m < j \<and> j < length raw \<longrightarrow> raw ! j \<noteq> CHR ''<''"
  proof (intro allI impI)
    fix j assume j: "m < j \<and> j < length raw"
    have k: "j - m < length ?l" using j short by linarith
    obtain z where "drop m (raw @ x) = ?l @ z" using assms(1) by (auto simp: start_at_def prefix_def)
    then have "drop m (raw @ x) ! (j - m) = (?l @ z) ! (j - m)" by (simp only:)
    also have "\<dots> = ?l ! (j - m)" using k by (simp add: nth_append)
    finally have "?l ! (j - m) = drop m (raw @ x) ! (j - m)" by simp
    also have "\<dots> = (raw @ x) ! j" using j by (subst nth_drop) simp_all
    also have "\<dots> = raw ! j" using j by (simp add: nth_append)
    finally show "raw ! j \<noteq> CHR ''<''" using start_inner [of "j - m" sty] j k by simp
  qed
qed

text \<open>C25. What is streamed of a text with tools never touches a tool block: whatever the rest of the
  generation is, the bytes released so far end before the first start marker that the whole text
  then has, and before the white space in front of it.  So a marker is held back even while it is
  cut at any of its bytes, in each of its three spellings.\<close>

theorem streamed_text_hides_tool_block:
  assumes "start \<le> length raw" "find_any_tool_start (drop start (raw @ x)) = Some tool"
  shows "text_stream_safe_limit raw start (length raw) True False
       \<le> trim_tool_separator_ws (raw @ x) start (start + tool)"
proof -
  let ?txt = "raw @ x" let ?m = "start + tool"
  let ?r = "trim_tool_separator_ws ?txt start ?m"
  have d: "drop start ?txt = drop start raw @ x" using assms(1) by simp
  have at: "start_at (drop start ?txt) p sty = start_at ?txt (start + p) sty" for p sty
    using start_at_drop [of start ?txt] assms(1) by simp
  have first: "(\<exists>sty. start_at ?txt ?m sty) \<and> (\<forall>q sty. start_at ?txt (start + q) sty \<longrightarrow> tool \<le> q)"
    using assms(2) unfolding any_start_Some at .
  then obtain sty where sty1: "start_at ?txt ?m sty" by blast
  have sty2: "?m \<le> q" if "start \<le> q" "start_at ?txt q sty'" for q sty'
    using first that by (metis le_add_diff_inverse nat_add_left_cancel_le)
  have ge: "start \<le> ?r" by (rule trim_ge) simp
  have bound: "trim_tool_separator_ws raw start n \<le> ?r" if "n \<le> ?m" "n \<le> length raw" for n
    using trim_mono [of n ?m start raw ?txt] that ge by (simp add: nth_append max_def split: if_splits)
  show ?thesis
  proof (cases "length raw \<le> start")
    case True
    then show ?thesis using ge assms(1) by (simp add: text_stream_safe_limit_def)
  next
    case len: False
    show ?thesis
    proof (cases "find_any_tool_start (drop start raw)")
      case (Some t)
      then obtain sty' where t: "start_at raw (start + t) sty'"
        using start_at_drop [OF assms(1)] unfolding any_start_Some by blast
      then have "?m \<le> start + t" "start + t < length raw" using sty2 [OF _ start_extend [OF t]] start_lt [OF t] by simp_all
      moreover have "\<not> ?m < start + t"
      proof
        assume lt: "?m < start + t"
        then have "start_at raw ?m sty" using start_no_overlap [OF t sty1] by simp
        then have "start_at (drop start raw) tool sty" using start_at_drop [OF assms(1)] by blast
        then show False using Some lt unfolding any_start_Some by fastforce
      qed
      ultimately have "start + t = ?m" "start + t \<le> length raw" by simp_all
      then show ?thesis using len Some bound [of "start + t"]
        by (simp add: text_stream_safe_limit_def utf8_stream_safe_len_def)
    next
      case None
      define l1 where "l1 = trim_tool_separator_ws raw start (length raw)"
      define scan where "scan = (if length raw - start > 80 then length raw - 80 else start)"
      define l2 where "l2 = (case last_lt raw scan (length raw) of Some marker \<Rightarrow> if marker < l1 then marker else l1 | None \<Rightarrow> l1)"
      have l: "text_stream_safe_limit raw start (length raw) True False
          = utf8_stream_safe_len raw start (trim_tool_separator_ws raw start l2) False"
        using len None unfolding l2_def l1_def scan_def text_stream_safe_limit_def Let_def by simp
      have l1: "l1 \<le> length raw" using trim_props unfolding l1_def by blast
      have l2: "l2 \<le> l1" by (auto simp: l2_def split: option.splits)
      have "l2 \<le> ?m"
      proof (cases "length raw \<le> ?m")
        case True
        then show ?thesis using l1 l2 by simp
      next
        case False
        then have m: "?m < length raw" by simp
        have "\<not> start_at raw ?m sty"
          using None start_at_drop [OF assms(1), of tool sty] unfolding any_start_None by blast
        note c = cut_marker [OF sty1 m this]
        have "last_lt raw scan (length raw) = Some ?m"
          unfolding last_lt_def by (rule find_last_bound [OF refl]) (use c m in \<open>auto simp: scan_def\<close>)
        then show ?thesis by (simp add: l2_def)
      qed
      then show ?thesis using l bound [of l2] l1 l2 utf8_safe_le [of raw start "trim_tool_separator_ws raw start l2" False] by simp
    qed
  qed
qed

end
