(* ===== verification/Dsml_Calls.thy ===== *)
theory Dsml_Calls
  imports Dsml_Cut
begin

text \<open>
  Tool calls as data and as text (\<open>src/ds4_server.c\<close>): the arguments of a call as JSON members, the
  markup the prompt renderer writes for a call, and the JSON the clients are sent.  A pointer that
  the code allows to be NULL is an option; an appended buffer is the returned text.
\<close>

record tool_call =
  tc_id :: "bytes option"
  tc_name :: "bytes option"
  tc_arguments :: "bytes option"

record tool_calls =
  calls_v :: "tool_call list"
  raw_dsml :: "bytes option"

definition no_calls :: tool_calls where
  "no_calls = \<lparr>calls_v = [], raw_dsml = None\<rparr>"

definition tool_calls_push :: "tool_calls \<Rightarrow> tool_call \<Rightarrow> tool_calls" where
  "tool_calls_push calls tc = calls\<lparr>calls_v := calls_v calls @ [tc]\<rparr>"

definition or_empty :: "bytes option \<Rightarrow> bytes" where
  "or_empty s = (case s of None \<Rightarrow> [] | Some t \<Rightarrow> t)"

section \<open>The arguments of a call\<close>

record json_arg =
  arg_key :: bytes
  arg_value :: bytes
  arg_is_string :: bool
  arg_used :: bool

definition json_args_push :: "json_arg list \<Rightarrow> json_arg \<Rightarrow> json_arg list" where
  "json_args_push args arg = args @ [arg]"

definition json_args_find_unused :: "json_arg list \<Rightarrow> bytes \<Rightarrow> nat option" where
  "json_args_find_unused args key = find (\<lambda>i. \<not> arg_used (args ! i) \<and> arg_key (args ! i) = key) [0..<length args]"

text \<open>The value after the colon: a string, or the minified text of any other value.\<close>

definition json_arg_value :: "bytes \<Rightarrow> ((bytes \<times> bool) \<times> bytes) option" where
  "json_arg_value s =
     (if take 1 s = [CHR 0x22] then
        (case json_string s of None \<Rightarrow> None | Some (v, r) \<Rightarrow> Some ((c_str v, True), r))
      else
        (case json_raw_value s of None \<Rightarrow> None
         | Some (raw, r) \<Rightarrow> Some ((json_minify_raw_value (Some raw), False), r)))"

lemma json_arg_value_strict: "json_arg_value s = Some (v, r) \<Longrightarrow> strict_suffix r s"
  using json_string_strict json_skip_value_strict strict_ws
  by (auto simp: json_arg_value_def json_raw_value_def Let_def split: if_splits option.splits prod.splits)

text \<open>A key with the byte NUL ends there, as everywhere the key is read as a C string.\<close>

function json_args_members :: "json_arg list \<Rightarrow> bytes \<Rightarrow> json_arg list option" where
  "json_args_members args s =
     (case s of [] \<Rightarrow> None
      | c # s' \<Rightarrow>
          if c = CHR ''}'' then Some args
          else case json_string s of None \<Rightarrow> None
          | Some (key, r) \<Rightarrow>
              (case json_ws r of [] \<Rightarrow> None
               | d # r' \<Rightarrow>
                   if d \<noteq> CHR '':'' then None
                   else case json_arg_value (json_ws r') of None \<Rightarrow> None
                   | Some ((value, is_string), r'') \<Rightarrow>
                       json_args_members
                         (json_args_push args \<lparr>arg_key = c_str key, arg_value = value, arg_is_string = is_string,
                                               arg_used = False\<rparr>)
                         (after_comma r'')))"
  by auto
termination
  by (relation "measure (length \<circ> snd)")
    (auto dest!: json_string_strict strict_ws [OF json_arg_value_strict] intro: member_shorter [THEN less_le_trans])

declare json_args_members.simps [simp del]

definition json_args_parse :: "bytes option \<Rightarrow> json_arg list option" where
  "json_args_parse json =
     (case json_ws (or_empty json) of
        c # s \<Rightarrow> if c = CHR ''{'' then json_args_members [] (json_ws s) else None
      | [] \<Rightarrow> None)"

section \<open>The markup of a call\<close>

definition attr_entity :: "char \<Rightarrow> bytes" where
  "attr_entity c =
     (if c = CHR ''&'' then ''&amp;'' else if c = CHR ''<'' then ''&lt;''
      else if c = CHR ''>'' then ''&gt;'' else if c = CHR 0x22 then ''&quot;'' else [c])"

definition append_dsml_attr_escaped :: "bytes option \<Rightarrow> bytes" where
  "append_dsml_attr_escaped s = concat (map attr_entity (or_empty s))"

text \<open>The loop the next three share: wherever the text \<open>closing\<close> starts, its first byte is replaced.\<close>

fun protect_closing :: "bytes \<Rightarrow> bytes \<Rightarrow> bytes \<Rightarrow> bytes" where
  "protect_closing closing rep [] = []"
| "protect_closing closing rep (c # s) =
     (if prefix closing (c # s) then rep @ protect_closing closing rep s else c # protect_closing closing rep s)"

definition append_dsml_parameter_text :: "bytes option \<Rightarrow> bytes" where
  "append_dsml_parameter_text s = protect_closing (''</'' @ DS4_DSML @ ''parameter>'') ''&lt;'' (or_empty s)"

definition append_tool_result_text :: "bytes option \<Rightarrow> bytes" where
  "append_tool_result_text s = protect_closing ''</tool_result>'' ''&lt;'' (or_empty s)"

definition append_dsml_json_literal :: "bytes option \<Rightarrow> bytes" where
  "append_dsml_json_literal s = protect_closing (''</'' @ DS4_DSML @ ''parameter>'') (CHR 0x5c # ''u003c'') (or_empty s)"

definition quoted :: "bytes \<Rightarrow> bytes" where "quoted s = CHR 0x22 # s @ [CHR 0x22]"

definition append_dsml_arg :: "json_arg \<Rightarrow> bytes" where
  "append_dsml_arg arg =
     ''<'' @ DS4_DSML @ ''parameter name='' @ quoted (append_dsml_attr_escaped (Some (arg_key arg)))
     @ '' string='' @ quoted (if arg_is_string arg then ''true'' else ''false'') @ ''>''
     @ (if arg_is_string arg then append_dsml_parameter_text (Some (arg_value arg))
        else append_dsml_json_literal (Some (arg_value arg)))
     @ ''</'' @ DS4_DSML @ ''parameter>'' @ [CHR 0x0a]"

text \<open>With a schema order the members that it names come first, each once.\<close>

fun ordered_args :: "json_arg list \<Rightarrow> bytes list \<Rightarrow> bytes \<times> json_arg list" where
  "ordered_args args [] = ([], args)"
| "ordered_args args (prop # props) =
     (case json_args_find_unused args prop of
        None \<Rightarrow> ordered_args args props
      | Some idx \<Rightarrow>
          (case ordered_args (args[idx := (args ! idx)\<lparr>arg_used := True\<rparr>]) props of
             (b, args') \<Rightarrow> (append_dsml_arg (args ! idx) @ b, args')))"

definition append_dsml_arguments_from_json :: "bytes option \<Rightarrow> bytes list option \<Rightarrow> bytes option" where
  "append_dsml_arguments_from_json json order =
     (case json_args_parse json of None \<Rightarrow> None
      | Some args \<Rightarrow>
          (case (case order of None \<Rightarrow> ([], args) | Some props \<Rightarrow> ordered_args args props) of
             (b, args) \<Rightarrow> Some (b @ concat (map append_dsml_arg (filter (\<lambda>a. \<not> arg_used a) args)))))"

definition append_dsml_call :: "tool_call \<Rightarrow> bytes" where
  "append_dsml_call tc =
     ''<'' @ DS4_DSML @ ''invoke name='' @ quoted (append_dsml_attr_escaped (tc_name tc)) @ ''>'' @ [CHR 0x0a]
     @ (case append_dsml_arguments_from_json (tc_arguments tc) None of
          Some b \<Rightarrow> b
        | None \<Rightarrow>
            ''<'' @ DS4_DSML @ ''parameter name='' @ quoted ''arguments'' @ '' string='' @ quoted ''true'' @ ''>''
            @ append_dsml_parameter_text (tc_arguments tc) @ ''</'' @ DS4_DSML @ ''parameter>'' @ [CHR 0x0a])
     @ ''</'' @ DS4_DSML @ ''invoke>'' @ [CHR 0x0a]"

definition append_dsml_tool_calls_text :: "tool_calls \<Rightarrow> bytes" where
  "append_dsml_tool_calls_text calls =
     (if calls_v calls = [] then []
      else if or_empty (raw_dsml calls) \<noteq> [] then or_empty (raw_dsml calls)
      else [CHR 0x0a, CHR 0x0a] @ ''<'' @ DS4_DSML @ ''tool_calls>'' @ [CHR 0x0a]
        @ concat (map append_dsml_call (calls_v calls)) @ ''</'' @ DS4_DSML @ ''tool_calls>'')"

section \<open>The JSON of a call\<close>

definition append_json_arg_pair :: "json_arg \<Rightarrow> bytes" where
  "append_json_arg_pair arg =
     json_escape (arg_key arg) @ '':'' @ (if arg_is_string arg then json_escape (arg_value arg) else arg_value arg)"

fun comma_separated :: "bytes list \<Rightarrow> bytes" where
  "comma_separated [] = []"
| "comma_separated [x] = x"
| "comma_separated (x # y # zs) = x @ '','' @ comma_separated (y # zs)"

definition append_json_object_or_empty :: "bytes option \<Rightarrow> bytes" where
  "append_json_object_or_empty json =
     (case json_args_parse json of None \<Rightarrow> ''{}''
      | Some args \<Rightarrow> ''{'' @ comma_separated (map append_json_arg_pair args) @ ''}'')"

definition append_json_object_string :: "bytes option \<Rightarrow> bytes" where
  "append_json_object_string json = json_escape (append_json_object_or_empty json)"

text \<open>The decimal digits that \<open>%d\<close> prints for a non-negative number.\<close>

fun print_d :: "nat \<Rightarrow> bytes" where
  "print_d n = (if n < 10 then [char_of (48 + n)] else print_d (n div 10) @ [char_of (48 + n mod 10)])"

declare print_d.simps [simp del]

text \<open>\<open>idbuf\<close> holds 127 bytes.\<close>

definition call_id_or :: "bytes \<Rightarrow> nat \<Rightarrow> tool_call \<Rightarrow> bytes" where
  "call_id_or id_prefix i tc =
     (case tc_id tc of Some id' \<Rightarrow> id' | None \<Rightarrow> take 127 (id_prefix @ ''_tool_'' @ print_d i))"

definition call_function_json :: "bytes \<Rightarrow> nat \<Rightarrow> tool_call \<Rightarrow> bytes" where
  "call_function_json id_prefix i tc =
     quoted ''id'' @ '':'' @ json_escape (call_id_or id_prefix i tc)
     @ '','' @ quoted ''type'' @ '':'' @ quoted ''function'' @ '','' @ quoted ''function'' @ '':{'' @ quoted ''name'' @ '':''
     @ json_escape (or_empty (tc_name tc)) @ '','' @ quoted ''arguments'' @ '':'' @ append_json_object_string (tc_arguments tc) @ ''}}''"

definition append_tool_calls_json :: "tool_calls \<Rightarrow> bytes \<Rightarrow> bytes" where
  "append_tool_calls_json calls id_prefix =
     ''['' @ comma_separated (map (\<lambda>(i, tc). ''{'' @ call_function_json id_prefix i tc) (enumerate 0 (calls_v calls))) @ '']''"

definition append_tool_call_deltas_json :: "tool_calls \<Rightarrow> bytes \<Rightarrow> bytes" where
  "append_tool_call_deltas_json calls id_prefix =
     ''['' @ comma_separated (map (\<lambda>(i, tc). ''{'' @ quoted ''index'' @ '':'' @ print_d i @ '','' @ call_function_json id_prefix i tc)
        (enumerate 0 (calls_v calls))) @ '']''"

section \<open>Entities\<close>

text \<open>\<open>entity_free s\<close>: none of the five entities occurs in \<open>s\<close>.\<close>

definition entity_at :: "bytes \<Rightarrow> (bytes \<times> char) option" where
  "entity_at s = find (\<lambda>(ent, _). prefix ent s) dsml_entities"

fun entity_free :: "bytes \<Rightarrow> bool" where
  "entity_free [] \<longleftrightarrow> True"
| "entity_free (c # s) \<longleftrightarrow> entity_at (c # s) = None \<and> entity_free s"

lemma entity_at_amp: "entity_at (c # s) = Some e \<Longrightarrow> c = CHR ''&''"
  by (auto simp: entity_at_def dsml_entities_def split: if_splits)

lemma unescape_Cons:
  "dsml_unescape_text (c # s) =
     (case entity_at (c # s) of Some (ent, d) \<Rightarrow> d # dsml_unescape_text (drop (length ent - 1) s)
      | None \<Rightarrow> c # dsml_unescape_text s)"
  using entity_at_amp [of c s] by (cases "entity_at (c # s)") (auto simp: entity_at_def [symmetric])

lemma unescape_attr: "dsml_unescape_text (concat (map attr_entity s)) = s"
proof (induction s)
  case (Cons c s)
  show ?case
  proof (cases "attr_entity c = [c]")
    case True
    then have "c \<noteq> CHR ''&''" by (auto simp: attr_entity_def split: if_splits)
    then show ?thesis using True Cons by simp
  next
    case False
    then show ?thesis using Cons by (auto simp: attr_entity_def unescape_Cons entity_at_def dsml_entities_def split: if_splits)
  qed
qed simp

text \<open>An entity starts with \<open>&\<close> and has no second \<open>&\<close> and no \<open><\<close>.\<close>

lemma entity_at_Some:
  assumes "entity_at (c # s) = Some (ent, d)"
  obtains z where "c = CHR ''&''" "ent = c # z" "z \<noteq> []" "prefix z s" "CHR ''<'' \<notin> set z" "CHR ''&'' \<notin> set z"
  using assms by (auto simp: entity_at_def dsml_entities_def split: if_splits)

lemma unescape_length: "length (dsml_unescape_text s) \<le> length s"
proof (induction s rule: length_induct)
  case (1 s)
  show ?case
  proof (cases s)
    case (Cons c r)
    show ?thesis
    proof (cases "entity_at (c # r)")
      case None
      then show ?thesis using 1 Cons by (simp add: unescape_Cons del: dsml_unescape_text.simps)
    next
      case (Some e)
      obtain ent d where e: "e = (ent, d)" by force
      have "length (dsml_unescape_text (drop (length ent - 1) r)) \<le> length (drop (length ent - 1) r)"
        by (rule 1 [rule_format]) (simp add: Cons less_Suc_eq_le)
      also have "\<dots> \<le> length r" by simp
      finally show ?thesis using Some e by (simp add: Cons unescape_Cons del: dsml_unescape_text.simps)
    qed
  qed simp
qed

lemma unescape_id_iff: "dsml_unescape_text s = s \<longleftrightarrow> entity_free s"
proof -
  have "dsml_unescape_text s = s" if "entity_free s"
    using that by (induction s) (simp_all add: unescape_Cons del: dsml_unescape_text.simps(2))
  moreover have "length (dsml_unescape_text s) < length s" if "\<not> entity_free s"
    using that
  proof (induction s)
    case (Cons c r)
    show ?case
    proof (cases "entity_at (c # r)")
      case None
      then show ?thesis using Cons by (simp add: unescape_Cons del: dsml_unescape_text.simps)
    next
      case (Some e)
      obtain ent d where e: "e = (ent, d)" by force
      obtain z where z: "ent = c # z" "z \<noteq> []" "prefix z r" using entity_at_Some [of c r ent d] Some e by auto
      then have "length z \<noteq> 0" "length z \<le> length r" by (auto dest: prefix_length_le)
      then have "length (dsml_unescape_text (drop (length z) r)) < length r"
        using unescape_length [of "drop (length z) r"] unfolding length_drop by linarith
      then show ?thesis using Some e z by (simp add: unescape_Cons del: dsml_unescape_text.simps)
    qed
  qed simp
  ultimately show ?thesis by force
qed

lemma protect_append:
  "CHR ''<'' \<notin> set z \<Longrightarrow> protect_closing (CHR ''<'' # l) rep (z @ s) = z @ protect_closing (CHR ''<'' # l) rep s"
  by (induction z) auto

lemma protect_prefix:
  "CHR ''<'' \<notin> set z \<Longrightarrow> CHR ''&'' \<notin> set z \<Longrightarrow>
     prefix z (protect_closing (CHR ''<'' # l) (CHR ''&'' # m) s) \<longleftrightarrow> prefix z s"
proof (induction s arbitrary: z)
  case (Cons c s)
  then show ?case by (cases z) auto
qed simp

lemma unescape_protect:
  "dsml_unescape_text (protect_closing (CHR ''<'' # l) ''&lt;'' s) = dsml_unescape_text s"
proof (induction s rule: length_induct)
  case (1 s)
  let ?p = "protect_closing (CHR ''<'' # l) ''&lt;''"
  show ?case
  proof (cases s)
    case (Cons c r)
    have lt: "dsml_unescape_text (''&lt;'' @ t) = CHR ''<'' # dsml_unescape_text t" for t
      by (simp add: dsml_entities_def)
    consider (closing) "prefix (CHR ''<'' # l) s" | (plain) "\<not> prefix (CHR ''<'' # l) s" "c \<noteq> CHR ''&''"
      | (amp) "\<not> prefix (CHR ''<'' # l) s" "c = CHR ''&''" by blast
    then show ?thesis
    proof cases
      case closing
      then have c: "c = CHR ''<''" by (simp add: Cons)
      have "?p s = ''&lt;'' @ ?p r" using closing by (simp add: Cons)
      then show ?thesis using 1 Cons c lt [of "?p r"] by simp
    next
      case plain
      then have "?p s = c # ?p r" by (simp add: Cons)
      then show ?thesis using 1 Cons plain(2) by simp
    next
      case amp
      have same: "entity_at (c # ?p r) = entity_at (c # r)"
        unfolding amp(2) by (simp add: entity_at_def dsml_entities_def protect_prefix)
      show ?thesis
      proof (cases "entity_at (c # r)")
        case None
        then show ?thesis using 1 Cons amp same by (simp add: unescape_Cons del: dsml_unescape_text.simps)
      next
        case (Some e)
        obtain ent d where e: "e = (ent, d)" by force
        obtain z where z: "ent = c # z" "prefix z r" "CHR ''<'' \<notin> set z" using entity_at_Some [of c r ent d] Some e by auto
        then obtain t where t: "r = z @ t" by (auto simp: prefix_def)
        have "dsml_unescape_text (?p t) = dsml_unescape_text t" using 1 Cons t by simp
        then show ?thesis
          using Cons amp same Some e z t by (simp add: unescape_Cons protect_append del: dsml_unescape_text.simps)
      qed
    qed
  qed simp
qed

text \<open>A string argument survives being written into the prompt and read back exactly if it contains
  none of the five entities: the closing tag is protected wherever it occurs, but the \<open>&\<close> of an
  entity in the value is not, and the reader undoes every entity.\<close>

theorem parameter_text_round_trip_iff:
  "dsml_unescape_text (append_dsml_parameter_text (Some v)) = v \<longleftrightarrow> entity_free v"
  unfolding append_dsml_parameter_text_def or_empty_def
  using unescape_protect [where l = "CHR ''/'' # DS4_DSML @ ''parameter>''"] unescape_id_iff by simp

text \<open>The name of a tool or of an argument always survives: every special byte is written as an
  entity.  The written name has no quote and no \<open>>\<close>, which the reader looks for.\<close>

theorem attr_round_trip:
  "dsml_unescape_text (append_dsml_attr_escaped (Some s)) = s
   \<and> CHR 0x22 \<notin> set (append_dsml_attr_escaped (Some s)) \<and> CHR ''>'' \<notin> set (append_dsml_attr_escaped (Some s))"
  by (auto simp: append_dsml_attr_escaped_def or_empty_def unescape_attr attr_entity_def split: if_splits)

end
