(* ===== verification/Dsml_Parse.thy ===== *)
theory Dsml_Parse
  imports Dsml_Calls
begin

text \<open>
  The parser of a finished generation (\<open>parse_generated_message_ex\<close> of \<open>src/ds4_server.c\<close>): the
  content, the reasoning and the tool calls.  A pointer into the text is the rest of the text from
  there.  False with the calls parsed so far is None here: the caller frees them.
\<close>

definition skip_ascii_ws :: "bytes \<Rightarrow> bytes" where
  "skip_ascii_ws p = dropWhile is_cspace p"

section \<open>Parameters\<close>

definition args_separator :: "bytes \<Rightarrow> bytes" where
  "args_separator args = (if args = [] then [] else '', '')"

definition tool_call_json_args_add :: "bytes \<Rightarrow> bytes \<Rightarrow> bytes \<Rightarrow> bytes \<Rightarrow> bytes" where
  "tool_call_json_args_add args name val is_string =
     args @ args_separator args @ json_escape name @ '': ''
     @ (if is_string = ''true'' then json_escape val
        else let min = json_minify_raw_value (Some val) in if min \<noteq> [] then min else ''null'')"

text \<open>A parameter without the attribute \<open>string\<close> counts as a string.\<close>

definition param_type :: "bytes option \<Rightarrow> bytes" where
  "param_type is_string = (case is_string of None \<Rightarrow> ''true'' | Some t \<Rightarrow> t)"

definition param_text :: "bytes \<Rightarrow> bytes \<Rightarrow> bytes" where
  "param_text type raw = (if type = ''true'' then dsml_unescape_text raw else raw)"

definition dsml_parse_leaf_param_json :: "dsml_syntax \<Rightarrow> bytes \<Rightarrow> bytes \<Rightarrow> (bytes \<times> bytes) option" where
  "dsml_parse_leaf_param_json syn p out =
     (if \<not> prefix (param_start syn) p then None
      else case strchr p CHR ''>'' of None \<Rightarrow> None
      | Some te \<Rightarrow>
          let tag = take (te + 1) p; is_string = dsml_attr tag ''string''
          in case dsml_attr tag ''name'' of None \<Rightarrow> None
             | Some name \<Rightarrow>
                 let value_start = drop (te + 1) p
                 in case strstr value_start (param_end syn) of None \<Rightarrow> None
                    | Some ve \<Rightarrow>
                        let type = param_type is_string
                        in Some (tool_call_json_args_add out name (param_text type (take ve value_start)) type,
                                 drop (ve + length (param_end syn)) value_start))"

lemma leaf_shorter: "dsml_parse_leaf_param_json syn p out = Some (out', r) \<Longrightarrow> length r < length p"
  by (auto simp: dsml_parse_leaf_param_json_def Let_def strchr_Some split: if_splits option.splits)

text \<open>The loop of \<open>dsml_parse_nested_params_object\<close>: members read, whether there was one, the rest.\<close>

function nested_loop :: "dsml_syntax \<Rightarrow> bytes \<Rightarrow> bool \<Rightarrow> bytes \<Rightarrow> (bytes \<times> bool \<times> bytes) option" where
  "nested_loop syn members any p =
     (let p = skip_ascii_ws p
      in if \<not> prefix (param_start syn) p then Some (members, any, p)
         else case dsml_parse_leaf_param_json syn p members of None \<Rightarrow> None
         | Some (members', r) \<Rightarrow> nested_loop syn members' True r)"
  by auto

lemma skip_ascii_le: "length (skip_ascii_ws p) \<le> length p"
  by (simp add: skip_ascii_ws_def length_dropWhile_le)

termination nested_loop
  by (relation "measure (\<lambda>(syn, members, any, p). length p)")
    (auto dest!: leaf_shorter intro: less_le_trans [OF _ skip_ascii_le])

declare nested_loop.simps [simp del]

definition dsml_parse_nested_params_object :: "dsml_syntax \<Rightarrow> bytes \<Rightarrow> (bytes \<times> bytes) option" where
  "dsml_parse_nested_params_object syn p =
     (case nested_loop syn [] False p of None \<Rightarrow> None
      | Some (members, any, r) \<Rightarrow> if any then Some (''{'' @ members @ ''}'', r) else None)"

lemma nested_loop_le: "nested_loop syn members any p = Some (m, a, r) \<Longrightarrow> length r \<le> length p"
proof (induction syn members any p rule: nested_loop.induct)
  case (1 syn members any p)
  show ?case
  proof (cases "prefix (param_start syn) (skip_ascii_ws p)")
    case False
    then show ?thesis using "1.prems" skip_ascii_le [of p] by (simp add: nested_loop.simps [of syn members any p])
  next
    case True
    then obtain m' r' where l: "dsml_parse_leaf_param_json syn (skip_ascii_ws p) members = Some (m', r')"
      "nested_loop syn m' True r' = Some (m, a, r)"
      using "1.prems" by (auto simp: nested_loop.simps [of syn members any p] Let_def split: option.splits)
    have "length r \<le> length r'" using "1.IH" [OF refl _ l(1) refl l(2)] True by simp
    then show ?thesis using leaf_shorter [OF l(1)] skip_ascii_le [of p] by simp
  qed
qed

section \<open>Calls\<close>

text \<open>One parameter of a call: the arguments so far and the rest of the text after it.\<close>

definition parse_param :: "dsml_syntax \<Rightarrow> bytes \<Rightarrow> bytes \<Rightarrow> (bytes \<times> bytes) option" where
  "parse_param syn args p =
     (if \<not> prefix (param_start syn) p then None
      else case strchr p CHR ''>'' of None \<Rightarrow> None
      | Some te \<Rightarrow>
          let tag = take (te + 1) p; param_is_string = dsml_attr tag ''string''
          in case dsml_attr tag ''name'' of None \<Rightarrow> None
             | Some param_name \<Rightarrow>
                 let value_start = drop (te + 1) p
                 in if param_is_string = None \<and> prefix (param_start syn) (skip_ascii_ws value_start) then
                      (case dsml_parse_nested_params_object syn value_start of None \<Rightarrow> None
                       | Some (nested, r) \<Rightarrow>
                           let r = skip_ascii_ws r
                           in Some (tool_call_json_args_add args param_name nested ''false'',
                                    if prefix (param_end syn) r then drop (length (param_end syn)) r else r))
                    else
                      (case strstr value_start (param_end syn) of None \<Rightarrow> None
                       | Some ve \<Rightarrow>
                           let type = param_type param_is_string
                           in Some (tool_call_json_args_add args param_name (param_text type (take ve value_start)) type,
                                    drop (ve + length (param_end syn)) value_start)))"

lemma parse_param_shorter: "parse_param syn args p = Some (args', r) \<Longrightarrow> length r < length p"
proof -
  assume a: "parse_param syn args p = Some (args', r)"
  then obtain te where te: "strchr p CHR ''>'' = Some te" by (auto simp: parse_param_def split: if_splits option.splits)
  have lt: "length (drop (te + 1) p) < length p" using te by (auto simp: strchr_Some)
  have sk: "length (skip_ascii_ws b) - n \<le> m" "length (skip_ascii_ws b) \<le> m" if "length b \<le> m" for b n m
    using skip_ascii_le [of b] that by linarith+
  have "length r \<le> length (drop (te + 1) p)"
    using a te
    by (auto simp: parse_param_def dsml_parse_nested_params_object_def Let_def split: if_splits option.splits
        dest!: nested_loop_le intro: sk)
  then show ?thesis using lt by simp
qed

function parse_params :: "dsml_syntax \<Rightarrow> bytes \<Rightarrow> bytes \<Rightarrow> (bytes \<times> bytes) option" where
  "parse_params syn args p =
     (let p = skip_ascii_ws p
      in if prefix (invoke_end syn) p then Some (args, drop (length (invoke_end syn)) p)
         else case parse_param syn args p of None \<Rightarrow> None
         | Some (args', r) \<Rightarrow> parse_params syn args' r)"
  by auto
termination
  by (relation "measure (\<lambda>(syn, args, p). length p)")
    (auto dest!: parse_param_shorter intro: less_le_trans [OF _ skip_ascii_le])

declare parse_params.simps [simp del]

lemma parse_params_le: "parse_params syn args p = Some (a, r) \<Longrightarrow> length r \<le> length p"
proof (induction syn args p rule: parse_params.induct)
  case (1 syn args p)
  show ?case
  proof (cases "prefix (invoke_end syn) (skip_ascii_ws p)")
    case True
    then show ?thesis using "1.prems" skip_ascii_le [of p] by (auto simp: parse_params.simps [of syn args p])
  next
    case False
    then obtain a' r' where l: "parse_param syn args (skip_ascii_ws p) = Some (a', r')" "parse_params syn a' r' = Some (a, r)"
      using "1.prems" by (auto simp: parse_params.simps [of syn args p] Let_def split: option.splits)
    have "length r \<le> length r'" using "1.IH" [OF refl False l(1) refl l(2)] .
    then show ?thesis using parse_param_shorter [OF l(1)] skip_ascii_le [of p] by simp
  qed
qed

text \<open>The loop over the calls: the calls and the rest after the closing tag of the block.\<close>

function parse_calls :: "dsml_syntax \<Rightarrow> tool_calls \<Rightarrow> bytes \<Rightarrow> (tool_calls \<times> bytes) option" where
  "parse_calls syn calls p =
     (let p = skip_ascii_ws p
      in if prefix (tool_calls_end syn) p then Some (calls, drop (length (tool_calls_end syn)) p)
         else if \<not> prefix (invoke_start syn) p then None
         else case strchr p CHR ''>'' of None \<Rightarrow> None
         | Some te \<Rightarrow>
             (case dsml_attr (take (te + 1) p) ''name'' of None \<Rightarrow> None
              | Some name \<Rightarrow>
                  (case parse_params syn [] (drop (te + 1) p) of None \<Rightarrow> None
                   | Some (args, r) \<Rightarrow>
                       parse_calls syn
                         (tool_calls_push calls \<lparr>tc_id = None, tc_name = Some name, tc_arguments = Some (''{'' @ args @ ''}'')\<rparr>) r)))"
  by auto
termination
proof (relation "measure (\<lambda>(syn, calls, p). length p)", goal_cases)
  case (2 syn calls p q te name z args r)
  have "length r \<le> length (drop (te + 1) q)" using parse_params_le 2 by blast
  moreover have "te < length q" using 2 by (simp add: strchr_Some)
  ultimately show ?case using skip_ascii_le [of p] 2 by simp
qed simp

declare parse_calls.simps [simp del]

section \<open>The message\<close>

definition split_reasoning_content :: "bytes \<Rightarrow> nat \<Rightarrow> bytes \<times> bytes option" where
  "split_reasoning_content txt n =
     (let s = take n txt; body = (if prefix ''<think>'' s then drop 7 s else s)
      in case strstr body ''</think>'' of
           Some i \<Rightarrow> (drop (i + 8) body, Some (take i body))
         | None \<Rightarrow> (s, None))"

text \<open>The start of the block: for each spelling in turn with and without two line feeds before.\<close>

fun tool_block_start :: "bytes \<Rightarrow> dsml_style list \<Rightarrow> (nat \<times> dsml_style) option" where
  "tool_block_start s [] = None"
| "tool_block_start s (sty # stys) =
     (case strstr s (CHR 0x0a # CHR 0x0a # tool_calls_start (dsml_syntaxes sty)) of Some i \<Rightarrow> Some (i, sty)
      | None \<Rightarrow>
          (case strstr s (tool_calls_start (dsml_syntaxes sty)) of Some i \<Rightarrow> Some (i, sty)
           | None \<Rightarrow> tool_block_start s stys))"

text \<open>From where on the block is looked for; None: only reasoning so far.\<close>

definition tool_search_from :: "bytes \<Rightarrow> bool \<Rightarrow> nat option" where
  "tool_search_from txt require_thinking_closed =
     (if require_thinking_closed then map_option (\<lambda>i. i + 8) (find_last_substr txt ''</think>'') else Some 0)"

definition parse_generated_message_ex :: "bytes \<Rightarrow> bool \<Rightarrow> (bytes \<times> bytes option \<times> tool_calls) option" where
  "parse_generated_message_ex txt require_thinking_closed =
     (let plain = (case split_reasoning_content txt (length txt) of (content, reasoning) \<Rightarrow> Some (content, reasoning, no_calls))
      in case tool_search_from txt require_thinking_closed of None \<Rightarrow> plain
         | Some ts \<Rightarrow>
             (case tool_block_start (drop ts txt) [Dsml, Dsml_short, Plain_xml] of None \<Rightarrow> plain
              | Some (i, style) \<Rightarrow>
                  let start = ts + i; syn = dsml_syntaxes style;
                      content_len = trim_tool_separator_ws txt 0 start
                  in case strstr (drop start txt) (tool_calls_start syn) of None \<Rightarrow> None
                     | Some k \<Rightarrow>
                         (case parse_calls syn no_calls (drop (start + k + length (tool_calls_start syn)) txt) of None \<Rightarrow> None
                          | Some (calls, r) \<Rightarrow>
                              (case split_reasoning_content txt content_len of (content, reasoning) \<Rightarrow>
                                 Some (content, reasoning, calls\<lparr>raw_dsml := Some (take (length txt - length r - start) (drop start txt))\<rparr>)))))"

definition tool_parse_failure_recovery_finish :: "bytes option \<Rightarrow> bytes" where
  "tool_parse_failure_recovery_finish finish = (if finish = Some ''length'' then ''length'' else ''stop'')"

record parsed_message =
  msg_ok :: bool
  msg_content :: bytes
  msg_reasoning :: "bytes option"
  msg_calls :: tool_calls
  msg_finish :: bytes
  msg_recovered :: bool

definition parse_generated_message_for_response :: "bytes \<Rightarrow> bool \<Rightarrow> bool \<Rightarrow> bool \<Rightarrow> bytes \<Rightarrow> parsed_message" where
  "parse_generated_message_for_response txt has_tools saw_tool_start require_thinking_closed finish =
     (case parse_generated_message_ex txt require_thinking_closed of
        Some (content, reasoning, calls) \<Rightarrow>
          \<lparr>msg_ok = True, msg_content = content, msg_reasoning = reasoning, msg_calls = calls, msg_finish = finish,
           msg_recovered = False\<rparr>
      | None \<Rightarrow>
          let recover = has_tools \<and> saw_tool_start \<and> finish \<noteq> ''error''
          in \<lparr>msg_ok = False, msg_content = txt, msg_reasoning = None, msg_calls = no_calls,
              msg_finish = (if recover then tool_parse_failure_recovery_finish (Some finish) else finish),
              msg_recovered = recover\<rparr>)"

end
