(* ===== verification/Dsml_Round.thy ===== *)
theory Dsml_Round
  imports Dsml_Parse
begin

text \<open>
  What the prompt renderer writes for tool calls (\<open>append_dsml_tool_calls_text\<close>) is what the parser of
  a generation reads (\<open>parse_generated_message_ex\<close>).
\<close>

section \<open>Searching in a text with a known start\<close>

lemma strstr_iff:
  "strstr s needle = Some i \<longleftrightarrow> i \<le> length s \<and> prefix needle (drop i s) \<and> (\<forall>j < i. \<not> prefix needle (drop j s))"
  unfolding strstr_def strstr_Some by auto

lemma strstr_none: "strstr s needle = None \<longleftrightarrow> (\<forall>j \<le> length s. \<not> prefix needle (drop j s))"
  unfolding strstr_def strstr_None by auto

lemma strstr_here: "prefix needle s \<Longrightarrow> strstr s needle = Some 0"
  by (simp add: strstr_iff)

lemma strstr_Cons: "\<not> prefix needle (c # s) \<Longrightarrow> strstr (c # s) needle = map_option Suc (strstr s needle)"
proof -
  assume no: "\<not> prefix needle (c # s)"
  show ?thesis
  proof (cases "strstr s needle")
    case None
    then have "strstr (c # s) needle = None"
      using no unfolding strstr_none by (auto simp: drop_Cons' less_Suc_eq_le)
    then show ?thesis using None by simp
  next
    case (Some i)
    then have "strstr (c # s) needle = Some (Suc i)"
      using no unfolding strstr_iff by (auto simp: drop_Cons' less_Suc_eq_0_disj)
    then show ?thesis using Some by simp
  qed
qed

lemma strstr_skip: "d \<notin> set z \<Longrightarrow> strstr (z @ s) (d # l) = map_option ((+) (length z)) (strstr s (d # l))"
proof (induction z)
  case Nil
  then show ?case by (simp add: option.map_ident)
next
  case (Cons c z)
  then have "strstr ((c # z) @ s) (d # l) = map_option Suc (strstr (z @ s) (d # l))" by (simp add: strstr_Cons)
  then show ?case using Cons by (simp add: option.map_comp comp_def)
qed

lemma strchr_skip: "c \<notin> set z \<Longrightarrow> strchr (z @ c # s) c = Some (length z)"
  by (auto simp: strchr_Some nth_append)

text \<open>The closing tag is found where the protected value ends.\<close>

lemma protect_prefix_lt:
  "CHR ''<'' \<notin> set z \<Longrightarrow> r \<notin> set z \<Longrightarrow> prefix z (protect_closing (CHR ''<'' # l) (r # m) v @ CHR ''<'' # t) \<Longrightarrow> prefix z v"
proof (induction v arbitrary: z)
  case Nil
  then show ?case by (cases z) auto
next
  case (Cons c v)
  then show ?case by (cases z) (auto split: if_splits)
qed

lemma strstr_protected:
  assumes "CHR ''<'' \<notin> set l" "CHR ''<'' \<notin> set rep" "rep = r # m" "r \<notin> set l"
  shows "strstr (protect_closing (CHR ''<'' # l) rep v @ (CHR ''<'' # l) @ t) (CHR ''<'' # l)
       = Some (length (protect_closing (CHR ''<'' # l) rep v))"
proof (induction v)
  case Nil
  show ?case by (simp add: strstr_here)
next
  case (Cons c v)
  let ?p = "protect_closing (CHR ''<'' # l) rep"
  show ?case
  proof (cases "prefix (CHR ''<'' # l) (c # v)")
    case True
    then show ?thesis using Cons strstr_skip [OF assms(2), of "?p v @ (CHR ''<'' # l) @ t" l] by simp
  next
    case False
    have no: "\<not> prefix (CHR ''<'' # l) (c # ?p v @ (CHR ''<'' # l) @ t)"
    proof
      assume a: "prefix (CHR ''<'' # l) (c # ?p v @ (CHR ''<'' # l) @ t)"
      then have c: "c = CHR ''<''" by simp
      have "prefix l (protect_closing (CHR ''<'' # l) (r # m) v @ CHR ''<'' # (l @ t))"
        using conjunct2 [OF a [unfolded Cons_prefix_Cons]] by (simp only: append_Cons assms(3))
      then have "prefix l v" by (rule protect_prefix_lt [OF assms(1,4)])
      then show False using False unfolding c by simp
    qed
    have p: "?p (c # v) = c # ?p v" by (simp only: protect_closing.simps if_not_P [OF False])
    show ?thesis unfolding p append_Cons strstr_Cons [OF no [unfolded append_Cons]] using Cons by simp
  qed
qed

section \<open>Attributes of a written tag\<close>

lemma attr_at:
  assumes "strstr tag (name @ ''='' @ [CHR 0x22]) = Some i" "length name < 60"
    "drop (i + length name + 2) tag = v @ CHR 0x22 # r" "CHR 0x22 \<notin> set v"
  shows "dsml_attr tag name = Some (dsml_unescape_text v)"
proof -
  have "take 63 (name @ ''='' @ [CHR 0x22]) = name @ ''='' @ [CHR 0x22]" using assms(2) by simp
  moreover have "drop (i + length (name @ ''='' @ [CHR 0x22])) tag = v @ CHR 0x22 # r" using assms(3) by simp
  ultimately show ?thesis
    unfolding dsml_attr_def Let_def using assms(1) strchr_skip [OF assms(4), of r] by (simp only: option.case) simp
qed

lemma attr_name_no_quote: "CHR 0x22 \<notin> set (append_dsml_attr_escaped s)" "CHR ''>'' \<notin> set (append_dsml_attr_escaped s)"
  by (auto simp: append_dsml_attr_escaped_def attr_entity_def split: if_splits)

lemma unescape_name: "dsml_unescape_text (append_dsml_attr_escaped s) = or_empty s"
  by (simp add: append_dsml_attr_escaped_def unescape_attr)

lemma takeWhile_tail: "\<forall>x \<in> set z. P x \<Longrightarrow> \<not> P d \<Longrightarrow> takeWhile P (z @ d # t) = z"
  by (induction z) auto

text \<open>A search for \<open>string="\<close> passes over a quoted text that does not end in \<open>string=\<close>.\<close>

lemma strstr_quoted:
  assumes "CHR 0x22 \<notin> set s" "CHR 0x22 \<notin> set z" "\<not> suffix z s" "z \<noteq> []"
  shows "strstr (s @ CHR 0x22 # t) (z @ [CHR 0x22]) = map_option ((+) (length s + 1)) (strstr t (z @ [CHR 0x22]))"
  using assms(1,3)
proof (induction s)
  case Nil
  have "\<not> prefix (z @ [CHR 0x22]) (CHR 0x22 # t)" using assms(2,4) by (cases z) auto
  then show ?case by (simp add: strstr_Cons)
next
  case (Cons c s)
  have no: "\<not> prefix (z @ [CHR 0x22]) (c # s @ CHR 0x22 # t)"
  proof
    assume "prefix (z @ [CHR 0x22]) (c # s @ CHR 0x22 # t)"
    then obtain u where u: "c # s @ CHR 0x22 # t = (z @ [CHR 0x22]) @ u" by (rule prefixE)
    have "takeWhile (\<lambda>x. x \<noteq> CHR 0x22) (z @ CHR 0x22 # u) = z"
      by (rule takeWhile_tail) (use assms(2) in auto)
    moreover have "takeWhile (\<lambda>x. x \<noteq> CHR 0x22) ((c # s) @ CHR 0x22 # t) = c # s"
      by (rule takeWhile_tail) (use Cons.prems(1) in auto)
    ultimately have "z = c # s" using u by simp
    then show False using Cons.prems(2) by simp
  qed
  have "\<not> suffix z s" using Cons.prems(2) by (auto simp: suffix_Cons)
  then have IH: "strstr (s @ CHR 0x22 # t) (z @ [CHR 0x22]) = map_option ((+) (length s + 1)) (strstr t (z @ [CHR 0x22]))"
    by (rule Cons.IH [rotated]) (use Cons.prems(1) in auto)
  show ?case unfolding append_Cons strstr_Cons [OF no] IH by (cases "strstr t (z @ [CHR 0x22])") simp_all
qed


section \<open>One parameter\<close>

lemmas syntax_defs = dsml_syntaxes_def dsml_mark_def Let_def DS4_DSML_def DS4_DSML_SHORT_def bar_def

abbreviation DS :: dsml_syntax where "DS \<equiv> dsml_syntaxes Dsml"

text \<open>The type attribute and the text between the tags, as they are written.\<close>

definition arg_type :: "json_arg \<Rightarrow> bytes" where
  "arg_type a = (if arg_is_string a then ''true'' else ''false'')"

definition arg_text :: "json_arg \<Rightarrow> bytes" where
  "arg_text a = (if arg_is_string a then append_dsml_parameter_text (Some (arg_value a))
                 else append_dsml_json_literal (Some (arg_value a)))"

definition arg_tag :: "json_arg \<Rightarrow> bytes" where
  "arg_tag a = param_start DS @ '' name='' @ quoted (append_dsml_attr_escaped (Some (arg_key a)))
     @ '' string='' @ quoted (arg_type a) @ ''>''"

lemma arg_split: "append_dsml_arg a = arg_tag a @ arg_text a @ param_end DS @ [CHR 0x0a]"
  by (simp add: append_dsml_arg_def arg_tag_def arg_type_def arg_text_def dsml_syntaxes_def dsml_mark_def Let_def)

lemma pend_DS: "param_end DS = CHR ''<'' # CHR ''/'' # DS4_DSML @ ''parameter>''"
  by (simp add: dsml_syntaxes_def dsml_mark_def Let_def)

lemma arg_text_end: "strstr (arg_text a @ param_end DS @ t) (param_end DS) = Some (length (arg_text a))"
proof -
  let ?l = "CHR ''/'' # DS4_DSML @ ''parameter>''"
  have l: "CHR ''<'' \<notin> set ?l" "CHR ''&'' \<notin> set ?l" "CHR 0x5c \<notin> set ?l" by (simp_all add: DS4_DSML_def bar_def)
  have "strstr (protect_closing (CHR ''<'' # ?l) ''&lt;'' v @ (CHR ''<'' # ?l) @ t) (CHR ''<'' # ?l)
      = Some (length (protect_closing (CHR ''<'' # ?l) ''&lt;'' v))" for v
    by (rule strstr_protected [OF l(1) _ refl l(2)]) simp
  moreover have "strstr (protect_closing (CHR ''<'' # ?l) (CHR 0x5c # ''u003c'') v @ (CHR ''<'' # ?l) @ t) (CHR ''<'' # ?l)
      = Some (length (protect_closing (CHR ''<'' # ?l) (CHR 0x5c # ''u003c'') v))" for v
    by (rule strstr_protected [OF l(1) _ refl l(3)]) simp
  ultimately show ?thesis
    by (simp add: arg_text_def append_dsml_parameter_text_def append_dsml_json_literal_def or_empty_def pend_DS)
qed

lemma arg_tag_no_gt: "CHR ''>'' \<notin> set (butlast (arg_tag a))" "arg_tag a = butlast (arg_tag a) @ ''>''"
  using attr_name_no_quote(2) [of "Some (arg_key a)"]
  by (auto simp: arg_tag_def arg_type_def quoted_def butlast_append syntax_defs)

lemma arg_tag_end: "strchr (arg_tag a @ t) CHR ''>'' = Some (length (arg_tag a) - 1)"
proof -
  have eq: "arg_tag a @ t = butlast (arg_tag a) @ CHR ''>'' # t"
    by (subst arg_tag_no_gt(2)) simp
  show ?thesis unfolding eq using strchr_skip [OF arg_tag_no_gt(1), of a t] by (simp only: length_butlast)
qed

lemma arg_tag_name: "dsml_attr (arg_tag a) ''name'' = Some (arg_key a)"
proof -
  let ?k = "append_dsml_attr_escaped (Some (arg_key a))"
  let ?h = "param_start DS @ '' ''"
  have t: "arg_tag a = ?h @ (''name='' @ [CHR 0x22]) @ ?k @ CHR 0x22 # '' string='' @ quoted (arg_type a) @ ''>''"
    by (simp add: arg_tag_def quoted_def)
  have h: "strstr (?h @ (''name='' @ [CHR 0x22]) @ u) (''name='' @ [CHR 0x22]) = Some (length ?h)" for u
    by (simp add: syntax_defs strstr_Cons strstr_here)
  have "dsml_attr (arg_tag a) ''name'' = Some (dsml_unescape_text ?k)"
    by (rule attr_at [where i = "length ?h" and r = "'' string='' @ quoted (arg_type a) @ ''>''"])
      (simp_all add: t h [simplified] attr_name_no_quote(1))
  then show ?thesis by (simp add: unescape_name or_empty_def)
qed

lemma arg_tag_type:
  assumes "\<not> suffix ''string='' (append_dsml_attr_escaped (Some (arg_key a)))"
  shows "dsml_attr (arg_tag a) ''string'' = Some (arg_type a)"
proof -
  let ?k = "append_dsml_attr_escaped (Some (arg_key a))"
  let ?h = "param_start DS @ '' name='' @ [CHR 0x22]"
  let ?n = "''string='' @ [CHR 0x22]"
  have t: "arg_tag a = ?h @ ?k @ CHR 0x22 # CHR '' '' # ?n @ arg_type a @ CHR 0x22 # ''>''"
    by (simp add: arg_tag_def quoted_def)
  have q: "strstr (?k @ CHR 0x22 # u) ?n = map_option ((+) (length ?k + 1)) (strstr u ?n)" for u
    by (rule strstr_quoted [OF attr_name_no_quote(1) _ assms]) simp_all
  have "strstr (CHR '' '' # ?n @ u) ?n = Some 1" for u by (simp add: strstr_Cons strstr_here)
  then have pos: "strstr (arg_tag a) ?n = Some (length ?h + (length ?k + 2))"
    using q unfolding t by (simp add: syntax_defs strstr_Cons)
  have "arg_tag a = (?h @ ?k @ CHR 0x22 # CHR '' '' # ?n) @ arg_type a @ CHR 0x22 # ''>''" by (simp add: t)
  then have "drop (length (?h @ ?k @ CHR 0x22 # CHR '' '' # ?n)) (arg_tag a) = arg_type a @ CHR 0x22 # ''>''"
    by (metis append_eq_conv_conj)
  then have "dsml_attr (arg_tag a) ''string'' = Some (dsml_unescape_text (arg_type a))"
    by (intro attr_at [where i = "length ?h + (length ?k + 2)"]) (use pos in \<open>simp_all add: arg_type_def add.commute\<close>)
  moreover have "dsml_unescape_text (arg_type a) = arg_type a" by (simp add: arg_type_def)
  ultimately show ?thesis by simp
qed

text \<open>The text the parser makes of an argument.\<close>

definition arg_read :: "bytes \<Rightarrow> json_arg \<Rightarrow> bytes" where
  "arg_read args a = tool_call_json_args_add args (arg_key a) (param_text (arg_type a) (arg_text a)) (arg_type a)"

lemma parse_param_arg:
  assumes "\<not> suffix ''string='' (append_dsml_attr_escaped (Some (arg_key a)))"
  shows "parse_param DS args (append_dsml_arg a @ t) = Some (arg_read args a, CHR 0x0a # t)"
proof -
  let ?p = "append_dsml_arg a @ t"
  have p: "?p = arg_tag a @ arg_text a @ param_end DS @ CHR 0x0a # t" by (simp add: arg_split)
  have len: "length (arg_tag a) - 1 + 1 = length (arg_tag a)" by (simp add: arg_tag_def)
  have "prefix (param_start DS) ?p" by (simp add: p arg_tag_def)
  moreover have "strchr ?p CHR ''>'' = Some (length (arg_tag a) - 1)" unfolding p by (rule arg_tag_end)
  moreover have "take (length (arg_tag a) - 1 + 1) ?p = arg_tag a"
    "drop (length (arg_tag a) - 1 + 1) ?p = arg_text a @ param_end DS @ CHR 0x0a # t"
    unfolding p len by simp_all
  ultimately show ?thesis
    unfolding parse_param_def
    by (simp add: arg_tag_name arg_tag_type [OF assms] arg_text_end arg_read_def param_type_def Let_def)
qed


section \<open>All parameters of a call\<close>

lemma parse_params_ws: "is_cspace c \<Longrightarrow> parse_params syn args (c # p) = parse_params syn args p"
  by (subst (1 2) parse_params.simps) (simp add: skip_ascii_ws_def)

text \<open>\<open>string=\<close> at the end of a name would make the reader take the wrong quote for the type.\<close>

definition key_ok :: "json_arg \<Rightarrow> bool" where
  "key_ok a \<longleftrightarrow> \<not> suffix ''string='' (append_dsml_attr_escaped (Some (arg_key a)))"

lemma arg_head: "\<exists>z. append_dsml_arg a @ t = CHR ''<'' # DS4_DSML @ CHR ''p'' # z"
  by (simp add: append_dsml_arg_def)

lemma parse_params_args:
  assumes "\<forall>a \<in> set as. key_ok a"
  shows "parse_params DS args (concat (map append_dsml_arg as) @ invoke_end DS @ t) = Some (fold (\<lambda>a acc. arg_read acc a) as args, t)"
  using assms
proof (induction as arbitrary: args)
  case Nil
  have "skip_ascii_ws (invoke_end DS @ t) = invoke_end DS @ t"
    by (simp add: skip_ascii_ws_def syntax_defs is_cspace_def)
  then show ?case by (subst parse_params.simps) simp
next
  case (Cons a as)
  let ?r = "concat (map append_dsml_arg as) @ invoke_end DS @ t"
  obtain z where z: "append_dsml_arg a @ ?r = CHR ''<'' # DS4_DSML @ CHR ''p'' # z" using arg_head by blast
  have "skip_ascii_ws (append_dsml_arg a @ ?r) = append_dsml_arg a @ ?r"
    unfolding z by (simp add: skip_ascii_ws_def is_cspace_def)
  moreover have "\<not> prefix (invoke_end DS) (append_dsml_arg a @ ?r)"
    unfolding z by (simp add: syntax_defs)
  moreover have "parse_param DS args (append_dsml_arg a @ ?r) = Some (arg_read args a, CHR 0x0a # ?r)"
    by (rule parse_param_arg) (use Cons.prems in \<open>simp add: key_ok_def\<close>)
  ultimately have "parse_params DS args (append_dsml_arg a @ ?r) = parse_params DS (arg_read args a) (CHR 0x0a # ?r)"
    by (subst parse_params.simps) simp
  also have "\<dots> = parse_params DS (arg_read args a) ?r" by (rule parse_params_ws) (simp add: is_cspace_def)
  finally show ?case using Cons by simp
qed

section \<open>All calls\<close>

lemma take_past: "take (length z + 1) (z @ c # s) = z @ [c]"
  and drop_past: "drop (length z + 1) (z @ c # s) = s"
  by simp_all

text \<open>The arguments of a call as the renderer takes them: text that is no JSON object is one string.\<close>

definition call_args :: "tool_call \<Rightarrow> json_arg list" where
  "call_args tc =
     (case json_args_parse (tc_arguments tc) of Some args \<Rightarrow> args
      | None \<Rightarrow> [\<lparr>arg_key = ''arguments'', arg_value = or_empty (tc_arguments tc), arg_is_string = True, arg_used = False\<rparr>])"

definition call_read :: "tool_call \<Rightarrow> tool_call" where
  "call_read tc = \<lparr>tc_id = None, tc_name = Some (or_empty (tc_name tc)),
                   tc_arguments = Some (''{'' @ fold (\<lambda>a acc. arg_read acc a) (call_args tc) [] @ ''}'')\<rparr>"

lemma members_unused: "json_args_members args s = Some args' \<Longrightarrow> \<forall>a \<in> set args. \<not> arg_used a \<Longrightarrow> \<forall>a \<in> set args'. \<not> arg_used a"
proof (induction args s rule: json_args_members.induct)
  case (1 args s)
  show ?case
  proof (cases "\<exists>s'. s = CHR ''}'' # s'")
    case True
    then show ?thesis using "1.prems" by (auto simp: json_args_members.simps [of args s])
  next
    case False
    then obtain c s' key r r' val str r'' where st: "s = c # s'" "c \<noteq> CHR ''}''" "json_string s = Some (key, r)"
      "json_ws r = CHR '':'' # r'" "json_arg_value (json_ws r') = Some ((val, str), r'')"
      "json_args_members (json_args_push args \<lparr>arg_key = c_str key, arg_value = val, arg_is_string = str, arg_used = False\<rparr>)
         (after_comma r'') = Some args'"
      using "1.prems"(1) unfolding json_args_members.simps [of args s] by (auto split: list.splits if_splits option.splits)
    show ?thesis
      by (rule "1.IH" [OF st(1,2,3) refl st(4) _ st(5) refl refl st(6)]) (use "1.prems"(2) in \<open>auto simp: json_args_push_def\<close>)
  qed
qed

lemma call_split:
  "append_dsml_call tc = invoke_start DS @ '' name='' @ quoted (append_dsml_attr_escaped (tc_name tc)) @ ''>''
     @ CHR 0x0a # concat (map append_dsml_arg (call_args tc)) @ invoke_end DS @ [CHR 0x0a]"
proof (cases "json_args_parse (tc_arguments tc)")
  case None
  then show ?thesis
    by (simp add: append_dsml_call_def call_args_def append_dsml_arguments_from_json_def append_dsml_arg_def dsml_syntaxes_def
        dsml_mark_def Let_def append_dsml_parameter_text_def append_dsml_attr_escaped_def or_empty_def attr_entity_def)
next
  case (Some args)
  then have "filter (\<lambda>a. \<not> arg_used a) args = args"
    using members_unused [of "[]" _ args] by (auto simp: json_args_parse_def intro!: filter_True split: list.splits if_splits)
  then show ?thesis
    using Some by (simp add: append_dsml_call_def call_args_def append_dsml_arguments_from_json_def dsml_syntaxes_def dsml_mark_def Let_def)
qed

lemma parse_calls_ws: "is_cspace c \<Longrightarrow> parse_calls syn calls (c # p) = parse_calls syn calls p"
  by (subst (1 2) parse_calls.simps) (simp add: skip_ascii_ws_def)

lemma parse_calls_calls:
  assumes "\<forall>tc \<in> set cs. \<forall>a \<in> set (call_args tc). key_ok a"
  shows "parse_calls DS calls (concat (map append_dsml_call cs) @ tool_calls_end DS @ t)
       = Some (calls\<lparr>calls_v := calls_v calls @ map call_read cs\<rparr>, t)"
  using assms
proof (induction cs arbitrary: calls)
  case Nil
  have "skip_ascii_ws (tool_calls_end DS @ t) = tool_calls_end DS @ t"
    by (simp add: skip_ascii_ws_def syntax_defs is_cspace_def)
  then show ?case by (subst parse_calls.simps) simp
next
  case (Cons tc cs)
  let ?k = "append_dsml_attr_escaped (tc_name tc)"
  let ?r = "concat (map append_dsml_call cs) @ tool_calls_end DS @ t"
  let ?h = "invoke_start DS @ '' name='' @ quoted ?k"
  let ?args = "concat (map append_dsml_arg (call_args tc)) @ invoke_end DS @ CHR 0x0a # ?r"
  let ?p = "append_dsml_call tc @ ?r"
  have p: "?p = ?h @ CHR ''>'' # CHR 0x0a # ?args" by (simp add: call_split)
  have "skip_ascii_ws ?p = ?p" unfolding p by (simp add: skip_ascii_ws_def is_cspace_def dsml_syntaxes_def Let_def)
  moreover have "\<not> prefix (tool_calls_end DS) ?p" "prefix (invoke_start DS) ?p"
    unfolding p by (simp_all add: syntax_defs)
  moreover have "CHR ''>'' \<notin> set ?h" using attr_name_no_quote(2) by (simp add: quoted_def syntax_defs)
  then have "strchr ?p CHR ''>'' = Some (length ?h)" unfolding p by (rule strchr_skip)
  moreover have "take (length ?h + 1) ?p = ?h @ ''>''" "drop (length ?h + 1) ?p = CHR 0x0a # ?args"
    unfolding p by (rule take_past, rule drop_past)
  moreover have "dsml_attr (?h @ ''>'') ''name'' = Some (or_empty (tc_name tc))"
  proof -
    have "strstr ((invoke_start DS @ '' '') @ (''name='' @ [CHR 0x22]) @ u) (''name='' @ [CHR 0x22]) = Some (length (invoke_start DS @ '' ''))" for u
      by (simp add: syntax_defs strstr_Cons strstr_here)
    from this [of "?k @ CHR 0x22 # ''>''"] have "dsml_attr (?h @ ''>'') ''name'' = Some (dsml_unescape_text ?k)"
      by (intro attr_at [where i = "length (invoke_start DS @ '' '')" and r = "''>''"]) (simp_all add: quoted_def attr_name_no_quote)
    then show ?thesis by (simp add: unescape_name)
  qed
  moreover have "parse_params DS [] (CHR 0x0a # ?args) = Some (fold (\<lambda>a acc. arg_read acc a) (call_args tc) [], CHR 0x0a # ?r)"
    using parse_params_args [of "call_args tc" "[]" "CHR 0x0a # ?r"] Cons.prems
    by (subst parse_params_ws) (simp_all add: is_cspace_def)
  ultimately have "parse_calls DS calls ?p = parse_calls DS (tool_calls_push calls (call_read tc)) (CHR 0x0a # ?r)"
    by (subst parse_calls.simps) (simp add: call_read_def del: append_assoc)
  also have "\<dots> = parse_calls DS (tool_calls_push calls (call_read tc)) ?r" by (rule parse_calls_ws) (simp add: is_cspace_def)
  finally show ?case using Cons by (simp add: tool_calls_push_def)
qed


section \<open>The whole message\<close>

lemma starts_lt: "\<exists>z. tool_calls_start DS = CHR ''<'' # z \<and> CHR ''<'' \<notin> set z \<and> CHR 0x0a \<notin> set z"
  by (simp add: syntax_defs)

lemma before_mark: "w @ d # r = z @ u \<Longrightarrow> d \<notin> set z \<Longrightarrow> prefix z w"
proof (induction z arbitrary: w)
  case (Cons c z)
  then show ?case by (cases w) auto
qed simp

text \<open>The block is found where the renderer put it.\<close>

lemma block_found:
  assumes "strstr b (tool_calls_start DS) = None"
  shows "strstr (b @ CHR 0x0a # CHR 0x0a # tool_calls_start DS @ t) (CHR 0x0a # CHR 0x0a # tool_calls_start DS) = Some (length b)"
proof -
  let ?st = "tool_calls_start DS"
  obtain z where z: "?st = CHR ''<'' # z" "CHR ''<'' \<notin> set z" "CHR 0x0a \<notin> set z" using starts_lt by blast
  let ?s = "b @ CHR 0x0a # CHR 0x0a # ?st @ t"
  have "False" if j: "j < length b" "prefix (CHR 0x0a # CHR 0x0a # ?st) (drop j ?s)" for j
  proof -
    obtain u where u: "drop j ?s = (CHR 0x0a # CHR 0x0a # ?st) @ u" using j(2) by (rule prefixE)
    have "drop (j + 2) ?s = drop 2 (drop j ?s)" by (simp only: drop_drop add.commute)
    then have d: "drop (j + 2) ?s = ?st @ u" unfolding u by simp
    show False
    proof (cases "j + 2 < length b")
      case True
      then obtain w where w: "drop (j + 2) b = CHR ''<'' # w"
        using d z(1) by (cases "drop (j + 2) b") auto
      have "w @ CHR 0x0a # CHR 0x0a # ?st @ t = z @ u" using d w z(1) True by simp
      then have "prefix z w" using z(3) by (rule before_mark)
      then have "prefix ?st (drop (j + 2) b)" unfolding w z(1) by simp
      then show False using assms True unfolding strstr_none by auto
    next
      case False
      then have "j + 2 = length b \<or> j + 2 = length b + 1" using j(1) by arith
      then show False using d z(1) by (auto simp: drop_Cons')
    qed
  qed
  then show ?thesis unfolding strstr_iff by auto
qed

lemma trim_le: "trim_tool_separator_ws raw start n \<le> n"
  by (induction n) auto

lemma trim_append: "n \<le> length b \<Longrightarrow> trim_tool_separator_ws (b @ t) start n = trim_tool_separator_ws b start n"
  by (induction n) (auto simp: nth_append)

lemma split_append: "n \<le> length b \<Longrightarrow> split_reasoning_content (b @ t) n = split_reasoning_content b n"
  by (simp add: split_reasoning_content_def)


end
