(* ===== verification/Server_Json.thy ===== *)
theory Server_Json
  imports Dsml_Stream Dsml_Round
begin

text \<open>
  The properties of the server's text layer that are stated over whole operations, and the inputs on
  which the properties with hypotheses are applied.
\<close>

section \<open>JSON\<close>

text \<open>A string that the server writes into JSON is read back by its own reader, byte for byte up to
  the first NUL, whatever follows it, and the rest is left untouched.\<close>

theorem escaped_string_read_back: "json_string (json_escape s @ rest) = Some (c_str s, rest)"
  by (rule json_string_escape)

text \<open>An ignored value may nest arrays exactly 256 deep: 256 are skipped as a whole, with 257 the
  request is refused, whatever follows, so that no input drives the recursion further.\<close>

theorem nesting_is_bounded:
  assumes "0 < k"
  shows "json_skip_value (replicate k CHR ''['' @ replicate k CHR '']'' @ r) = (if k \<le> 256 then Some r else None)"
proof (cases "k \<le> 256")
  case True
  then show ?thesis
    using nesting_ok [of k 0 r] assms by (simp add: json_skip_value_def JSON_MAX_NESTING_def)
next
  case False
  then have "replicate k CHR ''['' = replicate 257 CHR ''['' @ replicate (k - 257) CHR ''[''"
    by (subst replicate_add [symmetric]) simp
  then show ?thesis
    using nesting_too_deep [of 0 "replicate (k - 257) CHR ''['' @ replicate k CHR '']'' @ r"] False
    by (simp add: json_skip_value_def JSON_MAX_NESTING_def)
qed

lemma nesting_is_bounded_witness:
  "json_skip_value (replicate 3 CHR ''['' @ replicate 3 CHR '']'' @ '','') = Some '',''"
  using nesting_is_bounded [of 3 "'',''"] by simp

text \<open>An escape that follows an unpaired high surrogate is swallowed: of the two escaped characters
  of the string only the first is left (as the three bytes of the lone surrogate), the letter A of
  the second is gone.\<close>

theorem unpaired_surrogate_swallows_escape:
  "json_string ([CHR 0x22, CHR 0x5c] @ ''ud800'' @ [CHR 0x5c] @ ''u0041'' @ [CHR 0x22])
     = Some ([CHR 0xed, CHR 0xa0, CHR 0x80], [])"
  by code_simp

section \<open>Stop sequences and characters\<close>

lemma stream_holds_stop_witness:
  "stop_list_stream_safe_len \<lparr>stop_v = [''END''], stop_max_len = 3\<rparr> (length ''abE'') \<le> 2"
proof -
  have "parse_stop ([CHR 0x22] @ ''END'' @ [CHR 0x22]) = Some (\<lparr>stop_v = [''END''], stop_max_len = 3\<rparr>, [])"
    by code_simp
  moreover have "stop_list_find_from \<lparr>stop_v = [''END''], stop_max_len = 3\<rparr> ''abE'' 0 = None" by code_simp
  moreover have "stop_list_find_from \<lparr>stop_v = [''END''], stop_max_len = 3\<rparr> (''abE'' @ ''ND'') 0 = Some (2, 3)" by code_simp
  ultimately show ?thesis by (intro stream_holds_stop [where start = 0 and rest = "''ND''" and len = 3]) simp_all
qed

lemma stream_whole_characters_witness:
  "utf8_stream_safe_len (''x'' @ concat [''y''] @ [CHR 0xe2, CHR 0x82]) (length ''x'')
     (length (''x'' @ concat [''y''] @ [CHR 0xe2, CHR 0x82])) False = length (''x'' @ concat [''y''])"
proof (rule stream_whole_characters [where missing = "[CHR 0xac]"])
  show "\<forall>w \<in> set [''y'']. utf8_char w" by code_simp
  show "utf8_char ([CHR 0xe2, CHR 0x82] @ [CHR 0xac])" by code_simp
qed simp

section \<open>The tracker of tool calls\<close>

definition example_open :: bytes where
  "example_open = ''<tool_calls><invoke name='' @ quoted ''f'' @ ''><parameter name='' @ quoted ''a'' @ '' string='' @ quoted ''true'' @ ''>x''"

definition example_close :: bytes where
  "example_close = ''/parameter></invoke></tool_calls>''"

lemma tracker_ignores_cuts_witness:
  "track_pieces [] dsml_decode_tracker_init [''<tool_'', ''calls>'']
     = dsml_decode_tracker_update (concat [''<tool_'', ''calls>'']) dsml_decode_tracker_init"
  by (rule tracker_ignores_cuts) (simp_all add: clean_cut_def)

text \<open>The cut that matters: when a token ends right after the \<open><\<close> of a closing tag, the tracker has
  already stepped over it and never sees the tag.  It reports the payload of a string argument to
  the end of the generation, although the whole text has closed the call: the syntax that follows
  is sampled as payload.\<close>

theorem cut_after_lt_misses_close:
  "dt_decode (track_pieces [] dsml_decode_tracker_init [example_open @ ''<'', example_close]) = String_body
   \<and> dt_decode (dsml_decode_tracker_update (concat [example_open @ ''<'', example_close]) dsml_decode_tracker_init) = Outside
   \<and> dt_mode (dsml_decode_tracker_update (concat [example_open @ ''<'', example_close]) dsml_decode_tracker_init) = Track_done"
  by code_simp

lemma streamed_text_hides_tool_block_witness:
  "text_stream_safe_limit ''ok <tool_'' 0 (length ''ok <tool_'') True False
     \<le> trim_tool_separator_ws (''ok <tool_'' @ ''calls>'') 0 (0 + 3)"
proof (rule streamed_text_hides_tool_block)
  show "find_any_tool_start (drop 0 (''ok <tool_'' @ ''calls>'')) = Some 3" by code_simp
qed simp

section \<open>Tool calls written and read\<close>

definition example_call :: "bytes \<Rightarrow> tool_call" where
  "example_call v = \<lparr>tc_id = None, tc_name = Some ''f'', tc_arguments = Some (''{'' @ quoted ''a'' @ '':'' @ quoted v @ ''}'')\<rparr>"

definition example_calls :: "bytes \<Rightarrow> tool_calls" where
  "example_calls v = \<lparr>calls_v = [example_call v], raw_dsml = None\<rparr>"





end
