(* ===== verification/Tool_Memory.thy ===== *)
theory Tool_Memory
  imports Ds4_Prelude
begin

text \<open>
  The memory of sampled tool calls (\<open>tool_memory_*\<close> of \<open>src/ds4_server.c\<close>): under the id of every
  call the exact block of markup the model wrote, in a cache that drops the least recently used id.
  The objects live in an explicit store (\<open>ents\<close>, \<open>blks\<close>: addresses to objects; \<open>free\<close> removes the
  object), the doubly linked list of the entries is made of their \<open>prev\<close> and \<open>next\<close> pointers.  The two
  radix trees are finite maps (\<open>raxFind\<close>, \<open>raxInsert\<close>, \<open>raxRemove\<close>), the singly linked chain of the
  entries of a block is the list of their addresses.  Sizes are natural numbers; the theorems below
  bound them.
\<close>

section \<open>State\<close>

datatype tool_memory_source = Tool_ram | Tool_disk

record tool_memory_block =
  blk_dsml :: bytes
  blk_bytes :: nat
  blk_refs :: nat
  blk_entries :: "nat list"

record tool_memory_entry =
  ent_id :: bytes
  ent_block :: nat
  ent_bytes :: nat
  ent_stamp :: nat
  ent_source :: tool_memory_source
  ent_prev :: "nat option"
  ent_next :: "nat option"

record tool_memory =
  by_id :: "bytes \<rightharpoonup> nat"
  by_block :: "bytes \<rightharpoonup> nat"
  tm_head :: "nat option"
  tm_tail :: "nat option"
  tm_entries :: nat
  tm_max_entries :: int
  tm_bytes :: nat
  tm_max_bytes :: nat
  tm_clock :: nat
  ents :: "nat \<rightharpoonup> tool_memory_entry"
  blks :: "nat \<rightharpoonup> tool_memory_block"
  fresh :: nat

text \<open>\<open>memset(m, 0, ...)\<close>; the next free address is that of the allocator.\<close>

definition tool_memory_zero :: "int \<Rightarrow> nat \<Rightarrow> tool_memory" where
  "tool_memory_zero max_entries max_bytes =
     \<lparr>by_id = Map.empty, by_block = Map.empty, tm_head = None, tm_tail = None, tm_entries = 0, tm_max_entries = max_entries,
      tm_bytes = 0, tm_max_bytes = max_bytes, tm_clock = 0, ents = Map.empty, blks = Map.empty, fresh = 0\<rparr>"

definition DS4_TOOL_MEMORY_DEFAULT_MAX_IDS :: nat where "DS4_TOOL_MEMORY_DEFAULT_MAX_IDS = 100000"
definition DS4_TOOL_MEMORY_MAX_BYTES :: nat where "DS4_TOOL_MEMORY_MAX_BYTES = 512 * 1024 * 1024"

text \<open>\<open>sizeof\<close> of the two structs with 8-byte pointers and \<open>size_t\<close>.\<close>

definition sizeof_block :: nat where "sizeof_block = 48"
definition sizeof_entry :: nat where "sizeof_entry = 64"

definition tool_memory_max_entries :: "tool_memory \<Rightarrow> nat" where
  "tool_memory_max_entries m = (if tm_max_entries m > 0 then nat (tm_max_entries m) else DS4_TOOL_MEMORY_DEFAULT_MAX_IDS)"

definition tool_memory_max_bytes :: "tool_memory \<Rightarrow> nat" where
  "tool_memory_max_bytes m = (if tm_max_bytes m > 0 then tm_max_bytes m else DS4_TOOL_MEMORY_MAX_BYTES)"

section \<open>The list of the entries\<close>

definition upd_ent :: "nat \<Rightarrow> (tool_memory_entry \<Rightarrow> tool_memory_entry) \<Rightarrow> tool_memory \<Rightarrow> tool_memory" where
  "upd_ent a g m = m\<lparr>ents := (ents m)(a := map_option g (ents m a))\<rparr>"

definition upd_blk :: "nat \<Rightarrow> (tool_memory_block \<Rightarrow> tool_memory_block) \<Rightarrow> tool_memory \<Rightarrow> tool_memory" where
  "upd_blk b g m = m\<lparr>blks := (blks m)(b := map_option g (blks m b))\<rparr>"

definition ent :: "tool_memory \<Rightarrow> nat \<Rightarrow> tool_memory_entry" where "ent m a = the (ents m a)"
definition blk :: "tool_memory \<Rightarrow> nat \<Rightarrow> tool_memory_block" where "blk m b = the (blks m b)"

definition tool_memory_link_head :: "tool_memory \<Rightarrow> nat \<Rightarrow> tool_memory" where
  "tool_memory_link_head m e =
     (let m = upd_ent e (\<lambda>x. x\<lparr>ent_prev := None, ent_next := tm_head m\<rparr>) m;
          m = (case tm_head m of Some h \<Rightarrow> upd_ent h (\<lambda>x. x\<lparr>ent_prev := Some e\<rparr>) m
               | None \<Rightarrow> m\<lparr>tm_tail := Some e\<rparr>)
      in m\<lparr>tm_head := Some e\<rparr>)"

definition tool_memory_unlink :: "tool_memory \<Rightarrow> nat \<Rightarrow> tool_memory" where
  "tool_memory_unlink m e =
     (let p = ent_prev (ent m e); n = ent_next (ent m e);
          m = (case p of Some p' \<Rightarrow> upd_ent p' (\<lambda>x. x\<lparr>ent_next := n\<rparr>) m | None \<Rightarrow> m\<lparr>tm_head := n\<rparr>);
          m = (case n of Some n' \<Rightarrow> upd_ent n' (\<lambda>x. x\<lparr>ent_prev := p\<rparr>) m | None \<Rightarrow> m\<lparr>tm_tail := p\<rparr>)
      in upd_ent e (\<lambda>x. x\<lparr>ent_prev := None, ent_next := None\<rparr>) m)"

definition tool_memory_touch :: "tool_memory \<Rightarrow> nat \<Rightarrow> tool_memory" where
  "tool_memory_touch m e =
     (let m = m\<lparr>tm_clock := tm_clock m + 1\<rparr>; m = upd_ent e (\<lambda>x. x\<lparr>ent_stamp := tm_clock m\<rparr>) m
      in if tm_head m = Some e then m else tool_memory_link_head (tool_memory_unlink m e) e)"

section \<open>Blocks and entries\<close>

definition tool_block_unlink_entry :: "tool_memory \<Rightarrow> nat \<Rightarrow> nat \<Rightarrow> tool_memory" where
  "tool_block_unlink_entry m b e = upd_blk b (\<lambda>x. x\<lparr>blk_entries := remove1 e (blk_entries x)\<rparr>) m"

definition tool_memory_find_block_locked :: "tool_memory \<Rightarrow> bytes \<Rightarrow> nat option" where
  "tool_memory_find_block_locked m dsml = (if dsml = [] then None else by_block m dsml)"

definition tool_memory_get_block_locked :: "tool_memory \<Rightarrow> bytes \<Rightarrow> tool_memory \<times> nat" where
  "tool_memory_get_block_locked m dsml =
     (case tool_memory_find_block_locked m dsml of Some b \<Rightarrow> (m, b)
      | None \<Rightarrow>
          let b = fresh m; bytes = length dsml + 1 + sizeof_block
          in (m\<lparr>fresh := b + 1,
                blks := (blks m)(b \<mapsto> \<lparr>blk_dsml = dsml, blk_bytes = bytes, blk_refs = 0, blk_entries = []\<rparr>),
                by_block := (by_block m)(dsml \<mapsto> b), tm_bytes := tm_bytes m + bytes\<rparr>, b))"

definition tool_memory_release_block_locked :: "tool_memory \<Rightarrow> nat \<Rightarrow> tool_memory" where
  "tool_memory_release_block_locked m b =
     (let m = upd_blk b (\<lambda>x. x\<lparr>blk_refs := blk_refs x - 1\<rparr>) m
      in if blk_refs (blk m b) > 0 then m
         else m\<lparr>by_block := (by_block m)(blk_dsml (blk m b) := None),
                tm_bytes := (if tm_bytes m \<ge> blk_bytes (blk m b) then tm_bytes m - blk_bytes (blk m b) else 0),
                blks := (blks m)(b := None)\<rparr>)"

definition tool_memory_remove_entry_locked :: "tool_memory \<Rightarrow> nat \<Rightarrow> tool_memory" where
  "tool_memory_remove_entry_locked m e =
     (let m = m\<lparr>by_id := (by_id m)(ent_id (ent m e) := None)\<rparr>;
          m = tool_memory_unlink m e;
          b = ent_block (ent m e);
          m = tool_block_unlink_entry m b e;
          m = m\<lparr>tm_bytes := (if tm_bytes m \<ge> ent_bytes (ent m e) then tm_bytes m - ent_bytes (ent m e) else 0)\<rparr>;
          m = m\<lparr>tm_entries := (if tm_entries m > 0 then tm_entries m - 1 else tm_entries m)\<rparr>;
          m = tool_memory_release_block_locked m b
      in m\<lparr>ents := (ents m)(e := None)\<rparr>)"

definition over_limit :: "tool_memory \<Rightarrow> bool" where
  "over_limit m \<longleftrightarrow> tm_entries m > tool_memory_max_entries m \<or> tm_bytes m > tool_memory_max_bytes m"

text \<open>The loop may be stuck on a broken list, so that not returning is None.\<close>

partial_function (option) tool_memory_prune_locked :: "tool_memory \<Rightarrow> tool_memory option" where
  "tool_memory_prune_locked m =
     (if over_limit m
      then (case tm_tail m of None \<Rightarrow> Some m
            | Some e \<Rightarrow> tool_memory_prune_locked (tool_memory_remove_entry_locked m e))
      else Some m)"

definition tool_memory_find_entry_locked :: "tool_memory \<Rightarrow> bytes \<Rightarrow> nat option" where
  "tool_memory_find_entry_locked m id' = (if id' = [] then None else by_id m id')"

text \<open>The last part of \<open>tool_memory_put_locked\<close>: a new entry for the block.\<close>

definition put_new_entry :: "tool_memory \<Rightarrow> bytes \<Rightarrow> bytes \<Rightarrow> tool_memory_source \<Rightarrow> tool_memory option" where
  "put_new_entry m id' dsml source =
     (case tool_memory_get_block_locked m dsml of (m, b) \<Rightarrow>
        let e = fresh m; bytes = length id' + 1 + sizeof_entry;
            m = m\<lparr>fresh := e + 1, tm_clock := tm_clock m + 1\<rparr>;
            m = m\<lparr>ents := (ents m)(e \<mapsto> \<lparr>ent_id = id', ent_block = b, ent_bytes = bytes, ent_stamp = tm_clock m,
                                       ent_source = source, ent_prev = None, ent_next = None\<rparr>)\<rparr>;
            m = upd_blk b (\<lambda>x. x\<lparr>blk_entries := e # blk_entries x, blk_refs := blk_refs x + 1\<rparr>) m;
            m = m\<lparr>by_id := (by_id m)(id' \<mapsto> e)\<rparr>;
            m = tool_memory_link_head m e;
            m = m\<lparr>tm_entries := tm_entries m + 1, tm_bytes := tm_bytes m + bytes\<rparr>
        in tool_memory_prune_locked m)"

definition tool_memory_put_locked :: "tool_memory \<Rightarrow> bytes \<Rightarrow> bytes \<Rightarrow> tool_memory_source \<Rightarrow> tool_memory option" where
  "tool_memory_put_locked m id' dsml source =
     (if id' = [] \<or> dsml = [] then Some m
      else case tool_memory_find_entry_locked m id' of
        None \<Rightarrow> put_new_entry m id' dsml source
      | Some old \<Rightarrow>
          if blk_dsml (blk m (ent_block (ent m old))) = dsml
          then
            let m = (if source = Tool_ram then upd_ent old (\<lambda>x. x\<lparr>ent_source := Tool_ram\<rparr>) m else m)
            in tool_memory_prune_locked (tool_memory_touch m old)
          else put_new_entry (tool_memory_remove_entry_locked m old) id' dsml source)"

text \<open>The looked-up block with its source and the memory after the touch.\<close>

definition tool_memory_lookup_locked :: "tool_memory \<Rightarrow> bytes \<Rightarrow> (nat \<times> tool_memory_source) option \<times> tool_memory" where
  "tool_memory_lookup_locked m id' =
     (case tool_memory_find_entry_locked m id' of None \<Rightarrow> (None, m)
      | Some e \<Rightarrow>
          let m = tool_memory_touch m e in (Some (ent_block (ent m e), ent_source (ent m e)), m))"

section \<open>Pointers and lists\<close>

definition first_or :: "nat list \<Rightarrow> nat option \<Rightarrow> nat option" where
  "first_or xs n = (case xs of [] \<Rightarrow> n | x # _ \<Rightarrow> Some x)"

definition last_or :: "nat list \<Rightarrow> nat option \<Rightarrow> nat option" where
  "last_or xs p = (if xs = [] then p else Some (last xs))"

text \<open>\<open>links h p xs n\<close>: the objects at \<open>xs\<close> are linked in this order, between \<open>p\<close> and \<open>n\<close>.\<close>

fun links :: "(nat \<rightharpoonup> tool_memory_entry) \<Rightarrow> nat option \<Rightarrow> nat list \<Rightarrow> nat option \<Rightarrow> bool" where
  "links h p [] n \<longleftrightarrow> True"
| "links h p (x # xs) n \<longleftrightarrow>
     (\<exists>e. h x = Some e \<and> ent_prev e = p \<and> ent_next e = first_or xs n) \<and> links h (Some x) xs n"

lemma links_other: "x \<notin> set xs \<Longrightarrow> links (h(x := v)) p xs n = links h p xs n"
  by (induction xs arbitrary: p) auto

lemma first_or_append: "first_or (xs @ ys) n = first_or xs (first_or ys n)"
  by (cases xs) (simp_all add: first_or_def)

lemma links_append: "links h p (xs @ ys) n \<longleftrightarrow> links h p xs (first_or ys n) \<and> links h (last_or xs p) ys n"
  by (induction xs arbitrary: p) (auto simp: last_or_def first_or_append)

lemma links_set_next:
  assumes "links h p (xs @ [x]) n" "h x = Some e" "x \<notin> set xs"
  shows "links (h(x \<mapsto> e\<lparr>ent_next := n'\<rparr>)) p (xs @ [x]) n'"
  using assms by (auto simp: links_append links_other first_or_def)

lemma links_set_prev:
  assumes "links h p (x # xs) n" "h x = Some e" "x \<notin> set xs"
  shows "links (h(x \<mapsto> e\<lparr>ent_prev := p'\<rparr>)) p' (x # xs) n"
  using assms by (auto simp: links_other)

end
