(* ===== verification/Tool_Lru.thy ===== *)
theory Tool_Lru
  imports Tool_Memory
begin

text \<open>
  The memory of tool calls refines a list of (id, markup, source) in the order of use: the pointers,
  the two trees, the reference counts and the byte count agree with that list after every operation.
\<close>

section \<open>The doubly linked list\<close>

definition dll :: "tool_memory \<Rightarrow> nat list \<Rightarrow> bool" where
  "dll m xs \<longleftrightarrow> distinct xs \<and> links (ents m) None xs None \<and> tm_head m = first_or xs None \<and> tm_tail m = last_or xs None"

text \<open>Two memories that differ at most in the links.\<close>

definition unlinked :: "tool_memory_entry \<Rightarrow> tool_memory_entry" where
  "unlinked e = e\<lparr>ent_prev := None, ent_next := None\<rparr>"

definition same_data :: "tool_memory \<Rightarrow> tool_memory \<Rightarrow> bool" where
  "same_data m m' \<longleftrightarrow> m' = m\<lparr>tm_head := tm_head m', tm_tail := tm_tail m', ents := ents m'\<rparr>
     \<and> (\<forall>x. map_option unlinked (ents m' x) = map_option unlinked (ents m x))"

lemma links_mem: "links h p xs n \<Longrightarrow> x \<in> set xs \<Longrightarrow> h x \<noteq> None"
  by (induction xs arbitrary: p) auto

lemma dll_mem: "dll m xs \<Longrightarrow> x \<in> set xs \<Longrightarrow> \<exists>e. ents m x = Some e"
  using links_mem by (fastforce simp: dll_def)

lemma link_head_dll:
  assumes "dll m xs" "a \<notin> set xs" "ents m a = Some e"
  shows "dll (tool_memory_link_head m a) (a # xs)"
proof (cases xs)
  case Nil
  then show ?thesis using assms
    by (auto simp: dll_def tool_memory_link_head_def upd_ent_def first_or_def last_or_def Let_def)
next
  case (Cons h ys)
  obtain eh where h: "ents m h = Some eh" using dll_mem [OF assms(1), of h] Cons by auto
  have "links ((ents m)(h \<mapsto> eh\<lparr>ent_prev := Some a\<rparr>)) (Some a) (h # ys) None"
    using links_set_prev [of "ents m" None h ys None eh "Some a"] assms(1) h Cons by (simp add: dll_def)
  then have "links ((ents m)(h \<mapsto> eh\<lparr>ent_prev := Some a\<rparr>, a \<mapsto> e\<lparr>ent_prev := None, ent_next := Some h\<rparr>)) (Some a) (h # ys) None"
    using assms(2) Cons by (subst links_other) auto
  then show ?thesis using assms h Cons
    by (auto simp: dll_def tool_memory_link_head_def upd_ent_def first_or_def last_or_def Let_def fun_upd_twist)
qed

lemma link_head_same: "ents m a = Some e \<Longrightarrow> same_data m (tool_memory_link_head m a)"
  by (auto simp: same_data_def tool_memory_link_head_def upd_ent_def unlinked_def [abs_def] Let_def option.map_comp comp_def
      split: option.split)

lemma unlink_dll:
  assumes "dll m (us @ a # vs)"
  shows "dll (tool_memory_unlink m a) (us @ vs)"
proof -
  have l: "links (ents m) None us (Some a)" "links (ents m) (Some a) vs None"
    and dist: "distinct us" "distinct vs" "a \<notin> set us" "a \<notin> set vs" "set us \<inter> set vs = {}"
    and hd: "tm_head m = first_or (us @ a # vs) None" "tm_tail m = last_or (us @ a # vs) None"
    using assms by (auto simp: dll_def links_append first_or_def)
  obtain e where e: "ents m a = Some e" "ent_prev e = last_or us None" "ent_next e = first_or vs None"
    using assms by (auto simp: dll_def links_append)
  define h1 where "h1 = (case last_or us None of Some p' \<Rightarrow> (ents m)(p' := map_option (\<lambda>x. x\<lparr>ent_next := first_or vs None\<rparr>) (ents m p')) | None \<Rightarrow> ents m)"
  define h2 where "h2 = (case first_or vs None of Some n' \<Rightarrow> h1(n' := map_option (\<lambda>x. x\<lparr>ent_prev := last_or us None\<rparr>) (h1 n')) | None \<Rightarrow> h1)"
  have u1: "links h1 None us (first_or vs None)"
  proof (cases us rule: rev_cases)
    case (snoc ws w)
    obtain ew where w: "ents m w = Some ew" using links_mem [OF l(1), of w] snoc by auto
    show ?thesis using links_set_next [of "ents m" None ws w "Some a" ew "first_or vs None"] l(1) w dist(1) snoc
      by (simp add: h1_def last_or_def)
  qed (simp add: h1_def)
  have v1: "links h1 (Some a) vs None"
  proof -
    have "last us \<notin> set vs" if "us \<noteq> []" using that dist(5) last_in_set by blast
    then show ?thesis using l(2) by (auto simp: h1_def last_or_def links_other)
  qed
  have u2: "links h2 None us (first_or vs None)"
    using u1 dist(5) by (cases vs) (auto simp: h2_def first_or_def links_other)
  have v2: "links h2 (last_or us None) vs None"
  proof (cases vs)
    case (Cons v ws)
    obtain ev where v: "h1 v = Some ev" using links_mem [OF v1, of v] Cons by auto
    show ?thesis using links_set_prev [of h1 "Some a" v ws None ev "last_or us None"] v1 v dist(2) Cons
      by (simp add: h2_def first_or_def)
  qed simp
  have "links (h2(a := z)) None (us @ vs) None" for z
    using u2 v2 dist(3,4) by (simp add: links_append links_other)
  moreover have "ents (tool_memory_unlink m a) = h2(a := map_option (\<lambda>x. x\<lparr>ent_prev := None, ent_next := None\<rparr>) (h2 a))"
    by (simp add: tool_memory_unlink_def ent_def e upd_ent_def Let_def h1_def h2_def split: option.split)
  moreover have "tm_head (tool_memory_unlink m a) = first_or (us @ vs) None" "tm_tail (tool_memory_unlink m a) = last_or (us @ vs) None"
    using hd by (auto simp: tool_memory_unlink_def ent_def e upd_ent_def Let_def first_or_append last_or_def first_or_def
        split: option.split list.split)
  ultimately show ?thesis using dist by (simp add: dll_def)
qed

lemma unlink_same: "same_data m (tool_memory_unlink m a)"
  by (auto simp: same_data_def tool_memory_unlink_def upd_ent_def unlinked_def [abs_def] Let_def option.map_comp comp_def
      split: option.split)


section \<open>The objects\<close>

text \<open>\<open>objects m A\<close>: the entries at \<open>A\<close> and the blocks, with the trees, the counts and the byte count.\<close>

definition objects :: "tool_memory \<Rightarrow> nat set \<Rightarrow> bool" where
  "objects m A \<longleftrightarrow>
     dom (ents m) = A \<and> finite A \<and> finite (dom (blks m))
     \<and> (\<forall>i a. by_id m i = Some a \<longleftrightarrow> a \<in> A \<and> ent_id (ent m a) = i)
     \<and> (\<forall>d b. by_block m d = Some b \<longleftrightarrow> b \<in> dom (blks m) \<and> blk_dsml (blk m b) = d)
     \<and> (\<forall>a \<in> A. ent_id (ent m a) \<noteq> [] \<and> ent_block (ent m a) \<in> dom (blks m)
          \<and> ent_bytes (ent m a) = length (ent_id (ent m a)) + 1 + sizeof_entry \<and> a < fresh m)
     \<and> (\<forall>b \<in> dom (blks m). blk_dsml (blk m b) \<noteq> [] \<and> distinct (blk_entries (blk m b))
          \<and> set (blk_entries (blk m b)) = {a \<in> A. ent_block (ent m a) = b}
          \<and> blk_refs (blk m b) = length (blk_entries (blk m b)) \<and> blk_refs (blk m b) > 0
          \<and> blk_bytes (blk m b) = length (blk_dsml (blk m b)) + 1 + sizeof_block \<and> b < fresh m)
     \<and> tm_bytes m = (\<Sum>a\<in>A. ent_bytes (ent m a)) + (\<Sum>b\<in>dom (blks m). blk_bytes (blk m b))
     \<and> tm_entries m = card A"

lemma same_ent:
  assumes "same_data m m'"
  shows "dom (ents m') = dom (ents m)"
    and "a \<in> dom (ents m) \<Longrightarrow> ent_id (ent m' a) = ent_id (ent m a) \<and> ent_block (ent m' a) = ent_block (ent m a)
      \<and> ent_bytes (ent m' a) = ent_bytes (ent m a) \<and> ent_source (ent m' a) = ent_source (ent m a)"
    and "by_id m' = by_id m \<and> by_block m' = by_block m \<and> blks m' = blks m \<and> fresh m' = fresh m \<and> tm_bytes m' = tm_bytes m
      \<and> tm_entries m' = tm_entries m \<and> tm_clock m' = tm_clock m \<and> tm_max_entries m' = tm_max_entries m \<and> tm_max_bytes m' = tm_max_bytes m"
proof -
  have s: "m' = m\<lparr>tm_head := tm_head m', tm_tail := tm_tail m', ents := ents m'\<rparr>"
    and e: "map_option unlinked (ents m' x) = map_option unlinked (ents m x)" for x
    using assms unfolding same_data_def by blast+
  have "ents m' x = None \<longleftrightarrow> ents m x = None" for x using e [of x] by (metis map_option_is_None)
  then show "dom (ents m') = dom (ents m)" by (simp add: dom_def)
  show "by_id m' = by_id m \<and> by_block m' = by_block m \<and> blks m' = blks m \<and> fresh m' = fresh m \<and> tm_bytes m' = tm_bytes m
      \<and> tm_entries m' = tm_entries m \<and> tm_clock m' = tm_clock m \<and> tm_max_entries m' = tm_max_entries m \<and> tm_max_bytes m' = tm_max_bytes m"
    by (subst (1 2 3 4 5 6 7 8 9) s) simp
  assume "a \<in> dom (ents m)"
  then obtain x where x: "ents m a = Some x" by auto
  then obtain y where y: "ents m' a = Some y" "unlinked y = unlinked x" using e [of a] by auto
  then have "ent_id (unlinked y) = ent_id (unlinked x)" "ent_block (unlinked y) = ent_block (unlinked x)"
    "ent_bytes (unlinked y) = ent_bytes (unlinked x)" "ent_source (unlinked y) = ent_source (unlinked x)" by simp_all
  then show "ent_id (ent m' a) = ent_id (ent m a) \<and> ent_block (ent m' a) = ent_block (ent m a)
      \<and> ent_bytes (ent m' a) = ent_bytes (ent m a) \<and> ent_source (ent m' a) = ent_source (ent m a)"
    using x y(1) by (simp add: ent_def unlinked_def)
qed

lemma objects_same:
  assumes "same_data m m'" "objects m A"
  shows "objects m' A"
proof -
  note s = same_ent [OF assms(1)]
  have dom: "dom (ents m) = A" using assms(2) by (simp add: objects_def)
  have e: "ent_id (ent m' a) = ent_id (ent m a)" "ent_block (ent m' a) = ent_block (ent m a)"
    "ent_bytes (ent m' a) = ent_bytes (ent m a)" if "a \<in> A" for a using s(2) [of a] dom that by auto
  have i: "(a \<in> A \<and> ent_id (ent m' a) = i) = (a \<in> A \<and> ent_id (ent m a) = i)" for a i using e by auto
  have b: "{a \<in> A. ent_block (ent m' a) = b} = {a \<in> A. ent_block (ent m a) = b}" for b using e by auto
  have t: "(\<Sum>a\<in>A. ent_bytes (ent m' a)) = (\<Sum>a\<in>A. ent_bytes (ent m a))" using e by (intro sum.cong) auto
  have k: "blk m' = blk m" using s(3) by (simp add: blk_def fun_eq_iff)
  have q: "by_id m' = by_id m" "by_block m' = by_block m" "blks m' = blks m" "fresh m' = fresh m" "tm_bytes m' = tm_bytes m"
    "tm_entries m' = tm_entries m" using s(3) by blast+
  have a: "\<forall>a \<in> A. ent_id (ent m' a) \<noteq> [] \<and> ent_block (ent m' a) \<in> dom (blks m)
          \<and> ent_bytes (ent m' a) = length (ent_id (ent m' a)) + 1 + sizeof_entry \<and> a < fresh m"
    using assms(2) e unfolding objects_def by simp
  show ?thesis
    using assms(2) unfolding objects_def i b t k s(1) q by (elim conjE) (intro conjI a, assumption+)
qed

text \<open>The state seen as a list.\<close>

type_synonym lru = "(bytes \<times> bytes \<times> tool_memory_source) list"

definition cell :: "tool_memory \<Rightarrow> nat \<Rightarrow> bytes \<times> bytes \<times> tool_memory_source" where
  "cell m a = (ent_id (ent m a), blk_dsml (blk m (ent_block (ent m a))), ent_source (ent m a))"

text \<open>\<open>represents m xs\<close>: the memory is consistent and its list is made of the entries at \<open>xs\<close>, the latest
  used first; \<open>map (cell m) xs\<close> is the cache it stands for.\<close>

definition represents :: "tool_memory \<Rightarrow> nat list \<Rightarrow> bool" where
  "represents m xs \<longleftrightarrow> dll m xs \<and> objects m (set xs)"

definition lru_ids :: "lru \<Rightarrow> bytes list" where "lru_ids l = map fst l"
definition lru_blocks :: "lru \<Rightarrow> bytes list" where "lru_blocks l = map (fst \<circ> snd) l"

definition lru_bytes :: "lru \<Rightarrow> nat" where
  "lru_bytes l = (\<Sum>i\<leftarrow>lru_ids l. length i + 1 + sizeof_entry) + (\<Sum>d\<in>set (lru_blocks l). length d + 1 + sizeof_block)"

lemma objects_bytes:
  assumes "objects m (set xs)" "distinct xs"
  shows "tm_bytes m = lru_bytes (map (cell m) xs)" and "tm_entries m = length xs"
proof -
  note o = assms(1) [unfolded objects_def]
  have "(\<Sum>a\<in>set xs. ent_bytes (ent m a)) = (\<Sum>a\<leftarrow>xs. ent_bytes (ent m a))"
    using assms(2) by (simp add: sum_list_distinct_conv_sum_set)
  also have "\<dots> = (\<Sum>i\<leftarrow>lru_ids (map (cell m) xs). length i + 1 + sizeof_entry)"
    using o by (simp add: lru_ids_def cell_def comp_def cong: map_cong)
  finally have e: "(\<Sum>a\<in>set xs. ent_bytes (ent m a)) = (\<Sum>i\<leftarrow>lru_ids (map (cell m) xs). length i + 1 + sizeof_entry)" .
  have inj: "inj_on (\<lambda>b. blk_dsml (blk m b)) (dom (blks m))"
    using o by (intro inj_onI) (metis option.inject)
  have "(\<lambda>b. blk_dsml (blk m b)) ` dom (blks m) = set (lru_blocks (map (cell m) xs))"
  proof (intro equalityI subsetI)
    fix d assume "d \<in> (\<lambda>b. blk_dsml (blk m b)) ` dom (blks m)"
    then obtain b where b: "b \<in> dom (blks m)" "d = blk_dsml (blk m b)" by blast
    then have "length (blk_entries (blk m b)) \<noteq> 0" "set (blk_entries (blk m b)) = {a \<in> set xs. ent_block (ent m a) = b}" using o by (metis neq0_conv, metis)
    then obtain a where "a \<in> set xs" "ent_block (ent m a) = b" by (metis (mono_tags, lifting) length_0_conv list.set_intros(1) mem_Collect_eq neq_Nil_conv)
    then show "d \<in> set (lru_blocks (map (cell m) xs))" using b by (auto simp: lru_blocks_def cell_def)
  next
    fix d assume "d \<in> set (lru_blocks (map (cell m) xs))"
    then show "d \<in> (\<lambda>b. blk_dsml (blk m b)) ` dom (blks m)" using o by (auto simp: lru_blocks_def cell_def)
  qed
  then have "(\<Sum>d\<in>set (lru_blocks (map (cell m) xs)). length d + 1 + sizeof_block) = (\<Sum>b\<in>dom (blks m). length (blk_dsml (blk m b)) + 1 + sizeof_block)"
    using sum.reindex [OF inj, of "\<lambda>d. length d + 1 + sizeof_block"] by (simp add: comp_def)
  also have "\<dots> = (\<Sum>b\<in>dom (blks m). blk_bytes (blk m b))" using o by (intro sum.cong) auto
  finally show "tm_bytes m = lru_bytes (map (cell m) xs)" using o e by (simp add: lru_bytes_def)
  show "tm_entries m = length xs" using o assms(2) by (simp add: distinct_card)
qed

end
