(* ===== verification/Tool_Ops.thy ===== *)
theory Tool_Ops
  imports Tool_Lru
begin

text \<open>The operations of the memory of tool calls on its abstract list.\<close>

section \<open>Removing an entry\<close>

lemma objectsI:
  assumes "dom (ents m) = A" "finite A" "finite (dom (blks m))"
    "\<And>i a. by_id m i = Some a \<longleftrightarrow> a \<in> A \<and> ent_id (ent m a) = i"
    "\<And>d b. by_block m d = Some b \<longleftrightarrow> b \<in> dom (blks m) \<and> blk_dsml (blk m b) = d"
    "\<And>a. a \<in> A \<Longrightarrow> ent_id (ent m a) \<noteq> [] \<and> ent_block (ent m a) \<in> dom (blks m)
          \<and> ent_bytes (ent m a) = length (ent_id (ent m a)) + 1 + sizeof_entry \<and> a < fresh m"
    "\<And>b. b \<in> dom (blks m) \<Longrightarrow> blk_dsml (blk m b) \<noteq> [] \<and> distinct (blk_entries (blk m b))
          \<and> set (blk_entries (blk m b)) = {a \<in> A. ent_block (ent m a) = b}
          \<and> blk_refs (blk m b) = length (blk_entries (blk m b)) \<and> blk_refs (blk m b) > 0
          \<and> blk_bytes (blk m b) = length (blk_dsml (blk m b)) + 1 + sizeof_block \<and> b < fresh m"
    "tm_bytes m = (\<Sum>a\<in>A. ent_bytes (ent m a)) + (\<Sum>b\<in>dom (blks m). blk_bytes (blk m b))"
    "tm_entries m = card A"
  shows "objects m A"
  unfolding objects_def using assms by blast

lemma objectsD:
  assumes "objects m A"
  shows "dom (ents m) = A" "finite A" "finite (dom (blks m))"
    "by_id m i = Some a \<longleftrightarrow> a \<in> A \<and> ent_id (ent m a) = i"
    "by_block m d = Some b \<longleftrightarrow> b \<in> dom (blks m) \<and> blk_dsml (blk m b) = d"
    "a \<in> A \<Longrightarrow> ent_id (ent m a) \<noteq> []" "a \<in> A \<Longrightarrow> ent_block (ent m a) \<in> dom (blks m)"
    "a \<in> A \<Longrightarrow> ent_bytes (ent m a) = length (ent_id (ent m a)) + 1 + sizeof_entry" "a \<in> A \<Longrightarrow> a < fresh m"
    "b \<in> dom (blks m) \<Longrightarrow> blk_dsml (blk m b) \<noteq> []" "b \<in> dom (blks m) \<Longrightarrow> distinct (blk_entries (blk m b))"
    "b \<in> dom (blks m) \<Longrightarrow> set (blk_entries (blk m b)) = {a \<in> A. ent_block (ent m a) = b}"
    "b \<in> dom (blks m) \<Longrightarrow> blk_refs (blk m b) = length (blk_entries (blk m b))"
    "b \<in> dom (blks m) \<Longrightarrow> blk_refs (blk m b) > 0"
    "b \<in> dom (blks m) \<Longrightarrow> blk_bytes (blk m b) = length (blk_dsml (blk m b)) + 1 + sizeof_block"
    "b \<in> dom (blks m) \<Longrightarrow> b < fresh m"
    "tm_bytes m = (\<Sum>a\<in>A. ent_bytes (ent m a)) + (\<Sum>b\<in>dom (blks m). blk_bytes (blk m b))"
    "tm_entries m = card A"
  using assms unfolding objects_def by blast+

definition same_limits :: "tool_memory \<Rightarrow> tool_memory \<Rightarrow> bool" where
  "same_limits m m' \<longleftrightarrow> tm_max_entries m' = tm_max_entries m \<and> tm_max_bytes m' = tm_max_bytes m"

text \<open>What is left to do when the entry is out of the list of the entries.\<close>

definition drop_entry :: "tool_memory \<Rightarrow> nat \<Rightarrow> tool_memory" where
  "drop_entry m e =
     (let b = ent_block (ent m e);
          m = tool_block_unlink_entry m b e;
          m = m\<lparr>tm_bytes := (if tm_bytes m \<ge> ent_bytes (ent m e) then tm_bytes m - ent_bytes (ent m e) else 0)\<rparr>;
          m = m\<lparr>tm_entries := (if tm_entries m > 0 then tm_entries m - 1 else tm_entries m)\<rparr>;
          m = tool_memory_release_block_locked m b
      in m\<lparr>ents := (ents m)(e := None)\<rparr>)"

lemma remove_split:
  "tool_memory_remove_entry_locked m e = drop_entry (tool_memory_unlink (m\<lparr>by_id := (by_id m)(ent_id (ent m e) := None)\<rparr>) e) e"
  by (simp add: tool_memory_remove_entry_locked_def drop_entry_def Let_def)

lemma upd_blk_simps [simp]:
  "ents (upd_blk b g m) = ents m" "by_id (upd_blk b g m) = by_id m" "by_block (upd_blk b g m) = by_block m"
  "tm_head (upd_blk b g m) = tm_head m" "tm_tail (upd_blk b g m) = tm_tail m" "tm_entries (upd_blk b g m) = tm_entries m"
  "tm_bytes (upd_blk b g m) = tm_bytes m" "fresh (upd_blk b g m) = fresh m" "tm_max_entries (upd_blk b g m) = tm_max_entries m"
  "tm_max_bytes (upd_blk b g m) = tm_max_bytes m" "blks (upd_blk b g m) = (blks m)(b := map_option g (blks m b))"
  by (simp_all add: upd_blk_def)

lemma drop_entry_ents: "ents (drop_entry m e) = (ents m)(e := None)" "tm_head (drop_entry m e) = tm_head m"
  "tm_tail (drop_entry m e) = tm_tail m" "by_id (drop_entry m e) = by_id m" "fresh (drop_entry m e) = fresh m"
  "tm_entries (drop_entry m e) = tm_entries m - 1" "same_limits m (drop_entry m e)"
  by (simp_all add: drop_entry_def tool_block_unlink_entry_def tool_memory_release_block_locked_def Let_def same_limits_def)

lemma drop_entry_blocks:
  assumes "b = ent_block (ent m e)" "blks m b = Some x"
  shows "blk_refs x > 1 \<Longrightarrow> blks (drop_entry m e) = (blks m)(b \<mapsto> x\<lparr>blk_entries := remove1 e (blk_entries x), blk_refs := blk_refs x - 1\<rparr>)
      \<and> by_block (drop_entry m e) = by_block m \<and> (ent_bytes (ent m e) \<le> tm_bytes m \<longrightarrow> tm_bytes (drop_entry m e) = tm_bytes m - ent_bytes (ent m e))"
    and "blk_refs x = 1 \<Longrightarrow> blks (drop_entry m e) = (blks m)(b := None) \<and> by_block (drop_entry m e) = (by_block m)(blk_dsml x := None)
      \<and> (ent_bytes (ent m e) + blk_bytes x \<le> tm_bytes m \<longrightarrow> tm_bytes (drop_entry m e) = tm_bytes m - ent_bytes (ent m e) - blk_bytes x)"
  using assms
  by (auto simp: drop_entry_def tool_block_unlink_entry_def tool_memory_release_block_locked_def Let_def blk_def ent_def)

text \<open>The objects of the memory without one entry; the tree of the ids has lost it already.\<close>

lemma drop_entry_objects:
  assumes o: "objects m0 A" and s: "same_data (m0\<lparr>by_id := (by_id m0)(ent_id (ent m0 e) := None)\<rparr>) m" and e: "e \<in> A"
  shows "objects (drop_entry m e) (A - {e})"
    and "\<And>a. a \<in> A \<Longrightarrow> a \<noteq> e \<Longrightarrow> cell (drop_entry m e) a = cell m0 a"
proof -
  let ?m = "m0\<lparr>by_id := (by_id m0)(ent_id (ent m0 e) := None)\<rparr>"
  note d = objectsD [OF o]
  note sm = same_ent [OF s]
  have q: "by_id m = (by_id m0)(ent_id (ent m0 e) := None)" "by_block m = by_block m0" "blks m = blks m0" "fresh m = fresh m0"
    "tm_bytes m = tm_bytes m0" "tm_entries m = tm_entries m0" using sm(3) by auto
  have en: "ent_id (ent m a) = ent_id (ent m0 a) \<and> ent_block (ent m a) = ent_block (ent m0 a) \<and> ent_bytes (ent m a) = ent_bytes (ent m0 a)
      \<and> ent_source (ent m a) = ent_source (ent m0 a)" if "a \<in> A" for a
    using sm(2) [of a] d(1) that by (simp add: ent_def)
  let ?b = "ent_block (ent m0 e)"
  have b: "?b \<in> dom (blks m0)" using d(7) e by blast
  then obtain x where x: "blks m0 ?b = Some x" by auto
  have bx: "blk m0 ?b = x" by (simp add: blk_def x)
  have mb: "?b = ent_block (ent m e)" "blks m ?b = Some x" using en [OF e] q x by simp_all
  let ?m' = "drop_entry m e"
  note de = drop_entry_ents [of m e]
  have dom': "dom (ents ?m') = A - {e}" using de(1) sm(1) d(1) by auto
  have ent': "ent ?m' a = ent m a" if "a \<noteq> e" for a using de(1) that by (simp add: ent_def)
  have ids: "by_id ?m' i = Some a \<longleftrightarrow> a \<in> A - {e} \<and> ent_id (ent ?m' a) = i" for i a
  proof -
    have "by_id ?m' i = Some a \<longleftrightarrow> i \<noteq> ent_id (ent m0 e) \<and> by_id m0 i = Some a" using de(4) q(1) by auto
    also have "\<dots> \<longleftrightarrow> i \<noteq> ent_id (ent m0 e) \<and> a \<in> A \<and> ent_id (ent m0 a) = i" by (simp add: d(4))
    also have "\<dots> \<longleftrightarrow> a \<in> A - {e} \<and> ent_id (ent m0 a) = i" using d(4) e by (metis Diff_iff option.inject singletonD singletonI insertE)
    also have "\<dots> \<longleftrightarrow> a \<in> A - {e} \<and> ent_id (ent ?m' a) = i" using ent' en by auto
    finally show ?thesis .
  qed
  have sumE: "(\<Sum>a\<in>A. ent_bytes (ent m0 a)) = ent_bytes (ent m0 e) + (\<Sum>a\<in>A - {e}. ent_bytes (ent ?m' a))"
    using sum.remove [OF d(2) e, of "\<lambda>a. ent_bytes (ent m0 a)"] ent' en by simp
  have ents_ok: "ent_id (ent ?m' a) \<noteq> [] \<and> ent_bytes (ent ?m' a) = length (ent_id (ent ?m' a)) + 1 + sizeof_entry \<and> a < fresh ?m'
      \<and> ent_block (ent ?m' a) \<in> dom (blks m0)"
    if "a \<in> A - {e}" for a
    using that ent' [of a] en [of a] d(6,7,8,9) [of a] de(5) q(4) by simp
  have count: "tm_entries ?m' = card (A - {e})" using de(6) q(6) d(18) e d(2) by simp
  have refs: "blk_refs x = length (blk_entries x)" "blk_refs x > 0" "distinct (blk_entries x)"
    "set (blk_entries x) = {a \<in> A. ent_block (ent m0 a) = ?b}" "blk_bytes x = length (blk_dsml x) + 1 + sizeof_block"
    "?b < fresh m0" "blk_dsml x \<noteq> []"
    using d(10-16) [OF b] bx by auto
  have blk_other: "blk ?m' c = blk m0 c" if "c \<noteq> ?b" "blks ?m' = (blks m)(?b := v)" for c v
    using that q(3) by (simp add: blk_def)
  have set': "{a \<in> A - {e}. ent_block (ent ?m' a) = c} = {a \<in> A. ent_block (ent m0 a) = c} - {e}" for c
    using ent' en by auto
  show "objects ?m' (A - {e})"
  proof (cases "blk_refs x > 1")
    case True
    let ?x = "x\<lparr>blk_entries := remove1 e (blk_entries x), blk_refs := blk_refs x - 1\<rparr>"
    note db = drop_entry_blocks(1) [OF mb True]
    have blk': "blk ?m' ?b = ?x" using db by (simp add: blk_def)
    have doms: "dom (blks ?m') = dom (blks m0)" using db q(3) b by auto
    have same: "blk_dsml (blk ?m' c) = blk_dsml (blk m0 c)" "blk_bytes (blk ?m' c) = blk_bytes (blk m0 c)" for c
      using blk_other [of c] db blk' bx by (cases "c = ?b"; simp)+
    have in_e: "e \<in> set (blk_entries x)" using refs(4) e by simp
    show ?thesis
    proof (rule objectsI [OF dom' _ _ ids])
      show "by_block ?m' dd = Some c \<longleftrightarrow> c \<in> dom (blks ?m') \<and> blk_dsml (blk ?m' c) = dd" for dd c
        using db q(2) d(5) doms same by simp
      show "a \<in> A - {e} \<Longrightarrow> ent_id (ent ?m' a) \<noteq> [] \<and> ent_block (ent ?m' a) \<in> dom (blks ?m')
          \<and> ent_bytes (ent ?m' a) = length (ent_id (ent ?m' a)) + 1 + sizeof_entry \<and> a < fresh ?m'" for a
        using ents_ok [of a] doms by simp
      show "tm_bytes ?m' = (\<Sum>a\<in>A - {e}. ent_bytes (ent ?m' a)) + (\<Sum>b\<in>dom (blks ?m'). blk_bytes (blk ?m' b))"
      proof -
        have "(\<Sum>b\<in>dom (blks ?m'). blk_bytes (blk ?m' b)) = (\<Sum>b\<in>dom (blks m0). blk_bytes (blk m0 b))"
          by (simp only: doms same)
        moreover have "ent_bytes (ent m e) \<le> tm_bytes m" using q(5) d(17) sumE en [OF e] by simp
        then have "tm_bytes ?m' = tm_bytes m - ent_bytes (ent m e)" using db by blast
        ultimately show ?thesis using q(5) d(17) sumE en [OF e] by linarith
      qed
    next
      fix c assume c: "c \<in> dom (blks ?m')"
      show "blk_dsml (blk ?m' c) \<noteq> [] \<and> distinct (blk_entries (blk ?m' c))
          \<and> set (blk_entries (blk ?m' c)) = {a \<in> A - {e}. ent_block (ent ?m' a) = c}
          \<and> blk_refs (blk ?m' c) = length (blk_entries (blk ?m' c)) \<and> blk_refs (blk ?m' c) > 0
          \<and> blk_bytes (blk ?m' c) = length (blk_dsml (blk ?m' c)) + 1 + sizeof_block \<and> c < fresh ?m'"
      proof (cases "c = ?b")
        case True
        have r: "blk_entries ?x = remove1 e (blk_entries x)" "blk_dsml ?x = blk_dsml x" "blk_bytes ?x = blk_bytes x" by simp_all
        have "set (blk_entries ?x) = {a \<in> A - {e}. ent_block (ent ?m' a) = ?b}"
          using refs(3,4) by (simp only: set' set_remove1_eq r)
        moreover have "blk_refs ?x = length (blk_entries ?x)" "0 < blk_refs ?x"
          using refs(1) in_e \<open>1 < blk_refs x\<close> by (simp_all add: length_remove1)
        ultimately show ?thesis
          unfolding True blk' using refs(3,5,6,7) de(5) q(4) by (simp only: r distinct_remove1 not_False_eq_True simp_thms)
      next
        case False
        have "e \<notin> {a \<in> A. ent_block (ent m0 a) = c}" using False by auto
        then have s: "{a \<in> A - {e}. ent_block (ent ?m' a) = c} = {a \<in> A. ent_block (ent m0 a) = c}" unfolding set' by blast
        have k: "blk ?m' c = blk m0 c" using blk_other [OF False] db by blast
        have f: "fresh ?m' = fresh m0" using de(5) q(4) by simp
        have c0: "c \<in> dom (blks m0)" using c doms by blast
        show ?thesis unfolding k f s using d(10-16) [OF c0] by blast
      qed
    qed (use d(2,3) doms count in simp_all)
  next
    case False
    then have one: "blk_refs x = 1" using refs(2) by simp
    note db = drop_entry_blocks(2) [OF mb one]
    have doms: "dom (blks ?m') = dom (blks m0) - {?b}" using db q(3) by auto
    have only: "{a \<in> A. ent_block (ent m0 a) = ?b} = {e}"
    proof -
      have "card {a \<in> A. ent_block (ent m0 a) = ?b} = 1" using refs one by (metis distinct_card)
      then obtain y where y: "{a \<in> A. ent_block (ent m0 a) = ?b} = {y}" by (rule card_1_singletonE)
      have "e \<in> {a \<in> A. ent_block (ent m0 a) = ?b}" using e by simp
      then have "e = y" unfolding y by simp
      then show ?thesis using y by simp
    qed
    have other: "blk ?m' c = blk m0 c" if "c \<in> dom (blks ?m')" for c using that doms blk_other [of c] db by blast
    have sumB: "(\<Sum>c\<in>dom (blks m0). blk_bytes (blk m0 c)) = blk_bytes x + (\<Sum>c\<in>dom (blks ?m'). blk_bytes (blk ?m' c))"
      using sum.remove [OF d(3) b, of "\<lambda>c. blk_bytes (blk m0 c)"] bx other by (simp add: doms)
    show ?thesis
    proof (rule objectsI [OF dom' _ _ ids])
      show "by_block ?m' dd = Some c \<longleftrightarrow> c \<in> dom (blks ?m') \<and> blk_dsml (blk ?m' c) = dd" for dd c
      proof -
        have "by_block ?m' dd = Some c \<longleftrightarrow> dd \<noteq> blk_dsml x \<and> by_block m0 dd = Some c" using db q(2) by auto
        also have "\<dots> \<longleftrightarrow> c \<in> dom (blks ?m') \<and> blk_dsml (blk m0 c) = dd"
          using d(5) [of dd c] d(5) [of "blk_dsml x" ?b] b bx doms by (metis Diff_iff option.inject singletonD singletonI insertE d(5))
        also have "\<dots> \<longleftrightarrow> c \<in> dom (blks ?m') \<and> blk_dsml (blk ?m' c) = dd" using other [of c] by metis
        finally show ?thesis .
      qed
      show "a \<in> A - {e} \<Longrightarrow> ent_id (ent ?m' a) \<noteq> [] \<and> ent_block (ent ?m' a) \<in> dom (blks ?m')
          \<and> ent_bytes (ent ?m' a) = length (ent_id (ent ?m' a)) + 1 + sizeof_entry \<and> a < fresh ?m'" for a
        using ents_ok [of a] doms only ent' [of a] en [of a] by auto
      show "tm_bytes ?m' = (\<Sum>a\<in>A - {e}. ent_bytes (ent ?m' a)) + (\<Sum>b\<in>dom (blks ?m'). blk_bytes (blk ?m' b))"
        using db q(5) d(17) sumE sumB en [OF e] by simp
    next
      fix c assume c: "c \<in> dom (blks ?m')"
      then have "c \<noteq> ?b" "c \<in> dom (blks m0)" using doms by auto
      then have "e \<notin> {a \<in> A. ent_block (ent m0 a) = c}" by auto
      then have s: "{a \<in> A - {e}. ent_block (ent ?m' a) = c} = {a \<in> A. ent_block (ent m0 a) = c}" unfolding set' by blast
      have f: "fresh ?m' = fresh m0" using de(5) q(4) by simp
      show "blk_dsml (blk ?m' c) \<noteq> [] \<and> distinct (blk_entries (blk ?m' c))
          \<and> set (blk_entries (blk ?m' c)) = {a \<in> A - {e}. ent_block (ent ?m' a) = c}
          \<and> blk_refs (blk ?m' c) = length (blk_entries (blk ?m' c)) \<and> blk_refs (blk ?m' c) > 0
          \<and> blk_bytes (blk ?m' c) = length (blk_dsml (blk ?m' c)) + 1 + sizeof_block \<and> c < fresh ?m'"
        unfolding other [OF c] s f using d(10-16) [OF \<open>c \<in> dom (blks m0)\<close>] by blast
    qed (use d(2,3) doms count in simp_all)
  qed
  show "cell ?m' a = cell m0 a" if "a \<in> A" "a \<noteq> e" for a
  proof -
    have "blk_dsml (blk ?m' (ent_block (ent m0 a))) = blk_dsml (blk m0 (ent_block (ent m0 a)))"
    proof (cases "blk_refs x > 1")
      case True
      then show ?thesis using drop_entry_blocks(1) [OF mb True] bx q(3) by (simp add: blk_def)
    next
      case False
      then have one: "blk_refs x = 1" using refs(2) by simp
      have "card {a \<in> A. ent_block (ent m0 a) = ?b} = 1" using refs one by (metis distinct_card)
      then obtain y where y: "{a \<in> A. ent_block (ent m0 a) = ?b} = {y}" by (rule card_1_singletonE)
      have "ent_block (ent m0 a) \<noteq> ?b"
      proof
        assume "ent_block (ent m0 a) = ?b"
        then have "a \<in> {a \<in> A. ent_block (ent m0 a) = ?b}" "e \<in> {a \<in> A. ent_block (ent m0 a) = ?b}" using that e by simp_all
        then show False unfolding y using that(2) by simp
      qed
      then show ?thesis using drop_entry_blocks(2) [OF mb one] q(3) by (simp add: blk_def)
    qed
    then show ?thesis using that ent' [of a] en [of a] by (simp add: cell_def)
  qed
qed


lemma cell_same: "same_data m m' \<Longrightarrow> a \<in> dom (ents m) \<Longrightarrow> cell m' a = cell m a"
  using same_ent [of m m'] by (simp add: cell_def blk_def)

lemma same_limits_data: "same_data m m' \<Longrightarrow> same_limits m m'"
  using same_ent(3) by (simp add: same_limits_def)

lemma remove_represents:
  assumes "represents m (us @ e # vs)"
  shows "represents (tool_memory_remove_entry_locked m e) (us @ vs)"
    and "\<And>a. a \<in> set (us @ vs) \<Longrightarrow> cell (tool_memory_remove_entry_locked m e) a = cell m a"
    and "same_limits m (tool_memory_remove_entry_locked m e)"
proof -
  let ?m0 = "m\<lparr>by_id := (by_id m)(ent_id (ent m e) := None)\<rparr>"
  let ?m1 = "tool_memory_unlink ?m0 e"
  have d: "dll ?m0 (us @ e # vs)" and o: "objects m (set (us @ e # vs))" using assms by (auto simp: represents_def dll_def)
  have same: "same_data ?m0 ?m1" by (rule unlink_same)
  have dist: "e \<notin> set (us @ vs)" using d by (auto simp: dll_def)
  have A: "set (us @ e # vs) - {e} = set (us @ vs)" using dist by auto
  note ob = drop_entry_objects [OF o same, unfolded A]
  have "dll (drop_entry ?m1 e) (us @ vs)"
    using unlink_dll [OF d] dist drop_entry_ents(1-3) [of ?m1 e] by (simp add: dll_def links_other)
  then show "represents (tool_memory_remove_entry_locked m e) (us @ vs)"
    using ob(1) by (simp add: represents_def remove_split)
  show "cell (tool_memory_remove_entry_locked m e) a = cell m a" if "a \<in> set (us @ vs)" for a
    using ob(2) [of a] that dist by (auto simp: remove_split)
  show "same_limits m (tool_memory_remove_entry_locked m e)"
    using drop_entry_ents(7) [of ?m1 e] same_limits_data [OF same] by (simp add: same_limits_def remove_split)
qed

section \<open>Pruning\<close>

text \<open>The abstract memory: the oldest ids are dropped while there are too many of them, or they and
  their blocks have too many bytes.\<close>

function lru_trim :: "nat \<Rightarrow> nat \<Rightarrow> lru \<Rightarrow> lru" where
  "lru_trim n k l = (if l \<noteq> [] \<and> (length l > n \<or> lru_bytes l > k) then lru_trim n k (butlast l) else l)"
  by auto
termination by (relation "measure (\<lambda>(n, k, l). length l)") auto

declare lru_trim.simps [simp del]

definition lru_of :: "tool_memory \<Rightarrow> nat list \<Rightarrow> lru" where
  "lru_of m xs = map (cell m) xs"

lemma prune_refines:
  assumes "represents m xs"
  shows "\<exists>m' ys. tool_memory_prune_locked m = Some m' \<and> represents m' ys \<and> same_limits m m'
    \<and> lru_of m' ys = lru_trim (tool_memory_max_entries m) (tool_memory_max_bytes m) (lru_of m xs)"
  using assms
proof (induction xs arbitrary: m rule: rev_induct)
  case Nil
  then have t: "tm_tail m = None" by (simp add: represents_def dll_def last_or_def)
  have "tool_memory_prune_locked m = Some m" by (subst tool_memory_prune_locked.simps) (simp add: t)
  then show ?case using Nil by (auto simp: lru_of_def same_limits_def lru_trim.simps [of _ _ "[]"])
next
  case (snoc e us)
  have o: "objects m (set (us @ [e]))" "distinct (us @ [e])" using snoc.prems by (simp_all add: represents_def dll_def)
  note ob = objects_bytes [OF o]
  let ?n = "tool_memory_max_entries m" let ?k = "tool_memory_max_bytes m"
  let ?l = "lru_of m (us @ [e])"
  have t: "tm_tail m = Some e" using snoc.prems by (simp add: represents_def dll_def last_or_def)
  have over: "over_limit m \<longleftrightarrow> length ?l > ?n \<or> lru_bytes ?l > ?k"
    by (simp add: over_limit_def ob lru_of_def)
  show ?case
  proof (cases "over_limit m")
    case False
    then have "tool_memory_prune_locked m = Some m" by (subst tool_memory_prune_locked.simps) simp
    moreover have "lru_trim ?n ?k ?l = ?l" using False over by (subst lru_trim.simps) simp
    ultimately show ?thesis using snoc.prems by (auto simp: same_limits_def)
  next
    case True
    let ?r = "tool_memory_remove_entry_locked m e"
    have r: "represents ?r us" "\<And>a. a \<in> set us \<Longrightarrow> cell ?r a = cell m a" "same_limits m ?r"
      using remove_represents [of m us e "[]"] snoc.prems by auto
    have "tool_memory_prune_locked m = tool_memory_prune_locked ?r"
      using True t by (subst tool_memory_prune_locked.simps) simp
    moreover have "lru_trim ?n ?k ?l = lru_trim ?n ?k (lru_of ?r us)"
    proof -
      have "lru_trim ?n ?k ?l = lru_trim ?n ?k (butlast ?l)"
        using True over by (subst lru_trim.simps) (simp add: lru_of_def)
      moreover have "butlast ?l = lru_of ?r us" using r(2) by (simp add: lru_of_def butlast_append)
      ultimately show ?thesis by simp
    qed
    moreover have "tool_memory_max_entries ?r = ?n" "tool_memory_max_bytes ?r = ?k"
      using r(3) by (simp_all add: same_limits_def tool_memory_max_entries_def tool_memory_max_bytes_def)
    moreover have "same_limits ?r m' \<Longrightarrow> same_limits m m'" for m' using r(3) by (simp add: same_limits_def)
    ultimately show ?thesis using snoc.IH [OF r(1)] by metis
  qed
qed

section \<open>Touching\<close>

lemma touch_represents:
  assumes "represents m (us @ e # vs)"
  shows "represents (tool_memory_touch m e) (e # us @ vs)"
    and "\<And>a. a \<in> set (us @ e # vs) \<Longrightarrow> cell (tool_memory_touch m e) a = cell m a"
    and "same_limits m (tool_memory_touch m e)"
proof -
  let ?xs = "us @ e # vs"
  define m0 where "m0 = upd_ent e (\<lambda>x. x\<lparr>ent_stamp := tm_clock m + 1\<rparr>) (m\<lparr>tm_clock := tm_clock m + 1\<rparr>)"
  have o: "objects m (set ?xs)" and d: "dll m ?xs" using assms by (simp_all add: represents_def)
  obtain x where x: "ents m e = Some x" using dll_mem [OF d, of e] by auto
  have f: "ent_id (ent m0 a) = ent_id (ent m a)" "ent_block (ent m0 a) = ent_block (ent m a)" "ent_bytes (ent m0 a) = ent_bytes (ent m a)"
    "ent_source (ent m0 a) = ent_source (ent m a)" for a
    by (simp_all add: m0_def upd_ent_def ent_def x)
  have g: "by_id m0 = by_id m" "by_block m0 = by_block m" "blks m0 = blks m" "fresh m0 = fresh m" "tm_bytes m0 = tm_bytes m"
    "tm_entries m0 = tm_entries m" "tm_head m0 = tm_head m" "tm_tail m0 = tm_tail m" "same_limits m m0" "dom (ents m0) = dom (ents m)"
    by (auto simp: m0_def upd_ent_def same_limits_def x)
  have k: "blk m0 = blk m" using g(3) by (simp add: blk_def fun_eq_iff)
  have o0: "objects m0 (set ?xs)" using o unfolding objects_def f g k .
  have c0: "cell m0 a = cell m a" for a by (simp add: cell_def f k)
  have "links h p ys n \<Longrightarrow> h e = Some x \<Longrightarrow> links (h(e \<mapsto> x\<lparr>ent_stamp := s\<rparr>)) p ys n" for h p ys n s
    by (induction ys arbitrary: p) auto
  then have d0: "dll m0 ?xs" using d x by (simp add: dll_def g m0_def upd_ent_def)
  have t: "tool_memory_touch m e = (if tm_head m0 = Some e then m0 else tool_memory_link_head (tool_memory_unlink m0 e) e)"
    by (simp add: tool_memory_touch_def m0_def Let_def upd_ent_def)
  show "represents (tool_memory_touch m e) (e # us @ vs)"
    and "\<And>a. a \<in> set ?xs \<Longrightarrow> cell (tool_memory_touch m e) a = cell m a"
    and "same_limits m (tool_memory_touch m e)"
  proof -
    have *: "represents (tool_memory_touch m e) (e # us @ vs) \<and> (\<forall>a \<in> set ?xs. cell (tool_memory_touch m e) a = cell m a)
      \<and> same_limits m (tool_memory_touch m e)"
    proof (cases "tm_head m0 = Some e")
      case True
      have "us = []" using True d0 by (cases us) (auto simp: dll_def first_or_def)
      then show ?thesis using True t o0 d0 c0 g(9) by (simp add: represents_def)
    next
      case False
      let ?u = "tool_memory_unlink m0 e"
      have su: "same_data m0 ?u" by (rule unlink_same)
      have du: "dll ?u (us @ vs)" by (rule unlink_dll [OF d0])
      have dist: "e \<notin> set (us @ vs)" using d0 by (auto simp: dll_def)
      have dom: "dom (ents m0) = set ?xs" using o0 objectsD(1) by blast
      then have "e \<in> dom (ents ?u)" using same_ent(1) [OF su] by auto
      then obtain y where y: "ents ?u e = Some y" by blast
      have sl: "same_data ?u (tool_memory_link_head ?u e)" using link_head_same [OF y] .
      have "objects (tool_memory_link_head ?u e) (set (e # us @ vs))"
        using objects_same [OF sl objects_same [OF su o0]] by (simp add: insert_commute Un_commute)
      moreover have "dll (tool_memory_link_head ?u e) (e # us @ vs)" using link_head_dll [OF du dist y] .
      moreover have "\<forall>a \<in> set ?xs. cell (tool_memory_link_head ?u e) a = cell m a"
        using cell_same [OF sl] cell_same [OF su] c0 same_ent(1) [OF su] dom by auto
      moreover have "same_limits m (tool_memory_link_head ?u e)"
        using same_limits_data [OF sl] same_limits_data [OF su] g(9) by (simp add: same_limits_def)
      ultimately show ?thesis using t False by (simp add: represents_def)
    qed
    show "represents (tool_memory_touch m e) (e # us @ vs)" using * by blast
    show "\<And>a. a \<in> set ?xs \<Longrightarrow> cell (tool_memory_touch m e) a = cell m a" using * by blast
    show "same_limits m (tool_memory_touch m e)" using * by blast
  qed
qed

end
