(* ===== verification/Tool_Put.thy ===== *)
theory Tool_Put
  imports Tool_Ops
begin

text \<open>Inserting into and looking up in the memory of tool calls, and whole sequences of operations.\<close>

section \<open>A new entry\<close>

text \<open>The memory with the new entry and its block, before the entry is linked.\<close>

definition with_entry :: "tool_memory \<Rightarrow> bytes \<Rightarrow> bytes \<Rightarrow> tool_memory_source \<Rightarrow> tool_memory" where
  "with_entry m i d s =
     (case tool_memory_get_block_locked m d of (m1, b) \<Rightarrow>
        let e = fresh m1
        in m1\<lparr>fresh := e + 1, tm_clock := tm_clock m1 + 1,
              ents := (ents m1)(e \<mapsto> \<lparr>ent_id = i, ent_block = b, ent_bytes = length i + 1 + sizeof_entry, ent_stamp = tm_clock m1 + 1,
                                  ent_source = s, ent_prev = None, ent_next = None\<rparr>),
              blks := (blks m1)(b := map_option (\<lambda>x. x\<lparr>blk_entries := e # blk_entries x, blk_refs := blk_refs x + 1\<rparr>) (blks m1 b)),
              by_id := (by_id m1)(i \<mapsto> e), tm_entries := tm_entries m1 + 1, tm_bytes := tm_bytes m1 + (length i + 1 + sizeof_entry)\<rparr>)"

definition new_entry_at :: "tool_memory \<Rightarrow> bytes \<Rightarrow> nat" where
  "new_entry_at m d = fresh (fst (tool_memory_get_block_locked m d))"

lemma link_head_counts:
  "(tool_memory_link_head m e)\<lparr>tm_entries := n, tm_bytes := k\<rparr> = tool_memory_link_head (m\<lparr>tm_entries := n, tm_bytes := k\<rparr>) e"
  "tm_entries (tool_memory_link_head m e) = tm_entries m" "tm_bytes (tool_memory_link_head m e) = tm_bytes m"
  by (auto simp: tool_memory_link_head_def upd_ent_def Let_def split: option.split)

lemma put_new_split:
  "put_new_entry m i d s = tool_memory_prune_locked (tool_memory_link_head (with_entry m i d s) (new_entry_at m d))"
proof (cases "tool_memory_get_block_locked m d")
  case (Pair m1 b)
  show ?thesis
    unfolding put_new_entry_def with_entry_def new_entry_at_def Pair Let_def prod.case fst_conv
    by (rule arg_cong [where f = tool_memory_prune_locked])
      (simp add: link_head_counts, rule arg_cong2 [where f = tool_memory_link_head], simp_all add: upd_blk_def)
qed

text \<open>The block of the new entry: an old one with this text, or a new one.\<close>

lemma get_block_cases:
  assumes "objects m A" "d \<noteq> []" "tool_memory_get_block_locked m d = (m1, b)"
  obtains (old) x where "m1 = m" "blks m b = Some x" "blk_dsml x = d"
  | (new) "by_block m d = None" "b = fresh m" "b \<notin> dom (blks m)"
      "m1 = m\<lparr>fresh := b + 1,
              blks := (blks m)(b \<mapsto> \<lparr>blk_dsml = d, blk_bytes = length d + 1 + sizeof_block, blk_refs = 0, blk_entries = []\<rparr>),
              by_block := (by_block m)(d \<mapsto> b), tm_bytes := tm_bytes m + (length d + 1 + sizeof_block)\<rparr>"
proof (cases "by_block m d")
  case (Some b')
  then have "m1 = m" "b = b'" using assms(2,3) by (simp_all add: tool_memory_get_block_locked_def tool_memory_find_block_locked_def)
  moreover have "b' \<in> dom (blks m)" "blk_dsml (blk m b') = d" using objectsD(5) [OF assms(1)] Some by blast+
  ultimately show thesis using old by (auto simp: blk_def)
next
  case None
  have f: "fresh m \<notin> dom (blks m)" using objectsD(16) [OF assms(1)] by blast
  have "(m\<lparr>fresh := fresh m + 1,
              blks := (blks m)(fresh m \<mapsto> \<lparr>blk_dsml = d, blk_bytes = length d + 1 + sizeof_block, blk_refs = 0, blk_entries = []\<rparr>),
              by_block := (by_block m)(d \<mapsto> fresh m), tm_bytes := tm_bytes m + (length d + 1 + sizeof_block)\<rparr>, fresh m) = (m1, b)"
    by (subst assms(3) [symmetric]) (simp add: assms(2) None tool_memory_get_block_locked_def tool_memory_find_block_locked_def Let_def)
  then have m1: "m1 = m\<lparr>fresh := fresh m + 1,
              blks := (blks m)(fresh m \<mapsto> \<lparr>blk_dsml = d, blk_bytes = length d + 1 + sizeof_block, blk_refs = 0, blk_entries = []\<rparr>),
              by_block := (by_block m)(d \<mapsto> fresh m), tm_bytes := tm_bytes m + (length d + 1 + sizeof_block)\<rparr>"
    and b: "b = fresh m" by (metis prod.inject)+
  show thesis by (rule new [OF None b]) (simp_all add: b f m1)
qed

lemma with_entry_old:
  assumes o: "objects m A" and i: "i \<noteq> []" "\<And>a. a \<in> A \<Longrightarrow> ent_id (ent m a) \<noteq> i"
    and g: "tool_memory_get_block_locked m d = (m, b)" and x: "blks m b = Some x" "blk_dsml x = d"
  shows "objects (with_entry m i d s) (insert (fresh m) A)" and "cell (with_entry m i d s) (fresh m) = (i, d, s)"
    and "\<And>a. a \<in> A \<Longrightarrow> cell (with_entry m i d s) a = cell m a"
proof -
  let ?w = "with_entry m i d s" let ?e = "fresh m"
  let ?x = "x\<lparr>blk_entries := ?e # blk_entries x, blk_refs := blk_refs x + 1\<rparr>"
  note D = objectsD [OF o]
  have w: "blks ?w = (blks m)(b \<mapsto> ?x)" "by_id ?w = (by_id m)(i \<mapsto> ?e)" "by_block ?w = by_block m" "fresh ?w = fresh m + 1"
    "tm_bytes ?w = tm_bytes m + (length i + 1 + sizeof_entry)" "tm_entries ?w = tm_entries m + 1"
    "ents ?w = (ents m)(?e \<mapsto> \<lparr>ent_id = i, ent_block = b, ent_bytes = length i + 1 + sizeof_entry, ent_stamp = tm_clock m + 1,
        ent_source = s, ent_prev = None, ent_next = None\<rparr>)"
    by (simp_all add: with_entry_def g Let_def x(1))
  have e: "?e \<notin> A" using D(9) by blast
  have b: "b \<in> dom (blks m)" using x(1) by blast
  have bx: "blk m b = x" by (simp add: blk_def x(1))
  have we: "ent_id (ent ?w ?e) = i" "ent_block (ent ?w ?e) = b" "ent_bytes (ent ?w ?e) = length i + 1 + sizeof_entry" "ent_source (ent ?w ?e) = s"
    by (simp_all add: ent_def w(7))
  have wa: "ent ?w a = ent m a" if "a \<in> A" for a using that e by (auto simp: ent_def w(7))
  have wb: "blk ?w b = ?x" and wc: "c \<noteq> b \<Longrightarrow> blk ?w c = blk m c" for c by (simp_all add: blk_def w(1))
  have doms: "dom (blks ?w) = dom (blks m)" using b by (auto simp: w(1))
  have same: "blk_dsml (blk ?w c) = blk_dsml (blk m c)" "blk_bytes (blk ?w c) = blk_bytes (blk m c)" for c
    using bx by (cases "c = b"; simp add: blk_def w(1))+
  have set': "{a \<in> insert ?e A. ent_block (ent ?w a) = c} = (if c = b then {?e} else {}) \<union> {a \<in> A. ent_block (ent m a) = c}" for c
    using we(2) wa by auto
  show "objects ?w (insert ?e A)"
  proof (rule objectsI)
    show "dom (ents ?w) = insert ?e A" "finite (insert ?e A)" "finite (dom (blks ?w))" "tm_entries ?w = card (insert ?e A)"
      using D(1,2,3,18) e doms by (simp_all add: w(6,7))
    show "by_id ?w j = Some a \<longleftrightarrow> a \<in> insert ?e A \<and> ent_id (ent ?w a) = j" for j a
      using D(4) [of j a] i(2) e we(1) wa by (cases "a = ?e") (auto simp: w(2))
    show "by_block ?w dd = Some c \<longleftrightarrow> c \<in> dom (blks ?w) \<and> blk_dsml (blk ?w c) = dd" for dd c
      using D(5) doms same by (simp add: w(3))
    show "a \<in> insert ?e A \<Longrightarrow> ent_id (ent ?w a) \<noteq> [] \<and> ent_block (ent ?w a) \<in> dom (blks ?w)
        \<and> ent_bytes (ent ?w a) = length (ent_id (ent ?w a)) + 1 + sizeof_entry \<and> a < fresh ?w" for a
      using D(6-9) [of a] we i(1) wa [of a] b doms w(4) by (cases "a = ?e") auto
    show "tm_bytes ?w = (\<Sum>a\<in>insert ?e A. ent_bytes (ent ?w a)) + (\<Sum>b\<in>dom (blks ?w). blk_bytes (blk ?w b))"
    proof -
      have "(\<Sum>b\<in>dom (blks ?w). blk_bytes (blk ?w b)) = (\<Sum>b\<in>dom (blks m). blk_bytes (blk m b))" by (simp only: doms same)
      then show ?thesis using D(17) D(2) e wa we(3) by (simp add: w(5))
    qed
  next
    fix c assume c: "c \<in> dom (blks ?w)"
    show "blk_dsml (blk ?w c) \<noteq> [] \<and> distinct (blk_entries (blk ?w c))
        \<and> set (blk_entries (blk ?w c)) = {a \<in> insert ?e A. ent_block (ent ?w a) = c}
        \<and> blk_refs (blk ?w c) = length (blk_entries (blk ?w c)) \<and> blk_refs (blk ?w c) > 0
        \<and> blk_bytes (blk ?w c) = length (blk_dsml (blk ?w c)) + 1 + sizeof_block \<and> c < fresh ?w"
    proof (cases "c = b")
      case True
      then show ?thesis unfolding set' using D(10-16) [OF b] e by (simp add: wb bx w(4))
    next
      case False
      then show ?thesis unfolding set' using D(10-16) [of c] c doms wc by (simp add: w(4))
    qed
  qed
  show "cell ?w ?e = (i, d, s)" using we wb x(2) by (simp add: cell_def)
  show "cell ?w a = cell m a" if "a \<in> A" for a using wa [OF that] same by (simp add: cell_def)
qed

lemma with_entry_new:
  assumes o: "objects m A" and i: "i \<noteq> []" "\<And>a. a \<in> A \<Longrightarrow> ent_id (ent m a) \<noteq> i" and d: "d \<noteq> []"
    and n: "by_block m d = None" "b = fresh m" "b \<notin> dom (blks m)"
    and g: "tool_memory_get_block_locked m d = (m\<lparr>fresh := b + 1,
              blks := (blks m)(b \<mapsto> \<lparr>blk_dsml = d, blk_bytes = length d + 1 + sizeof_block, blk_refs = 0, blk_entries = []\<rparr>),
              by_block := (by_block m)(d \<mapsto> b), tm_bytes := tm_bytes m + (length d + 1 + sizeof_block)\<rparr>, b)"
  shows "objects (with_entry m i d s) (insert (fresh m + 1) A)" and "cell (with_entry m i d s) (fresh m + 1) = (i, d, s)"
    and "\<And>a. a \<in> A \<Longrightarrow> cell (with_entry m i d s) a = cell m a"
proof -
  let ?w = "with_entry m i d s" let ?e = "fresh m + 1"
  let ?x = "\<lparr>blk_dsml = d, blk_bytes = length d + 1 + sizeof_block, blk_refs = 1, blk_entries = [?e]\<rparr>"
  note D = objectsD [OF o]
  have w: "blks ?w = (blks m)(b \<mapsto> ?x)" "by_id ?w = (by_id m)(i \<mapsto> ?e)" "by_block ?w = (by_block m)(d \<mapsto> b)" "fresh ?w = fresh m + 2"
    "tm_bytes ?w = tm_bytes m + (length d + 1 + sizeof_block) + (length i + 1 + sizeof_entry)" "tm_entries ?w = tm_entries m + 1"
    "ents ?w = (ents m)(?e \<mapsto> \<lparr>ent_id = i, ent_block = b, ent_bytes = length i + 1 + sizeof_entry, ent_stamp = tm_clock m + 1,
        ent_source = s, ent_prev = None, ent_next = None\<rparr>)"
    by (simp_all add: with_entry_def g n(2) Let_def)
  have e: "?e \<notin> A" using D(9) by (meson add_lessD1 less_irrefl)
  have we: "ent_id (ent ?w ?e) = i" "ent_block (ent ?w ?e) = b" "ent_bytes (ent ?w ?e) = length i + 1 + sizeof_entry" "ent_source (ent ?w ?e) = s"
    by (simp_all add: ent_def w(7))
  have wa: "ent ?w a = ent m a" if "a \<in> A" for a using that e by (auto simp: ent_def w(7))
  have wb: "blk ?w b = ?x" and wc: "c \<noteq> b \<Longrightarrow> blk ?w c = blk m c" for c by (simp_all add: blk_def w(1))
  have doms: "dom (blks ?w) = insert b (dom (blks m))" by (simp add: w(1))
  have neq: "c \<noteq> b" if "c \<in> dom (blks m)" for c using that n(3) by blast
  have not_b: "ent_block (ent m a) \<noteq> b" if "a \<in> A" for a using D(7) [OF that] n(3) by metis
  have set': "{a \<in> insert ?e A. ent_block (ent ?w a) = c} = (if c = b then {?e} else {a \<in> A. ent_block (ent m a) = c})" for c
    using we(2) wa not_b by auto
  show "objects ?w (insert ?e A)"
  proof (rule objectsI)
    show "dom (ents ?w) = insert ?e A" "finite (insert ?e A)" "finite (dom (blks ?w))" "tm_entries ?w = card (insert ?e A)"
      using D(1,2,3,18) e doms by (simp_all add: w(6,7))
    show "by_id ?w j = Some a \<longleftrightarrow> a \<in> insert ?e A \<and> ent_id (ent ?w a) = j" for j a
      using D(4) [of j a] i(2) e we(1) wa by (cases "a = ?e") (auto simp: w(2))
    show "by_block ?w dd = Some c \<longleftrightarrow> c \<in> dom (blks ?w) \<and> blk_dsml (blk ?w c) = dd" for dd c
    proof (cases "c = b")
      case True
      have "by_block m dd \<noteq> Some b" using D(5) n(3) by blast
      then show ?thesis using True by (simp add: w(3) doms wb)
    next
      case False
      then show ?thesis using D(5) [of dd c] n(1) by (auto simp: w(3) doms wc)
    qed
    show "a \<in> insert ?e A \<Longrightarrow> ent_id (ent ?w a) \<noteq> [] \<and> ent_block (ent ?w a) \<in> dom (blks ?w)
        \<and> ent_bytes (ent ?w a) = length (ent_id (ent ?w a)) + 1 + sizeof_entry \<and> a < fresh ?w" for a
      using D(6-9) [of a] we i(1) wa [of a] doms w(4) by (cases "a = ?e") auto
    have "(\<Sum>c\<in>dom (blks ?w). blk_bytes (blk ?w c)) = (length d + 1 + sizeof_block) + (\<Sum>c\<in>dom (blks m). blk_bytes (blk m c))"
      unfolding doms using D(3) n(3) wc neq by (simp add: wb)
    then show "tm_bytes ?w = (\<Sum>a\<in>insert ?e A. ent_bytes (ent ?w a)) + (\<Sum>b\<in>dom (blks ?w). blk_bytes (blk ?w b))"
      using D(17) D(2) e wa we(3) by (simp add: w(5))
  next
    fix c assume c: "c \<in> dom (blks ?w)"
    show "blk_dsml (blk ?w c) \<noteq> [] \<and> distinct (blk_entries (blk ?w c))
        \<and> set (blk_entries (blk ?w c)) = {a \<in> insert ?e A. ent_block (ent ?w a) = c}
        \<and> blk_refs (blk ?w c) = length (blk_entries (blk ?w c)) \<and> blk_refs (blk ?w c) > 0
        \<and> blk_bytes (blk ?w c) = length (blk_dsml (blk ?w c)) + 1 + sizeof_block \<and> c < fresh ?w"
    proof (cases "c = b")
      case True
      then show ?thesis unfolding True set' wb using d by (simp add: w(4) n(2))
    next
      case False
      then have "c \<in> dom (blks m)" using c doms by blast
      then show ?thesis unfolding set' using D(10-16) [of c] False wc by (simp add: w(4) less_SucI)
    qed
  qed
  show "cell ?w ?e = (i, d, s)" using we wb by (simp add: cell_def)
  show "cell ?w a = cell m a" if "a \<in> A" for a using wa [OF that] not_b [OF that] wc by (simp add: cell_def)
qed

lemma with_entry_objects:
  assumes o: "objects m A" and i: "i \<noteq> []" "\<And>a. a \<in> A \<Longrightarrow> ent_id (ent m a) \<noteq> i" and d: "d \<noteq> []"
  shows "objects (with_entry m i d s) (insert (new_entry_at m d) A)" and "new_entry_at m d \<notin> A"
    and "cell (with_entry m i d s) (new_entry_at m d) = (i, d, s)"
    and "a \<in> A \<Longrightarrow> cell (with_entry m i d s) a = cell m a"
    and "tm_head (with_entry m i d s) = tm_head m \<and> tm_tail (with_entry m i d s) = tm_tail m \<and> same_limits m (with_entry m i d s)"
    and "\<exists>z. ents (with_entry m i d s) = (ents m)(new_entry_at m d \<mapsto> z)"
proof -
  obtain m1 b where g: "tool_memory_get_block_locked m d = (m1, b)" by force
  note D = objectsD [OF o]
  have *: "objects (with_entry m i d s) (insert (new_entry_at m d) A) \<and> new_entry_at m d \<notin> A
    \<and> cell (with_entry m i d s) (new_entry_at m d) = (i, d, s) \<and> (\<forall>a \<in> A. cell (with_entry m i d s) a = cell m a)"
    using o d g
  proof (cases rule: get_block_cases)
    case (old x)
    have n: "new_entry_at m d = fresh m" by (simp add: new_entry_at_def g old(1))
    have "fresh m \<notin> A" using D(9) by blast
    then show ?thesis unfolding n using with_entry_old [OF o i g [unfolded old(1)] old(2,3), where s = s] by blast
  next
    case new
    have n: "new_entry_at m d = fresh m + 1" by (simp add: new_entry_at_def g new(4) new(2))
    have "fresh m + 1 \<notin> A" using D(9) by (meson add_lessD1 less_irrefl)
    then show ?thesis unfolding n using with_entry_new [OF o i d new(1-3) g [unfolded new(4)], where s = s] by blast
  qed
  show "objects (with_entry m i d s) (insert (new_entry_at m d) A)" "new_entry_at m d \<notin> A"
    "cell (with_entry m i d s) (new_entry_at m d) = (i, d, s)" using * by blast+
  show "a \<in> A \<Longrightarrow> cell (with_entry m i d s) a = cell m a" using * by blast
  show "tm_head (with_entry m i d s) = tm_head m \<and> tm_tail (with_entry m i d s) = tm_tail m \<and> same_limits m (with_entry m i d s)"
    by (cases rule: get_block_cases [OF o d g]; simp add: with_entry_def g Let_def same_limits_def)
  show "\<exists>z. ents (with_entry m i d s) = (ents m)(new_entry_at m d \<mapsto> z)"
    by (cases rule: get_block_cases [OF o d g]) (auto simp: with_entry_def g Let_def new_entry_at_def)
qed

section \<open>The abstract operations\<close>

definition lru_find :: "lru \<Rightarrow> bytes \<Rightarrow> (bytes \<times> tool_memory_source) option" where
  "lru_find l i = map_of l i"

definition lru_drop :: "bytes \<Rightarrow> lru \<Rightarrow> lru" where
  "lru_drop i l = filter (\<lambda>c. fst c \<noteq> i) l"

text \<open>A block read back from disk does not take the mark of a block that was sampled.\<close>

definition lru_source :: "lru \<Rightarrow> bytes \<Rightarrow> bytes \<Rightarrow> tool_memory_source \<Rightarrow> tool_memory_source" where
  "lru_source l i d s = (case lru_find l i of Some (d', s') \<Rightarrow> if d' = d \<and> s = Tool_disk then s' else s | None \<Rightarrow> s)"

definition lru_put :: "nat \<Rightarrow> nat \<Rightarrow> lru \<Rightarrow> bytes \<Rightarrow> bytes \<Rightarrow> tool_memory_source \<Rightarrow> lru" where
  "lru_put n k l i d s = (if i = [] \<or> d = [] then l else lru_trim n k ((i, d, lru_source l i d s) # lru_drop i l))"

definition lru_touch :: "lru \<Rightarrow> bytes \<Rightarrow> lru" where
  "lru_touch l i = (case lru_find l i of None \<Rightarrow> l | Some c \<Rightarrow> (i, c) # lru_drop i l)"

definition is_memory :: "tool_memory \<Rightarrow> lru \<Rightarrow> bool" where
  "is_memory m l \<longleftrightarrow> (\<exists>xs. represents m xs \<and> lru_of m xs = l)"

lemma find_entry_lru:
  assumes "represents m xs"
  shows "tool_memory_find_entry_locked m i = Some e \<longleftrightarrow> e \<in> set xs \<and> ent_id (ent m e) = i"
    and "tool_memory_find_entry_locked m i = None \<longleftrightarrow> lru_find (lru_of m xs) i = None"
proof -
  have o: "objects m (set xs)" using assms by (simp add: represents_def)
  show f: "tool_memory_find_entry_locked m i = Some e \<longleftrightarrow> e \<in> set xs \<and> ent_id (ent m e) = i" for e
    using objectsD(4,6) [OF o] by (auto simp: tool_memory_find_entry_locked_def)
  have "tool_memory_find_entry_locked m i = None \<longleftrightarrow> (\<forall>e \<in> set xs. ent_id (ent m e) \<noteq> i)"
    using f by (metis not_None_eq)
  also have "\<dots> \<longleftrightarrow> lru_find (lru_of m xs) i = None"
    by (auto simp: lru_find_def map_of_eq_None_iff lru_of_def cell_def image_iff)
  finally show "tool_memory_find_entry_locked m i = None \<longleftrightarrow> lru_find (lru_of m xs) i = None" .
qed

text \<open>The entry of an id splits the list.\<close>

lemma entry_split:
  assumes "represents m xs" "tool_memory_find_entry_locked m i = Some e"
  obtains us vs where "xs = us @ e # vs" "lru_find (lru_of m xs) i = Some (snd (cell m e))" "fst (cell m e) = i"
    "lru_drop i (lru_of m xs) = lru_of m (us @ vs)"
proof -
  have e: "e \<in> set xs" "ent_id (ent m e) = i" using assms find_entry_lru(1) by blast+
  then obtain us vs where xs: "xs = us @ e # vs" by (meson split_list)
  have o: "objects m (set xs)" and dist: "distinct xs" using assms(1) by (auto simp: represents_def dll_def)
  have other: "fst (cell m a) \<noteq> i" if "a \<in> set (us @ vs)" for a
    using objectsD(4) [OF o] e that xs dist by (metis (no_types, lifting) cell_def distinct_append fst_conv
        disjoint_iff distinct.simps(2) list.set_intros(1) option.inject set_ConsD set_append UnE UnI1 UnI2 list.set_intros(2))
  have fe: "fst (cell m e) = i" using e by (simp add: cell_def)
  have "lru_drop i (lru_of m (us @ vs)) = lru_of m (us @ vs)"
    unfolding lru_drop_def lru_of_def
  proof (rule filter_True)
    show "\<forall>c \<in> set (map (cell m) (us @ vs)). fst c \<noteq> i" using other by (metis imageE set_map)
  qed
  then have "lru_drop i (lru_of m xs) = lru_of m (us @ vs)" using fe by (simp add: xs lru_drop_def lru_of_def)
  moreover have "map_of (map (cell m) us) i = None" using other by (simp add: map_of_eq_None_iff) (metis UnI1 imageE set_append)
  then have "lru_find (lru_of m xs) i = Some (snd (cell m e))"
    using fe by (cases "cell m e") (simp add: lru_find_def lru_of_def xs map_add_def del: map_of_eq_None_iff)
  ultimately show thesis using that xs fe by blast
qed


section \<open>Refinement\<close>

lemma limits_eq: "same_limits m m' \<Longrightarrow> tool_memory_max_entries m' = tool_memory_max_entries m \<and> tool_memory_max_bytes m' = tool_memory_max_bytes m"
  by (simp add: same_limits_def tool_memory_max_entries_def tool_memory_max_bytes_def)

lemma put_new_refines:
  assumes "represents m xs" "i \<noteq> []" "d \<noteq> []" "tool_memory_find_entry_locked m i = None"
  shows "\<exists>m' ys. put_new_entry m i d s = Some m' \<and> represents m' ys \<and> same_limits m m'
    \<and> lru_of m' ys = lru_trim (tool_memory_max_entries m) (tool_memory_max_bytes m) ((i, d, s) # lru_of m xs)"
proof -
  let ?w = "with_entry m i d s" let ?e = "new_entry_at m d" let ?l = "tool_memory_link_head ?w ?e"
  have o: "objects m (set xs)" and dl: "dll m xs" using assms(1) by (simp_all add: represents_def)
  have ids: "\<And>a. a \<in> set xs \<Longrightarrow> ent_id (ent m a) \<noteq> i" using find_entry_lru(1) [OF assms(1)] assms(4) by (metis option.distinct(1))
  note w = with_entry_objects [OF o assms(2) ids assms(3)]
  obtain z where z: "ents ?w = (ents m)(?e \<mapsto> z)" using w(6) by blast
  have w5: "tm_head ?w = tm_head m" "tm_tail ?w = tm_tail m" "same_limits m ?w" using w(5) by blast+
  have dw: "dll ?w xs" using dl w(2) w5 by (simp add: dll_def z links_other)
  have "ents ?w ?e = Some z" by (simp add: z)
  note lh = link_head_dll [OF dw w(2) this] link_head_same [OF this]
  have r: "represents ?l (?e # xs)" using lh(1) objects_same [OF lh(2) w(1)] by (simp add: represents_def)
  have dom: "dom (ents ?w) = insert ?e (set xs)" using objectsD(1) [OF w(1)] .
  have c: "lru_of ?l (?e # xs) = (i, d, s) # lru_of m xs"
    using cell_same [OF lh(2)] dom w(3,4) by (simp add: lru_of_def)
  have lim: "same_limits m ?l" using w5 same_limits_data [OF lh(2)] by (simp add: same_limits_def)
  obtain m' ys where p: "tool_memory_prune_locked ?l = Some m'" "represents m' ys" "same_limits ?l m'"
    "lru_of m' ys = lru_trim (tool_memory_max_entries ?l) (tool_memory_max_bytes ?l) (lru_of ?l (?e # xs))"
    using prune_refines [OF r] by blast
  show ?thesis
    using p c lim limits_eq [OF lim] unfolding put_new_split
    by (intro exI [of _ m'] exI [of _ ys]) (simp add: same_limits_def)
qed

lemma put_refines:
  assumes "represents m xs"
  shows "\<exists>m' ys. tool_memory_put_locked m i d s = Some m' \<and> represents m' ys \<and> same_limits m m'
    \<and> lru_of m' ys = lru_put (tool_memory_max_entries m) (tool_memory_max_bytes m) (lru_of m xs) i d s"
proof (cases "i = [] \<or> d = []")
  case True
  then show ?thesis using assms by (auto simp: tool_memory_put_locked_def lru_put_def same_limits_def)
next
  case False
  show ?thesis
  proof (cases "tool_memory_find_entry_locked m i")
    case None
    have n: "lru_find (lru_of m xs) i = None" using find_entry_lru(2) [OF assms] None by blast
    then have "lru_drop i (lru_of m xs) = lru_of m xs"
      unfolding lru_find_def lru_drop_def by (intro filter_True) (force simp: map_of_eq_None_iff)
    moreover have "tool_memory_put_locked m i d s = put_new_entry m i d s"
      using False by (simp add: tool_memory_put_locked_def None)
    moreover have "lru_source (lru_of m xs) i d s = s" using n by (simp add: lru_source_def)
    ultimately show ?thesis
      using put_new_refines [OF assms _ _ None, of d s] False by (simp only: lru_put_def if_False) blast
  next
    case (Some e)
    obtain us vs where sp: "xs = us @ e # vs" "lru_find (lru_of m xs) i = Some (snd (cell m e))" "fst (cell m e) = i"
      "lru_drop i (lru_of m xs) = lru_of m (us @ vs)" using entry_split [OF assms Some] by blast
    have rep: "represents m (us @ e # vs)" using assms sp(1) by simp
    have dist: "e \<notin> set (us @ vs)" using rep by (auto simp: represents_def dll_def)
    show ?thesis
    proof (cases "blk_dsml (blk m (ent_block (ent m e))) = d")
      case True
      define m0 where "m0 = (if s = Tool_ram then upd_ent e (\<lambda>x. x\<lparr>ent_source := Tool_ram\<rparr>) m else m)"
      obtain x where x: "ents m e = Some x" using dll_mem [of m xs e] assms sp(1) by (auto simp: represents_def)
      have f: "ent_id (ent m0 a) = ent_id (ent m a)" "ent_block (ent m0 a) = ent_block (ent m a)" "ent_bytes (ent m0 a) = ent_bytes (ent m a)" for a
        by (simp_all add: m0_def upd_ent_def ent_def x)
      have g: "by_id m0 = by_id m" "by_block m0 = by_block m" "blks m0 = blks m" "fresh m0 = fresh m" "tm_bytes m0 = tm_bytes m"
        "tm_entries m0 = tm_entries m" "tm_head m0 = tm_head m" "tm_tail m0 = tm_tail m" "same_limits m m0" "dom (ents m0) = dom (ents m)"
        by (auto simp: m0_def upd_ent_def same_limits_def x)
      have k: "blk m0 = blk m" using g(3) by (simp add: blk_def fun_eq_iff)
      have l: "links h p ys n \<Longrightarrow> h e = Some x \<Longrightarrow> links (h(e \<mapsto> x\<lparr>ent_source := r\<rparr>)) p ys n" for h p ys n r
        by (induction ys arbitrary: p) auto
      have rep0: "represents m0 (us @ e # vs)"
      proof -
        have o: "objects m (set (us @ e # vs))" and dl: "dll m (us @ e # vs)" using rep unfolding represents_def by blast+
        have "objects m0 (set (us @ e # vs))" using o unfolding objects_def f g k .
        moreover have "links (ents m0) None (us @ e # vs) None"
          using dl l [where h = "ents m" and p = None and ys = "us @ e # vs" and n = None and r = Tool_ram] by (cases s) (simp_all add: m0_def upd_ent_def dll_def x)
        then have "dll m0 (us @ e # vs)" using dl unfolding dll_def g by blast
        ultimately show ?thesis by (simp add: represents_def)
      qed
      have c_other: "cell m0 a = cell m a" if "a \<noteq> e" for a
        using that by (simp add: cell_def f k) (simp add: m0_def upd_ent_def ent_def)
      have src: "ent_source (ent m0 e) = (if s = Tool_ram then Tool_ram else ent_source (ent m e))"
        by (simp add: m0_def upd_ent_def ent_def x)
      have c_e: "cell m0 e = (i, d, lru_source (lru_of m xs) i d s)"
        using sp(2,3) True by (cases s) (simp_all add: cell_def f k src lru_source_def)
      let ?t = "tool_memory_touch m0 e"
      note t = touch_represents [OF rep0]
      have "map (cell ?t) (us @ vs) = map (cell m) (us @ vs)"
      proof (rule map_cong [OF refl])
        fix a assume a: "a \<in> set (us @ vs)"
        then have "a \<noteq> e" "a \<in> set (us @ e # vs)" using dist by auto
        then show "cell ?t a = cell m a" using t(2) c_other by simp
      qed
      then have "lru_of ?t (e # us @ vs) = (i, d, lru_source (lru_of m xs) i d s) # lru_drop i (lru_of m xs)"
        using t(2) [of e] c_e unfolding sp(4) by (simp add: lru_of_def)
      moreover have "tool_memory_put_locked m i d s = tool_memory_prune_locked ?t"
        using False Some True by (simp add: tool_memory_put_locked_def m0_def Let_def)
      moreover have lim: "same_limits m ?t" using t(3) g(9) by (simp add: same_limits_def)
      moreover obtain m' ys where "tool_memory_prune_locked ?t = Some m'" "represents m' ys" "same_limits ?t m'"
        "lru_of m' ys = lru_trim (tool_memory_max_entries ?t) (tool_memory_max_bytes ?t) (lru_of ?t (e # us @ vs))"
        using prune_refines [OF t(1)] by blast
      ultimately show ?thesis
        using limits_eq [OF lim] False
        by (intro exI [of _ m'] exI [of _ ys]) (simp add: lru_put_def same_limits_def)
    next
      case diff: False
      let ?r = "tool_memory_remove_entry_locked m e"
      note r = remove_represents [OF rep]
      have l: "lru_of ?r (us @ vs) = lru_drop i (lru_of m xs)" unfolding sp(4) unfolding lru_of_def using r(2) by (intro map_cong refl)
      then have "lru_find (lru_of ?r (us @ vs)) i = None"
        by (auto simp: lru_find_def lru_drop_def map_of_eq_None_iff)
      then have none: "tool_memory_find_entry_locked ?r i = None" using find_entry_lru(2) [OF r(1)] by blast
      have "lru_source (lru_of m xs) i d s = s" using sp(2) diff by (simp add: lru_source_def cell_def)
      moreover have "tool_memory_put_locked m i d s = put_new_entry ?r i d s"
        using False Some diff by (simp add: tool_memory_put_locked_def)
      moreover obtain m' ys where "put_new_entry ?r i d s = Some m'" "represents m' ys" "same_limits ?r m'"
        "lru_of m' ys = lru_trim (tool_memory_max_entries ?r) (tool_memory_max_bytes ?r) ((i, d, s) # lru_of ?r (us @ vs))"
        using put_new_refines [OF r(1) _ _ none, of d s] False by blast
      ultimately show ?thesis
        using limits_eq [OF r(3)] r(3) l False
        by (intro exI [of _ m'] exI [of _ ys]) (simp add: lru_put_def same_limits_def)
    qed
  qed
qed


lemma lookup_refines:
  assumes "represents m xs"
  shows "\<exists>ys. represents (snd (tool_memory_lookup_locked m i)) ys \<and> same_limits m (snd (tool_memory_lookup_locked m i))
      \<and> lru_of (snd (tool_memory_lookup_locked m i)) ys = lru_touch (lru_of m xs) i
      \<and> map_option (\<lambda>(b, s). (blk_dsml (blk (snd (tool_memory_lookup_locked m i)) b), s)) (fst (tool_memory_lookup_locked m i))
        = lru_find (lru_of m xs) i"
proof (cases "tool_memory_find_entry_locked m i")
  case None
  then show ?thesis using assms find_entry_lru(2) [OF assms, of i]
    by (auto simp: tool_memory_lookup_locked_def lru_touch_def same_limits_def)
next
  case (Some e)
  obtain us vs where sp: "xs = us @ e # vs" "lru_find (lru_of m xs) i = Some (snd (cell m e))" "fst (cell m e) = i"
    "lru_drop i (lru_of m xs) = lru_of m (us @ vs)" using entry_split [OF assms Some] by blast
  have rep: "represents m (us @ e # vs)" using assms sp(1) by simp
  let ?t = "tool_memory_touch m e"
  note t = touch_represents [OF rep]
  have "lru_of ?t (us @ vs) = lru_of m (us @ vs)"
    unfolding lru_of_def by (rule map_cong [OF refl]) (use t(2) in auto)
  then have "lru_of ?t (e # us @ vs) = lru_touch (lru_of m xs) i"
    using t(2) [of e] sp(2,3) unfolding lru_touch_def by (cases "cell m e") (simp add: lru_of_def sp(4) [unfolded lru_of_def])
  moreover have "(blk_dsml (blk ?t (ent_block (ent ?t e))), ent_source (ent ?t e)) = snd (cell m e)"
    using t(2) [of e] by (simp add: cell_def)
  ultimately show ?thesis
    using t(1,3) sp(2) by (intro exI [of _ "e # us @ vs"]) (simp add: tool_memory_lookup_locked_def Some Let_def)
qed

section \<open>Sequences of operations\<close>

datatype tool_op = Op_put bytes bytes tool_memory_source | Op_lookup bytes

fun run_tool_op :: "tool_memory \<Rightarrow> tool_op \<Rightarrow> tool_memory option" where
  "run_tool_op m (Op_put i d s) = tool_memory_put_locked m i d s"
| "run_tool_op m (Op_lookup i) = Some (snd (tool_memory_lookup_locked m i))"

fun run_tool_ops :: "tool_memory \<Rightarrow> tool_op list \<Rightarrow> tool_memory option" where
  "run_tool_ops m [] = Some m"
| "run_tool_ops m (op # ops) = (case run_tool_op m op of None \<Rightarrow> None | Some m' \<Rightarrow> run_tool_ops m' ops)"

fun lru_op :: "nat \<Rightarrow> nat \<Rightarrow> lru \<Rightarrow> tool_op \<Rightarrow> lru" where
  "lru_op n k l (Op_put i d s) = lru_put n k l i d s"
| "lru_op n k l (Op_lookup i) = lru_touch l i"

lemma run_refines:
  assumes "represents m xs"
  shows "\<exists>m' ys. run_tool_ops m ops = Some m' \<and> represents m' ys \<and> same_limits m m'
    \<and> lru_of m' ys = foldl (lru_op (tool_memory_max_entries m) (tool_memory_max_bytes m)) (lru_of m xs) ops"
  using assms
proof (induction ops arbitrary: m xs)
  case Nil
  then show ?case by (auto simp: same_limits_def)
next
  case (Cons op ops)
  obtain m1 zs where s: "run_tool_op m op = Some m1" "represents m1 zs" "same_limits m m1"
    "lru_of m1 zs = lru_op (tool_memory_max_entries m) (tool_memory_max_bytes m) (lru_of m xs) op"
    using put_refines [OF Cons.prems] lookup_refines [OF Cons.prems] by (cases op) fastforce+
  obtain m' ys where "run_tool_ops m1 ops = Some m'" "represents m' ys" "same_limits m1 m'"
    "lru_of m' ys = foldl (lru_op (tool_memory_max_entries m1) (tool_memory_max_bytes m1)) (lru_of m1 zs) ops"
    using Cons.IH [OF s(2)] by blast
  then show ?case using s limits_eq [OF s(3)] by (intro exI [of _ m'] exI [of _ ys]) (simp add: same_limits_def)
qed

lemma zero_represents: "represents (tool_memory_zero n k) []"
  by (auto simp: represents_def dll_def objects_def tool_memory_zero_def first_or_def last_or_def)

text \<open>C14. From the empty memory every sequence of puts and look-ups returns, and what it leaves behind is
  a consistent memory that stands for the list of the abstract cache: an id has the block and the
  source of its last put, the ids are in the order of their last use, the oldest are gone once there
  are more than the limit or ids and distinct blocks together exceed the limit of bytes, and the
  counts of entries and bytes are exact.\<close>

theorem tool_memory_refines_lru:
  "\<exists>m xs. run_tool_ops (tool_memory_zero n k) ops = Some m \<and> represents m xs
     \<and> lru_of m xs = foldl (lru_op (tool_memory_max_entries (tool_memory_zero n k)) (tool_memory_max_bytes (tool_memory_zero n k))) [] ops
     \<and> tm_entries m = length (lru_of m xs) \<and> tm_bytes m = lru_bytes (lru_of m xs)"
proof -
  obtain m xs where r: "run_tool_ops (tool_memory_zero n k) ops = Some m" "represents m xs"
    "lru_of m xs = foldl (lru_op (tool_memory_max_entries (tool_memory_zero n k)) (tool_memory_max_bytes (tool_memory_zero n k))) [] ops"
    using run_refines [OF zero_represents, of n k ops] by (auto simp: lru_of_def)
  moreover have "tm_entries m = length (lru_of m xs)" "tm_bytes m = lru_bytes (lru_of m xs)"
    using objects_bytes [of m xs] r(2) by (simp_all add: represents_def dll_def lru_of_def)
  ultimately show ?thesis by blast
qed

lemma trim_bounds: "lru_trim n k l = [] \<or> length (lru_trim n k l) \<le> n \<and> lru_bytes (lru_trim n k l) \<le> k"
proof (induction n k l rule: lru_trim.induct)
  case (1 n k l)
  then show ?case
    by (cases "l \<noteq> [] \<and> (length l > n \<or> lru_bytes l > k)") (auto simp: lru_trim.simps [of n k l])
qed

lemma trim_keeps_first:
  assumes "0 < n" "lru_bytes [c] \<le> k"
  shows "\<exists>l'. lru_trim n k (c # l) = c # l'"
proof (induction "length l" arbitrary: l)
  case 0
  then show ?case using assms by (simp add: lru_trim.simps [of n k "[c]"])
next
  case (Suc j)
  then have "l \<noteq> []" by auto
  then show ?case using Suc.hyps(1) [of "butlast l"] Suc.hyps(2) by (simp add: lru_trim.simps [of n k "c # l"])
qed

text \<open>A put that fits is found again: when the new id and its block alone are within the limits, the
  put returns, the memory is then within both of its limits, and the next look-up of the id yields
  exactly this block, even if older ids had to go to make room for it.\<close>

theorem put_is_found:
  assumes "represents m xs" "i \<noteq> []" "d \<noteq> []" "lru_bytes [(i, d, s)] \<le> tool_memory_max_bytes m"
  shows "\<exists>m' b s'. tool_memory_put_locked m i d s = Some m'
    \<and> tm_entries m' \<le> tool_memory_max_entries m \<and> tm_bytes m' \<le> tool_memory_max_bytes m
    \<and> fst (tool_memory_lookup_locked m' i) = Some (b, s') \<and> blk_dsml (blk (snd (tool_memory_lookup_locked m' i)) b) = d"
proof -
  let ?n = "tool_memory_max_entries m" let ?k = "tool_memory_max_bytes m"
  obtain m' ys where p: "tool_memory_put_locked m i d s = Some m'" "represents m' ys"
    "lru_of m' ys = lru_put ?n ?k (lru_of m xs) i d s" using put_refines [OF assms(1)] by blast
  let ?c = "(i, d, lru_source (lru_of m xs) i d s)"
  have n: "0 < ?n" by (simp add: tool_memory_max_entries_def DS4_TOOL_MEMORY_DEFAULT_MAX_IDS_def)
  have k: "lru_bytes [?c] \<le> ?k" using assms(4) by (simp add: lru_bytes_def lru_ids_def lru_blocks_def)
  obtain l' where l': "lru_of m' ys = ?c # l'"
    using trim_keeps_first [OF n k] p(3) assms(2,3) by (auto simp: lru_put_def)
  have t: "lru_of m' ys = lru_trim ?n ?k (?c # lru_drop i (lru_of m xs))" using p(3) assms(2,3) by (simp add: lru_put_def)
  have "lru_of m' ys \<noteq> []" using l' by simp
  then have "length (lru_of m' ys) \<le> ?n \<and> lru_bytes (lru_of m' ys) \<le> ?k" using trim_bounds unfolding t by blast
  then have b: "tm_entries m' \<le> ?n" "tm_bytes m' \<le> ?k"
    using objects_bytes [of m' ys] p(2) by (simp_all add: represents_def dll_def lru_of_def)
  have "lru_find (lru_of m' ys) i = Some (d, lru_source (lru_of m xs) i d s)" by (simp add: l' lru_find_def)
  then have "map_option (\<lambda>(b, s). (blk_dsml (blk (snd (tool_memory_lookup_locked m' i)) b), s)) (fst (tool_memory_lookup_locked m' i))
      = Some (d, lru_source (lru_of m xs) i d s)"
    using lookup_refines [OF p(2), of i] by auto
  then show ?thesis using p(1) b by (auto simp: map_option_eq_Some)
qed

lemma put_is_found_witness:
  "\<exists>m' b s'. tool_memory_put_locked (tool_memory_zero 1 200) ''id'' ''dsml'' Tool_ram = Some m'
    \<and> tm_entries m' \<le> tool_memory_max_entries (tool_memory_zero 1 200) \<and> tm_bytes m' \<le> tool_memory_max_bytes (tool_memory_zero 1 200)
    \<and> fst (tool_memory_lookup_locked m' ''id'') = Some (b, s')
    \<and> blk_dsml (blk (snd (tool_memory_lookup_locked m' ''id'')) b) = ''dsml''"
  by (rule put_is_found [OF zero_represents])
    (simp_all add: lru_bytes_def lru_ids_def lru_blocks_def sizeof_entry_def sizeof_block_def tool_memory_max_bytes_def tool_memory_zero_def)

end
