(* ===== verification/Chat_Render.thy ===== *)
theory Chat_Render
  imports Dsml_Round
begin

text \<open>
  The rendering of a conversation into the prompt of the model (\<open>render_chat_prompt_text\<close>), and of only
  the new end of it that continues a live session (\<open>render_live_tool_tail\<close>), both of
  \<open>src/ds4_server.c\<close>.
\<close>

section \<open>Messages\<close>

datatype ds4_think_mode = THINK_NONE | THINK_HIGH | THINK_MAX

definition ds4_think_mode_enabled :: "ds4_think_mode \<Rightarrow> bool" where
  "ds4_think_mode_enabled mode \<longleftrightarrow> mode = THINK_HIGH \<or> mode = THINK_MAX"

record chat_msg =
  msg_role :: bytes
  msg_text :: "bytes option"
  msg_thought :: "bytes option"
  msg_tool_call_id :: "bytes option"
  msg_tool_call_ids :: "bytes list"
  msg_tool_calls :: tool_calls

definition role_is_system :: "bytes \<Rightarrow> bool" where
  "role_is_system role \<longleftrightarrow> role = ''system'' \<or> role = ''developer''"

definition role_is_user_like :: "bytes \<Rightarrow> bool" where
  "role_is_user_like role \<longleftrightarrow> role = ''user'' \<or> role = ''tool'' \<or> role = ''function''"

definition chat_history_uses_tool_context :: "chat_msg list \<Rightarrow> bytes option \<Rightarrow> bool" where
  "chat_history_uses_tool_context msgs tool_schemas \<longleftrightarrow>
     or_empty tool_schemas \<noteq> []
     \<or> list_ex (\<lambda>m. msg_role m = ''assistant'' \<and> calls_v (msg_tool_calls m) \<noteq> []
          \<or> msg_role m = ''tool'' \<or> msg_role m = ''function'') msgs"

section \<open>The fixed texts\<close>

definition tools_prompt_head :: bytes where
  "tools_prompt_head =
     ''## Tools'' @ [CHR 0x0a] @ [CHR 0x0a]
      @ ''You have access to a set of tools to help answer the user question. You can invoke tools by writing a ''
      @ [CHR 0x22] @ ''<'' @ DS4_DSML @ ''tool_calls>'' @ [CHR 0x22] @ '' block like the following:''
      @ [CHR 0x0a] @ [CHR 0x0a] @ ''<'' @ DS4_DSML @ ''tool_calls>'' @ [CHR 0x0a] @ ''<'' @ DS4_DSML
      @ ''invoke name='' @ [CHR 0x22] @ ''$TOOL_NAME'' @ [CHR 0x22] @ ''>'' @ [CHR 0x0a] @ ''<'' @ DS4_DSML
      @ ''parameter name='' @ [CHR 0x22] @ ''$PARAMETER_NAME'' @ [CHR 0x22] @ '' string='' @ [CHR 0x22] @ ''true|false''
      @ [CHR 0x22] @ ''>$PARAMETER_VALUE</'' @ DS4_DSML @ ''parameter>'' @ [CHR 0x0a] @ ''...'' @ [CHR 0x0a]
      @ ''</'' @ DS4_DSML @ ''invoke>'' @ [CHR 0x0a] @ ''<'' @ DS4_DSML @ ''invoke name=''
      @ [CHR 0x22] @ ''$TOOL_NAME2'' @ [CHR 0x22] @ ''>'' @ [CHR 0x0a] @ ''...'' @ [CHR 0x0a] @ ''</'' @ DS4_DSML
      @ ''invoke>'' @ [CHR 0x0a] @ ''</'' @ DS4_DSML @ ''tool_calls>'' @ [CHR 0x0a] @ [CHR 0x0a]
      @ ''String parameters should be specified as raw text and set `string='' @ [CHR 0x22] @ ''true'' @ [CHR 0x22]
      @ ''`. Preserve characters such as `>`, `&`, and `&&` exactly; never replace normal string characters with XML or HTML entity escapes. ''
      @ ''Only if a string value itself contains the exact closing parameter tag `</'' @ DS4_DSML
      @ ''parameter>`, write that tag as `&lt;/'' @ DS4_DSML
      @ ''parameter>` inside the value. For all other types (numbers, booleans, arrays, objects), pass the value in JSON format and set `string=''
      @ [CHR 0x22] @ ''false'' @ [CHR 0x22] @ ''`.'' @ [CHR 0x0a] @ [CHR 0x0a]
      @ ''If thinking_mode is enabled (triggered by <think>), you MUST output your complete reasoning inside <think>...</think> BEFORE any tool calls or final response.''
      @ [CHR 0x0a] @ [CHR 0x0a] @ ''Otherwise, output directly after </think> with tool calls or final response.''
      @ [CHR 0x0a] @ [CHR 0x0a] @ ''### Available Tool Schemas'' @ [CHR 0x0a] @ [CHR 0x0a]"

definition tools_prompt_end :: bytes where
  "tools_prompt_end =
     [CHR 0x0a] @ [CHR 0x0a]
      @ ''You MUST strictly follow the above defined tool name and parameter schemas to invoke tool calls. ''
      @ ''Use the exact parameter names from the schemas.''"

definition append_tools_prompt_text :: "bytes option \<Rightarrow> bytes" where
  "append_tools_prompt_text tool_schemas =
     (if or_empty tool_schemas = [] then [] else tools_prompt_head @ or_empty tool_schemas @ tools_prompt_end)"

definition ds4_think_max_prefix :: bytes where
  "ds4_think_max_prefix =
     ''Reasoning Effort: Absolute maximum with no shortcuts permitted.'' @ [CHR 0x0a]
      @ ''You MUST be very thorough in your thinking and comprehensively decompose the problem to resolve the root cause, rigorously stress-testing your logic against all potential paths, edge cases, and adversarial scenarios.''
      @ [CHR 0x0a]
      @ ''Explicitly write out your entire deliberation process, documenting every intermediate step, considered alternative, and rejected hypothesis to ensure absolutely no assumption is left unchecked.''
      @ [CHR 0x0a] @ [CHR 0x0a]"

text \<open>The special tokens; the word separator in them has three bytes.\<close>

definition word_sep :: bytes where "word_sep = [CHR 0xe2, CHR 0x96, CHR 0x81]"

definition begin_of_sentence :: bytes where
  "begin_of_sentence = ''<'' @ bar @ ''begin'' @ word_sep @ ''of'' @ word_sep @ ''sentence'' @ bar @ ''>''"

definition end_of_sentence :: bytes where
  "end_of_sentence = ''<'' @ bar @ ''end'' @ word_sep @ ''of'' @ word_sep @ ''sentence'' @ bar @ ''>''"

definition user_mark :: bytes where "user_mark = ''<'' @ bar @ ''User'' @ bar @ ''>''"
definition assistant_mark :: bytes where "assistant_mark = ''<'' @ bar @ ''Assistant'' @ bar @ ''>''"

section \<open>The prompt\<close>

text \<open>The two loops have the same body up to the test whether the thoughts of an assistant message are
  shown; \<open>shown\<close> is this test.  The state is the text so far, \<open>pending_assistant\<close> and
  \<open>pending_tool_result\<close>.\<close>

definition render_msg :: "bool \<Rightarrow> bool \<Rightarrow> chat_msg \<Rightarrow> bytes \<times> bool \<times> bool \<Rightarrow> bytes \<times> bool \<times> bool" where
  "render_msg think shown m st =
     (case st of (out, pending_assistant, pending_tool_result) \<Rightarrow>
        if role_is_system (msg_role m) then st
        else if msg_role m = ''user'' then (out @ user_mark @ or_empty (msg_text m), True, False)
        else if msg_role m = ''tool'' \<or> msg_role m = ''function'' then
          (out @ (if \<not> pending_tool_result then user_mark else []) @ ''<tool_result>'' @ append_tool_result_text (msg_text m)
             @ ''</tool_result>'', True, True)
        else if msg_role m = ''assistant'' then
          (out @ (if pending_assistant
                  then assistant_mark
                    @ (if think
                       then (if shown then ''<think>'' @ or_empty (msg_thought m) @ ''</think>'' else ''</think>'')
                       else ''</think>'')
                  else [])
             @ or_empty (msg_text m) @ append_dsml_tool_calls_text (msg_tool_calls m) @ end_of_sentence, False, False)
        else st)"

definition render_end :: "bool \<Rightarrow> bytes \<times> bool \<times> bool \<Rightarrow> bytes" where
  "render_end think st =
     (case st of (out, pending_assistant, _) \<Rightarrow>
        out @ (if pending_assistant then assistant_mark @ (if think then ''<think>'' else ''</think>'') else []))"

definition render_system :: "chat_msg list \<Rightarrow> bytes option \<Rightarrow> bytes" where
  "render_system msgs tool_schemas =
     fold (\<lambda>m system.
         if role_is_system (msg_role m)
         then system @ (if system \<noteq> [] then [CHR 0x0a, CHR 0x0a] else []) @ or_empty (msg_text m) else system)
       msgs (append_tools_prompt_text tool_schemas)"

definition last_user_idx :: "chat_msg list \<Rightarrow> int" where
  "last_user_idx msgs = fold (\<lambda>(i, m) last_idx. if role_is_user_like (msg_role m) then int i else last_idx) (enumerate 0 msgs) (- 1)"

definition render_chat_prompt_text :: "chat_msg list \<Rightarrow> bytes option \<Rightarrow> ds4_think_mode \<Rightarrow> bytes" where
  "render_chat_prompt_text msgs tool_schemas think_mode =
     (let think = ds4_think_mode_enabled think_mode;
          tool_context = chat_history_uses_tool_context msgs tool_schemas;
          out = begin_of_sentence @ (if think_mode = THINK_MAX then ds4_think_max_prefix else []) @ render_system msgs tool_schemas
      in render_end think
           (fold (\<lambda>(i, m). render_msg think (tool_context \<or> int i > last_user_idx msgs) m) (enumerate 0 msgs) (out, False, False)))"

definition render_live_tool_tail :: "chat_msg list \<Rightarrow> nat \<Rightarrow> ds4_think_mode \<Rightarrow> bytes" where
  "render_live_tool_tail msgs start think_mode =
     (let think = ds4_think_mode_enabled think_mode
      in render_end think (fold (render_msg think True) (drop start msgs) (end_of_sentence, False, False)))"

section \<open>A tool result stays closed\<close>

lemma protect_id: "(\<And>j. \<not> prefix closing (drop j v)) \<Longrightarrow> protect_closing closing rep v = v"
proof (induction v)
  case (Cons c v)
  have "\<not> prefix closing (c # v)" using Cons.prems [of 0] by simp
  moreover have "\<not> prefix closing (drop j v)" for j using Cons.prems [of "Suc j"] by simp
  ultimately show ?case using Cons.IH by simp
qed simp

lemma protect_longer: "1 < length rep \<Longrightarrow> length v \<le> length (protect_closing closing rep v)"
  by (induction v) auto

lemma protect_grows:
  "1 < length rep \<Longrightarrow> closing \<noteq> [] \<Longrightarrow> prefix closing (drop j v) \<Longrightarrow> length v < length (protect_closing closing rep v)"
proof (induction v arbitrary: j)
  case (Cons c v)
  show ?case
  proof (cases "prefix closing (c # v)")
    case True
    then show ?thesis using protect_longer [OF Cons.prems(1), of v closing] Cons.prems(1) by simp
  next
    case False
    then obtain i where "j = Suc i" using Cons.prems(3) by (cases j) auto
    then show ?thesis using Cons.IH [of i] Cons.prems False by simp
  qed
qed simp

lemma protect_unchanged:
  assumes "1 < length rep" "closing \<noteq> []"
  shows "protect_closing closing rep v = v \<longleftrightarrow> strstr v closing = None"
proof
  assume "protect_closing closing rep v = v"
  then show "strstr v closing = None"
    unfolding strstr_none using protect_grows [OF assms] by (metis less_irrefl)
next
  assume n: "strstr v closing = None"
  have "\<not> prefix closing (drop j v)" for j
    using n assms(2) unfolding strstr_none by (cases "j \<le> length v") auto
  then show "protect_closing closing rep v = v" by (rule protect_id)
qed

text \<open>The output of a tool cannot end its own result: in the prompt the first closing tag after the
  start of the output is the one the renderer writes, whatever the output contains, and the output
  is left as it is exactly if it contains no closing tag.\<close>

theorem tool_result_is_closed_once:
  "strstr (append_tool_result_text s @ ''</tool_result>'' @ t) ''</tool_result>'' = Some (length (append_tool_result_text s))
   \<and> (append_tool_result_text s = or_empty s \<longleftrightarrow> strstr (or_empty s) ''</tool_result>'' = None)"
proof
  have "strstr (protect_closing (CHR ''<'' # ''/tool_result>'') ''&lt;'' v @ (CHR ''<'' # ''/tool_result>'') @ t) (CHR ''<'' # ''/tool_result>'')
      = Some (length (protect_closing (CHR ''<'' # ''/tool_result>'') ''&lt;'' v))" for v
    by (rule strstr_protected [OF _ _ refl]) simp_all
  then show "strstr (append_tool_result_text s @ ''</tool_result>'' @ t) ''</tool_result>'' = Some (length (append_tool_result_text s))"
    by (simp add: append_tool_result_text_def)
  show "append_tool_result_text s = or_empty s \<longleftrightarrow> strstr (or_empty s) ''</tool_result>'' = None"
    unfolding append_tool_result_text_def by (rule protect_unchanged) simp_all
qed

section \<open>The live tail is the end of the prompt\<close>

lemma render_msg_append:
  "fst (render_msg think shown m (out @ b, p, q)) = out @ fst (render_msg think shown m (b, p, q))
   \<and> snd (render_msg think shown m (out @ b, p, q)) = snd (render_msg think shown m (b, p, q))"
  by (simp add: render_msg_def)

lemma render_fold_append:
  "fold (render_msg think shown) msgs (out @ b, p, q)
     = (out @ fst (fold (render_msg think shown) msgs (b, p, q)), snd (fold (render_msg think shown) msgs (b, p, q)))"
proof (induction msgs arbitrary: b p q)
  case (Cons m msgs)
  obtain b' p' q' where s: "render_msg think shown m (b, p, q) = (b', p', q')" by (cases "render_msg think shown m (b, p, q)") auto
  then have "render_msg think shown m (out @ b, p, q) = (out @ b', p', q')"
    using render_msg_append [of think shown m out b p q] by (simp add: prod_eq_iff)
  then show ?case using Cons.IH [of b' p' q'] s by simp
qed simp

lemma render_end_append: "render_end think (out @ b, pq) = out @ render_end think (b, pq)"
  by (simp add: render_end_def split: prod.split)

lemma fold_enumerate_shown: "fold (\<lambda>(i, m). f m) (enumerate n msgs) st = fold f msgs st"
  by (induction msgs arbitrary: n st) simp_all

lemma render_system_append:
  "list_all (\<lambda>m. \<not> role_is_system (msg_role m)) msgs' \<Longrightarrow> render_system (msgs @ msgs') schemas = render_system msgs schemas"
proof -
  assume "list_all (\<lambda>m. \<not> role_is_system (msg_role m)) msgs'"
  then have "fold (\<lambda>m system. if role_is_system (msg_role m)
      then system @ (if system \<noteq> [] then [CHR 0x0a, CHR 0x0a] else []) @ or_empty (msg_text m) else system) msgs' s = s" for s
    by (induction msgs') simp_all
  then show ?thesis by (simp add: render_system_def)
qed

lemma render_in_tool_context:
  assumes "chat_history_uses_tool_context msgs schemas"
  shows "render_chat_prompt_text msgs schemas mode
       = render_end (ds4_think_mode_enabled mode) (fold (render_msg (ds4_think_mode_enabled mode) True) msgs
           (begin_of_sentence @ (if mode = THINK_MAX then ds4_think_max_prefix else []) @ render_system msgs schemas, False, False))"
  using assms by (simp add: render_chat_prompt_text_def Let_def fold_enumerate_shown)

lemma render_assistant_ends:
  assumes "msg_role a = ''assistant''"
  shows "\<exists>before. render_msg think shown a (out, p, q) = (before @ end_of_sentence, False, False)"
proof -
  have "\<not> role_is_system (msg_role a)" "msg_role a \<noteq> ''user''" "msg_role a \<noteq> ''tool''" "msg_role a \<noteq> ''function''"
    using assms by (simp_all add: role_is_system_def)
  then show ?thesis using assms unfolding render_msg_def prod.case
    by (simp only: if_False if_True simp_thms) (metis append_assoc)
qed

lemma calls_are_tool_context:
  "msg_role a = ''assistant'' \<Longrightarrow> calls_v (msg_tool_calls a) \<noteq> [] \<Longrightarrow> a \<in> set msgs
    \<Longrightarrow> chat_history_uses_tool_context msgs schemas"
  unfolding chat_history_uses_tool_context_def list_ex_iff by blast

lemma live_tail_spells_prompt:
  assumes "msg_role a = ''assistant''" "calls_v (msg_tool_calls a) \<noteq> []"
    and "list_all (\<lambda>m. \<not> role_is_system (msg_role m)) tail"
  shows "\<exists>before. render_chat_prompt_text (hist @ [a]) schemas mode = before @ end_of_sentence
    \<and> render_chat_prompt_text (hist @ [a] @ tail) schemas mode
        = before @ render_live_tool_tail (hist @ [a] @ tail) (Suc (length hist)) mode"
proof -
  define think where "think = ds4_think_mode_enabled mode"
  define start where "start = begin_of_sentence @ (if mode = THINK_MAX then ds4_think_max_prefix else []) @ render_system (hist @ [a]) schemas"
  have sys: "render_system (hist @ [a] @ tail) schemas = render_system (hist @ [a]) schemas"
    using render_system_append [OF assms(3), of "hist @ [a]" schemas] by simp
  obtain out p q where h: "fold (render_msg think True) hist (start, False, False) = (out, p, q)"
    by (cases "fold (render_msg think True) hist (start, False, False)") auto
  obtain before where a: "render_msg think True a (out, p, q) = (before @ end_of_sentence, False, False)"
    using render_assistant_ends [OF assms(1)] by blast
  have "a \<in> set (hist @ [a])" "a \<in> set (hist @ [a] @ tail)" by simp_all
  note tc = calls_are_tool_context [OF assms(1,2) this(1)] calls_are_tool_context [OF assms(1,2) this(2)]
  have whole: "render_chat_prompt_text (hist @ [a]) schemas mode = before @ end_of_sentence"
    unfolding render_in_tool_context [OF tc(1)] think_def [symmetric] start_def [symmetric] fold_append o_apply h
    by (simp add: a render_end_def)
  have "render_chat_prompt_text (hist @ [a] @ tail) schemas mode
      = render_end think (fold (render_msg think True) tail (before @ end_of_sentence, False, False))"
    unfolding render_in_tool_context [OF tc(2)] sys think_def [symmetric] start_def [symmetric] fold_append o_apply h
    by (simp add: a)
  also have "\<dots> = before @ render_live_tool_tail (hist @ [a] @ tail) (Suc (length hist)) mode"
    unfolding render_fold_append render_end_append render_live_tool_tail_def Let_def think_def by simp
  finally show ?thesis using whole by blast
qed

text \<open>C29. The fast path appends what the slow path would have rendered: for a conversation that goes on
  behind an assistant message with tool calls, and in which nothing new is a system message, the
  prompt of the whole conversation is the prompt up to that message, whose last token is the end of
  the sentence, with this token replaced by the live tail.  So the live session, which has not yet
  seen that token, reads the same text as a session that starts over.\<close>

theorem live_tail_continues_prompt:
  assumes "msg_role a = ''assistant''" "calls_v (msg_tool_calls a) \<noteq> []"
    and "list_all (\<lambda>m. \<not> role_is_system (msg_role m)) tail"
  shows "\<exists>before. render_chat_prompt_text (hist @ [a]) schemas mode = before @ end_of_sentence
    \<and> render_chat_prompt_text (hist @ [a] @ tail) schemas mode
        = before @ render_live_tool_tail (hist @ [a] @ tail) (Suc (length hist)) mode"
  by (rule live_tail_spells_prompt [OF assms])

theorem live_tail_continues_prompt_witness:
  "\<exists>before. render_chat_prompt_text ([] @ [\<lparr>msg_role = ''assistant'', msg_text = None, msg_thought = None, msg_tool_call_id = None,
        msg_tool_call_ids = [], msg_tool_calls = \<lparr>calls_v = [\<lparr>tc_id = None, tc_name = None, tc_arguments = None\<rparr>], raw_dsml = Some ''x''\<rparr>\<rparr>]) None THINK_HIGH
      = before @ end_of_sentence
    \<and> render_chat_prompt_text ([] @ [\<lparr>msg_role = ''assistant'', msg_text = None, msg_thought = None, msg_tool_call_id = None,
        msg_tool_call_ids = [], msg_tool_calls = \<lparr>calls_v = [\<lparr>tc_id = None, tc_name = None, tc_arguments = None\<rparr>], raw_dsml = Some ''x''\<rparr>\<rparr>]
        @ [\<lparr>msg_role = ''tool'', msg_text = Some ''42'', msg_thought = None, msg_tool_call_id = Some ''id'', msg_tool_call_ids = [], msg_tool_calls = no_calls\<rparr>])
        None THINK_HIGH
      = before @ render_live_tool_tail ([] @ [\<lparr>msg_role = ''assistant'', msg_text = None, msg_thought = None, msg_tool_call_id = None,
        msg_tool_call_ids = [], msg_tool_calls = \<lparr>calls_v = [\<lparr>tc_id = None, tc_name = None, tc_arguments = None\<rparr>], raw_dsml = Some ''x''\<rparr>\<rparr>]
        @ [\<lparr>msg_role = ''tool'', msg_text = Some ''42'', msg_thought = None, msg_tool_call_id = Some ''id'', msg_tool_call_ids = [], msg_tool_calls = no_calls\<rparr>])
        (Suc (length ([] :: chat_msg list))) THINK_HIGH"
  by (rule live_tail_continues_prompt) (simp_all add: role_is_system_def)

end
