(* ===== verification/Server_Live.thy ===== *)
theory Server_Live
  imports Tool_Put Chat_Render Kv_Store
begin

text \<open>
  The state the server keeps next to its one live session (\<open>src/ds4_server.c\<close>): the memory of
  sampled tool calls, the call ids of the last turn of a Responses or Anthropic client, the
  visible transcript that stands for hidden thoughts, and how a request is continued from the live
  tokens.  The engine and the session are those of the theory \<open>Kv_Store\<close>; the server has its own
  copies of \<open>render_tokens_text\<close>, \<open>byte_prefix_match\<close> and
  \<open>build_prompt_from_exact_prefix_and_text_suffix\<close> with the same text as the library's.
\<close>

section \<open>State\<close>

datatype api_style = API_OPENAI | API_ANTHROPIC | API_RESPONSES

record live_tool_state =
  lt_valid :: bool
  lt_tokens :: int
  lt_visible :: "bytes option"
  lt_call_ids :: "bytes list"

record visible_live_state =
  vl_valid :: bool
  vl_tokens :: int
  vl_visible :: "bytes option"

record server =
  sv_tool_mem :: tool_memory
  sv_responses_live :: live_tool_state
  sv_anthropic_live :: live_tool_state
  sv_thinking_live :: visible_live_state
  sv_no_exact_replay :: bool

record request =
  rq_chat :: bool
  rq_api :: api_style
  rq_prompt :: "int list"
  rq_prompt_text :: "bytes option"
  rq_think_mode :: ds4_think_mode
  rq_summary_emit :: bool
  rq_responses_needs_state :: bool
  rq_responses_needs_thought :: bool
  rq_responses_ids :: "bytes list"
  rq_responses_suffix :: "bytes option"
  rq_anthropic_needs_state :: bool
  rq_anthropic_ids :: "bytes list"
  rq_anthropic_suffix :: "bytes option"

record tool_replay_stats =
  rs_mem :: nat
  rs_disk :: nat
  rs_canonical :: nat
  rs_missing_ids :: nat

text \<open>\<open>ds4_session_tokens\<close> gives the tokens of the session, \<open>ds4_session_pos\<close> their number.\<close>

definition session_pos :: "'s engine \<Rightarrow> 's \<Rightarrow> int" where
  "session_pos eng s = (case eng_tokens eng s of None \<Rightarrow> 0 | Some t \<Rightarrow> int (length t))"

section \<open>Lists of ids\<close>

definition id_list_contains :: "bytes list \<Rightarrow> bytes option \<Rightarrow> bool" where
  "id_list_contains ids i \<longleftrightarrow> or_empty i \<noteq> [] \<and> or_empty i \<in> set ids"

definition id_list_push_unique :: "bytes list \<Rightarrow> bytes option \<Rightarrow> bytes list" where
  "id_list_push_unique ids i = (if or_empty i = [] \<or> id_list_contains ids i then ids else ids @ [or_empty i])"

definition chat_msg_collect_tool_call_ids :: "chat_msg \<Rightarrow> bytes list \<Rightarrow> bytes list" where
  "chat_msg_collect_tool_call_ids m ids =
     foldl id_list_push_unique (id_list_push_unique ids (msg_tool_call_id m)) (map Some (msg_tool_call_ids m))"

definition collect_tool_call_ids :: "chat_msg list \<Rightarrow> bytes list \<Rightarrow> bytes list" where
  "collect_tool_call_ids msgs ids =
     foldl (\<lambda>ids m. foldl id_list_push_unique (chat_msg_collect_tool_call_ids m ids) (map tc_id (calls_v (msg_tool_calls m)))) ids msgs"

section \<open>Remembering the last turn\<close>

definition no_live_tools :: live_tool_state where
  "no_live_tools = \<lparr>lt_valid = False, lt_tokens = 0, lt_visible = None, lt_call_ids = []\<rparr>"

definition no_visible_live :: visible_live_state where
  "no_visible_live = \<lparr>vl_valid = False, vl_tokens = 0, vl_visible = None\<rparr>"

definition thinking_live_clear :: "server \<Rightarrow> server" where
  "thinking_live_clear sv = sv\<lparr>sv_thinking_live := no_visible_live\<rparr>"

definition thinking_live_remember :: "server \<Rightarrow> bytes option \<Rightarrow> int \<Rightarrow> server" where
  "thinking_live_remember sv visible_text pos =
     (if or_empty visible_text = [] then sv
      else sv\<lparr>sv_thinking_live := \<lparr>vl_valid = True, vl_tokens = pos, vl_visible = visible_text\<rparr>\<rparr>)"

definition call_ids :: "tool_call list \<Rightarrow> bytes list" where
  "call_ids cs = foldl id_list_push_unique [] (map tc_id cs)"

definition responses_live_remember :: "server \<Rightarrow> bytes option \<Rightarrow> tool_calls option \<Rightarrow> int \<Rightarrow> server" where
  "responses_live_remember sv visible_text calls pos =
     (if or_empty visible_text = [] then sv
      else sv\<lparr>sv_responses_live := \<lparr>lt_valid = True, lt_tokens = pos, lt_visible = visible_text,
                lt_call_ids = (case calls of None \<Rightarrow> [] | Some c \<Rightarrow> call_ids (calls_v c))\<rparr>\<rparr>)"

definition anthropic_live_remember :: "server \<Rightarrow> tool_calls \<Rightarrow> int \<Rightarrow> server" where
  "anthropic_live_remember sv calls pos =
     (if calls_v calls = [] then sv
      else sv\<lparr>sv_anthropic_live := \<lparr>lt_valid = call_ids (calls_v calls) \<noteq> [], lt_tokens = pos, lt_visible = None,
                lt_call_ids = call_ids (calls_v calls)\<rparr>\<rparr>)"

definition responses_live_clear :: "server \<Rightarrow> server" where
  "responses_live_clear sv = sv\<lparr>sv_responses_live := no_live_tools\<rparr>"

definition anthropic_live_clear :: "server \<Rightarrow> server" where
  "anthropic_live_clear sv = sv\<lparr>sv_anthropic_live := no_live_tools\<rparr>"

definition live_has_call_id :: "live_tool_state \<Rightarrow> bytes \<Rightarrow> bool" where
  "live_has_call_id st i \<longleftrightarrow> i \<noteq> [] \<and> lt_valid st \<and> id_list_contains (lt_call_ids st) (Some i)"

definition live_matches_request :: "live_tool_state \<Rightarrow> bytes list \<Rightarrow> int \<Rightarrow> bool" where
  "live_matches_request st ids live_tokens \<longleftrightarrow>
     ids \<noteq> [] \<and> lt_valid st \<and> lt_tokens st = live_tokens \<and> length (lt_call_ids st) = length ids
     \<and> list_all (\<lambda>i. id_list_contains (lt_call_ids st) (Some i)) ids"

definition responses_live_has_call_id :: "server \<Rightarrow> bytes \<Rightarrow> bool" where
  "responses_live_has_call_id sv i = live_has_call_id (sv_responses_live sv) i"

definition anthropic_live_has_call_id :: "server \<Rightarrow> bytes \<Rightarrow> bool" where
  "anthropic_live_has_call_id sv i = live_has_call_id (sv_anthropic_live sv) i"

definition responses_live_matches_request :: "server \<Rightarrow> bytes list \<Rightarrow> int \<Rightarrow> bool" where
  "responses_live_matches_request sv ids live_tokens = live_matches_request (sv_responses_live sv) ids live_tokens"

definition anthropic_live_matches_request :: "server \<Rightarrow> bytes list \<Rightarrow> int \<Rightarrow> bool" where
  "anthropic_live_matches_request sv ids live_tokens = live_matches_request (sv_anthropic_live sv) ids live_tokens"

section \<open>Is a tool result answerable?\<close>

definition chat_msg_has_call_id :: "chat_msg \<Rightarrow> bytes \<Rightarrow> bool" where
  "chat_msg_has_call_id m i \<longleftrightarrow>
     i \<noteq> [] \<and> msg_role m = ''assistant'' \<and> list_ex (\<lambda>tc. tc_id tc = Some i) (calls_v (msg_tool_calls m))"

definition responses_find_prior_call_msg :: "chat_msg list \<Rightarrow> nat \<Rightarrow> bytes \<Rightarrow> chat_msg option" where
  "responses_find_prior_call_msg msgs before i =
     (if i = [] then None else find (\<lambda>m. chat_msg_has_call_id m i) (rev (take before msgs)))"

text \<open>The inner loop over the ids of one message; the state are the two flags, \<open>Inl\<close> is the id the
  error names.\<close>

fun validate_outputs :: "server \<Rightarrow> bool \<Rightarrow> chat_msg list \<Rightarrow> nat \<Rightarrow> bytes list \<Rightarrow> bool \<times> bool \<Rightarrow> bytes + bool \<times> bool" where
  "validate_outputs sv needs_reasoning msgs n [] st = Inr st"
| "validate_outputs sv needs_reasoning msgs n (i # ids) (state, thought) =
     (case responses_find_prior_call_msg msgs n i of
        None \<Rightarrow> if \<not> responses_live_has_call_id sv i then Inl i
                else validate_outputs sv needs_reasoning msgs n ids (True, thought)
      | Some prior \<Rightarrow> validate_outputs sv needs_reasoning msgs n ids
                        (state, thought \<or> needs_reasoning \<and> or_empty (msg_thought prior) = []))"

fun responses_validate :: "server \<Rightarrow> bool \<Rightarrow> chat_msg list \<Rightarrow> (nat \<times> chat_msg) list \<Rightarrow> bool \<times> bool \<Rightarrow> bytes + bool \<times> bool" where
  "responses_validate sv needs_reasoning msgs [] st = Inr st"
| "responses_validate sv needs_reasoning msgs ((n, m) # rest) st =
     (if msg_role m \<noteq> ''tool'' \<and> msg_role m \<noteq> ''function'' then responses_validate sv needs_reasoning msgs rest st
      else case validate_outputs sv needs_reasoning msgs n (chat_msg_collect_tool_call_ids m []) st of
             Inl i \<Rightarrow> Inl i
           | Inr st \<Rightarrow> responses_validate sv needs_reasoning msgs rest st)"

definition responses_validate_tool_outputs :: "server \<Rightarrow> chat_msg list \<Rightarrow> ds4_think_mode \<Rightarrow> bytes + bool \<times> bool" where
  "responses_validate_tool_outputs sv msgs think_mode =
     responses_validate sv (ds4_think_mode_enabled think_mode) msgs (enumerate 0 msgs) (False, False)"

definition anthropic_msg_is_tool_result_tail :: "chat_msg \<Rightarrow> bool" where
  "anthropic_msg_is_tool_result_tail m \<longleftrightarrow>
     msg_role m = ''user'' \<and> (or_empty (msg_tool_call_id m) \<noteq> [] \<or> msg_tool_call_ids m \<noteq> [])"

fun validate_results :: "server \<Rightarrow> chat_msg list \<Rightarrow> nat \<Rightarrow> bytes list \<Rightarrow> bool \<Rightarrow> bytes + bool" where
  "validate_results sv msgs n [] state = Inr state"
| "validate_results sv msgs n (i # ids) state =
     (let live_known = anthropic_live_has_call_id sv i; prior = responses_find_prior_call_msg msgs n i
      in if \<not> live_known \<and> prior = None then Inl i
         else validate_results sv msgs n ids (state \<or> prior = None))"

fun anthropic_validate :: "server \<Rightarrow> chat_msg list \<Rightarrow> (nat \<times> chat_msg) list \<Rightarrow> bool \<Rightarrow> bytes + bool" where
  "anthropic_validate sv msgs [] state = Inr state"
| "anthropic_validate sv msgs ((n, m) # rest) state =
     (if \<not> anthropic_msg_is_tool_result_tail m then anthropic_validate sv msgs rest state
      else case validate_results sv msgs n (chat_msg_collect_tool_call_ids m []) state of
             Inl i \<Rightarrow> Inl i
           | Inr state \<Rightarrow> anthropic_validate sv msgs rest state)"

definition anthropic_validate_tool_results :: "server \<Rightarrow> chat_msg list \<Rightarrow> bytes + bool" where
  "anthropic_validate_tool_results sv msgs = anthropic_validate sv msgs (enumerate 0 msgs) False"

section \<open>Preparing a continuation\<close>

text \<open>The loops that look for the start of the tail stop at the first message from behind that is
  not of the tail, so that they leave the rest of the reversed list.\<close>

definition responses_prepare_live_continuation :: "request \<Rightarrow> chat_msg list \<Rightarrow> request" where
  "responses_prepare_live_continuation r msgs =
     (if rq_api r \<noteq> API_RESPONSES \<or> msgs = [] then r
      else let tail_start = length (dropWhile (\<lambda>m. msg_role m = ''tool'' \<or> msg_role m = ''function'') (rev msgs)) in
      if tail_start = length msgs then r
      else let r = r\<lparr>rq_responses_ids := []\<rparr>; assistant = msgs ! (tail_start - 1) in
      if tail_start > 0 \<and> (msg_role assistant \<noteq> ''assistant'' \<or> calls_v (msg_tool_calls assistant) = []) then r
      else let r = r\<lparr>rq_responses_ids :=
                     (if tail_start > 0 then call_ids (calls_v (msg_tool_calls assistant))
                      else foldl (\<lambda>ids m. chat_msg_collect_tool_call_ids m ids) [] (drop tail_start msgs))\<rparr> in
      if rq_responses_ids r = [] then r
      else r\<lparr>rq_responses_suffix := Some (render_live_tool_tail msgs tail_start (rq_think_mode r))\<rparr>)"

definition anthropic_prepare_live_continuation :: "request \<Rightarrow> chat_msg list \<Rightarrow> request" where
  "anthropic_prepare_live_continuation r msgs =
     (if rq_api r \<noteq> API_ANTHROPIC \<or> msgs = [] then r
      else let rest = dropWhile (\<lambda>m. role_is_system (msg_role m)) (rev msgs); tail_end = length rest;
               tail_start = length (dropWhile anthropic_msg_is_tool_result_tail rest) in
      if tail_start = tail_end then r
      else let r = r\<lparr>rq_anthropic_ids := foldl (\<lambda>ids m. chat_msg_collect_tool_call_ids m ids) [] (drop tail_start msgs)\<rparr> in
      if rq_anthropic_ids r = [] then r
      else r\<lparr>rq_anthropic_suffix := Some (render_live_tool_tail msgs tail_start (rq_think_mode r))\<rparr>)"

section \<open>Continuing from the live tokens\<close>

text \<open>The result is the number of live tokens the prompt is continued from, 0 for no continuation,
  and the prompt.\<close>

definition continue_live :: "'s engine \<Rightarrow> 's \<Rightarrow> int \<Rightarrow> bytes \<Rightarrow> nat \<times> int list" where
  "continue_live eng s live_pos new_text =
     (case eng_tokens eng s of None \<Rightarrow> (0, [])
      | Some live \<Rightarrow> if int (length live) \<noteq> live_pos then (0, []) else (length live, build_prompt eng live new_text))"

definition live_text_prefix_prompt :: "'s engine \<Rightarrow> 's \<Rightarrow> request \<Rightarrow> nat \<times> int list" where
  "live_text_prefix_prompt eng s r =
     (case (rq_prompt_text r, eng_tokens eng s) of
        (Some text, Some live) \<Rightarrow>
          if live = [] then (0, [])
          else let live_text = render_tokens_text eng live in
          if \<not> byte_prefix_match text live_text then (0, [])
          else (length live, build_prompt eng live (drop (length live_text) text))
      | _ \<Rightarrow> (0, []))"

definition responses_live_continuation_prompt :: "server \<Rightarrow> 's engine \<Rightarrow> 's \<Rightarrow> request \<Rightarrow> int \<Rightarrow> nat \<times> int list" where
  "responses_live_continuation_prompt sv eng s r live_pos =
     (if rq_api r \<noteq> API_RESPONSES \<or> rq_responses_suffix r = None \<or> rq_responses_ids r = []
         \<or> \<not> responses_live_matches_request sv (rq_responses_ids r) live_pos then (0, [])
      else continue_live eng s live_pos (the (rq_responses_suffix r)))"

definition anthropic_live_continuation_prompt :: "server \<Rightarrow> 's engine \<Rightarrow> 's \<Rightarrow> request \<Rightarrow> int \<Rightarrow> nat \<times> int list" where
  "anthropic_live_continuation_prompt sv eng s r live_pos =
     (if rq_api r \<noteq> API_ANTHROPIC \<or> rq_anthropic_suffix r = None \<or> rq_anthropic_ids r = []
         \<or> \<not> anthropic_live_matches_request sv (rq_anthropic_ids r) live_pos then (0, [])
      else continue_live eng s live_pos (the (rq_anthropic_suffix r)))"

definition visible_prefix :: "bool \<Rightarrow> int \<Rightarrow> bytes option \<Rightarrow> bytes \<Rightarrow> int \<Rightarrow> bytes option" where
  "visible_prefix valid tokens visible prompt live_pos =
     (case visible of None \<Rightarrow> None
      | Some v \<Rightarrow> if valid \<and> tokens = live_pos \<and> length v < length prompt \<and> byte_prefix_match prompt v then Some v else None)"

definition responses_live_visible_prefix_prompt :: "server \<Rightarrow> 's engine \<Rightarrow> 's \<Rightarrow> request \<Rightarrow> int \<Rightarrow> nat \<times> int list" where
  "responses_live_visible_prefix_prompt sv eng s r live_pos =
     (let st = sv_responses_live sv; text = or_empty (rq_prompt_text r) in
      if rq_prompt_text r = None \<or> rq_api r \<noteq> API_RESPONSES then (0, [])
      else case visible_prefix (lt_valid st) (lt_tokens st) (lt_visible st) text live_pos of None \<Rightarrow> (0, [])
           | Some v \<Rightarrow> continue_live eng s live_pos (drop (length v) text))"

definition thinking_live_visible_prefix_prompt :: "server \<Rightarrow> 's engine \<Rightarrow> 's \<Rightarrow> request \<Rightarrow> int \<Rightarrow> nat \<times> int list" where
  "thinking_live_visible_prefix_prompt sv eng s r live_pos =
     (let st = sv_thinking_live sv; text = or_empty (rq_prompt_text r) in
      if rq_prompt_text r = None \<or> \<not> rq_chat r \<or> rq_api r = API_RESPONSES then (0, [])
      else case visible_prefix (vl_valid st) (vl_tokens st) (vl_visible st) text live_pos of None \<Rightarrow> (0, [])
           | Some v \<Rightarrow> continue_live eng s live_pos (drop (length v) text))"

text \<open>The order of the attempts in \<open>generate_job\<close>, up to the disk: the refusals are answered with
  status 409.  \<open>common\<close> is \<open>ds4_session_common_prefix\<close>.\<close>

datatype cache_source =
    Src_none | Src_responses_visible | Src_responses_tool | Src_anthropic_tool | Src_memory_token
  | Src_thinking_visible | Src_memory_text

datatype live_choice = Refused_responses | Refused_anthropic | Chosen cache_source nat "int list"

definition choose_live_prompt :: "server \<Rightarrow> 's engine \<Rightarrow> 's \<Rightarrow> request \<Rightarrow> nat \<Rightarrow> live_choice" where
  "choose_live_prompt sv eng s r common =
     (let old_pos = session_pos eng s;
          visible = responses_live_visible_prefix_prompt sv eng s r old_pos;
          output = responses_live_continuation_prompt sv eng s r old_pos;
          result = anthropic_live_continuation_prompt sv eng s r old_pos;
          thinking = thinking_live_visible_prefix_prompt sv eng s r old_pos;
          by_text = live_text_prefix_prompt eng s r
      in if fst visible > 0 then Chosen Src_responses_visible (fst visible) (snd visible)
         else if fst output > 0 then Chosen Src_responses_tool (fst output) (snd output)
         else if fst result > 0 then Chosen Src_anthropic_tool (fst result) (snd result)
         else if rq_api r = API_RESPONSES \<and> rq_responses_needs_state r then Refused_responses
         else if rq_api r = API_ANTHROPIC \<and> rq_anthropic_needs_state r then Refused_anthropic
         else if int common = old_pos \<and> int (length (rq_prompt r)) \<ge> old_pos \<and> common > 0
              then Chosen Src_memory_token common (rq_prompt r)
         else if fst thinking > 0 then Chosen Src_thinking_visible (fst thinking) (snd thinking)
         else if fst by_text > 0 then Chosen Src_memory_text (fst by_text) (snd by_text)
         else Chosen Src_none 0 (rq_prompt r))"

section \<open>What a turn leaves behind\<close>

definition build_tool_checkpoint_suffix :: "request \<Rightarrow> bytes option \<Rightarrow> bytes option \<Rightarrow> tool_calls \<Rightarrow> bytes" where
  "build_tool_checkpoint_suffix r content reasoning calls =
     (if ds4_think_mode_enabled (rq_think_mode r) then or_empty reasoning @ ''</think>'' else [])
     @ or_empty content @ append_dsml_tool_calls_text calls @ end_of_sentence"

definition build_responses_visible_assistant_suffix :: "request \<Rightarrow> bytes option \<Rightarrow> bytes option \<Rightarrow> tool_calls \<Rightarrow> bytes" where
  "build_responses_visible_assistant_suffix r content reasoning calls =
     (if ds4_think_mode_enabled (rq_think_mode r)
      then (if rq_summary_emit r \<and> calls_v calls \<noteq> [] then or_empty reasoning else []) @ ''</think>'' else [])
     @ or_empty content @ append_dsml_tool_calls_text calls @ end_of_sentence"

definition build_toolless_thinking_visible_text :: "request \<Rightarrow> bytes option \<Rightarrow> bytes option" where
  "build_toolless_thinking_visible_text r content =
     (case rq_prompt_text r of None \<Rightarrow> None
      | Some text \<Rightarrow>
          if \<not> ds4_think_mode_enabled (rq_think_mode r) then None
          else if length text < 7 \<or> drop (length text - 7) text \<noteq> ''<think>'' then None
          else Some (take (length text - 7) text @ ''</think>'' @ or_empty content @ end_of_sentence))"

definition remember_thinking_checkpoint :: "server \<Rightarrow> request \<Rightarrow> bytes option \<Rightarrow> int \<Rightarrow> server" where
  "remember_thinking_checkpoint sv r content pos =
     (case build_toolless_thinking_visible_text r content of None \<Rightarrow> sv
      | Some visible \<Rightarrow> thinking_live_remember sv (Some visible) pos)"

end
