(* ===== verification/Live_Turn.thy ===== *)
theory Live_Turn
  imports Server_Live
begin

text \<open>
  What continuing from the live tokens preserves: the ids of a turn and of its answer, the text the
  model reads, and the tokens it has already read.
\<close>

section \<open>Lists of ids\<close>

lemma push_unique_set: "set (id_list_push_unique ids i) = set ids \<union> ({or_empty i} - {[]})"
  by (auto simp: id_list_push_unique_def id_list_contains_def)

lemma push_unique_distinct: "distinct ids \<Longrightarrow> distinct (id_list_push_unique ids i)"
  by (auto simp: id_list_push_unique_def id_list_contains_def)

lemma push_all_set: "set (foldl id_list_push_unique ids is) = set ids \<union> (or_empty ` set is - {[]})"
  by (induction "is" arbitrary: ids) (auto simp: push_unique_set)

lemma push_all_distinct: "distinct ids \<Longrightarrow> distinct (foldl id_list_push_unique ids is)"
  by (induction "is" arbitrary: ids) (auto simp: push_unique_distinct)

lemma collect_distinct: "distinct ids \<Longrightarrow> distinct (foldl (\<lambda>ids m. chat_msg_collect_tool_call_ids m ids) ids msgs)"
  by (induction msgs arbitrary: ids) (auto simp: chat_msg_collect_tool_call_ids_def push_all_distinct push_unique_distinct)

lemma collect_set:
  "set (foldl (\<lambda>ids m. chat_msg_collect_tool_call_ids m ids) ids msgs)
     = set ids \<union> ((\<Union>m \<in> set msgs. insert (or_empty (msg_tool_call_id m)) (set (msg_tool_call_ids m))) - {[]})"
proof (induction msgs arbitrary: ids)
  case (Cons m msgs)
  have "or_empty ` Some ` A = A" for A by (force simp: or_empty_def)
  then have "set (chat_msg_collect_tool_call_ids m ids)
      = set ids \<union> (insert (or_empty (msg_tool_call_id m)) (set (msg_tool_call_ids m)) - {[]})"
    by (auto simp: chat_msg_collect_tool_call_ids_def push_all_set push_unique_set)
  then show ?case using Cons.IH [of "chat_msg_collect_tool_call_ids m ids"] by auto
qed simp

lemma call_ids_distinct: "distinct (call_ids cs)"
  by (simp add: call_ids_def push_all_distinct)

lemma call_ids_set: "set (call_ids cs) = or_empty ` tc_id ` set cs - {[]}"
  by (simp add: call_ids_def push_all_set)

text \<open>Comparing the lengths and looking every id up decides the equality of the sets.\<close>

lemma live_matches_iff:
  assumes "distinct ids" "distinct (lt_call_ids st)" "[] \<notin> set ids"
  shows "live_matches_request st ids pos
     \<longleftrightarrow> ids \<noteq> [] \<and> lt_valid st \<and> lt_tokens st = pos \<and> set ids = set (lt_call_ids st)"
proof -
  have "length (lt_call_ids st) = length ids \<and> set ids \<subseteq> set (lt_call_ids st) \<longleftrightarrow> set ids = set (lt_call_ids st)"
    using assms(1,2) by (metis card_subset_eq distinct_card List.finite_set order_refl)
  moreover have "list_all (\<lambda>i. id_list_contains (lt_call_ids st) (Some i)) ids \<longleftrightarrow> set ids \<subseteq> set (lt_call_ids st)"
    using assms(3) by (auto simp: list_all_iff id_list_contains_def or_empty_def)
  ultimately show ?thesis unfolding live_matches_request_def by blast
qed

section \<open>The live tokens are never given up\<close>

lemma continue_live_extends:
  "eng_tokens eng s = Some live \<Longrightarrow> continue_live eng s pos t = (n, p) \<Longrightarrow> n > 0
    \<Longrightarrow> n = length live \<and> (\<exists>rest. p = live @ rest)"
  by (auto simp: continue_live_def build_prompt_def split: if_splits)

lemma live_prompt_extends:
  assumes "eng_tokens eng s = Some live"
  shows "responses_live_visible_prefix_prompt sv eng s r pos = (n, p) \<Longrightarrow> n > 0 \<Longrightarrow> n = length live \<and> (\<exists>rest. p = live @ rest)"
    and "responses_live_continuation_prompt sv eng s r pos = (n, p) \<Longrightarrow> n > 0 \<Longrightarrow> n = length live \<and> (\<exists>rest. p = live @ rest)"
    and "anthropic_live_continuation_prompt sv eng s r pos = (n, p) \<Longrightarrow> n > 0 \<Longrightarrow> n = length live \<and> (\<exists>rest. p = live @ rest)"
    and "thinking_live_visible_prefix_prompt sv eng s r pos = (n, p) \<Longrightarrow> n > 0 \<Longrightarrow> n = length live \<and> (\<exists>rest. p = live @ rest)"
    and "live_text_prefix_prompt eng s r = (n, p) \<Longrightarrow> n > 0 \<Longrightarrow> n = length live \<and> (\<exists>rest. p = live @ rest)"
  using continue_live_extends [OF assms]
  by (auto simp: responses_live_visible_prefix_prompt_def responses_live_continuation_prompt_def
      anthropic_live_continuation_prompt_def thinking_live_visible_prefix_prompt_def Let_def split: if_splits option.splits)
    (auto simp: live_text_prefix_prompt_def assms build_prompt_def Let_def split: if_splits option.splits)

text \<open>C27. Whatever source a request is continued from, the prompt starts with all the tokens of the live
  session, so that the session is only ever extended: no token the model has read is taken back and
  none is read twice.\<close>

theorem chosen_prompt_extends_session:
  assumes "eng_tokens eng s = Some live"
    and "take common (rq_prompt r) = take common live"
    and "choose_live_prompt sv eng s r common = Chosen src cached prompt" "cached > 0"
  shows "cached = length live \<and> prefix live prompt"
proof -
  have pos: "session_pos eng s = int (length live)" by (simp add: session_pos_def assms(1))
  have ext: "fst x > 0 \<Longrightarrow> fst x = length live \<and> prefix live (snd x)"
    if "x = responses_live_visible_prefix_prompt sv eng s r (int (length live)) \<or> x = responses_live_continuation_prompt sv eng s r (int (length live))
      \<or> x = anthropic_live_continuation_prompt sv eng s r (int (length live)) \<or> x = thinking_live_visible_prefix_prompt sv eng s r (int (length live))
      \<or> x = live_text_prefix_prompt eng s r" for x
    using that live_prompt_extends [OF assms(1)] unfolding prefix_def by (metis prod.collapse)
  have token: "common = length live \<Longrightarrow> length live \<le> length (rq_prompt r) \<Longrightarrow> prefix live (rq_prompt r)"
    using assms(2) by (metis append_take_drop_id order_refl prefixI take_all)
  have chain: "(if fst v > 0 then Chosen Src_responses_visible (fst v) (snd v)
         else if fst w > 0 then Chosen Src_responses_tool (fst w) (snd w)
         else if fst x > 0 then Chosen Src_anthropic_tool (fst x) (snd x)
         else if R then Refused_responses else if A then Refused_anthropic
         else if T then Chosen Src_memory_token common (rq_prompt r)
         else if fst y > 0 then Chosen Src_thinking_visible (fst y) (snd y)
         else if fst z > 0 then Chosen Src_memory_text (fst z) (snd z)
         else Chosen Src_none 0 (rq_prompt r)) = Chosen src cached prompt \<Longrightarrow>
      (cached, prompt) \<in> {v, w, x, y, z} \<or> T \<and> cached = common \<and> prompt = rq_prompt r" for v w x y z :: "nat \<times> int list" and R A T
    using assms(4) by (cases v; cases w; cases x; cases y; cases z) (simp split: if_splits)
  show ?thesis
    using chain [OF assms(3) [unfolded choose_live_prompt_def Let_def pos]] ext token assms(4)
    by (elim disjE conjE insertE emptyE) (metis fst_conv snd_conv of_nat_eq_iff of_nat_le_iff)+
qed


text \<open>A small engine for the examples: a token is a byte.\<close>

definition byte_engine :: "int list engine" where
  "byte_engine = \<lparr>eng_quant_bits = 2, eng_token_text = (\<lambda>t. [char_of (nat t)]), eng_tokenize_chat = map (\<lambda>c. int (of_char c)),
     eng_tokens = Some, eng_ctx = (\<lambda>_. 100), eng_payload_bytes = (\<lambda>_. 1), eng_save_payload = (\<lambda>_. None),
     eng_load_payload = (\<lambda>s fp n. (False, s, fp)), eng_invalidate = (\<lambda>s. s)\<rparr>"

lemma byte_engine_text: "render_tokens_text byte_engine (eng_tokenize_chat byte_engine t) = t"
  by (induction t) (simp_all add: render_tokens_text_def byte_engine_def)

definition empty_server :: server where
  "empty_server = \<lparr>sv_tool_mem = tool_memory_zero 0 0, sv_responses_live = no_live_tools, sv_anthropic_live = no_live_tools,
     sv_thinking_live = no_visible_live, sv_no_exact_replay = False\<rparr>"

definition plain_request :: "api_style \<Rightarrow> int list \<Rightarrow> bytes option \<Rightarrow> ds4_think_mode \<Rightarrow> request" where
  "plain_request api toks text think =
     \<lparr>rq_chat = True, rq_api = api, rq_prompt = toks, rq_prompt_text = text, rq_think_mode = think, rq_summary_emit = False,
      rq_responses_needs_state = False, rq_responses_needs_thought = False, rq_responses_ids = [], rq_responses_suffix = None,
      rq_anthropic_needs_state = False, rq_anthropic_ids = [], rq_anthropic_suffix = None\<rparr>"

lemma chosen_prompt_extends_session_witness:
  "(2 :: nat) = length [104, 105 :: int] \<and> prefix [104, 105] [104, 105, 33 :: int]"
proof (rule chosen_prompt_extends_session [where eng = byte_engine and s = "[104, 105]" and sv = empty_server
      and r = "plain_request API_OPENAI [7] (Some ''hi!'') THINK_NONE" and common = 0 and src = Src_memory_text])
  show "choose_live_prompt empty_server byte_engine [104, 105] (plain_request API_OPENAI [7] (Some ''hi!'') THINK_NONE) 0
      = Chosen Src_memory_text 2 [104, 105, 33]"
    by code_simp
qed (simp_all add: byte_engine_def)

section \<open>The answer to a tool call\<close>

lemma render_tokens_append: "render_tokens_text eng (a @ b) = render_tokens_text eng a @ render_tokens_text eng b"
  by (simp add: render_tokens_text_def)

lemma tool_result_tail_facts:
  "anthropic_msg_is_tool_result_tail m \<Longrightarrow> \<not> role_is_system (msg_role m)"
  "msg_role m = ''assistant'' \<Longrightarrow> \<not> anthropic_msg_is_tool_result_tail m"
  by (auto simp: anthropic_msg_is_tool_result_tail_def role_is_system_def)

lemma tail_ends:
  assumes "list_all P tail" "\<not> P a"
  shows "dropWhile P (rev (hist @ [a] @ tail)) = a # rev hist"
  using assms dropWhile_append2 [of "rev tail" P "a # rev hist"] by (simp add: list_all_iff)

lemma anthropic_prepare_tail:
  assumes "rq_api r = API_ANTHROPIC" "msg_role a = ''assistant''" "list_all anthropic_msg_is_tool_result_tail tail" "tail \<noteq> []"
    and "foldl (\<lambda>ids m. chat_msg_collect_tool_call_ids m ids) [] tail = ids" "ids \<noteq> []"
  shows "anthropic_prepare_live_continuation r (hist @ [a] @ tail)
       = r\<lparr>rq_anthropic_ids := ids, rq_anthropic_suffix := Some (render_live_tool_tail (hist @ [a] @ tail) (Suc (length hist)) (rq_think_mode r))\<rparr>"
proof -
  obtain ini m where m: "tail = ini @ [m]" using assms(4) by (cases tail rule: rev_cases) auto
  have "\<not> role_is_system (msg_role m)" using assms(3) m tool_result_tail_facts(1) by simp
  then have rest: "dropWhile (\<lambda>m. role_is_system (msg_role m)) (rev (hist @ [a] @ tail)) = rev (hist @ [a] @ tail)"
    by (simp add: m)
  have "dropWhile anthropic_msg_is_tool_result_tail (rev (hist @ [a] @ tail)) = a # rev hist"
    using tail_ends [OF assms(3) tool_result_tail_facts(2) [OF assms(2)]] .
  then show ?thesis using assms(1,4,5,6) unfolding anthropic_prepare_live_continuation_def rest by (simp add: Let_def)
qed

lemma anthropic_answer_matches:
  assumes "set (foldl (\<lambda>ids m. chat_msg_collect_tool_call_ids m ids) [] tail) = set (call_ids (calls_v calls))"
    and "call_ids (calls_v calls) \<noteq> []"
  shows "anthropic_live_matches_request (anthropic_live_remember sv calls pos)
    (foldl (\<lambda>ids m. chat_msg_collect_tool_call_ids m ids) [] tail) pos"
proof -
  let ?ids = "foldl (\<lambda>ids m. chat_msg_collect_tool_call_ids m ids) [] tail"
  have "calls_v calls \<noteq> []" using assms(2) by (auto simp: call_ids_def)
  moreover have "[] \<notin> set ?ids" by (simp add: assms(1) call_ids_set)
  moreover have "?ids \<noteq> []" using assms by (metis set_empty)
  ultimately show ?thesis
    using assms by (simp add: anthropic_live_matches_request_def anthropic_live_remember_def live_matches_iff collect_distinct call_ids_distinct)
qed

lemma anthropic_choice:
  assumes "rq_api r = API_ANTHROPIC" "anthropic_live_continuation_prompt sv eng s r (session_pos eng s) = (n, p)" "n > 0"
  shows "choose_live_prompt sv eng s r common = Chosen Src_anthropic_tool n p"
  using assms by (simp add: choose_live_prompt_def responses_live_visible_prefix_prompt_def responses_live_continuation_prompt_def Let_def)

text \<open>The continuation, as a lemma that other theories build on.\<close>

lemma tool_answer_continues:
  assumes "eng_tokens eng s = Some live" "live \<noteq> []"
    and "\<And>t. render_tokens_text eng (eng_tokenize_chat eng t) = t"
    and "render_tokens_text eng live @ end_of_sentence = render_chat_prompt_text (hist @ [a]) schemas (rq_think_mode r)"
    and "rq_api r = API_ANTHROPIC" "msg_role a = ''assistant''" "calls_v (msg_tool_calls a) \<noteq> []"
    and "list_all anthropic_msg_is_tool_result_tail tail" "tail \<noteq> []" "call_ids (calls_v calls) \<noteq> []"
    and "set (foldl (\<lambda>ids m. chat_msg_collect_tool_call_ids m ids) [] tail) = set (call_ids (calls_v calls))"
  shows "\<exists>new. choose_live_prompt (anthropic_live_remember sv calls (session_pos eng s)) eng s
             (anthropic_prepare_live_continuation r (hist @ [a] @ tail)) common
           = Chosen Src_anthropic_tool (length live) (live @ new)
         \<and> render_tokens_text eng (live @ new) = render_chat_prompt_text (hist @ [a] @ tail) schemas (rq_think_mode r)"
proof -
  let ?ids = "foldl (\<lambda>ids m. chat_msg_collect_tool_call_ids m ids) [] tail"
  let ?tail = "render_live_tool_tail (hist @ [a] @ tail) (Suc (length hist)) (rq_think_mode r)"
  let ?sv = "anthropic_live_remember sv calls (session_pos eng s)"
  define r' where "r' = anthropic_prepare_live_continuation r (hist @ [a] @ tail)"
  have "?ids \<noteq> []" using assms(10,11) by (metis set_empty)
  then have r': "rq_api r' = API_ANTHROPIC" "rq_anthropic_ids r' = ?ids" "rq_anthropic_suffix r' = Some ?tail"
    using anthropic_prepare_tail [OF assms(5,6,8,9) refl] assms(5) by (simp_all add: r'_def)
  have m: "anthropic_live_matches_request ?sv ?ids (session_pos eng s)" by (rule anthropic_answer_matches [OF assms(11,10)])
  have "anthropic_live_continuation_prompt ?sv eng s r' (session_pos eng s) = (length live, live @ eng_tokenize_chat eng ?tail)"
    unfolding anthropic_live_continuation_prompt_def r' using m \<open>?ids \<noteq> []\<close> assms(1)
    by (simp add: continue_live_def session_pos_def build_prompt_def)
  then have c: "choose_live_prompt ?sv eng s r' common = Chosen Src_anthropic_tool (length live) (live @ eng_tokenize_chat eng ?tail)"
    by (rule anthropic_choice [OF r'(1)]) (use assms(2) in simp)
  have "list_all (\<lambda>m. \<not> role_is_system (msg_role m)) tail"
    using assms(8) tool_result_tail_facts(1) by (simp add: list_all_iff)
  then obtain before where b: "render_chat_prompt_text (hist @ [a]) schemas (rq_think_mode r) = before @ end_of_sentence"
    "render_chat_prompt_text (hist @ [a] @ tail) schemas (rq_think_mode r) = before @ ?tail"
    using live_tail_spells_prompt [OF assms(6,7)] by blast
  have "render_tokens_text eng live = before" using assms(4) b(1) by simp
  then have "render_tokens_text eng (live @ eng_tokenize_chat eng ?tail) = render_chat_prompt_text (hist @ [a] @ tail) schemas (rq_think_mode r)"
    unfolding render_tokens_append assms(3) b(2) by simp
  then show ?thesis using c unfolding r'_def by blast
qed

text \<open>C3. A client that answers the tool calls of the last turn is continued on the live session, and the
  model then reads exactly the conversation it would read from a fresh start: if the live tokens spell
  the conversation up to the calls and the results name just the ids of these calls, the chosen prompt
  consists of the live tokens and new ones, and its text is the rendered conversation.\<close>

theorem tool_answer_continues_session:
  assumes "eng_tokens eng s = Some live" "live \<noteq> []"
    and "\<And>t. render_tokens_text eng (eng_tokenize_chat eng t) = t"
    and "render_tokens_text eng live @ end_of_sentence = render_chat_prompt_text (hist @ [a]) schemas (rq_think_mode r)"
    and "rq_api r = API_ANTHROPIC" "msg_role a = ''assistant''" "calls_v (msg_tool_calls a) \<noteq> []"
    and "list_all anthropic_msg_is_tool_result_tail tail" "tail \<noteq> []" "call_ids (calls_v calls) \<noteq> []"
    and "set (foldl (\<lambda>ids m. chat_msg_collect_tool_call_ids m ids) [] tail) = set (call_ids (calls_v calls))"
  shows "\<exists>new. choose_live_prompt (anthropic_live_remember sv calls (session_pos eng s)) eng s
             (anthropic_prepare_live_continuation r (hist @ [a] @ tail)) common
           = Chosen Src_anthropic_tool (length live) (live @ new)
         \<and> render_tokens_text eng (live @ new) = render_chat_prompt_text (hist @ [a] @ tail) schemas (rq_think_mode r)"
  by (rule tool_answer_continues [OF assms])


definition example_call :: chat_msg where
  "example_call = \<lparr>msg_role = ''assistant'', msg_text = None, msg_thought = None, msg_tool_call_id = None, msg_tool_call_ids = [],
     msg_tool_calls = \<lparr>calls_v = [\<lparr>tc_id = Some ''id'', tc_name = None, tc_arguments = None\<rparr>], raw_dsml = Some ''x''\<rparr>\<rparr>"

definition example_answer :: chat_msg where
  "example_answer = \<lparr>msg_role = ''user'', msg_text = Some ''42'', msg_thought = None, msg_tool_call_id = Some ''id'',
     msg_tool_call_ids = [''id''], msg_tool_calls = no_calls\<rparr>"

lemma tool_answer_continues_session_witness:
  "\<exists>new. choose_live_prompt (anthropic_live_remember empty_server (msg_tool_calls example_call)
             (session_pos byte_engine (eng_tokenize_chat byte_engine (begin_of_sentence @ ''x''))))
           byte_engine (eng_tokenize_chat byte_engine (begin_of_sentence @ ''x''))
             (anthropic_prepare_live_continuation (plain_request API_ANTHROPIC [] None THINK_HIGH) ([] @ [example_call] @ [example_answer])) 0
           = Chosen Src_anthropic_tool (length (eng_tokenize_chat byte_engine (begin_of_sentence @ ''x'')))
               (eng_tokenize_chat byte_engine (begin_of_sentence @ ''x'') @ new)
         \<and> render_tokens_text byte_engine (eng_tokenize_chat byte_engine (begin_of_sentence @ ''x'') @ new)
           = render_chat_prompt_text ([] @ [example_call] @ [example_answer]) None (rq_think_mode (plain_request API_ANTHROPIC [] None THINK_HIGH))"
proof (rule tool_answer_continues_session)
  show "render_tokens_text byte_engine (eng_tokenize_chat byte_engine (begin_of_sentence @ ''x'')) @ end_of_sentence
      = render_chat_prompt_text ([] @ [example_call]) None (rq_think_mode (plain_request API_ANTHROPIC [] None THINK_HIGH))"
    unfolding byte_engine_text by code_simp
  show "list_all anthropic_msg_is_tool_result_tail [example_answer]" by code_simp
  show "set (foldl (\<lambda>ids m. chat_msg_collect_tool_call_ids m ids) [] [example_answer]) = set (call_ids (calls_v (msg_tool_calls example_call)))"
    by (simp add: call_ids_set chat_msg_collect_tool_call_ids_def push_all_set push_unique_set example_answer_def example_call_def or_empty_def)
  show "call_ids (calls_v (msg_tool_calls example_call)) \<noteq> []" by code_simp
  show "eng_tokenize_chat byte_engine (begin_of_sentence @ ''x'') \<noteq> []" by (simp add: byte_engine_def)
  show "eng_tokens byte_engine (eng_tokenize_chat byte_engine (begin_of_sentence @ ''x'')) = Some (eng_tokenize_chat byte_engine (begin_of_sentence @ ''x''))"
    by (simp add: byte_engine_def)
qed (simp_all add: byte_engine_text plain_request_def example_call_def)

section \<open>The key of hidden thoughts\<close>

lemma render_fold_prefix: "prefix (fst st) (fst (fold (render_msg think shown) msgs st))"
proof -
  obtain b p q where st: "st = (b, p, q)" by (cases st) auto
  show ?thesis unfolding st using render_fold_append [of think shown msgs b "[]" p q] by simp
qed

lemma render_steps_prefix: "prefix (fst st) (fst (fold (\<lambda>(i, m). render_msg think (shown i) m) xs st))"
proof (induction xs arbitrary: st)
  case (Cons x xs)
  obtain i m where x: "x = (i, m)" by (cases x)
  have "prefix (fst st) (fst (render_msg think (shown i) m st))"
    using render_fold_prefix [of st think "shown i" "[m]"] by simp
  also have "prefix (fst (render_msg think (shown i) m st)) (fst (fold (\<lambda>(i, m). render_msg think (shown i) m) (x # xs) st))"
    using Cons.IH [of "render_msg think (shown i) m st"] by (simp add: x)
  finally show ?case .
qed simp

lemma render_end_prefix: "prefix (fst st) (render_end think st)"
  by (auto simp: render_end_def prefix_def split: prod.split)

lemma render_hidden:
  assumes "\<And>i. i < n + length msgs \<Longrightarrow> \<not> shown i"
  shows "fold (\<lambda>(i, m). render_msg think (shown i) m) (enumerate n msgs) st = fold (render_msg think False) msgs st"
  using assms
proof (induction msgs arbitrary: n st)
  case (Cons m msgs)
  then show ?case using Cons.IH [of "Suc n"] by simp
qed simp

lemma last_user_ge:
  "L \<le> int n \<Longrightarrow> L \<le> fold (\<lambda>(i, m) last_idx. if role_is_user_like (msg_role m) then int i else last_idx) (enumerate n msgs) L"
proof (induction msgs arbitrary: n L)
  case (Cons m msgs)
  have "L \<le> int n \<and> int n \<le> int (Suc n)" using Cons.prems by simp
  then show ?case using Cons.IH [of "int n" "Suc n"] Cons.IH [of L "Suc n"] by (auto intro: order_trans)
qed simp

lemma last_user_at:
  assumes "role_is_user_like (msg_role u)"
  shows "int (length hist) \<le> last_user_idx (hist @ u # rest)"
proof -
  have "fold (\<lambda>(i, m) last_idx. if role_is_user_like (msg_role m) then int i else last_idx) (enumerate 0 (hist @ u # rest)) L
      = fold (\<lambda>(i, m) last_idx. if role_is_user_like (msg_role m) then int i else last_idx) (enumerate (Suc (length hist)) rest) (int (length hist))" for L
    using assms by (simp add: enumerate_append_eq)
  then show ?thesis unfolding last_user_idx_def using last_user_ge [of "int (length hist)" "Suc (length hist)" rest] by simp
qed

text \<open>A conversation without tools, up to a message of the user: no earlier thought is shown.\<close>

lemma render_up_to_user:
  assumes "\<not> chat_history_uses_tool_context (msgs @ u # rest) schemas" "msg_role u = ''user''"
    "list_all (\<lambda>m. \<not> role_is_system (msg_role m)) rest"
  shows "prefix (fst (fold (render_msg (ds4_think_mode_enabled mode) False) (msgs @ [u])
           (begin_of_sentence @ (if mode = THINK_MAX then ds4_think_max_prefix else []) @ render_system (msgs @ [u]) schemas, False, False)))
      (render_chat_prompt_text (msgs @ u # rest) schemas mode)"
    and "rest = [] \<Longrightarrow> render_chat_prompt_text (msgs @ u # rest) schemas mode
      = render_end (ds4_think_mode_enabled mode) (fold (render_msg (ds4_think_mode_enabled mode) False) (msgs @ [u])
           (begin_of_sentence @ (if mode = THINK_MAX then ds4_think_max_prefix else []) @ render_system (msgs @ [u]) schemas, False, False))"
proof -
  define think where "think = ds4_think_mode_enabled mode"
  define start where "start = (begin_of_sentence @ (if mode = THINK_MAX then ds4_think_max_prefix else []) @ render_system (msgs @ [u]) schemas, False, False)"
  define L where "L = last_user_idx (msgs @ u # rest)"
  have "int (length msgs) \<le> L" unfolding L_def by (rule last_user_at) (simp add: assms(2) role_is_user_like_def)
  then have hidden: "fold (\<lambda>(i, m). render_msg think (int i > L) m) (enumerate 0 (msgs @ [u])) start = fold (render_msg think False) (msgs @ [u]) start"
    by (intro render_hidden) auto
  have sys: "render_system (msgs @ u # rest) schemas = render_system (msgs @ [u]) schemas"
    using render_system_append [OF assms(3), of "msgs @ [u]" schemas] by simp
  have "enumerate 0 (msgs @ u # rest) = enumerate 0 (msgs @ [u]) @ enumerate (Suc (length msgs)) rest"
    by (simp add: enumerate_append_eq)
  then have all: "render_chat_prompt_text (msgs @ u # rest) schemas mode
      = render_end think (fold (\<lambda>(i, m). render_msg think (int i > L) m) (enumerate (Suc (length msgs)) rest)
          (fold (render_msg think False) (msgs @ [u]) start))"
    unfolding render_chat_prompt_text_def Let_def sys think_def [symmetric] start_def [symmetric] L_def [symmetric]
    using assms(1) by (simp add: hidden [simplified])
  have "prefix (fst (fold (render_msg think False) (msgs @ [u]) start)) (render_chat_prompt_text (msgs @ u # rest) schemas mode)"
    unfolding all by (rule prefix_order.trans [OF render_steps_prefix render_end_prefix])
  then show "prefix (fst (fold (render_msg (ds4_think_mode_enabled mode) False) (msgs @ [u])
           (begin_of_sentence @ (if mode = THINK_MAX then ds4_think_max_prefix else []) @ render_system (msgs @ [u]) schemas, False, False)))
      (render_chat_prompt_text (msgs @ u # rest) schemas mode)"
    unfolding think_def start_def .
  show "rest = [] \<Longrightarrow> render_chat_prompt_text (msgs @ u # rest) schemas mode
      = render_end (ds4_think_mode_enabled mode) (fold (render_msg (ds4_think_mode_enabled mode) False) (msgs @ [u])
           (begin_of_sentence @ (if mode = THINK_MAX then ds4_think_max_prefix else []) @ render_system (msgs @ [u]) schemas, False, False))"
    using all unfolding think_def start_def by simp
qed


lemma first_prompt_open:
  assumes "\<not> chat_history_uses_tool_context (hist @ [u]) schemas" "msg_role u = ''user''" "ds4_think_mode_enabled mode"
    and "fold (render_msg True False) hist
      (begin_of_sentence @ (if mode = THINK_MAX then ds4_think_max_prefix else []) @ render_system (hist @ [u]) schemas, False, False) = (out, p, q)"
  shows "render_chat_prompt_text (hist @ [u]) schemas mode = (out @ user_mark @ or_empty (msg_text u) @ assistant_mark) @ ''<think>''"
proof -
  have "\<not> role_is_system (msg_role u)" using assms(2) by (simp add: role_is_system_def)
  then have "render_msg True False u (out, p, q) = (out @ user_mark @ or_empty (msg_text u), True, False)"
    unfolding render_msg_def using assms(2) by simp
  then show ?thesis
    using render_up_to_user(2) [OF assms(1,2), of mode] assms(3,4) by (simp add: render_end_def)
qed

lemma next_prompt_behind_answer:
  assumes "\<not> chat_history_uses_tool_context (hist @ u # a # u' # rest) schemas" "msg_role u = ''user''" "msg_role a = ''assistant''"
    "msg_role u' = ''user''" "ds4_think_mode_enabled mode" "list_all (\<lambda>m. \<not> role_is_system (msg_role m)) rest"
    and "fold (render_msg True False) hist
      (begin_of_sentence @ (if mode = THINK_MAX then ds4_think_max_prefix else []) @ render_system (hist @ [u]) schemas, False, False) = (out, p, q)"
  shows "prefix ((out @ user_mark @ or_empty (msg_text u) @ assistant_mark) @ (''</think>'' @ or_empty (msg_text a) @ end_of_sentence) @ user_mark)
    (render_chat_prompt_text (hist @ u # a # u' # rest) schemas mode)"
proof -
  have sysm: "\<not> role_is_system (msg_role u)" "\<not> role_is_system (msg_role a)" "\<not> role_is_system (msg_role u')"
    using assms(2-4) by (simp_all add: role_is_system_def)
  have calls: "append_dsml_tool_calls_text (msg_tool_calls a) = []"
    using assms(1,3) by (simp add: chat_history_uses_tool_context_def append_dsml_tool_calls_text_def)
  have 1: "render_msg True False u (out, p, q) = (out @ user_mark @ or_empty (msg_text u), True, False)"
    unfolding render_msg_def using assms(2) sysm(1) by simp
  have 2: "render_msg True False a (b, True, False)
      = (b @ assistant_mark @ ''</think>'' @ or_empty (msg_text a) @ end_of_sentence, False, False)" for b
    unfolding render_msg_def using assms(3) sysm(2) by (simp add: calls)
  have 3: "render_msg True False u' (b, False, False) = (b @ user_mark @ or_empty (msg_text u'), True, False)" for b
    unfolding render_msg_def using assms(4) sysm(3) by simp
  have sys: "render_system ((hist @ [u, a]) @ [u']) schemas = render_system (hist @ [u]) schemas"
    using render_system_append [of "[a, u']" "hist @ [u]" schemas] sysm(2,3) by simp
  have think: "ds4_think_mode_enabled mode = True" using assms(5) by simp
  have tc: "\<not> chat_history_uses_tool_context ((hist @ [u, a]) @ u' # rest) schemas" using assms(1) by simp
  have f: "fold (render_msg True False) ((hist @ [u, a]) @ [u'])
      (begin_of_sentence @ (if mode = THINK_MAX then ds4_think_max_prefix else []) @ render_system ((hist @ [u, a]) @ [u']) schemas, False, False)
    = (((out @ user_mark @ or_empty (msg_text u)) @ assistant_mark @ ''</think>'' @ or_empty (msg_text a) @ end_of_sentence)
        @ user_mark @ or_empty (msg_text u'), True, False)"
    unfolding fold_append o_apply sys assms(7) fold_simps 1 2 3 ..
  show ?thesis
  proof (rule append_prefixD [of _ "or_empty (msg_text u')"])
    show "prefix (((out @ user_mark @ or_empty (msg_text u) @ assistant_mark)
        @ (''</think>'' @ or_empty (msg_text a) @ end_of_sentence) @ user_mark) @ or_empty (msg_text u'))
      (render_chat_prompt_text (hist @ u # a # u' # rest) schemas mode)"
      using render_up_to_user(1) [OF tc assms(4,6), of mode] unfolding think f fst_conv
      by (simp only: append_assoc append_Cons append_Nil)
  qed
qed

text \<open>C24. An answer without calls whose thoughts the next prompt leaves out is still continued from the live
  session: the text remembered for it is a proper prefix of every prompt that goes on with a message of
  the user, so that the next request is continued from all the live tokens with just the text behind
  this prefix.\<close>

theorem hidden_thoughts_stay_live:
  assumes "\<not> chat_history_uses_tool_context (hist @ u # a # u' # rest) schemas" "msg_role u = ''user''" "msg_role a = ''assistant''"
    "msg_role u' = ''user''" "ds4_think_mode_enabled (rq_think_mode r)" "list_all (\<lambda>m. \<not> role_is_system (msg_role m)) rest"
    and "rq_prompt_text r = Some (render_chat_prompt_text (hist @ [u]) schemas (rq_think_mode r))"
    and "rq_prompt_text r' = Some (render_chat_prompt_text (hist @ u # a # u' # rest) schemas (rq_think_mode r))"
    and "rq_chat r'" "rq_api r' \<noteq> API_RESPONSES" "eng_tokens eng s = Some live"
  shows "\<exists>visible new. visible @ new = render_chat_prompt_text (hist @ u # a # u' # rest) schemas (rq_think_mode r) \<and> new \<noteq> []
    \<and> thinking_live_visible_prefix_prompt (remember_thinking_checkpoint sv r (msg_text a) (session_pos eng s)) eng s r' (session_pos eng s)
      = (length live, build_prompt eng live new)"
proof -
  let ?start = "(begin_of_sentence @ (if rq_think_mode r = THINK_MAX then ds4_think_max_prefix else []) @ render_system (hist @ [u]) schemas, False, False)"
  obtain out p q where h: "fold (render_msg True False) hist ?start = (out, p, q)"
    by (cases "fold (render_msg True False) hist ?start") auto
  have tc: "\<not> chat_history_uses_tool_context (hist @ [u]) schemas"
    using assms(1) by (auto simp: chat_history_uses_tool_context_def)
  define open' where "open' = out @ user_mark @ or_empty (msg_text u) @ assistant_mark"
  define answer where "answer = ''</think>'' @ or_empty (msg_text a) @ end_of_sentence"
  have first: "rq_prompt_text r = Some (open' @ ''<think>'')"
    using assms(7) first_prompt_open [OF tc assms(2,5) h] by (simp add: open'_def)
  have key: "build_toolless_thinking_visible_text r (msg_text a) = Some (open' @ answer)"
    unfolding build_toolless_thinking_visible_text_def first using assms(5) by (simp add: answer_def)
  have "prefix (open' @ answer @ user_mark) (render_chat_prompt_text (hist @ u # a # u' # rest) schemas (rq_think_mode r))"
    using next_prompt_behind_answer [OF assms(1-6) h] unfolding open'_def answer_def .
  then obtain z where z: "render_chat_prompt_text (hist @ u # a # u' # rest) schemas (rq_think_mode r) = (open' @ answer) @ user_mark @ z"
    by (auto simp: prefix_def)
  have "answer \<noteq> []" "user_mark \<noteq> []" by (simp_all add: answer_def user_mark_def)
  then have "thinking_live_visible_prefix_prompt (remember_thinking_checkpoint sv r (msg_text a) (session_pos eng s)) eng s r' (session_pos eng s)
      = (length live, build_prompt eng live (user_mark @ z))"
    using assms(8-11) unfolding z
    by (simp add: thinking_live_visible_prefix_prompt_def remember_thinking_checkpoint_def key thinking_live_remember_def or_empty_def
        visible_prefix_def byte_prefix_match_def continue_live_def session_pos_def)
  then show ?thesis using z \<open>user_mark \<noteq> []\<close> by (metis append_is_Nil_conv)
qed


definition example_msg :: "bytes \<Rightarrow> bytes \<Rightarrow> chat_msg" where
  "example_msg role text' = \<lparr>msg_role = role, msg_text = Some text', msg_thought = None, msg_tool_call_id = None, msg_tool_call_ids = [],
     msg_tool_calls = no_calls\<rparr>"

definition example_turn :: "chat_msg list" where
  "example_turn = [] @ example_msg ''user'' ''q'' # example_msg ''assistant'' ''r'' # example_msg ''user'' ''s'' # []"

lemma hidden_thoughts_stay_live_witness:
  "\<exists>visible new. visible @ new = render_chat_prompt_text example_turn None THINK_HIGH \<and> new \<noteq> []
    \<and> thinking_live_visible_prefix_prompt
        (remember_thinking_checkpoint empty_server
          (plain_request API_OPENAI [] (Some (render_chat_prompt_text ([] @ [example_msg ''user'' ''q'']) None THINK_HIGH)) THINK_HIGH)
          (msg_text (example_msg ''assistant'' ''r'')) (session_pos byte_engine [1]))
        byte_engine [1] (plain_request API_OPENAI [] (Some (render_chat_prompt_text example_turn None THINK_HIGH)) THINK_HIGH) (session_pos byte_engine [1])
      = (length [1 :: int], build_prompt byte_engine [1] new)"
proof -
  let ?r = "plain_request API_OPENAI [] (Some (render_chat_prompt_text ([] @ [example_msg ''user'' ''q'']) None THINK_HIGH)) THINK_HIGH"
  have t: "rq_think_mode ?r = THINK_HIGH" by (simp add: plain_request_def)
  have tc: "\<not> chat_history_uses_tool_context example_turn None" by code_simp
  show ?thesis
    by (rule hidden_thoughts_stay_live [where hist = "[]" and rest = "[]" and r = ?r and schemas = None
          and u = "example_msg ''user'' ''q''" and a = "example_msg ''assistant'' ''r''" and u' = "example_msg ''user'' ''s''",
          folded example_turn_def, unfolded t, OF tc])
      (simp_all add: plain_request_def byte_engine_def example_msg_def ds4_think_mode_enabled_def)
qed

end
