(* ===== verification/Tool_Cache.thy ===== *)
theory Tool_Cache
  imports Tool_Put
begin

text \<open>
  The contract of a cache of call ids towards its clients: a put acts as the abstract list.  What a
  client gets from it is that a run of puts which fits into the limits is in the cache afterwards,
  whatever was in it before.  The memory of \<open>src/ds4_server.c\<close> is the first instance.
\<close>

section \<open>Trimming\<close>

lemma trim_keeps:
  assumes "length p \<le> n" "lru_bytes p \<le> k"
  shows "\<exists>q'. lru_trim n k (p @ q) = p @ q'"
proof (induction "length q" arbitrary: q)
  case 0
  then show ?case using assms by (simp add: lru_trim.simps [of n k p])
next
  case (Suc j)
  then have q: "q \<noteq> []" by auto
  show ?case
  proof (cases "length (p @ q) > n \<or> lru_bytes (p @ q) > k")
    case True
    then have "lru_trim n k (p @ q) = lru_trim n k (p @ butlast q)"
      using q by (simp add: lru_trim.simps [of n k "p @ q"] butlast_append)
    then show ?thesis using Suc.hyps(1) [of "butlast q"] Suc.hyps(2) by simp
  next
    case False
    then show ?thesis by (simp add: lru_trim.simps [of n k "p @ q"])
  qed
qed

text \<open>Ids \<open>I\<close> with blocks \<open>D\<close> fit into the limits.\<close>

definition fits :: "nat \<times> nat \<Rightarrow> bytes set \<Rightarrow> bytes set \<Rightarrow> bool" where
  "fits lim I D \<longleftrightarrow> card I \<le> fst lim
     \<and> (\<Sum>i\<in>I. length i + 1 + sizeof_entry) + (\<Sum>d\<in>D. length d + 1 + sizeof_block) \<le> snd lim"

lemma fits_part:
  assumes "fits lim I D" "distinct (lru_ids p)" "set (lru_ids p) \<subseteq> I" "finite I" "set (lru_blocks p) \<subseteq> D" "finite D"
  shows "length p \<le> fst lim" and "lru_bytes p \<le> snd lim"
proof -
  have "length p = card (set (lru_ids p))" using distinct_card [OF assms(2)] by (simp add: lru_ids_def)
  then show "length p \<le> fst lim" using card_mono [OF assms(4,3)] assms(1) by (simp add: fits_def)
  have "(\<Sum>i\<leftarrow>lru_ids p. length i + 1 + sizeof_entry) = (\<Sum>i\<in>set (lru_ids p). length i + 1 + sizeof_entry)"
    by (rule sum_list_distinct_conv_sum_set [OF assms(2)])
  also have "\<dots> \<le> (\<Sum>i\<in>I. length i + 1 + sizeof_entry)" by (rule sum_mono2 [OF assms(4,3)]) simp
  finally have a: "(\<Sum>i\<leftarrow>lru_ids p. length i + 1 + sizeof_entry) \<le> (\<Sum>i\<in>I. length i + 1 + sizeof_entry)" .
  have "(\<Sum>d\<in>set (lru_blocks p). length d + 1 + sizeof_block) \<le> (\<Sum>d\<in>D. length d + 1 + sizeof_block)"
    by (rule sum_mono2 [OF assms(6,5)]) simp_all
  then show "lru_bytes p \<le> snd lim" using a assms(1) unfolding lru_bytes_def fits_def by simp
qed

lemma fits_fewer: "D' \<subseteq> D \<Longrightarrow> finite D \<Longrightarrow> fits lim I D \<Longrightarrow> fits lim I D'"
  unfolding fits_def using sum_mono2 [of D D' "\<lambda>d. length d + 1 + sizeof_block"] by fastforce

lemma drop_append: "lru_drop i (p @ q) = lru_drop i p @ lru_drop i q" by (simp add: lru_drop_def)

lemma drop_ids: "lru_ids (lru_drop i p) = filter (\<lambda>j. j \<noteq> i) (lru_ids p)"
  by (induction p) (auto simp: lru_ids_def lru_drop_def)

lemma drop_blocks: "set (lru_blocks (lru_drop i p)) \<subseteq> set (lru_blocks p)"
  by (auto simp: lru_blocks_def lru_drop_def)

lemma find_drop: "lru_find ((i, c) # lru_drop i p) = (lru_find p)(i \<mapsto> c)"
proof (rule ext)
  fix j
  have "map_of (filter (\<lambda>c. fst c \<noteq> i) p) j = map_of p j" if "j \<noteq> i" using that by (induction p) auto
  then show "lru_find ((i, c) # lru_drop i p) j = ((lru_find p)(i \<mapsto> c)) j" by (simp add: lru_find_def lru_drop_def)
qed

section \<open>The contract\<close>

fun put_seq :: "('m \<Rightarrow> bytes \<Rightarrow> bytes \<Rightarrow> tool_memory_source \<Rightarrow> 'm option) \<Rightarrow> tool_memory_source \<Rightarrow> 'm \<Rightarrow> (bytes \<times> bytes) list \<Rightarrow> 'm option" where
  "put_seq put s m [] = Some m"
| "put_seq put s m ((i, d) # ops) = (case put m i d s of None \<Rightarrow> None | Some m \<Rightarrow> put_seq put s m ops)"

locale lru_cache =
  fixes holds :: "'m \<Rightarrow> lru \<Rightarrow> bool"
    and limits :: "'m \<Rightarrow> nat \<times> nat"
    and put :: "'m \<Rightarrow> bytes \<Rightarrow> bytes \<Rightarrow> tool_memory_source \<Rightarrow> 'm option"
  assumes put_holds: "holds m l \<Longrightarrow> \<exists>m'. put m i d s = Some m' \<and> limits m' = limits m
      \<and> holds m' (lru_put (fst (limits m)) (snd (limits m)) l i d s)"
begin

text \<open>The part \<open>p\<close> in front of the cache that belongs to the ids \<open>I\<close> and blocks \<open>D\<close> just put.\<close>

definition recent :: "'m \<Rightarrow> bytes set \<Rightarrow> bytes set \<Rightarrow> lru \<Rightarrow> bool" where
  "recent m I D p \<longleftrightarrow> (\<exists>q. holds m (p @ q)) \<and> fits (limits m) I D \<and> distinct (lru_ids p)
     \<and> set (lru_ids p) \<subseteq> I \<and> set (lru_blocks p) \<subseteq> D"

lemma put_keeps:
  assumes "recent m I D p" "finite I" "finite D" "i \<in> I" "d \<in> D" "i \<noteq> []" "d \<noteq> []"
  shows "\<exists>m' p' s'. put m i d s = Some m' \<and> recent m' I D p' \<and> lru_find p' = (lru_find p)(i \<mapsto> (d, s'))"
proof -
  obtain q where r: "holds m (p @ q)" "fits (limits m) I D" "distinct (lru_ids p)" "set (lru_ids p) \<subseteq> I" "set (lru_blocks p) \<subseteq> D"
    using assms(1) by (auto simp: recent_def)
  define c where "c = (d, lru_source (p @ q) i d s)"
  let ?p = "(i, c) # lru_drop i p"
  have ids: "lru_ids ?p = i # filter (\<lambda>j. j \<noteq> i) (lru_ids p)" using drop_ids [of i p] by (simp add: lru_ids_def)
  have p: "distinct (lru_ids ?p)" "set (lru_ids ?p) \<subseteq> I" using r(3,4) assms(4) unfolding ids by auto
  have b: "set (lru_blocks ?p) \<subseteq> D" using r(5) assms(5) drop_blocks [of i p] by (auto simp: lru_blocks_def c_def)
  obtain q' where "lru_trim (fst (limits m)) (snd (limits m)) (?p @ lru_drop i q) = ?p @ q'"
    using trim_keeps fits_part [OF r(2) p assms(2) b assms(3)] by blast
  then have "lru_put (fst (limits m)) (snd (limits m)) (p @ q) i d s = ?p @ q'"
    using assms(6,7) by (simp add: lru_put_def drop_append c_def)
  then obtain m' where "put m i d s = Some m'" "limits m' = limits m" "holds m' (?p @ q')" using put_holds [OF r(1), of i d s] by auto
  then show ?thesis using r(2) p b find_drop [of i c p] unfolding recent_def c_def by (metis (no_types, lifting))
qed

text \<open>A run of puts: every id is found with the block of its last put.\<close>

lemma put_seq_keeps:
  assumes "recent m I D p" "finite I" "finite D" "fst ` set ops \<subseteq> I" "snd ` set ops \<subseteq> D" "[] \<notin> I" "[] \<notin> D"
  shows "\<exists>m' p'. put_seq put s m ops = Some m' \<and> recent m' I D p'
    \<and> map_option fst \<circ> lru_find p' = (map_option fst \<circ> lru_find p) ++ map_of (rev ops)"
  using assms
proof (induction ops arbitrary: m p)
  case Nil
  then show ?case by (intro exI [of _ m] exI [of _ p]) simp
next
  case (Cons op ops)
  obtain i d where op: "op = (i, d)" by (cases op)
  have id: "i \<in> I" "d \<in> D" "i \<noteq> []" "d \<noteq> []" using Cons.prems(4-7) op by auto
  have sub: "fst ` set ops \<subseteq> I" "snd ` set ops \<subseteq> D" using Cons.prems(4,5) by auto
  obtain m1 p1 s1 where 1: "put m i d s = Some m1" "recent m1 I D p1" "lru_find p1 = (lru_find p)(i \<mapsto> (d, s1))"
    using put_keeps [OF Cons.prems(1-3) id, of s] by blast
  obtain m' p' where "put_seq put s m1 ops = Some m'" "recent m' I D p'"
    "map_option fst \<circ> lru_find p' = (map_option fst \<circ> lru_find p1) ++ map_of (rev ops)"
    using Cons.IH [OF 1(2) Cons.prems(2,3) sub Cons.prems(6,7)] by (elim exE conjE)
  moreover have "map_option fst \<circ> lru_find p1 = (map_option fst \<circ> lru_find p)(i \<mapsto> d)"
    unfolding 1(3) by (simp add: fun_eq_iff)
  ultimately show ?case using 1(1) op by (intro exI [of _ m'] exI [of _ p']) (simp add: map_add_def fun_eq_iff split: option.split)
qed

text \<open>So a run that fits is in the cache after it, whatever was there before.\<close>

lemma run_is_found:
  assumes "holds m l" "fits (limits m) (fst ` set ops) (snd ` set ops)" "[] \<notin> fst ` set ops" "[] \<notin> snd ` set ops"
  shows "\<exists>m' l'. put_seq put s m ops = Some m' \<and> holds m' l' \<and> (\<forall>i d. map_of (rev ops) i = Some d \<longrightarrow> (\<exists>s'. lru_find l' i = Some (d, s')))"
proof -
  have "recent m (fst ` set ops) (snd ` set ops) []" using assms(1,2) by (auto simp: recent_def lru_ids_def lru_blocks_def)
  note start = this
  have fin: "finite (fst ` set ops)" "finite (snd ` set ops)" by simp_all
  obtain m' p' where r: "put_seq put s m ops = Some m'" "recent m' (fst ` set ops) (snd ` set ops) p'"
    "map_option fst \<circ> lru_find p' = (map_option fst \<circ> lru_find []) ++ map_of (rev ops)"
    using put_seq_keeps [OF start fin order_refl order_refl assms(3,4), where s = s] by (elim exE conjE)
  then obtain q where q: "holds m' (p' @ q)" by (auto simp: recent_def)
  have "\<exists>s'. lru_find (p' @ q) i = Some (d, s')" if "map_of (rev ops) i = Some d" for i d
  proof -
    have "map_option fst (lru_find p' i) = Some d" using fun_cong [OF r(3), of i] that by (simp add: map_add_def)
    then obtain s' where "lru_find p' i = Some (d, s')" by auto
    then show ?thesis by (simp add: lru_find_def map_add_def)
  qed
  then show ?thesis using r(1) q by blast
qed

end

section \<open>The memory keeps the contract\<close>

definition memory_limits :: "tool_memory \<Rightarrow> nat \<times> nat" where
  "memory_limits m = (tool_memory_max_entries m, tool_memory_max_bytes m)"

interpretation mem: lru_cache is_memory memory_limits tool_memory_put_locked
proof
  fix m l i d s assume "is_memory m l"
  then obtain xs where "represents m xs" "lru_of m xs = l" by (auto simp: is_memory_def)
  then show "\<exists>m'. tool_memory_put_locked m i d s = Some m' \<and> memory_limits m' = memory_limits m
      \<and> is_memory m' (lru_put (fst (memory_limits m)) (snd (memory_limits m)) l i d s)"
    using put_refines [of m xs i d s] limits_eq by (auto simp: is_memory_def memory_limits_def)
qed

end
