(* ===== verification/Tool_Replay.thy ===== *)
theory Tool_Replay
  imports Server_Live Tool_Cache
begin

text \<open>
  Sampled tool calls in the conversation (\<open>src/ds4_server.c\<close>): giving ids to new calls, remembering
  the exact block of a turn under them, and putting the block back when a client replays the calls
  as JSON.
\<close>

section \<open>Ids of new calls\<close>

definition tool_memory_has_id :: "server \<Rightarrow> bytes \<Rightarrow> bool" where
  "tool_memory_has_id sv i \<longleftrightarrow>
     \<not> sv_no_exact_replay sv \<and> i \<noteq> [] \<and> tool_memory_find_entry_locked (sv_tool_mem sv) i \<noteq> None"

definition tool_calls_contains_id :: "tool_call list \<Rightarrow> bytes \<Rightarrow> nat \<Rightarrow> bool" where
  "tool_calls_contains_id cs i limit \<longleftrightarrow> i \<noteq> [] \<and> list_ex (\<lambda>tc. tc_id tc = Some i) (take limit cs)"

text \<open>The random ids are a list of candidates; the search may not end, which is \<^const>\<open>None\<close> here.\<close>

fun pick_tool_id :: "server \<Rightarrow> tool_call list \<Rightarrow> nat \<Rightarrow> bytes list \<Rightarrow> (bytes \<times> bytes list) option" where
  "pick_tool_id sv cs n [] = None"
| "pick_tool_id sv cs n (i # random) =
     (if \<not> tool_calls_contains_id cs i n \<and> \<not> tool_memory_has_id sv i then Some (i, random)
      else pick_tool_id sv cs n random)"

fun assign_ids_from :: "server \<Rightarrow> nat list \<Rightarrow> tool_call list \<Rightarrow> bytes list \<Rightarrow> tool_call list option" where
  "assign_ids_from sv [] cs random = Some cs"
| "assign_ids_from sv (n # ns) cs random =
     (if or_empty (tc_id (cs ! n)) \<noteq> [] then assign_ids_from sv ns cs random
      else case pick_tool_id sv cs n random of None \<Rightarrow> None
           | Some (i, random) \<Rightarrow> assign_ids_from sv ns (cs[n := (cs ! n)\<lparr>tc_id := Some i\<rparr>]) random)"

definition assign_tool_call_ids :: "server \<Rightarrow> tool_calls \<Rightarrow> bytes list \<Rightarrow> tool_calls option" where
  "assign_tool_call_ids sv calls random =
     map_option (\<lambda>cs. calls\<lparr>calls_v := cs\<rparr>) (assign_ids_from sv [0..<length (calls_v calls)] (calls_v calls) random)"

text \<open>The ids a stream has already shown to the client; \<open>ids\<close> is the array of the stream.\<close>

definition apply_openai_stream_tool_ids :: "tool_calls \<Rightarrow> bytes option list \<Rightarrow> tool_calls" where
  "apply_openai_stream_tool_ids calls ids =
     calls\<lparr>calls_v := map (\<lambda>(n, tc). if n < length ids \<and> or_empty (tc_id tc) = [] \<and> or_empty (ids ! n) \<noteq> []
                                    then tc\<lparr>tc_id := ids ! n\<rparr> else tc) (enumerate 0 (calls_v calls))\<rparr>"

definition apply_anthropic_stream_tool_ids :: "tool_calls \<Rightarrow> bytes option list \<Rightarrow> tool_calls" where
  "apply_anthropic_stream_tool_ids calls ids =
     calls\<lparr>calls_v := map (\<lambda>(n, tc). if n < length ids \<and> or_empty (tc_id tc) = [] \<and> or_empty (ids ! n) \<noteq> []
                                    then tc\<lparr>tc_id := ids ! n\<rparr> else tc) (enumerate 0 (calls_v calls))\<rparr>"

section \<open>Remembering and replaying\<close>

fun put_calls :: "tool_memory \<Rightarrow> bytes list \<Rightarrow> bytes \<Rightarrow> tool_memory option" where
  "put_calls m [] dsml = Some m"
| "put_calls m (i # ids) dsml =
     (case tool_memory_put_locked m i dsml Tool_ram of None \<Rightarrow> None | Some m \<Rightarrow> put_calls m ids dsml)"

definition tool_memory_remember :: "server \<Rightarrow> tool_calls \<Rightarrow> server option" where
  "tool_memory_remember sv calls =
     (if sv_no_exact_replay sv \<or> or_empty (raw_dsml calls) = [] then Some sv
      else map_option (\<lambda>m. sv\<lparr>sv_tool_mem := m\<rparr>)
        (put_calls (sv_tool_mem sv) (map (or_empty \<circ> tc_id) (calls_v calls)) (or_empty (raw_dsml calls))))"

definition tool_memory_put_source :: "server \<Rightarrow> bytes \<Rightarrow> bytes \<Rightarrow> tool_memory_source \<Rightarrow> server option" where
  "tool_memory_put_source sv i dsml source =
     (if sv_no_exact_replay sv \<or> i = [] \<or> dsml = [] then Some sv
      else map_option (\<lambda>m. sv\<lparr>sv_tool_mem := m\<rparr>) (tool_memory_put_locked (sv_tool_mem sv) i dsml source))"

text \<open>The look-ups of one message: the block all ids share so far, its source, whether there was no
  other block and no missing id, and the number of missing ids.\<close>

fun replay_scan :: "tool_memory \<Rightarrow> tool_call list \<Rightarrow> nat option \<times> tool_memory_source \<times> bool \<times> nat
    \<Rightarrow> tool_memory \<times> nat option \<times> tool_memory_source \<times> bool \<times> nat" where
  "replay_scan m [] st = (m, st)"
| "replay_scan m (tc # cs) (matched, matched_source, exact, missing) =
     (case tool_memory_lookup_locked m (or_empty (tc_id tc)) of
        (None, m) \<Rightarrow> replay_scan m cs (matched, matched_source, False, missing + 1)
      | (Some (b, source), m) \<Rightarrow>
          let matched_source = (if matched = None then source else matched_source);
              exact = (case matched of None \<Rightarrow> exact | Some b' \<Rightarrow> if b' \<noteq> b then False else exact);
              matched = (case matched of None \<Rightarrow> Some b | Some b' \<Rightarrow> Some b');
              matched_source = (if source = Tool_ram then Tool_ram else matched_source)
          in replay_scan m cs (matched, matched_source, exact, missing))"

fun attach_messages :: "tool_memory \<Rightarrow> chat_msg list \<Rightarrow> tool_replay_stats \<Rightarrow> tool_memory \<times> chat_msg list \<times> tool_replay_stats" where
  "attach_messages m [] stats = (m, [], stats)"
| "attach_messages m (x # xs) stats =
     (let calls = msg_tool_calls x in
      if calls_v calls = [] \<or> raw_dsml calls \<noteq> None
      then (case attach_messages m xs stats of (m, ys, stats) \<Rightarrow> (m, x # ys, stats))
      else case replay_scan m (calls_v calls) (None, Tool_disk, True, 0) of
        (m, matched, source, exact, missing) \<Rightarrow>
          (case (exact, matched) of
             (True, Some b) \<Rightarrow>
               (let x = x\<lparr>msg_tool_calls := calls\<lparr>raw_dsml := Some (blk_dsml (blk m b))\<rparr>\<rparr>;
                    stats = (if source = Tool_ram then stats\<lparr>rs_mem := rs_mem stats + 1\<rparr> else stats\<lparr>rs_disk := rs_disk stats + 1\<rparr>)
                in case attach_messages m xs stats of (m, ys, stats) \<Rightarrow> (m, x # ys, stats))
           | _ \<Rightarrow>
               (let stats = stats\<lparr>rs_canonical := rs_canonical stats + 1, rs_missing_ids := rs_missing_ids stats + missing\<rparr>
                in case attach_messages m xs stats of (m, ys, stats) \<Rightarrow> (m, x # ys, stats))))"

definition count_canonical :: "chat_msg list \<Rightarrow> tool_replay_stats \<Rightarrow> tool_replay_stats" where
  "count_canonical msgs stats =
     foldl (\<lambda>st m. let calls = msg_tool_calls m in
         if calls_v calls = [] \<or> raw_dsml calls \<noteq> None then st
         else st\<lparr>rs_canonical := rs_canonical st + 1, rs_missing_ids := rs_missing_ids st + length (calls_v calls)\<rparr>) stats msgs"

definition tool_memory_attach_to_messages :: "server \<Rightarrow> chat_msg list \<Rightarrow> tool_replay_stats \<Rightarrow> server \<times> chat_msg list \<times> tool_replay_stats" where
  "tool_memory_attach_to_messages sv msgs stats =
     (if sv_no_exact_replay sv then (sv, msgs, count_canonical msgs stats)
      else case attach_messages (sv_tool_mem sv) msgs stats of (m, msgs, stats) \<Rightarrow> (sv\<lparr>sv_tool_mem := m\<rparr>, msgs, stats))"

section \<open>The server keeps the contract of the cache\<close>

lemma put_calls_seq: "put_calls m ids d = put_seq tool_memory_put_locked Tool_ram m (map (\<lambda>i. (i, d)) ids)"
  by (induction ids arbitrary: m) (auto split: option.split)

definition server_holds :: "server \<Rightarrow> lru \<Rightarrow> bool" where
  "server_holds sv l \<longleftrightarrow> is_memory (sv_tool_mem sv) l \<and> \<not> sv_no_exact_replay sv"

interpretation sv: lru_cache server_holds "\<lambda>sv. memory_limits (sv_tool_mem sv)" tool_memory_put_source
proof
  fix sv l i d s assume h: "server_holds sv l"
  then obtain m where m: "tool_memory_put_locked (sv_tool_mem sv) i d s = Some m" "memory_limits m = memory_limits (sv_tool_mem sv)"
    "is_memory m (lru_put (fst (memory_limits (sv_tool_mem sv))) (snd (memory_limits (sv_tool_mem sv))) l i d s)"
    using mem.put_holds [of "sv_tool_mem sv" l i d s] by (auto simp: server_holds_def)
  show "\<exists>sv'. tool_memory_put_source sv i d s = Some sv' \<and> memory_limits (sv_tool_mem sv') = memory_limits (sv_tool_mem sv)
      \<and> server_holds sv' (lru_put (fst (memory_limits (sv_tool_mem sv))) (snd (memory_limits (sv_tool_mem sv))) l i d s)"
  proof (cases "i = [] \<or> d = []")
    case True
    then show ?thesis using h by (auto simp: tool_memory_put_source_def lru_put_def)
  next
    case False
    then show ?thesis using h m by (simp add: tool_memory_put_source_def server_holds_def)
  qed
qed

section \<open>Looking a turn up\<close>

lemma touch_blocks [simp]: "blks (tool_memory_touch m e) = blks m"
  by (simp add: tool_memory_touch_def tool_memory_link_head_def tool_memory_unlink_def upd_ent_def Let_def split: option.split)

lemma find_touch: "lru_find (lru_touch l i) j = lru_find l j"
proof -
  have "map_of (filter (\<lambda>c. fst c \<noteq> i) l) j = map_of l j" if "j \<noteq> i" using that by (induction l) auto
  then show ?thesis by (auto simp: lru_touch_def lru_find_def lru_drop_def split: option.split)
qed

text \<open>Same blocks, same contents: what look-ups leave as it is.\<close>

definition same_cache :: "tool_memory \<Rightarrow> nat list \<Rightarrow> tool_memory \<Rightarrow> nat list \<Rightarrow> bool" where
  "same_cache m xs m' ys \<longleftrightarrow> represents m xs \<and> represents m' ys \<and> same_limits m m' \<and> blks m' = blks m
     \<and> (\<forall>j. lru_find (lru_of m' ys) j = lru_find (lru_of m xs) j)"

lemma same_cache_trans: "same_cache m xs m' ys \<Longrightarrow> same_cache m' ys m'' zs \<Longrightarrow> same_cache m xs m'' zs"
  by (auto simp: same_cache_def same_limits_def)

lemma lookup_cases:
  assumes "represents m xs"
  obtains (missing) ys m' where "tool_memory_lookup_locked m i = (None, m')" "same_cache m xs m' ys" "lru_find (lru_of m xs) i = None"
  | (found) b s ys m' where "tool_memory_lookup_locked m i = (Some (b, s), m')" "same_cache m xs m' ys" "b \<in> dom (blks m)"
      "lru_find (lru_of m xs) i = Some (blk_dsml (blk m b), s)"
proof (cases "tool_memory_find_entry_locked m i")
  case None
  then show thesis using missing [of m xs] assms find_entry_lru(2) [OF assms, of i]
    by (simp add: tool_memory_lookup_locked_def same_cache_def same_limits_def)
next
  case (Some e)
  obtain us vs where xs: "xs = us @ e # vs" using entry_split [OF assms Some] by blast
  let ?t = "tool_memory_touch m e"
  obtain ys where y: "represents ?t ys" "same_limits m ?t" "lru_of ?t ys = lru_touch (lru_of m xs) i"
    "Some (blk_dsml (blk ?t (ent_block (ent ?t e))), ent_source (ent ?t e)) = lru_find (lru_of m xs) i"
    using lookup_refines [OF assms, of i] Some by (auto simp: tool_memory_lookup_locked_def Let_def)
  have "objects ?t (set (e # us @ vs))" using touch_represents(1) [of m us e vs] assms xs by (simp add: represents_def)
  then have b: "ent_block (ent ?t e) \<in> dom (blks m)" using objectsD(7) [of ?t "set (e # us @ vs)" e] by simp
  have "tool_memory_lookup_locked m i = (Some (ent_block (ent ?t e), ent_source (ent ?t e)), ?t)"
    using Some by (simp add: tool_memory_lookup_locked_def Let_def)
  moreover have "same_cache m xs ?t ys" using assms y(1,2,3) find_touch by (simp add: same_cache_def)
  moreover have "lru_find (lru_of m xs) i = Some (blk_dsml (blk m (ent_block (ent ?t e))), ent_source (ent ?t e))"
    using y(4) by (simp add: blk_def)
  ultimately show thesis using found b by blast
qed

text \<open>The block of a message: the one all its ids have.\<close>

definition replay_block :: "lru \<Rightarrow> tool_call list \<Rightarrow> bytes \<Rightarrow> bool" where
  "replay_block l cs d \<longleftrightarrow> (\<forall>tc \<in> set cs. \<exists>s. lru_find l (or_empty (tc_id tc)) = Some (d, s))"

lemma replay_stop:
  assumes "represents m xs"
  shows "\<exists>m' ys matched' source' missing'. replay_scan m cs (matched, source, False, missing) = (m', matched', source', False, missing')
    \<and> same_cache m xs m' ys"
  using assms
proof (induction cs arbitrary: m xs matched source missing)
  case Nil
  then show ?case by (auto simp: same_cache_def same_limits_def)
next
  case (Cons tc cs)
  show ?case using Cons.prems
  proof (cases rule: lookup_cases [where i = "or_empty (tc_id tc)"])
    case (missing ys m')
    have "represents m' ys" using missing(2) by (simp add: same_cache_def)
    then show ?thesis using Cons.IH same_cache_trans [OF missing(2)] missing(1) by simp metis
  next
    case (found b s ys m')
    have "represents m' ys" using found(2) by (simp add: same_cache_def)
    then show ?thesis using Cons.IH same_cache_trans [OF found(2)] found(1) by (simp add: Let_def split: option.split) metis
  qed
qed

lemma block_eq: "represents m xs \<Longrightarrow> b \<in> dom (blks m) \<Longrightarrow> b' \<in> dom (blks m) \<Longrightarrow> blk_dsml (blk m b) = blk_dsml (blk m b') \<longleftrightarrow> b = b'"
  using objectsD(5) by (metis option.inject represents_def)

lemma replay_block_cong: "same_cache m xs m' ys \<Longrightarrow> replay_block (lru_of m' ys) cs d = replay_block (lru_of m xs) cs d"
  by (simp add: same_cache_def replay_block_def)

lemma replay_matched:
  assumes "represents m xs" "b \<in> dom (blks m)"
  shows "\<exists>m' ys matched source' exact missing'. replay_scan m cs (Some b, source, True, missing) = (m', matched, source', exact, missing')
    \<and> same_cache m xs m' ys \<and> exact = replay_block (lru_of m xs) cs (blk_dsml (blk m b)) \<and> (exact \<longrightarrow> matched = Some b)"
  using assms
proof (induction cs arbitrary: m xs source missing)
  case Nil
  then show ?case by (auto simp: replay_block_def same_cache_def same_limits_def)
next
  case (Cons tc cs)
  show ?case using Cons.prems(1)
  proof (cases rule: lookup_cases [where i = "or_empty (tc_id tc)"])
    case (missing ys m')
    have "represents m' ys" using missing(2) by (simp add: same_cache_def)
    then obtain m2 zs a s n where "replay_scan m' cs (Some b, source, False, Suc missing) = (m2, a, s, False, n)" "same_cache m' ys m2 zs"
      using replay_stop by metis
    then show ?thesis using missing same_cache_trans [OF missing(2)] by (intro exI [of _ m2] exI [of _ zs] exI [of _ a] exI [of _ s] exI [of _ False] exI [of _ n]) (simp add: replay_block_def)
  next
    case (found b' s ys m')
    have r: "represents m' ys" "blks m' = blks m" using found(2) by (simp_all add: same_cache_def)
    define src where "src = (if s = Tool_ram then Tool_ram else source)"
    show ?thesis
    proof (cases "b' = b")
      case True
      have "replay_block (lru_of m' ys) cs (blk_dsml (blk m' b)) = replay_block (lru_of m xs) (tc # cs) (blk_dsml (blk m b))"
        using found True r(2) replay_block_cong [OF found(2)] by (simp add: replay_block_def blk_def)
      moreover have "replay_scan m (tc # cs) (Some b, source, True, missing) = replay_scan m' cs (Some b, src, True, missing)"
        using found(1) True by (simp add: Let_def src_def)
      ultimately show ?thesis using Cons.IH [OF r(1), of src missing] r(2) Cons.prems(2) same_cache_trans [OF found(2)] by metis
    next
      case False
      have "\<not> replay_block (lru_of m xs) (tc # cs) (blk_dsml (blk m b))"
        using found False block_eq [OF Cons.prems(1,2) found(3)] by (auto simp: replay_block_def)
      moreover have "replay_scan m (tc # cs) (Some b, source, True, missing) = replay_scan m' cs (Some b, src, False, missing)"
        using found(1) False by (simp add: Let_def src_def)
      ultimately show ?thesis using replay_stop [OF r(1), of cs "Some b" src missing] same_cache_trans [OF found(2)] by metis
    qed
  qed
qed

lemma replay_first:
  assumes "represents m xs" "cs \<noteq> []"
  shows "\<exists>m' ys matched source exact missing. replay_scan m cs (None, Tool_disk, True, 0) = (m', matched, source, exact, missing)
      \<and> same_cache m xs m' ys
      \<and> (if exact then \<exists>b. matched = Some b \<and> replay_block (lru_of m xs) cs (blk_dsml (blk m' b))
         else \<forall>d. \<not> replay_block (lru_of m xs) cs d)"
proof -
  obtain tc rest where cs: "cs = tc # rest" using assms(2) by (cases cs) auto
  show ?thesis using assms(1)
  proof (cases rule: lookup_cases [where i = "or_empty (tc_id tc)"])
    case (missing ys m')
    have "represents m' ys" using missing(2) by (simp add: same_cache_def)
    then obtain m2 zs a s n where "replay_scan m' rest (None, Tool_disk, False, 1) = (m2, a, s, False, n)" "same_cache m' ys m2 zs"
      using replay_stop by metis
    then show ?thesis using missing same_cache_trans [OF missing(2)] unfolding cs
      by (intro exI [of _ m2] exI [of _ zs] exI [of _ a] exI [of _ s] exI [of _ False] exI [of _ n]) (simp add: replay_block_def)
  next
    case (found b s ys m')
    have r: "represents m' ys" "b \<in> dom (blks m')" using found(2,3) by (simp_all add: same_cache_def)
    obtain m2 zs a src e n where sc: "replay_scan m' rest (Some b, s, True, 0) = (m2, a, src, e, n)" "same_cache m' ys m2 zs"
      "e = replay_block (lru_of m' ys) rest (blk_dsml (blk m' b))" "e \<longrightarrow> a = Some b"
      using replay_matched [OF r] by metis
    have b: "blk m' b = blk m b" "blk m2 b = blk m b" using found(2) sc(2) by (simp_all add: same_cache_def blk_def)
    have e: "e = replay_block (lru_of m xs) cs (blk_dsml (blk m b))"
      using sc(3) b(1) found(4) replay_block_cong [OF found(2)] by (simp add: cs replay_block_def)
    have only: "replay_block (lru_of m xs) cs d \<Longrightarrow> d = blk_dsml (blk m b)" for d
      using found(4) by (simp add: cs replay_block_def)
    have "replay_scan m cs (None, Tool_disk, True, 0) = (m2, a, src, e, n)"
      using found(1) sc(1) by (cases s) (simp_all add: cs Let_def)
    moreover have "if e then \<exists>b. a = Some b \<and> replay_block (lru_of m xs) cs (blk_dsml (blk m2 b)) else \<forall>d. \<not> replay_block (lru_of m xs) cs d"
    proof (cases e)
      case True
      then have "a = Some b \<and> replay_block (lru_of m xs) cs (blk_dsml (blk m2 b))" using sc(4) e b(2) by simp
      then show ?thesis using True by simp
    next
      case False
      then show ?thesis using e only by auto
    qed
    ultimately show ?thesis using same_cache_trans [OF found(2) sc(2)]
      by (intro exI [of _ m2] exI [of _ zs] exI [of _ a] exI [of _ src] exI [of _ e] exI [of _ n] conjI)
  qed
qed


section \<open>Replaying\<close>

text \<open>What the abstract cache says of one message.\<close>

definition replayed :: "lru \<Rightarrow> chat_msg \<Rightarrow> chat_msg \<Rightarrow> bool" where
  "replayed l x y \<longleftrightarrow>
     (let calls = msg_tool_calls x in
      if calls_v calls = [] \<or> raw_dsml calls \<noteq> None \<or> (\<forall>d. \<not> replay_block l (calls_v calls) d) then y = x
      else \<exists>d. replay_block l (calls_v calls) d \<and> y = x\<lparr>msg_tool_calls := calls\<lparr>raw_dsml := Some d\<rparr>\<rparr>)"

lemma attach_messages_step:
  assumes "represents m xs"
  shows "\<exists>m1 zs y stats1. same_cache m xs m1 zs \<and> replayed (lru_of m xs) x y
    \<and> attach_messages m (x # msgs) stats = (case attach_messages m1 msgs stats1 of (m', ys, stats') \<Rightarrow> (m', y # ys, stats'))"
proof (cases "calls_v (msg_tool_calls x) = [] \<or> raw_dsml (msg_tool_calls x) \<noteq> None")
  case True
  have "same_cache m xs m xs" using assms by (simp add: same_cache_def same_limits_def)
  then show ?thesis using True
    by (intro exI [of _ m] exI [of _ xs] exI [of _ x] exI [of _ stats]) (auto simp: Let_def replayed_def)
next
  case False
  then obtain m1 zs a src e n where sc: "replay_scan m (calls_v (msg_tool_calls x)) (None, Tool_disk, True, 0) = (m1, a, src, e, n)"
    "same_cache m xs m1 zs"
    "if e then \<exists>b. a = Some b \<and> replay_block (lru_of m xs) (calls_v (msg_tool_calls x)) (blk_dsml (blk m1 b))
     else \<forall>d. \<not> replay_block (lru_of m xs) (calls_v (msg_tool_calls x)) d"
    using replay_first [OF assms] by metis
  show ?thesis
  proof (cases e)
    case True
    then obtain b where b: "a = Some b" "replay_block (lru_of m xs) (calls_v (msg_tool_calls x)) (blk_dsml (blk m1 b))" using sc(3) by auto
    then have "replayed (lru_of m xs) x (x\<lparr>msg_tool_calls := (msg_tool_calls x)\<lparr>raw_dsml := Some (blk_dsml (blk m1 b))\<rparr>\<rparr>)"
      using False by (auto simp: replayed_def Let_def)
    moreover have "\<exists>st. attach_messages m (x # msgs) stats = (case attach_messages m1 msgs st of (m', ys, stats') \<Rightarrow>
        (m', x\<lparr>msg_tool_calls := (msg_tool_calls x)\<lparr>raw_dsml := Some (blk_dsml (blk m1 b))\<rparr>\<rparr> # ys, stats'))"
      using False sc(1) b(1) True by (simp add: Let_def) metis
    ultimately show ?thesis using sc(2) by blast
  next
    case e: False
    then have "replayed (lru_of m xs) x x" using sc(3) by (simp add: replayed_def Let_def)
    moreover have "\<exists>st. attach_messages m (x # msgs) stats = (case attach_messages m1 msgs st of (m', ys, stats') \<Rightarrow> (m', x # ys, stats'))"
      using False sc(1) e by (simp add: Let_def) metis
    ultimately show ?thesis using sc(2) by blast
  qed
qed

lemma replayed_cong: "same_cache m xs m' ys \<Longrightarrow> replayed (lru_of m' ys) = replayed (lru_of m xs)"
  by (intro ext) (simp add: replayed_def replay_block_cong)

lemma attach_replays:
  assumes "represents m xs"
  shows "\<exists>m' ys msgs' stats'. attach_messages m msgs stats = (m', msgs', stats') \<and> same_cache m xs m' ys
    \<and> list_all2 (replayed (lru_of m xs)) msgs msgs'"
  using assms
proof (induction msgs arbitrary: m xs stats)
  case Nil
  then show ?case by (auto simp: same_cache_def same_limits_def)
next
  case (Cons x msgs)
  obtain m1 zs y stats1 where s: "same_cache m xs m1 zs" "replayed (lru_of m xs) x y"
    "attach_messages m (x # msgs) stats = (case attach_messages m1 msgs stats1 of (m', ys, stats') \<Rightarrow> (m', y # ys, stats'))"
    using attach_messages_step [OF Cons.prems] by metis
  have "represents m1 zs" using s(1) by (simp add: same_cache_def)
  then obtain m' ys msgs' stats' where r: "attach_messages m1 msgs stats1 = (m', msgs', stats')" "same_cache m1 zs m' ys"
    "list_all2 (replayed (lru_of m1 zs)) msgs msgs'" using Cons.IH by metis
  show ?case using s r replayed_cong [OF s(1)] same_cache_trans [OF s(1) r(2)]
    by (intro exI [of _ m'] exI [of _ ys] exI [of _ "y # msgs'"] exI [of _ stats']) simp
qed


lemma replay_block_unique: "replay_block l cs d' \<Longrightarrow> replay_block l cs d \<Longrightarrow> cs \<noteq> [] \<Longrightarrow> d' = d"
  by (cases cs) (auto simp: replay_block_def)

lemma replayed_with:
  assumes "replayed l x y" "replay_block l (calls_v (msg_tool_calls x)) d" "\<And>d'. replay_block l (calls_v (msg_tool_calls x)) d' \<Longrightarrow> d' = d"
    and "calls_v (msg_tool_calls x) \<noteq> []" "raw_dsml (msg_tool_calls x) = None"
  shows "msg_tool_calls y = (msg_tool_calls x)\<lparr>raw_dsml := Some d\<rparr>"
proof -
  have "calls_v (msg_tool_calls x) = [] \<or> raw_dsml (msg_tool_calls x) \<noteq> None \<or> (\<forall>d. \<not> replay_block l (calls_v (msg_tool_calls x)) d) \<longleftrightarrow> False"
    using assms(2,4,5) by blast
  then obtain e where "replay_block l (calls_v (msg_tool_calls x)) e" "y = x\<lparr>msg_tool_calls := (msg_tool_calls x)\<lparr>raw_dsml := Some e\<rparr>\<rparr>"
    using assms(1) unfolding replayed_def Let_def by (simp only: if_False) (elim exE conjE)
  then show ?thesis using assms(3) [of e] by simp
qed

text \<open>C6. The next prompt has the very bytes the model sampled: after a turn with calls that fits into the
  memory, a message of the client with some of these calls, rebuilt as JSON in whatever spelling, is
  rendered as the sampled block, wherever it stands in the conversation.\<close>

theorem sampled_block_is_replayed:
  assumes "represents (sv_tool_mem sv) xs" "\<not> sv_no_exact_replay sv" "raw_dsml calls = Some d" "d \<noteq> []"
    and "[] \<notin> or_empty ` tc_id ` set (calls_v calls)" "fits (memory_limits (sv_tool_mem sv)) (or_empty ` tc_id ` set (calls_v calls)) {d}"
    and "k < length msgs" "calls_v (msg_tool_calls (msgs ! k)) \<noteq> []" "raw_dsml (msg_tool_calls (msgs ! k)) = None"
    and "or_empty ` tc_id ` set (calls_v (msg_tool_calls (msgs ! k))) \<subseteq> or_empty ` tc_id ` set (calls_v calls)"
  shows "\<exists>sv' sv'' msgs' stats'. tool_memory_remember sv calls = Some sv'
    \<and> tool_memory_attach_to_messages sv' msgs stats = (sv'', msgs', stats')
    \<and> append_dsml_tool_calls_text (msg_tool_calls (msgs' ! k)) = d"
proof -
  let ?I = "or_empty ` tc_id ` set (calls_v calls)"
  let ?ids = "map (or_empty \<circ> tc_id) (calls_v calls)"
  let ?ops = "map (\<lambda>i. (i, d)) ?ids"
  have ops: "fst ` set ?ops = ?I" "snd ` set ?ops \<subseteq> {d}" by (simp_all add: image_comp comp_def) auto
  have some: "map_of (rev ?ops) i = Some d" if "i \<in> ?I" for i
  proof -
    have "map_of (rev ?ops) i \<noteq> None" using that ops(1) by (simp only: map_of_eq_None_iff set_rev) simp
    then obtain e where e: "map_of (rev ?ops) i = Some e" by blast
    have "(i, e) \<in> set (rev ?ops)" using map_of_SomeD [OF e] .
    then show ?thesis using e by auto
  qed
  have "snd ` set ?ops \<subseteq> {d}" "finite {d}" using ops(2) by simp_all
  then have fit: "fits (memory_limits (sv_tool_mem sv)) (fst ` set ?ops) (snd ` set ?ops)"
    using assms(6) unfolding ops(1) by (rule fits_fewer)
  have "is_memory (sv_tool_mem sv) (lru_of (sv_tool_mem sv) xs)" using assms(1) by (auto simp: is_memory_def)
  note held = this
  have e1: "[] \<notin> fst ` set ?ops" unfolding ops(1) by (rule assms(5))
  have e2: "[] \<notin> snd ` set ?ops" using ops(2) assms(4) by auto
  obtain m l where put: "put_calls (sv_tool_mem sv) ?ids d = Some m" "is_memory m l"
    "\<forall>i e. map_of (rev ?ops) i = Some e \<longrightarrow> (\<exists>s. lru_find l i = Some (e, s))"
    using mem.run_is_found [OF held fit e1 e2, where s = Tool_ram] unfolding put_calls_seq by (elim exE conjE)
  obtain ys where rep: "represents m ys" "lru_of m ys = l" using put(2) by (auto simp: is_memory_def)
  have found: "\<exists>s. lru_find (lru_of m ys) i = Some (d, s)" if "i \<in> ?I" for i
    unfolding rep(2) by (rule put(3) [rule_format, OF some [OF that]])
  define sv' where "sv' = sv\<lparr>sv_tool_mem := m\<rparr>"
  have rem: "tool_memory_remember sv calls = Some sv'"
    using assms(2-4) put(1) by (simp add: tool_memory_remember_def or_empty_def sv'_def)
  obtain m' zs msgs' stats' where at: "attach_messages m msgs stats = (m', msgs', stats')" "list_all2 (replayed (lru_of m ys)) msgs msgs'"
    using attach_replays [OF rep(1)] by metis
  have "replayed (lru_of m ys) (msgs ! k) (msgs' ! k)" using at(2) assms(7) by (simp add: list_all2_nthD)
  moreover have "replay_block (lru_of m ys) (calls_v (msg_tool_calls (msgs ! k))) d"
    unfolding replay_block_def
  proof
    fix tc assume "tc \<in> set (calls_v (msg_tool_calls (msgs ! k)))"
    then have "or_empty (tc_id tc) \<in> ?I" using assms(10) by (metis imageI subsetD)
    then show "\<exists>s. lru_find (lru_of m ys) (or_empty (tc_id tc)) = Some (d, s)" by (rule found)
  qed
  moreover have "d' = d" if "replay_block (lru_of m ys) (calls_v (msg_tool_calls (msgs ! k))) d'" for d'
    using replay_block_unique [OF that \<open>replay_block _ _ d\<close> assms(8)] .
  ultimately have "msg_tool_calls (msgs' ! k) = (msg_tool_calls (msgs ! k))\<lparr>raw_dsml := Some d\<rparr>"
    by (rule replayed_with [OF _ _ _ assms(8,9)])
  then have "append_dsml_tool_calls_text (msg_tool_calls (msgs' ! k)) = d"
    using assms(4,8) by (simp add: append_dsml_tool_calls_text_def or_empty_def)
  moreover have "tool_memory_attach_to_messages sv' msgs stats = (sv'\<lparr>sv_tool_mem := m'\<rparr>, msgs', stats')"
    using assms(2) at(1) by (simp add: tool_memory_attach_to_messages_def sv'_def)
  ultimately show ?thesis using rem by blast
qed

definition example_calls :: "bytes option \<Rightarrow> bytes option \<Rightarrow> tool_calls" where
  "example_calls arguments raw = \<lparr>calls_v = [\<lparr>tc_id = Some ''call_1'', tc_name = Some ''f'', tc_arguments = arguments\<rparr>], raw_dsml = raw\<rparr>"

definition fresh_server :: server where
  "fresh_server = \<lparr>sv_tool_mem = tool_memory_zero 10 1000, sv_responses_live = no_live_tools, sv_anthropic_live = no_live_tools,
     sv_thinking_live = no_visible_live, sv_no_exact_replay = False\<rparr>"

lemma sampled_block_is_replayed_witness:
  "\<exists>sv' sv'' msgs' stats'. tool_memory_remember fresh_server (example_calls (Some ''{}'') (Some ''block'')) = Some sv'
    \<and> tool_memory_attach_to_messages sv' [\<lparr>msg_role = ''assistant'', msg_text = None, msg_thought = None, msg_tool_call_id = None,
         msg_tool_call_ids = [], msg_tool_calls = example_calls (Some ''{ }'') None\<rparr>] \<lparr>rs_mem = 0, rs_disk = 0, rs_canonical = 0, rs_missing_ids = 0\<rparr>
      = (sv'', msgs', stats')
    \<and> append_dsml_tool_calls_text (msg_tool_calls (msgs' ! 0)) = ''block''"
  by (rule sampled_block_is_replayed [where xs = "[]"])
    (simp_all add: fresh_server_def zero_represents example_calls_def or_empty_def fits_def memory_limits_def sizeof_entry_def sizeof_block_def
      tool_memory_max_entries_def tool_memory_max_bytes_def, simp_all add: tool_memory_zero_def)

end
