(* ===== verification/Tool_Map.thy ===== *)
theory Tool_Map
  imports Tool_Replay
begin

text \<open>
  The tool map behind a KV checkpoint on disk (\<open>src/ds4_server.c\<close>): the call ids of the blocks that
  occur in the text of the checkpoint, so that a restarted server can still replay them.  The mark
  \<open>seen\<close> of a block, set to a new \<open>scan_clock\<close> in every scan, is here the list of the blocks this scan
  has met.  A failing \<open>fwrite\<close> is the field \<open>io_write\<close> of the store, so that it always succeeds here.
\<close>

section \<open>Blocks in a text\<close>

definition block_forms :: "(bytes \<times> bytes) list" where
  "block_forms =
     [([CHR 0x0a, CHR 0x0a] @ ''<'' @ DS4_DSML @ ''tool_calls>'', ''</'' @ DS4_DSML @ ''tool_calls>''),
      (''<'' @ DS4_DSML @ ''tool_calls>'', ''</'' @ DS4_DSML @ ''tool_calls>''),
      ([CHR 0x0a, CHR 0x0a] @ ''<'' @ DS4_DSML_SHORT @ ''tool_calls>'', ''</'' @ DS4_DSML_SHORT @ ''tool_calls>''),
      (''<'' @ DS4_DSML_SHORT @ ''tool_calls>'', ''</'' @ DS4_DSML_SHORT @ ''tool_calls>''),
      ([CHR 0x0a, CHR 0x0a] @ ''<tool_calls>'', ''</tool_calls>''),
      (''<tool_calls>'', ''</tool_calls>'')]"

text \<open>Start and end of the first block; a form whose start is not earlier than the best is not
  looked at.\<close>

fun better_block :: "bytes \<Rightarrow> (nat \<times> nat) option \<Rightarrow> bytes \<times> bytes \<Rightarrow> (nat \<times> nat) option" where
  "better_block p best (start, close) =
     (case strstr p start of None \<Rightarrow> best
      | Some s \<Rightarrow>
          if (case best of None \<Rightarrow> False | Some (b, _) \<Rightarrow> s \<ge> b) then best
          else case strstr (drop s p) close of None \<Rightarrow> best
               | Some e \<Rightarrow> Some (s, s + e + length close))"

definition find_next_dsml_tool_block :: "bytes \<Rightarrow> (nat \<times> nat) option" where
  "find_next_dsml_tool_block p = foldl (better_block p) None block_forms"

lemma block_forms_closed: "(start, close) \<in> set block_forms \<Longrightarrow> close \<noteq> []"
  by (auto simp: block_forms_def)

lemma better_block_end:
  "(\<And>s e. best = Some (s, e) \<Longrightarrow> s < e \<and> e \<le> length p) \<Longrightarrow> snd form \<noteq> [] \<Longrightarrow> better_block p best form = Some (s, e) \<Longrightarrow> s < e \<and> e \<le> length p"
proof (cases form)
  case (Pair start close)
  assume b: "\<And>s e. best = Some (s, e) \<Longrightarrow> s < e \<and> e \<le> length p" "snd form \<noteq> []" "better_block p best form = Some (s, e)"
  have "i + length close \<le> length q" if "strstr q close = Some i" for i q
    using that unfolding strstr_iff by (auto dest!: prefix_length_le)
  note inside = this [of "drop s p"]
  have "0 < length close" using b(2) Pair by simp
  then have "i + length close \<le> length p - s \<Longrightarrow> s + i + length close \<le> length p" for i by linarith
  then show ?thesis
    using b Pair inside by (auto split: option.splits if_splits prod.splits)
qed

lemma find_next_end: "find_next_dsml_tool_block p = Some (s, e) \<Longrightarrow> s < e \<and> e \<le> length p"
proof -
  have "\<And>s e. foldl (better_block p) best forms = Some (s, e) \<Longrightarrow> s < e \<and> e \<le> length p"
    if "\<And>s e. best = Some (s, e) \<Longrightarrow> s < e \<and> e \<le> length p" "set forms \<subseteq> set block_forms" for forms best
    using that
  proof (induction forms arbitrary: best)
    case (Cons form forms)
    have "snd form \<noteq> []" using Cons.prems(3) block_forms_closed by (cases form) auto
    then have "\<And>s e. better_block p best form = Some (s, e) \<Longrightarrow> s < e \<and> e \<le> length p"
      using better_block_end [of best p form] Cons.prems(2) by blast
    then show ?case using Cons.IH [of "better_block p best form"] Cons.prems by simp
  qed simp
  from this [of None block_forms] show "find_next_dsml_tool_block p = Some (s, e) \<Longrightarrow> s < e \<and> e \<le> length p"
    unfolding find_next_dsml_tool_block_def by simp
qed

text \<open>The scan from block to block that all the functions below make.\<close>

function dsml_blocks_in :: "bytes \<Rightarrow> bytes list" where
  "dsml_blocks_in p =
     (case find_next_dsml_tool_block p of None \<Rightarrow> []
      | Some (s, e) \<Rightarrow> take (e - s) (drop s p) # dsml_blocks_in (drop e p))"
  by auto
termination
  by (relation "measure length") (auto dest: find_next_end)

declare dsml_blocks_in.simps [simp del]

section \<open>Counting and measuring\<close>

definition tool_memory_count_dsml_in_text :: "server \<Rightarrow> bytes \<Rightarrow> nat" where
  "tool_memory_count_dsml_in_text sv text' =
     (if sv_no_exact_replay sv \<or> text' = [] then 0
      else sum_list (map (\<lambda>d. case tool_memory_find_block_locked (sv_tool_mem sv) d of None \<Rightarrow> 0
                                | Some b \<Rightarrow> blk_refs (blk (sv_tool_mem sv) b)) (dsml_blocks_in text')))"

definition UINT32_MAX :: nat where "UINT32_MAX = 2 ^ 32 - 1"
definition UINT64_MAX :: nat where "UINT64_MAX = 2 ^ 64 - 1"
definition KV_TOOL_MAP_HEADER :: nat where "KV_TOOL_MAP_HEADER = 8"

fun measure_entries :: "tool_memory \<Rightarrow> nat \<Rightarrow> nat list \<Rightarrow> nat \<times> nat \<Rightarrow> (nat \<times> nat) option" where
  "measure_entries m dsml_len [] st = Some st"
| "measure_entries m dsml_len (e # es) (count, bytes) =
     (let id_len = length (ent_id (ent m e)) in
      if id_len > UINT32_MAX \<or> dsml_len > UINT32_MAX then measure_entries m dsml_len es (count, bytes)
      else if count = UINT32_MAX then None
      else if UINT64_MAX - bytes < 8 \<or> UINT64_MAX - bytes - 8 < id_len \<or> UINT64_MAX - bytes - 8 - id_len < dsml_len then None
      else measure_entries m dsml_len es (count + 1, bytes + (8 + id_len + dsml_len)))"

fun measure_blocks :: "tool_memory \<Rightarrow> bytes list \<Rightarrow> nat list \<Rightarrow> nat \<times> nat \<Rightarrow> (nat \<times> nat) option" where
  "measure_blocks m [] seen st = Some st"
| "measure_blocks m (d # ds) seen st =
     (case tool_memory_find_block_locked m d of None \<Rightarrow> measure_blocks m ds seen st
      | Some b \<Rightarrow>
          if b \<in> set seen then measure_blocks m ds seen st
          else case measure_entries m (length (blk_dsml (blk m b))) (blk_entries (blk m b)) st of None \<Rightarrow> None
               | Some st \<Rightarrow> measure_blocks m ds (b # seen) st)"

definition kv_tool_map_measure_locked :: "tool_memory \<Rightarrow> bytes \<Rightarrow> (nat \<times> nat) option" where
  "kv_tool_map_measure_locked m text' =
     (case measure_blocks m (dsml_blocks_in text') [] (0, KV_TOOL_MAP_HEADER) of None \<Rightarrow> None
      | Some (count, bytes) \<Rightarrow> Some (count, if count = 0 then 0 else bytes))"

definition kv_tool_map_serialized_size :: "server \<Rightarrow> bytes \<Rightarrow> nat option" where
  "kv_tool_map_serialized_size sv text' =
     (if sv_no_exact_replay sv \<or> text' = [] then Some 0
      else map_option snd (kv_tool_map_measure_locked (sv_tool_mem sv) text'))"

section \<open>Writing\<close>

definition write_entry :: "bytes \<Rightarrow> bytes \<Rightarrow> bytes" where
  "write_entry i d = le_put32 (of_nat (length i)) @ le_put32 (of_nat (length d)) @ i @ d"

fun write_entries :: "tool_memory \<Rightarrow> bytes \<Rightarrow> nat list \<Rightarrow> bytes" where
  "write_entries m dsml [] = []"
| "write_entries m dsml (e # es) =
     (let i = ent_id (ent m e) in
      if length i > UINT32_MAX \<or> length dsml > UINT32_MAX then write_entries m dsml es
      else write_entry i dsml @ write_entries m dsml es)"

fun write_blocks :: "tool_memory \<Rightarrow> bytes list \<Rightarrow> nat list \<Rightarrow> bytes" where
  "write_blocks m [] seen = []"
| "write_blocks m (d # ds) seen =
     (case tool_memory_find_block_locked m d of None \<Rightarrow> write_blocks m ds seen
      | Some b \<Rightarrow>
          if b \<in> set seen then write_blocks m ds seen
          else write_entries m (blk_dsml (blk m b)) (blk_entries (blk m b)) @ write_blocks m ds (b # seen))"

text \<open>The success, the bytes in the file and the reported length.\<close>

definition kv_tool_map_write :: "server \<Rightarrow> bytes \<Rightarrow> bool \<times> bytes \<times> nat" where
  "kv_tool_map_write sv text' =
     (if sv_no_exact_replay sv \<or> text' = [] then (True, [], 0)
      else case kv_tool_map_measure_locked (sv_tool_mem sv) text' of None \<Rightarrow> (False, [], 0)
      | Some (count, bytes) \<Rightarrow>
          if count = 0 then (True, [], 0)
          else (True, [CHR ''K'', CHR ''T'', CHR ''M'', CHR 0x01] @ le_put32 (of_nat count)
                        @ write_blocks (sv_tool_mem sv) (dsml_blocks_in text') [], bytes))"

section \<open>Loading\<close>

text \<open>A C string ends at its first NUL.\<close>

definition c_string :: "bytes \<Rightarrow> bytes" where "c_string s = takeWhile (\<lambda>c. c \<noteq> NUL) s"

text \<open>The result is the number of loaded ids and the server; \<^const>\<open>None\<close> if a put does not return.\<close>

fun load_entries :: "server \<Rightarrow> nat \<Rightarrow> bytes \<Rightarrow> bytes list option \<Rightarrow> nat \<Rightarrow> (nat \<times> server) option" where
  "load_entries sv 0 fp wanted loaded = Some (loaded, sv)"
| "load_entries sv (Suc n) fp wanted loaded =
     (case fread 8 fp of None \<Rightarrow> Some (loaded, sv)
      | Some (lens, fp) \<Rightarrow>
          let id_len = unat (le_get32 lens); dsml_len = unat (le_get32 (drop 4 lens)) in
          if id_len = 0 \<or> id_len > 256 \<or> dsml_len = 0 \<or> dsml_len > DS4_TOOL_MEMORY_MAX_BYTES then Some (loaded, sv)
          else case fread id_len fp of None \<Rightarrow> Some (loaded, sv)
          | Some (i, fp) \<Rightarrow>
            case fread dsml_len fp of None \<Rightarrow> Some (loaded, sv)
            | Some (dsml, fp) \<Rightarrow>
                if (case wanted of None \<Rightarrow> True | Some w \<Rightarrow> id_list_contains w (Some (c_string i)))
                then (case tool_memory_put_source sv (c_string i) (c_string dsml) Tool_disk of None \<Rightarrow> None
                      | Some sv \<Rightarrow> load_entries sv n fp wanted (loaded + 1))
                else load_entries sv n fp wanted loaded)"

definition kv_tool_map_load_from_pos :: "server \<Rightarrow> bytes \<Rightarrow> bytes list option \<Rightarrow> (nat \<times> server) option" where
  "kv_tool_map_load_from_pos sv fp wanted =
     (if sv_no_exact_replay sv then Some (0, sv)
      else case fread KV_TOOL_MAP_HEADER fp of None \<Rightarrow> Some (0, sv)
      | Some (h, fp) \<Rightarrow>
          if h ! 0 \<noteq> CHR ''K'' \<or> h ! 1 \<noteq> CHR ''T'' \<or> h ! 2 \<noteq> CHR ''M'' \<or> h ! 3 \<noteq> CHR 0x01 then Some (0, sv)
          else let count = unat (le_get32 (drop 4 h)) in
               if count > tool_memory_max_entries (sv_tool_mem sv) * 4 then Some (0, sv)
               else load_entries sv count fp wanted 0)"


section \<open>What is written\<close>

text \<open>The entries a scan writes, in its order.\<close>

fun scan_entries :: "tool_memory \<Rightarrow> bytes list \<Rightarrow> nat list \<Rightarrow> nat list" where
  "scan_entries m [] seen = []"
| "scan_entries m (d # ds) seen =
     (case tool_memory_find_block_locked m d of None \<Rightarrow> scan_entries m ds seen
      | Some b \<Rightarrow> if b \<in> set seen then scan_entries m ds seen else blk_entries (blk m b) @ scan_entries m ds (b # seen))"

definition id_of :: "tool_memory \<Rightarrow> nat \<Rightarrow> bytes" where "id_of m e = fst (cell m e)"
definition block_of :: "tool_memory \<Rightarrow> nat \<Rightarrow> bytes" where "block_of m e = fst (snd (cell m e))"

lemma scan_entries_set:
  assumes "represents m xs"
  shows "set (scan_entries m ds seen) = {e \<in> set xs. ent_block (ent m e) \<notin> set seen \<and> block_of m e \<in> set ds}"
    and "distinct (scan_entries m ds seen)"
proof -
  have o: "objects m (set xs)" using assms by (simp add: represents_def)
  note D = objectsD [OF o]
  have found: "tool_memory_find_block_locked m d = Some b \<longleftrightarrow> b \<in> dom (blks m) \<and> blk_dsml (blk m b) = d" for d b
    using D(5,10) by (auto simp: tool_memory_find_block_locked_def)
  have same: "block_of m e = d \<longleftrightarrow> ent_block (ent m e) = b" if "e \<in> set xs" "tool_memory_find_block_locked m d = Some b" for e d b
  proof -
    have b: "b \<in> dom (blks m)" "blk_dsml (blk m b) = d" using that(2) found by blast+
    have "block_of m e = blk_dsml (blk m (ent_block (ent m e)))" by (simp add: block_of_def cell_def)
    then show ?thesis using block_eq [OF assms D(7) [OF that(1)] b(1)] b(2) by simp
  qed
  have none: "block_of m e \<noteq> d" if "e \<in> set xs" "tool_memory_find_block_locked m d = None" for e d
  proof
    assume "block_of m e = d"
    then have "tool_memory_find_block_locked m d = Some (ent_block (ent m e))"
      unfolding found using D(7) [OF that(1)] by (simp add: block_of_def cell_def)
    then show False using that(2) by simp
  qed
  have "set (scan_entries m ds seen) = {e \<in> set xs. ent_block (ent m e) \<notin> set seen \<and> block_of m e \<in> set ds} \<and> distinct (scan_entries m ds seen)"
  proof (induction ds arbitrary: seen)
    case (Cons d ds)
    show ?case
    proof (cases "tool_memory_find_block_locked m d")
      case None
      then show ?thesis using Cons.IH [of seen] none by auto
    next
      case (Some b)
      have b: "b \<in> dom (blks m)" using Some found by blast
      show ?thesis
      proof (cases "b \<in> set seen")
        case True
        then show ?thesis using Some Cons.IH [of seen] same [OF _ Some] by auto
      next
        case False
        then show ?thesis using Some Cons.IH [of "b # seen"] same [OF _ Some] D(11,12) [OF b] by auto
      qed
    qed
  qed simp
  then show "set (scan_entries m ds seen) = {e \<in> set xs. ent_block (ent m e) \<notin> set seen \<and> block_of m e \<in> set ds}"
    "distinct (scan_entries m ds seen)" by blast+
qed

text \<open>No id or block of the memory is too long for the map.\<close>

definition storable :: "lru \<Rightarrow> bool" where
  "storable l \<longleftrightarrow> (\<forall>(i, d, s) \<in> set l. length i \<le> 256 \<and> length d \<le> DS4_TOOL_MEMORY_MAX_BYTES \<and> NUL \<notin> set i \<and> NUL \<notin> set d)"

lemma storableD:
  assumes "represents m xs" "storable (lru_of m xs)" "e \<in> set xs"
  shows "length (id_of m e) \<le> 256" "length (block_of m e) \<le> DS4_TOOL_MEMORY_MAX_BYTES" "NUL \<notin> set (id_of m e)" "NUL \<notin> set (block_of m e)"
    "id_of m e \<noteq> []" "block_of m e \<noteq> []"
proof -
  have "cell m e \<in> set (lru_of m xs)" using assms(3) by (simp add: lru_of_def)
  then show "length (id_of m e) \<le> 256" "length (block_of m e) \<le> DS4_TOOL_MEMORY_MAX_BYTES" "NUL \<notin> set (id_of m e)" "NUL \<notin> set (block_of m e)"
    using assms(2) unfolding storable_def id_of_def block_of_def by (cases "cell m e"; fastforce)+
  have "objects m (set xs)" using assms(1) by (simp add: represents_def)
  then show "id_of m e \<noteq> []" "block_of m e \<noteq> []"
    using objectsD(6,7,10) assms(3) by (auto simp: id_of_def block_of_def cell_def)
qed

definition map_bytes :: "tool_memory \<Rightarrow> nat list \<Rightarrow> bytes" where
  "map_bytes m es = concat (map (\<lambda>e. write_entry (id_of m e) (block_of m e)) es)"

lemma map_bytes_append: "map_bytes m (xs @ ys) = map_bytes m xs @ map_bytes m ys"
  by (simp add: map_bytes_def)

lemma length_write_entry: "length (write_entry i d) = 8 + length i + length d"
  by (simp add: write_entry_def)

lemma write_entries_map:
  assumes "\<And>e. e \<in> set es \<Longrightarrow> block_of m e = d \<and> length (id_of m e) \<le> UINT32_MAX \<and> length d \<le> UINT32_MAX"
  shows "write_entries m d es = map_bytes m es"
  using assms
proof (induction es)
  case (Cons e es)
  have e: "block_of m e = d" "length (id_of m e) \<le> UINT32_MAX" "length d \<le> UINT32_MAX" using Cons.prems [of e] by simp_all
  have i: "ent_id (ent m e) = id_of m e" by (simp add: id_of_def cell_def)
  have "write_entries m d es = map_bytes m es" by (rule Cons.IH) (use Cons.prems in auto)
  then show ?case using e by (simp add: Let_def map_bytes_def i)
qed (simp add: map_bytes_def)

lemma block_entries_of:
  assumes "represents m xs" "tool_memory_find_block_locked m d = Some b" "e \<in> set (blk_entries (blk m b))"
  shows "e \<in> set xs" "block_of m e = blk_dsml (blk m b)"
proof -
  have o: "objects m (set xs)" using assms(1) by (simp add: represents_def)
  then have b: "b \<in> dom (blks m)" using assms(2) objectsD(5) by (auto simp: tool_memory_find_block_locked_def split: if_splits)
  then have "e \<in> set xs \<and> ent_block (ent m e) = b" using objectsD(12) [OF o b] assms(3) by simp
  then show "e \<in> set xs" "block_of m e = blk_dsml (blk m b)" by (simp_all add: block_of_def cell_def)
qed

lemma small_entries:
  assumes "represents m xs" "storable (lru_of m xs)" "e \<in> set xs"
  shows "length (id_of m e) \<le> UINT32_MAX" "length (block_of m e) \<le> UINT32_MAX"
  using storableD(1,2) [OF assms] by (simp_all add: UINT32_MAX_def DS4_TOOL_MEMORY_MAX_BYTES_def)

lemma write_blocks_map:
  assumes "represents m xs" "storable (lru_of m xs)"
  shows "write_blocks m ds seen = map_bytes m (scan_entries m ds seen)"
proof (induction ds arbitrary: seen)
  case Nil
  then show ?case by (simp add: map_bytes_def)
next
  case (Cons d ds)
  have "write_entries m (blk_dsml (blk m b)) (blk_entries (blk m b)) = map_bytes m (blk_entries (blk m b))"
    if "tool_memory_find_block_locked m d = Some b" for b
  proof (rule write_entries_map)
    fix e assume "e \<in> set (blk_entries (blk m b))"
    then show "block_of m e = blk_dsml (blk m b) \<and> length (id_of m e) \<le> UINT32_MAX \<and> length (blk_dsml (blk m b)) \<le> UINT32_MAX"
      using block_entries_of [OF assms(1) that] small_entries [OF assms] by metis
  qed
  then show ?case using Cons.IH by (simp add: map_bytes_append split: option.split)
qed

lemma measure_entries_map:
  assumes "\<And>e. e \<in> set es \<Longrightarrow> block_of m e = d \<and> length (id_of m e) \<le> UINT32_MAX \<and> length d \<le> UINT32_MAX"
    and "c + length es \<le> UINT32_MAX" "b + length (map_bytes m es) \<le> UINT64_MAX"
  shows "measure_entries m (length d) es (c, b) = Some (c + length es, b + length (map_bytes m es))"
  using assms
proof (induction es arbitrary: c b)
  case (Cons e es)
  have e: "block_of m e = d" "length (id_of m e) \<le> UINT32_MAX" "length d \<le> UINT32_MAX" using Cons.prems(1) [of e] by simp_all
  have l: "length (map_bytes m (e # es)) = 8 + length (id_of m e) + length d + length (map_bytes m es)"
    by (simp add: map_bytes_def length_write_entry e(1))
  have i: "ent_id (ent m e) = id_of m e" by (simp add: id_of_def cell_def)
  have "measure_entries m (length d) (e # es) (c, b) = measure_entries m (length d) es (c + 1, b + (8 + length (id_of m e) + length d))"
  proof -
    have "\<not> UINT64_MAX - b < 8" "\<not> UINT64_MAX - b - 8 < length (id_of m e)" "\<not> UINT64_MAX - b - 8 - length (id_of m e) < length d"
      using Cons.prems(3) l by linarith+
    moreover have "c \<noteq> UINT32_MAX" using Cons.prems(2) by simp
    ultimately show ?thesis using e(2,3) by (simp add: Let_def i)
  qed
  also have "\<dots> = Some (c + 1 + length es, b + (8 + length (id_of m e) + length d) + length (map_bytes m es))"
    by (rule Cons.IH) (use Cons.prems l in auto)
  finally show ?case by (simp add: l)
qed (simp add: map_bytes_def)

lemma measure_blocks_map:
  assumes "represents m xs" "storable (lru_of m xs)"
    and "c + length (scan_entries m ds seen) \<le> UINT32_MAX" "b + length (map_bytes m (scan_entries m ds seen)) \<le> UINT64_MAX"
  shows "measure_blocks m ds seen (c, b) = Some (c + length (scan_entries m ds seen), b + length (map_bytes m (scan_entries m ds seen)))"
  using assms(3,4)
proof (induction ds arbitrary: seen c b)
  case Nil
  then show ?case by (simp add: map_bytes_def)
next
  case (Cons d ds)
  show ?case
  proof (cases "tool_memory_find_block_locked m d")
    case None
    then show ?thesis using Cons by simp
  next
    case (Some k)
    show ?thesis
    proof (cases "k \<in> set seen")
      case True
      then show ?thesis using Cons Some by simp
    next
      case False
      have "measure_entries m (length (blk_dsml (blk m k))) (blk_entries (blk m k)) (c, b)
          = Some (c + length (blk_entries (blk m k)), b + length (map_bytes m (blk_entries (blk m k))))"
      proof (rule measure_entries_map)
        fix e assume "e \<in> set (blk_entries (blk m k))"
        then show "block_of m e = blk_dsml (blk m k) \<and> length (id_of m e) \<le> UINT32_MAX \<and> length (blk_dsml (blk m k)) \<le> UINT32_MAX"
          using block_entries_of [OF assms(1) Some] small_entries [OF assms(1,2)] by metis
      qed (use Cons.prems Some False in \<open>simp_all add: map_bytes_append\<close>)
      then show ?thesis
        using Cons.IH [of "c + length (blk_entries (blk m k))" "k # seen" "b + length (map_bytes m (blk_entries (blk m k)))"]
          Cons.prems Some False by (simp add: map_bytes_append)
    qed
  qed
qed


section \<open>What is read back\<close>

lemma c_string_id: "NUL \<notin> set s \<Longrightarrow> c_string s = s"
  unfolding c_string_def by (subst takeWhile_eq_all_conv) auto

lemma unat_length: "n \<le> UINT32_MAX \<Longrightarrow> unat (of_nat n :: u32) = n"
  by (simp add: UINT32_MAX_def unsigned_of_nat take_bit_nat_eq_self)

lemma load_entries_all:
  assumes "\<And>i d. (i, d) \<in> set ps \<Longrightarrow> i \<noteq> [] \<and> length i \<le> 256 \<and> d \<noteq> [] \<and> length d \<le> DS4_TOOL_MEMORY_MAX_BYTES \<and> NUL \<notin> set i \<and> NUL \<notin> set d"
  shows "load_entries sv (length ps) (concat (map (\<lambda>(i, d). write_entry i d) ps)) None k = map_option (\<lambda>sv. (k + length ps, sv)) (put_seq tool_memory_put_source Tool_disk sv ps)"
  using assms
proof (induction ps arbitrary: sv k)
  case (Cons c ps)
  obtain i d where c: "c = (i, d)" by (cases c)
  have p: "i \<noteq> []" "length i \<le> 256" "d \<noteq> []" "length d \<le> DS4_TOOL_MEMORY_MAX_BYTES" "NUL \<notin> set i" "NUL \<notin> set d"
    using Cons.prems [of i d] c by simp_all
  let ?r = "concat (map (\<lambda>(i, d). write_entry i d) ps)"
  let ?lens = "le_put32 (of_nat (length i)) @ le_put32 (of_nat (length d))"
  have "length i \<le> UINT32_MAX" "length d \<le> UINT32_MAX" using p(2,4) by (simp_all add: UINT32_MAX_def DS4_TOOL_MEMORY_MAX_BYTES_def)
  then have lens: "unat (le_get32 ?lens) = length i" "unat (le_get32 (drop 4 ?lens)) = length d"
    using unat_length le_get32_put32 [of "of_nat (length d)" "[]"] by (simp_all add: le_get32_put32)
  have f8: "fread 8 (?lens @ i @ d @ ?r) = Some (?lens, i @ d @ ?r)" by (simp add: fread_def)
  have fi: "fread (length i) (i @ d @ ?r) = Some (i, d @ ?r)" and fd: "fread (length d) (d @ ?r) = Some (d, ?r)" by (simp_all add: fread_def)
  have "concat (map (\<lambda>(i, d). write_entry i d) (c # ps)) = ?lens @ i @ d @ ?r" by (simp add: c write_entry_def)
  moreover have "load_entries sv (Suc (length ps)) (?lens @ i @ d @ ?r) None k
      = (case tool_memory_put_source sv i d Tool_disk of None \<Rightarrow> None | Some sv \<Rightarrow> load_entries sv (length ps) ?r None (k + 1))"
    unfolding load_entries.simps f8 option.case prod.case Let_def lens fi fd
    using p by (simp add: c_string_id)
  ultimately have "load_entries sv (length (c # ps)) (concat (map (\<lambda>(i, d). write_entry i d) (c # ps))) None k
      = (case tool_memory_put_source sv i d Tool_disk of None \<Rightarrow> None | Some sv \<Rightarrow> load_entries sv (length ps) ?r None (k + 1))"
    by (simp only: list.size(4) add_0_right add_Suc_right)
  also have "\<dots> = (case tool_memory_put_source sv i d Tool_disk of None \<Rightarrow> None
      | Some sv \<Rightarrow> map_option (\<lambda>sv. (k + 1 + length ps, sv)) (put_seq tool_memory_put_source Tool_disk sv ps))"
  proof -
    have "load_entries sv (length ps) ?r None (k + 1) = map_option (\<lambda>sv. (k + 1 + length ps, sv)) (put_seq tool_memory_put_source Tool_disk sv ps)" for sv
      by (rule Cons.IH) (use Cons.prems in auto)
    then show ?thesis by (simp only:)
  qed
  finally show ?case by (simp add: c split: option.split)
qed simp

section \<open>The round trip\<close>

lemma id_of_inj:
  assumes "represents m xs"
  shows "inj_on (id_of m) (set xs)"
proof (rule inj_on_inverseI)
  fix a assume "a \<in> set xs"
  moreover have "objects m (set xs)" using assms by (simp add: represents_def)
  ultimately have "by_id m (ent_id (ent m a)) = Some a" by (simp add: objectsD(4))
  then show "the (by_id m (id_of m a)) = a" by (simp add: id_of_def cell_def)
qed

lemma find_cell:
  assumes "represents m xs"
  shows "lru_find (lru_of m xs) i = Some (d, s) \<longleftrightarrow> (\<exists>e \<in> set xs. cell m e = (i, d, s))"
proof -
  have "distinct xs" using assms by (simp add: represents_def dll_def)
  then have "distinct (map (id_of m) xs)" using id_of_inj [OF assms] by (simp add: distinct_map)
  moreover have "map fst (lru_of m xs) = map (id_of m) xs" by (simp add: lru_of_def id_of_def)
  ultimately have "distinct (map fst (lru_of m xs))" by (simp only:)
  then have "lru_find (lru_of m xs) i = Some (d, s) \<longleftrightarrow> (i, d, s) \<in> set (lru_of m xs)"
    unfolding lru_find_def by (rule map_of_eq_Some_iff)
  then show ?thesis unfolding lru_of_def set_map image_iff by metis
qed

text \<open>The ids of a memory whose blocks occur in a text.\<close>

definition mapped_calls :: "tool_memory \<Rightarrow> nat list \<Rightarrow> bytes \<Rightarrow> (bytes \<times> bytes) set" where
  "mapped_calls m xs text' = {(i, d). (\<exists>s. lru_find (lru_of m xs) i = Some (d, s)) \<and> d \<in> set (dsml_blocks_in text')}"

lemma scan_pairs:
  assumes "represents m xs"
  shows "(\<lambda>e. (id_of m e, block_of m e)) ` set (scan_entries m (dsml_blocks_in text') []) = mapped_calls m xs text'"
    and "distinct (map (id_of m) (scan_entries m (dsml_blocks_in text') []))"
proof -
  note s = scan_entries_set [OF assms, of "dsml_blocks_in text'" "[]"]
  show "(\<lambda>e. (id_of m e, block_of m e)) ` set (scan_entries m (dsml_blocks_in text') []) = mapped_calls m xs text'"
  proof (intro equalityI subsetI)
    fix c assume "c \<in> (\<lambda>e. (id_of m e, block_of m e)) ` set (scan_entries m (dsml_blocks_in text') [])"
    then obtain e where e: "e \<in> set xs" "block_of m e \<in> set (dsml_blocks_in text')" "c = (id_of m e, block_of m e)" using s(1) by auto
    have "cell m e = (id_of m e, block_of m e, snd (snd (cell m e)))" by (simp add: id_of_def block_of_def)
    then have "\<exists>s. lru_find (lru_of m xs) (id_of m e) = Some (block_of m e, s)" using e(1) find_cell [OF assms] by blast
    then show "c \<in> mapped_calls m xs text'" using e by (simp add: mapped_calls_def)
  next
    fix c assume "c \<in> mapped_calls m xs text'"
    then obtain i d s' where c: "c = (i, d)" "lru_find (lru_of m xs) i = Some (d, s')" "d \<in> set (dsml_blocks_in text')"
      by (auto simp: mapped_calls_def)
    then obtain e where e: "e \<in> set xs" "cell m e = (i, d, s')" using find_cell [OF assms] by blast
    then have "id_of m e = i" "block_of m e = d" by (simp_all add: id_of_def block_of_def)
    then show "c \<in> (\<lambda>e. (id_of m e, block_of m e)) ` set (scan_entries m (dsml_blocks_in text') [])"
      using s(1) c e(1) by (auto intro: rev_image_eqI)
  qed
  have "set (scan_entries m (dsml_blocks_in text') []) \<subseteq> set xs" using s(1) by auto
  then show "distinct (map (id_of m) (scan_entries m (dsml_blocks_in text') []))"
    using s(2) inj_on_subset [OF id_of_inj [OF assms]] by (simp add: distinct_map)
qed

lemma map_bytes_bound:
  assumes "represents m xs" "storable (lru_of m xs)" "set es \<subseteq> set xs"
  shows "length (map_bytes m es) \<le> length es * (264 + DS4_TOOL_MEMORY_MAX_BYTES)"
  using assms(3)
proof (induction es)
  case (Cons e es)
  have "length (id_of m e) \<le> 256" "length (block_of m e) \<le> DS4_TOOL_MEMORY_MAX_BYTES" using storableD(1,2) [OF assms(1,2)] Cons.prems by simp_all
  then show ?case using Cons by (simp add: map_bytes_def length_write_entry)
qed (simp add: map_bytes_def)

lemma max_entries_int: "tm_max_entries m < 2 ^ 31 \<Longrightarrow> tool_memory_max_entries m < 2 ^ 31"
  by (auto simp: tool_memory_max_entries_def DS4_TOOL_MEMORY_DEFAULT_MAX_IDS_def nat_less_iff)

text \<open>The measure and the written bytes of a memory that can be stored.\<close>

lemma tool_map_written:
  assumes "represents m xs" "storable (lru_of m xs)" "length (scan_entries m (dsml_blocks_in text') []) < 2 ^ 31"
  shows "kv_tool_map_measure_locked m text' = Some (length (scan_entries m (dsml_blocks_in text') []),
      if scan_entries m (dsml_blocks_in text') [] = [] then 0 else 8 + length (map_bytes m (scan_entries m (dsml_blocks_in text') [])))"
    and "write_blocks m (dsml_blocks_in text') [] = map_bytes m (scan_entries m (dsml_blocks_in text') [])"
proof -
  let ?es = "scan_entries m (dsml_blocks_in text') []"
  have "set ?es \<subseteq> set xs" using scan_entries_set(1) [OF assms(1)] by auto
  then have "length (map_bytes m ?es) \<le> length ?es * (264 + DS4_TOOL_MEMORY_MAX_BYTES)"
    by (rule map_bytes_bound [OF assms(1,2)])
  also have "\<dots> \<le> 2 ^ 31 * (264 + DS4_TOOL_MEMORY_MAX_BYTES)" using assms(3) by (intro mult_right_mono) simp_all
  finally have "8 + length (map_bytes m ?es) \<le> UINT64_MAX" by (simp add: UINT64_MAX_def DS4_TOOL_MEMORY_MAX_BYTES_def)
  moreover have "0 + length ?es \<le> UINT32_MAX" using assms(3) by (simp add: UINT32_MAX_def)
  ultimately have "measure_blocks m (dsml_blocks_in text') [] (0, KV_TOOL_MAP_HEADER) = Some (0 + length ?es, 8 + length (map_bytes m ?es))"
    unfolding KV_TOOL_MAP_HEADER_def by (intro measure_blocks_map [OF assms(1,2)])
  then show "kv_tool_map_measure_locked m text' = Some (length ?es, if ?es = [] then 0 else 8 + length (map_bytes m ?es))"
    by (simp add: kv_tool_map_measure_locked_def)
  show "write_blocks m (dsml_blocks_in text') [] = map_bytes m ?es" by (rule write_blocks_map [OF assms(1,2)])
qed

lemma tool_map_loaded:
  assumes "\<not> sv_no_exact_replay sv" "length ps \<le> UINT32_MAX" "length ps \<le> tool_memory_max_entries (sv_tool_mem sv) * 4"
    and "\<And>i d. (i, d) \<in> set ps \<Longrightarrow> i \<noteq> [] \<and> length i \<le> 256 \<and> d \<noteq> [] \<and> length d \<le> DS4_TOOL_MEMORY_MAX_BYTES \<and> NUL \<notin> set i \<and> NUL \<notin> set d"
  shows "kv_tool_map_load_from_pos sv ([CHR ''K'', CHR ''T'', CHR ''M'', CHR 0x01] @ le_put32 (of_nat (length ps))
      @ concat (map (\<lambda>(i, d). write_entry i d) ps)) None = map_option (\<lambda>sv. (length ps, sv)) (put_seq tool_memory_put_source Tool_disk sv ps)"
proof -
  let ?h = "[CHR ''K'', CHR ''T'', CHR ''M'', CHR 0x01] @ le_put32 (of_nat (length ps))"
  let ?r = "concat (map (\<lambda>(i, d). write_entry i d) ps)"
  have f: "fread KV_TOOL_MAP_HEADER (?h @ ?r) = Some (?h, ?r)" by (simp add: fread_def KV_TOOL_MAP_HEADER_def)
  have "drop 4 ?h = le_put32 (of_nat (length ps)) @ []" by simp
  then have n: "unat (le_get32 (drop 4 ?h)) = length ps" using le_get32_put32 unat_length [OF assms(2)] by metis
  have h: "?h ! 0 = CHR ''K''" "?h ! 1 = CHR ''T''" "?h ! 2 = CHR ''M''" "?h ! 3 = CHR 0x01" by simp_all
  show ?thesis
    unfolding append_assoc [symmetric, of "[CHR ''K'', CHR ''T'', CHR ''M'', CHR 0x01]"] kv_tool_map_load_from_pos_def f option.case prod.case n Let_def h
    using assms(1,3) load_entries_all [OF assms(4), where sv = sv and k = 0] by simp
qed


text \<open>C15. The tool map survives a restart: the map written behind a checkpoint has the size that was
  reserved for it, and a server that reads it back, with room for its ids, has loaded every id of the
  old server whose block occurs in the text of the checkpoint, and finds the identical block under it.\<close>

theorem tool_map_round_trip:
  assumes "represents (sv_tool_mem sv) xs" "storable (lru_of (sv_tool_mem sv) xs)" "\<not> sv_no_exact_replay sv" "text' \<noteq> []"
    and "represents (sv_tool_mem sv') ys" "\<not> sv_no_exact_replay sv'" "tm_max_entries (sv_tool_mem sv') < 2 ^ 31"
    and "fits (memory_limits (sv_tool_mem sv')) (fst ` mapped_calls (sv_tool_mem sv) xs text') (snd ` mapped_calls (sv_tool_mem sv) xs text')"
  shows "\<exists>bytes sv'' zs. kv_tool_map_write sv text' = (True, bytes, length bytes)
    \<and> kv_tool_map_serialized_size sv text' = Some (length bytes)
    \<and> kv_tool_map_load_from_pos sv' bytes None = Some (card (mapped_calls (sv_tool_mem sv) xs text'), sv'')
    \<and> represents (sv_tool_mem sv'') zs
    \<and> (\<forall>(i, d) \<in> mapped_calls (sv_tool_mem sv) xs text'. \<exists>s. lru_find (lru_of (sv_tool_mem sv'') zs) i = Some (d, s))"
proof -
  let ?m = "sv_tool_mem sv"
  define es where "es = scan_entries ?m (dsml_blocks_in text') []"
  define ps where "ps = map (\<lambda>e. (id_of ?m e, block_of ?m e)) es"
  define P where "P = mapped_calls ?m xs text'"
  have P: "set ps = P" unfolding ps_def es_def P_def set_map by (rule scan_pairs(1) [OF assms(1)])
  have dist: "distinct (map fst ps)" using scan_pairs(2) [OF assms(1)] by (simp add: ps_def es_def comp_def)
  then have card: "card P = length ps" "card (fst ` P) = length ps"
    using distinct_card [OF dist] distinct_card [of ps] by (simp_all add: P distinct_map)
  have fits: "fits (memory_limits (sv_tool_mem sv')) (fst ` P) (snd ` P)" using assms(8) by (simp only: P_def)
  have n: "length ps \<le> tool_memory_max_entries (sv_tool_mem sv')" using fits card(2) by (simp add: fits_def memory_limits_def)
  then have "length es < 2 ^ 31" using max_entries_int [OF assms(7)] by (simp add: ps_def)
  note w = tool_map_written [OF assms(1,2) this [unfolded es_def], folded es_def]
  have ok: "i \<noteq> [] \<and> length i \<le> 256 \<and> d \<noteq> [] \<and> length d \<le> DS4_TOOL_MEMORY_MAX_BYTES \<and> NUL \<notin> set i \<and> NUL \<notin> set d" if pair: "(i, d) \<in> set ps" for i d
  proof -
    obtain e where e: "e \<in> set xs" "i = id_of ?m e" "d = block_of ?m e"
      using pair scan_entries_set(1) [OF assms(1), of "dsml_blocks_in text'" "[]"] by (auto simp: ps_def es_def)
    show ?thesis unfolding e(2,3) using storableD [OF assms(1,2) e(1)] by (intro conjI)
  qed
  have empty: "[] \<notin> fst ` P" "[] \<notin> snd ` P" using ok unfolding P [symmetric] by (metis imageE prod.collapse)+
  have "server_holds sv' (lru_of (sv_tool_mem sv') ys)" using assms(5,6) by (auto simp: server_holds_def is_memory_def)
  note held = this
  obtain sv'' l where r: "put_seq tool_memory_put_source Tool_disk sv' ps = Some sv''" "server_holds sv'' l"
    "\<forall>i d. map_of (rev ps) i = Some d \<longrightarrow> (\<exists>s. lru_find l i = Some (d, s))"
    using sv.run_is_found [OF held, of ps, unfolded P, OF fits empty, where s = Tool_disk] by (elim exE conjE)
  obtain zs where rep: "represents (sv_tool_mem sv'') zs" "lru_of (sv_tool_mem sv'') zs = l"
    using r(2) by (auto simp: server_holds_def is_memory_def)
  have "\<exists>s. lru_find l i = Some (d, s)" if "(i, d) \<in> P" for i d
    by (rule r(3) [rule_format]) (use that dist in \<open>simp add: P [symmetric] rev_map [symmetric] map_of_eq_Some_iff\<close>)
  then have found: "\<forall>(i, d) \<in> P. \<exists>s. lru_find (lru_of (sv_tool_mem sv'') zs) i = Some (d, s)" unfolding rep(2) by blast
  have mb: "map_bytes ?m es = concat (map (\<lambda>(i, d). write_entry i d) ps)" by (simp add: map_bytes_def ps_def comp_def)
  show ?thesis
  proof (cases "es = []")
    case True
    then have "kv_tool_map_write sv text' = (True, [], 0)" "kv_tool_map_serialized_size sv text' = Some 0"
      using w(1) assms(3,4) by (simp_all add: kv_tool_map_write_def kv_tool_map_serialized_size_def)
    moreover have "kv_tool_map_load_from_pos sv' [] None = Some (0, sv')" using assms(6) by (simp add: kv_tool_map_load_from_pos_def fread_def KV_TOOL_MAP_HEADER_def)
    moreover have "sv'' = sv'" using r(1) True by (simp add: ps_def)
    ultimately show ?thesis using rep(1) found card(1) True unfolding P_def [symmetric] by (intro exI [of _ "[]"] exI [of _ sv'] exI [of _ zs]) (simp add: ps_def)
  next
    case False
    let ?bytes = "[CHR ''K'', CHR ''T'', CHR ''M'', CHR 0x01] @ le_put32 (of_nat (length ps)) @ map_bytes ?m es"
    have "kv_tool_map_write sv text' = (True, ?bytes, length ?bytes)" "kv_tool_map_serialized_size sv text' = Some (length ?bytes)"
      using w assms(3,4) False by (simp_all add: kv_tool_map_write_def kv_tool_map_serialized_size_def ps_def)
    moreover have "kv_tool_map_load_from_pos sv' ?bytes None = Some (length ps, sv'')"
    proof -
      have "length ps \<le> UINT32_MAX" using n max_entries_int [OF assms(7)] by (simp add: UINT32_MAX_def)
      then show ?thesis unfolding mb using tool_map_loaded [OF assms(6) _ _ ok] n r(1) by simp
    qed
    ultimately show ?thesis using rep(1) found card(1) unfolding P_def [symmetric] by (intro exI [of _ ?bytes] exI [of _ sv''] exI [of _ zs]) simp
  qed
qed


definition example_block :: bytes where "example_block = ''<tool_calls>x</tool_calls>''"

definition example_memory :: tool_memory where
  "example_memory = the (tool_memory_put_locked (tool_memory_zero 10 1000) ''id'' example_block Tool_ram)"

lemma example_memory_holds: "\<exists>xs. represents example_memory xs \<and> lru_of example_memory xs = [(''id'', example_block, Tool_ram)]"
proof -
  have l: "lru_put 10 1000 [] ''id'' example_block Tool_ram = [(''id'', example_block, Tool_ram)]"
    by (simp add: lru_put_def lru_drop_def lru_source_def lru_find_def lru_trim.simps [of _ _ "[x]" for x] lru_bytes_def lru_ids_def lru_blocks_def
        example_block_def sizeof_entry_def sizeof_block_def)
  obtain m ys where "tool_memory_put_locked (tool_memory_zero 10 1000) ''id'' example_block Tool_ram = Some m" "represents m ys"
    "lru_of m ys = lru_put (tool_memory_max_entries (tool_memory_zero 10 1000)) (tool_memory_max_bytes (tool_memory_zero 10 1000))
      (lru_of (tool_memory_zero 10 1000) []) ''id'' example_block Tool_ram"
    using put_refines [OF zero_represents] by blast
  then show ?thesis
    using l by (auto simp: example_memory_def lru_of_def tool_memory_max_entries_def tool_memory_max_bytes_def tool_memory_zero_def)
qed

lemma tool_map_round_trip_witness:
  "\<exists>xs. mapped_calls example_memory xs (CHR ''a'' # example_block) = {(''id'', example_block)}
    \<and> (\<exists>bytes sv'' zs. kv_tool_map_write (fresh_server\<lparr>sv_tool_mem := example_memory\<rparr>) (CHR ''a'' # example_block) = (True, bytes, length bytes)
    \<and> kv_tool_map_serialized_size (fresh_server\<lparr>sv_tool_mem := example_memory\<rparr>) (CHR ''a'' # example_block) = Some (length bytes)
    \<and> kv_tool_map_load_from_pos fresh_server bytes None
      = Some (card (mapped_calls (sv_tool_mem (fresh_server\<lparr>sv_tool_mem := example_memory\<rparr>)) xs (CHR ''a'' # example_block)), sv'')
    \<and> represents (sv_tool_mem sv'') zs
    \<and> (\<forall>(i, d) \<in> mapped_calls (sv_tool_mem (fresh_server\<lparr>sv_tool_mem := example_memory\<rparr>)) xs (CHR ''a'' # example_block).
         \<exists>s. lru_find (lru_of (sv_tool_mem sv'') zs) i = Some (d, s)))"
proof -
  obtain xs where xs: "represents example_memory xs" "lru_of example_memory xs = [(''id'', example_block, Tool_ram)]"
    using example_memory_holds by blast
  have "dsml_blocks_in (CHR ''a'' # example_block) = [example_block]" by code_simp
  then have p: "mapped_calls example_memory xs (CHR ''a'' # example_block) = {(''id'', example_block)}"
    by (auto simp: mapped_calls_def xs(2) lru_find_def split: if_splits)
  have "storable (lru_of example_memory xs)"
    by (simp add: xs(2) storable_def example_block_def NUL_def DS4_TOOL_MEMORY_MAX_BYTES_def)
  moreover have "fits (memory_limits (tool_memory_zero 10 1000)) {''id''} {example_block}"
    by (simp add: fits_def memory_limits_def tool_memory_max_entries_def tool_memory_max_bytes_def tool_memory_zero_def sizeof_entry_def sizeof_block_def example_block_def)
  ultimately show ?thesis
    using xs(1) p by (intro exI [of _ xs] conjI p tool_map_round_trip [where ys = "[]"])
      (simp_all add: fresh_server_def zero_represents, simp_all add: tool_memory_zero_def)
qed

end
