(* ===== verification/Gguf_Cursor.thy ===== *)
theory Gguf_Cursor
  imports Kv_Format
begin

text \<open>
  The byte cursor that reads a mapped GGUF file (\<open>src/ds4.c\<close>, \<open>ds4_cursor\<close>), the skipping of
  metadata values and the block sizes of the tensor types.

  A cursor operation that returns a C \<open>bool\<close> and fills an out parameter returns an option and
  the cursor; the first error a cursor meets stays in it, with the byte where it arose (the
  two fields the code prints into \<open>error\<close>).  The code copies integers out of the mapping with
  \<open>memcpy\<close>, which reads them little-endian on every platform the program supports.
\<close>

section \<open>Cursor\<close>

datatype gguf_error = At_byte string u64 | Plain string

record ds4_cursor =
  cur_base :: bytes
  cur_size :: u64
  cur_pos :: u64
  cur_error :: "gguf_error option"

definition cursor_error :: "ds4_cursor \<Rightarrow> string \<Rightarrow> ds4_cursor" where
  "cursor_error c msg = (case cur_error c of
     None \<Rightarrow> c\<lparr>cur_error := Some (At_byte msg (cur_pos c))\<rparr>
   | Some _ \<Rightarrow> c)"

definition cursor_has :: "ds4_cursor \<Rightarrow> u64 \<Rightarrow> bool \<times> ds4_cursor" where
  "cursor_has c n =
     (if n > cur_size c \<or> cur_pos c > cur_size c - n
      then (False, cursor_error c ''truncated GGUF file'')
      else (True, c))"

definition cursor_read :: "ds4_cursor \<Rightarrow> u64 \<Rightarrow> bytes option \<times> ds4_cursor" where
  "cursor_read c n = (case cursor_has c n of
     (False, c) \<Rightarrow> (None, c)
   | (True, c) \<Rightarrow> (Some (take (unat n) (drop (unat (cur_pos c)) (cur_base c))),
                  c\<lparr>cur_pos := cur_pos c + n\<rparr>))"

definition cursor_skip :: "ds4_cursor \<Rightarrow> u64 \<Rightarrow> bool \<times> ds4_cursor" where
  "cursor_skip c n = (case cursor_has c n of
     (False, c) \<Rightarrow> (False, c)
   | (True, c) \<Rightarrow> (True, c\<lparr>cur_pos := cur_pos c + n\<rparr>))"

definition cursor_u32 :: "ds4_cursor \<Rightarrow> u32 option \<times> ds4_cursor" where
  "cursor_u32 c = (case cursor_read c 4 of (v, c) \<Rightarrow> (map_option le_get32 v, c))"

definition cursor_u64 :: "ds4_cursor \<Rightarrow> u64 option \<times> ds4_cursor" where
  "cursor_u64 c = (case cursor_read c 8 of (v, c) \<Rightarrow> (map_option le_get64 v, c))"

definition cursor_string :: "ds4_cursor \<Rightarrow> bytes option \<times> ds4_cursor" where
  "cursor_string c = (case cursor_u64 c of
     (None, c) \<Rightarrow> (None, c)
   | (Some len, c) \<Rightarrow> (case cursor_has c len of
       (False, c) \<Rightarrow> (None, c)
     | (True, c) \<Rightarrow> (Some (take (unat len) (drop (unat (cur_pos c)) (cur_base c))),
                    c\<lparr>cur_pos := cur_pos c + len\<rparr>)))"

definition align_up :: "u64 \<Rightarrow> u64 \<Rightarrow> u64" where
  "align_up val alignment = (let rem = val mod alignment
     in if rem = 0 then val else val + alignment - rem)"

section \<open>Metadata values\<close>

definition GGUF_VALUE_UINT32 :: u32 where "GGUF_VALUE_UINT32 = 4"
definition GGUF_VALUE_BOOL :: u32 where "GGUF_VALUE_BOOL = 7"
definition GGUF_VALUE_STRING :: u32 where "GGUF_VALUE_STRING = 8"
definition GGUF_VALUE_ARRAY :: u32 where "GGUF_VALUE_ARRAY = 9"
definition GGUF_VALUE_UINT64 :: u32 where "GGUF_VALUE_UINT64 = 10"

definition scalar_value_size :: "u32 \<Rightarrow> u64" where
  "scalar_value_size ty =
     (if ty = 0 \<or> ty = 1 \<or> ty = 7 then 1
      else if ty = 2 \<or> ty = 3 then 2
      else if ty = 4 \<or> ty = 5 \<or> ty = 6 then 4
      else if ty = 10 \<or> ty = 11 \<or> ty = 12 then 8
      else 0)"

text \<open>\<open>skip_items\<close> is the loop of \<open>skip_value\<close> over the elements of an array whose elements have
  no fixed size.\<close>

function skip_value :: "ds4_cursor \<Rightarrow> u32 \<Rightarrow> nat \<Rightarrow> bool \<times> ds4_cursor"
  and skip_items :: "ds4_cursor \<Rightarrow> u32 \<Rightarrow> nat \<Rightarrow> nat \<Rightarrow> bool \<times> ds4_cursor"
where
  "skip_value c ty depth =
     (if depth > 8 then (False, cursor_error c ''metadata array nesting is too deep'')
      else if scalar_value_size ty \<noteq> 0 then cursor_skip c (scalar_value_size ty)
      else if ty = GGUF_VALUE_STRING then
        (case cursor_string c of (s, c) \<Rightarrow> (s \<noteq> None, c))
      else if ty = GGUF_VALUE_ARRAY then
        (case cursor_u32 c of
           (None, c) \<Rightarrow> (False, c)
         | (Some item_type, c) \<Rightarrow> (case cursor_u64 c of
             (None, c) \<Rightarrow> (False, c)
           | (Some len, c) \<Rightarrow>
               (let item_size = scalar_value_size item_type in
                if item_size \<noteq> 0 then
                  (if len > (- 1) div item_size
                   then (False, cursor_error c ''metadata array is too large'')
                   else cursor_skip c (len * item_size))
                else skip_items c item_type (depth + 1) (unat len))))
      else (False, cursor_error c ''unknown GGUF metadata type''))"
| "skip_items c ty depth 0 = (True, c)"
| "skip_items c ty depth (Suc n) = (case skip_value c ty depth of
     (False, c) \<Rightarrow> (False, c)
   | (True, c) \<Rightarrow> skip_items c ty depth n)"
  by pat_completeness auto

termination
  by (relation "(\<lambda>x. case x of Inl (c, ty, d) \<Rightarrow> 10 - d | Inr (c, ty, d, n) \<Rightarrow> 10 - d)
        <*mlex*> measure (\<lambda>x. case x of Inl _ \<Rightarrow> 0 | Inr (c, ty, d, n) \<Rightarrow> n)")
     (auto intro: wf_mlex mlex_less mlex_leq)

declare skip_value.simps [simp del]

section \<open>Tensor types\<close>

text \<open>The block table; a gap of the C array (a zeroed entry) has no name and is \<^const>\<open>None\<close>.
  An entry is the name, the elements of a block and its bytes.\<close>

definition gguf_types :: "(string \<times> u32 \<times> u32) option list" where
  "gguf_types =
    [Some (''f32'', 1, 4), Some (''f16'', 1, 2), Some (''q4_0'', 32, 18), Some (''q4_1'', 32, 20),
     None, None, Some (''q5_0'', 32, 22), Some (''q5_1'', 32, 24), Some (''q8_0'', 32, 34),
     Some (''q8_1'', 32, 40), Some (''q2_k'', 256, 84), Some (''q3_k'', 256, 110),
     Some (''q4_k'', 256, 144), Some (''q5_k'', 256, 176), Some (''q6_k'', 256, 210),
     Some (''q8_k'', 256, 292), Some (''iq2_xxs'', 256, 66), Some (''iq2_xs'', 256, 74),
     Some (''iq3_xxs'', 256, 98), Some (''iq1_s'', 256, 110), Some (''iq4_nl'', 256, 50),
     Some (''iq3_s'', 256, 110), Some (''iq2_s'', 256, 82), Some (''iq4_xs'', 256, 136),
     Some (''i8'', 1, 1), Some (''i16'', 1, 2), Some (''i32'', 1, 4), Some (''i64'', 1, 8),
     Some (''f64'', 1, 8), Some (''iq1_m'', 256, 56), Some (''bf16'', 1, 2),
     None, None, None, None, None, None, None, None, Some (''mxfp4'', 32, 17)]"

definition tensor_type :: "u32 \<Rightarrow> (string \<times> u32 \<times> u32) option" where
  "tensor_type ty = (if unat ty \<ge> length gguf_types then None else gguf_types ! unat ty)"

definition tensor_type_name :: "u32 \<Rightarrow> string" where
  "tensor_type_name ty = (case tensor_type ty of Some (name, _) \<Rightarrow> name | None \<Rightarrow> ''unknown'')"

definition tensor_nbytes :: "u32 \<Rightarrow> u64 \<Rightarrow> u64 option" where
  "tensor_nbytes ty elements = (case tensor_type ty of
     None \<Rightarrow> None
   | Some (_, block_elems, block_bytes) \<Rightarrow>
       if block_elems = 0 then None
       else let blocks = (elements + ucast block_elems - 1) div ucast block_elems in
         if blocks > (- 1) div ucast block_bytes then None
         else Some (blocks * ucast block_bytes))"

section \<open>The cursor as a position in a list of bytes\<close>

text \<open>A cursor is well formed when it stands inside the mapping.\<close>

definition cur_ok :: "ds4_cursor \<Rightarrow> bool" where
  "cur_ok c \<longleftrightarrow> unat (cur_size c) = length (cur_base c) \<and> cur_pos c \<le> cur_size c"

definition cur_rest :: "ds4_cursor \<Rightarrow> bytes" where
  "cur_rest c = drop (unat (cur_pos c)) (cur_base c)"

definition advance :: "ds4_cursor \<Rightarrow> u64 \<Rightarrow> ds4_cursor" where
  "advance c n = c\<lparr>cur_pos := cur_pos c + n\<rparr>"

lemma length_cur_rest:
  "cur_ok c \<Longrightarrow> length (cur_rest c) = unat (cur_size c) - unat (cur_pos c)"
  by (simp add: cur_ok_def cur_rest_def)

lemma cursor_has_iff:
  assumes "cur_ok c"
  shows "(n > cur_size c \<or> cur_pos c > cur_size c - n) \<longleftrightarrow> length (cur_rest c) < unat n"
proof -
  have "unat (cur_pos c) \<le> unat (cur_size c)"
    using assms by (simp add: cur_ok_def word_le_nat_alt)
  then show ?thesis
    by (cases "n \<le> cur_size c")
       (auto simp: length_cur_rest [OF assms] word_less_nat_alt word_le_nat_alt unat_sub)
qed

lemma cursor_has_eq:
  "cur_ok c \<Longrightarrow> cursor_has c n = (if length (cur_rest c) < unat n
     then (False, cursor_error c ''truncated GGUF file'') else (True, c))"
  by (simp only: cursor_has_def cursor_has_iff)

lemma cursor_read_eq:
  "cur_ok c \<Longrightarrow> cursor_read c n = (if length (cur_rest c) < unat n
     then (None, cursor_error c ''truncated GGUF file'')
     else (Some (take (unat n) (cur_rest c)), advance c n))"
  by (simp add: cursor_read_def cursor_has_eq cur_rest_def advance_def)

lemma cursor_skip_eq:
  "cur_ok c \<Longrightarrow> cursor_skip c n = (if length (cur_rest c) < unat n
     then (False, cursor_error c ''truncated GGUF file'') else (True, advance c n))"
  by (simp add: cursor_skip_def cursor_has_eq advance_def)

lemma advance_spec:
  assumes "cur_ok c" "unat n \<le> length (cur_rest c)"
  shows unat_advance: "unat (cur_pos (advance c n)) = unat (cur_pos c) + unat n"
    and advance_ok: "cur_ok (advance c n)"
    and rest_advance: "cur_rest (advance c n) = drop (unat n) (cur_rest c)"
proof -
  have le: "unat (cur_pos c) + unat n \<le> unat (cur_size c)"
    using assms length_cur_rest [of c] by (simp add: cur_ok_def word_le_nat_alt) linarith
  then show eq: "unat (cur_pos (advance c n)) = unat (cur_pos c) + unat n"
    using unsigned_less [of "cur_size c", where 'a = nat] by (simp add: advance_def unat_word_ariths)
  show "cur_ok (advance c n)"
    using assms(1) le eq by (simp add: cur_ok_def word_le_nat_alt) (simp add: advance_def)
  show "cur_rest (advance c n) = drop (unat n) (cur_rest c)"
    using eq by (simp add: cur_rest_def) (simp add: advance_def add.commute)
qed

lemma cursor_error_simps [simp]:
  "cur_base (cursor_error c m) = cur_base c" "cur_size (cursor_error c m) = cur_size c"
  "cur_pos (cursor_error c m) = cur_pos c" "cur_error (cursor_error c m) \<noteq> None"
  by (auto simp: cursor_error_def split: option.splits)

lemma advance_simps [simp]:
  "cur_base (advance c n) = cur_base c" "cur_size (advance c n) = cur_size c"
  "cur_error (advance c n) = cur_error c"
  by (simp_all add: advance_def)

end
