(* ===== verification/Gguf_Model.thy ===== *)
theory Gguf_Model
  imports Gguf_Cursor
begin

text \<open>
  Opening a GGUF model file (\<open>src/ds4.c\<close>, \<open>model_open\<close> and what it calls) and reading its
  metadata.  The mapped file is the list of its bytes; opening, sizing and mapping it belong to
  the operating system.  Every \<open>ds4_die\<close> is an \<^const>\<open>Inl\<close>.  The two tables are taken from
  \<open>calloc\<close>, whose answer to a request of \<open>count\<close> elements of a given size is the parameter
  \<open>calloc_ok\<close>.
\<close>

section \<open>Model record\<close>

definition DS4_GGUF_MAGIC :: u32 where "DS4_GGUF_MAGIC = 0x46554747"
definition DS4_MAX_DIMS :: nat where "DS4_MAX_DIMS = 8"

record ds4_kv =
  kv_key :: bytes
  kv_type :: u32
  kv_value_pos :: u64

record ds4_tensor =
  t_name :: bytes
  t_ndim :: u32
  t_dim :: "u64 list"
  t_type :: u32
  t_rel_offset :: u64
  t_abs_offset :: u64
  t_elements :: u64
  t_bytes :: u64

record ds4_model =
  m_map :: bytes
  m_size :: u64
  m_version :: u32
  m_n_kv :: u64
  m_n_tensors :: u64
  m_alignment :: u64
  m_tensor_data_pos :: u64
  m_kv :: "ds4_kv list"
  m_tensors :: "ds4_tensor list"

definition ds4_streq :: "bytes \<Rightarrow> string \<Rightarrow> bool" where
  "ds4_streq s z \<longleftrightarrow> length s = length z \<and> s = z"

definition ds4_str_eq :: "bytes \<Rightarrow> bytes \<Rightarrow> bool" where
  "ds4_str_eq a b \<longleftrightarrow> length a = length b \<and> a = b"

definition cursor_at :: "ds4_model \<Rightarrow> u64 \<Rightarrow> ds4_cursor" where
  "cursor_at m p = \<lparr>cur_base = m_map m, cur_size = m_size m, cur_pos = p, cur_error = None\<rparr>"

text \<open>\<open>ds4_die(c->error)\<close>; an error string that was never set is empty.\<close>

definition cursor_die :: "ds4_cursor \<Rightarrow> gguf_error + 'a" where
  "cursor_die c = Inl (case cur_error c of Some e \<Rightarrow> e | None \<Rightarrow> Plain '''')"

section \<open>Metadata table\<close>

definition read_alignment :: "ds4_model \<Rightarrow> ds4_kv \<Rightarrow> ds4_model" where
  "read_alignment m kv =
     (if ds4_streq (kv_key kv) ''general.alignment'' \<and> kv_type kv = GGUF_VALUE_UINT32
      then (case cursor_u32 (cursor_at m (kv_value_pos kv)) of
          (Some alignment, _) \<Rightarrow>
            if alignment \<noteq> 0 then m\<lparr>m_alignment := ucast alignment\<rparr> else m
        | (None, _) \<Rightarrow> m)
      else m)"

primrec parse_kvs :: "nat \<Rightarrow> ds4_model \<Rightarrow> ds4_cursor \<Rightarrow> gguf_error + ds4_model \<times> ds4_cursor" where
  "parse_kvs 0 m c = Inr (m, c)"
| "parse_kvs (Suc n) m c = (case cursor_string c of
     (None, c) \<Rightarrow> cursor_die c
   | (Some key, c) \<Rightarrow> (case cursor_u32 c of
       (None, c) \<Rightarrow> cursor_die c
     | (Some ty, c) \<Rightarrow>
         let kv = \<lparr>kv_key = key, kv_type = ty, kv_value_pos = cur_pos c\<rparr>;
             m = read_alignment m kv
         in (case skip_value c ty 0 of
             (False, c) \<Rightarrow> cursor_die c
           | (True, c) \<Rightarrow> parse_kvs n (m\<lparr>m_kv := m_kv m @ [kv]\<rparr>) c)))"

definition parse_metadata ::
  "(u64 \<Rightarrow> nat \<Rightarrow> bool) \<Rightarrow> ds4_model \<Rightarrow> ds4_cursor \<Rightarrow> gguf_error + ds4_model \<times> ds4_cursor" where
  "parse_metadata calloc_ok m c =
     (if \<not> calloc_ok (m_n_kv m) 32 then Inl (Plain ''out of memory while allocating metadata table'')
      else parse_kvs (unat (m_n_kv m)) (m\<lparr>m_kv := [], m_alignment := 32\<rparr>) c)"

section \<open>Tensor directory\<close>

text \<open>The loop over the dimensions of a tensor, from dimension \<open>d\<close> on, \<open>n\<close> of them left.\<close>

primrec parse_dims ::
  "nat \<Rightarrow> nat \<Rightarrow> ds4_tensor \<Rightarrow> ds4_cursor \<Rightarrow> gguf_error + ds4_tensor \<times> ds4_cursor" where
  "parse_dims 0 d t c = Inr (t, c)"
| "parse_dims (Suc n) d t c = (case cursor_u64 c of
     (None, c) \<Rightarrow> cursor_die c
   | (Some dim, c) \<Rightarrow>
       if dim \<noteq> 0 \<and> t_elements t > (- 1) div dim
       then Inl (Plain ''tensor element count overflow'')
       else parse_dims n (Suc d)
              (t\<lparr>t_dim := (t_dim t)[d := dim], t_elements := t_elements t * dim\<rparr>) c)"

definition parse_tensor :: "ds4_cursor \<Rightarrow> gguf_error + ds4_tensor \<times> ds4_cursor" where
  "parse_tensor c = (case cursor_string c of
     (None, c) \<Rightarrow> cursor_die c
   | (Some name, c) \<Rightarrow> (case cursor_u32 c of
       (None, c) \<Rightarrow> cursor_die c
     | (Some ndim, c) \<Rightarrow>
         if ndim = 0 \<or> unat ndim > DS4_MAX_DIMS
         then Inl (Plain ''tensor has an unsupported number of dimensions'')
         else (case parse_dims (unat ndim) 0
                 \<lparr>t_name = name, t_ndim = ndim, t_dim = replicate DS4_MAX_DIMS 0, t_type = 0,
                  t_rel_offset = 0, t_abs_offset = 0, t_elements = 1, t_bytes = 0\<rparr> c of
             Inl e \<Rightarrow> Inl e
           | Inr (t, c) \<Rightarrow> (case cursor_u32 c of
               (None, c) \<Rightarrow> cursor_die c
             | (Some ty, c) \<Rightarrow> (case cursor_u64 c of
                 (None, c) \<Rightarrow> cursor_die c
               | (Some rel, c) \<Rightarrow>
                   Inr (t\<lparr>t_type := ty, t_rel_offset := rel,
                          t_bytes := (case tensor_nbytes ty (t_elements t) of
                            Some n \<Rightarrow> n | None \<Rightarrow> t_bytes t)\<rparr>, c))))))"

primrec parse_directory :: "nat \<Rightarrow> ds4_cursor \<Rightarrow> gguf_error + ds4_tensor list \<times> ds4_cursor" where
  "parse_directory 0 c = Inr ([], c)"
| "parse_directory (Suc n) c = (case parse_tensor c of
     Inl e \<Rightarrow> Inl e
   | Inr (t, c) \<Rightarrow> (case parse_directory n c of
       Inl e \<Rightarrow> Inl e
     | Inr (ts, c) \<Rightarrow> Inr (t # ts, c)))"

primrec place_tensors :: "u64 \<Rightarrow> u64 \<Rightarrow> ds4_tensor list \<Rightarrow> gguf_error + ds4_tensor list" where
  "place_tensors data_pos fsize [] = Inr []"
| "place_tensors data_pos fsize (t # ts) =
     (if t_rel_offset t > (- 1) - data_pos then Inl (Plain ''tensor offset overflow'')
      else let t = t\<lparr>t_abs_offset := data_pos + t_rel_offset t\<rparr> in
        if t_bytes t \<noteq> 0 \<and> (t_abs_offset t > fsize \<or> t_bytes t > fsize - t_abs_offset t)
        then Inl (Plain ''tensor points outside GGUF file'')
        else (case place_tensors data_pos fsize ts of
            Inl e \<Rightarrow> Inl e
          | Inr ts \<Rightarrow> Inr (t # ts)))"

definition parse_tensors ::
  "(u64 \<Rightarrow> nat \<Rightarrow> bool) \<Rightarrow> ds4_model \<Rightarrow> ds4_cursor \<Rightarrow> gguf_error + ds4_model" where
  "parse_tensors calloc_ok m c =
     (if \<not> calloc_ok (m_n_tensors m) 128 then Inl (Plain ''out of memory while allocating tensor table'')
      else (case parse_directory (unat (m_n_tensors m)) c of
          Inl e \<Rightarrow> Inl e
        | Inr (ts, c) \<Rightarrow>
            let data_pos = align_up (cur_pos c) (m_alignment m) in
            (case place_tensors data_pos (m_size m) ts of
                Inl e \<Rightarrow> Inl e
              | Inr ts \<Rightarrow> Inr (m\<lparr>m_tensor_data_pos := data_pos, m_tensors := ts\<rparr>))))"

section \<open>Opening a model\<close>

definition model_open :: "(u64 \<Rightarrow> nat \<Rightarrow> bool) \<Rightarrow> bytes \<Rightarrow> gguf_error + ds4_model" where
  "model_open calloc_ok data =
     (if length data < 32 then Inl (Plain ''model file is too small to be GGUF'')
      else
        let m = \<lparr>m_map = data, m_size = of_nat (length data), m_version = 0, m_n_kv = 0,
                 m_n_tensors = 0, m_alignment = 0, m_tensor_data_pos = 0, m_kv = [],
                 m_tensors = []\<rparr>
        in case cursor_u32 (cursor_at m 0) of
          (None, c) \<Rightarrow> cursor_die c
        | (Some magic, c) \<Rightarrow>
        if magic \<noteq> DS4_GGUF_MAGIC then Inl (Plain ''model is not a GGUF file'')
        else case cursor_u32 c of
          (None, c) \<Rightarrow> cursor_die c
        | (Some version, c) \<Rightarrow> (case cursor_u64 c of
          (None, c) \<Rightarrow> cursor_die c
        | (Some n_tensors, c) \<Rightarrow> (case cursor_u64 c of
          (None, c) \<Rightarrow> cursor_die c
        | (Some n_kv, c) \<Rightarrow>
        if version \<noteq> 3 then Inl (Plain ''only GGUF v3 is supported'')
        else case parse_metadata calloc_ok
                 (m\<lparr>m_version := version, m_n_tensors := n_tensors, m_n_kv := n_kv\<rparr>) c of
          Inl e \<Rightarrow> Inl e
        | Inr (m, c) \<Rightarrow> parse_tensors calloc_ok m c)))"

section \<open>Reading metadata\<close>

definition model_find_kv :: "ds4_model \<Rightarrow> string \<Rightarrow> ds4_kv option" where
  "model_find_kv m key = find (\<lambda>kv. ds4_streq (kv_key kv) key) (m_kv m)"

definition model_get_string :: "ds4_model \<Rightarrow> string \<Rightarrow> bytes option" where
  "model_get_string m key = (case model_find_kv m key of
     None \<Rightarrow> None
   | Some kv \<Rightarrow> if kv_type kv \<noteq> GGUF_VALUE_STRING then None
       else fst (cursor_string (cursor_at m (kv_value_pos kv))))"

definition model_get_u32 :: "ds4_model \<Rightarrow> string \<Rightarrow> u32 option" where
  "model_get_u32 m key = (case model_find_kv m key of
     None \<Rightarrow> None
   | Some kv \<Rightarrow> if kv_type kv \<noteq> GGUF_VALUE_UINT32 then None
       else fst (cursor_u32 (cursor_at m (kv_value_pos kv))))"

definition model_get_u64 :: "ds4_model \<Rightarrow> string \<Rightarrow> u64 option" where
  "model_get_u64 m key = (case model_find_kv m key of
     None \<Rightarrow> None
   | Some kv \<Rightarrow> if kv_type kv \<noteq> GGUF_VALUE_UINT64 then None
       else fst (cursor_u64 (cursor_at m (kv_value_pos kv))))"

definition model_get_bool :: "ds4_model \<Rightarrow> string \<Rightarrow> bool option" where
  "model_get_bool m key = (case model_find_kv m key of
     None \<Rightarrow> None
   | Some kv \<Rightarrow> if kv_type kv \<noteq> GGUF_VALUE_BOOL then None
       else map_option (\<lambda>v. v ! 0 \<noteq> CHR 0x00)
              (fst (cursor_read (cursor_at m (kv_value_pos kv)) 1)))"

record ds4_array_ref =
  a_type :: u32
  a_len :: u64
  a_data_pos :: u64

definition model_get_array :: "ds4_model \<Rightarrow> string \<Rightarrow> ds4_array_ref option" where
  "model_get_array m key = (case model_find_kv m key of
     None \<Rightarrow> None
   | Some kv \<Rightarrow> if kv_type kv \<noteq> GGUF_VALUE_ARRAY then None
       else (case cursor_u32 (cursor_at m (kv_value_pos kv)) of
           (None, _) \<Rightarrow> None
         | (Some ty, c) \<Rightarrow> (case cursor_u64 c of
             (None, _) \<Rightarrow> None
           | (Some len, c) \<Rightarrow> Some \<lparr>a_type = ty, a_len = len, a_data_pos = cur_pos c\<rparr>)))"

end
