(* ===== verification/Str_Table.thy ===== *)
theory Str_Table
  imports Gguf_Model
begin

text \<open>
  The open-addressed hash table of the tokenizer (\<open>src/ds4.c\<close>, \<open>str_i32_table\<close>), from byte
  strings to integers, and the contract its users rely on.

  The loops of the code end only because a table always has a free slot; they are partial
  functions here, and \<^const>\<open>None\<close> is a loop that does not end.  That a table in use answers
  every question is a theorem.
\<close>

section \<open>Hashing and sizes\<close>

definition hash_bytes :: "bytes \<Rightarrow> u64" where
  "hash_bytes s = fold (\<lambda>c h. (h XOR of_char c) * 1099511628211) s 1469598103934665603"

partial_function (option) pow2_loop :: "u64 \<Rightarrow> u64 \<Rightarrow> u64 option" where
  "pow2_loop p n = (if p < n then pow2_loop (push_bit 1 p) n else Some p)"

definition next_pow2 :: "u64 \<Rightarrow> u64 option" where
  "next_pow2 n = pow2_loop 1 n"

section \<open>The table\<close>

record str_i32_entry =
  se_key :: bytes
  se_value :: int
  se_used :: bool

record str_i32_table =
  st_entry :: "str_i32_entry list"
  st_cap :: u64
  st_used :: u64

definition free_slot :: str_i32_entry where
  "free_slot = \<lparr>se_key = [], se_value = 0, se_used = False\<rparr>"

definition table_init :: "u64 \<Rightarrow> str_i32_table option" where
  "table_init expected = (case next_pow2 (expected * 2 + 16) of
     None \<Rightarrow> None
   | Some cap \<Rightarrow> Some \<lparr>st_entry = replicate (unat cap) free_slot, st_cap = cap, st_used = 0\<rparr>)"

partial_function (option) put_loop ::
  "str_i32_table \<Rightarrow> u64 \<Rightarrow> bytes \<Rightarrow> int \<Rightarrow> u64 \<Rightarrow> str_i32_table option" where
  "put_loop t msk key val i =
     (let e = st_entry t ! unat i in
      if se_used e then
        if ds4_str_eq (se_key e) key
        then Some (t\<lparr>st_entry := (st_entry t)[unat i := e\<lparr>se_value := val\<rparr>]\<rparr>)
        else put_loop t msk key val ((i + 1) AND msk)
      else Some (t\<lparr>st_entry := (st_entry t)
                    [unat i := \<lparr>se_key = key, se_value = val, se_used = True\<rparr>],
                  st_used := st_used t + 1\<rparr>))"

definition table_put :: "str_i32_table \<Rightarrow> bytes \<Rightarrow> int \<Rightarrow> str_i32_table option" where
  "table_put t key val =
     (let msk = st_cap t - 1 in put_loop t msk key val (hash_bytes key AND msk))"

partial_function (option) get_loop ::
  "str_i32_table \<Rightarrow> u64 \<Rightarrow> bytes \<Rightarrow> u64 \<Rightarrow> int option option" where
  "get_loop t msk key i =
     (let e = st_entry t ! unat i in
      if se_used e then
        if length (se_key e) = length key \<and> se_key e = key then Some (Some (se_value e))
        else get_loop t msk key ((i + 1) AND msk)
      else Some None)"

text \<open>The answer of \<open>table_get\<close>: the value found, or that there is none.\<close>

definition table_get :: "str_i32_table \<Rightarrow> bytes \<Rightarrow> int option option" where
  "table_get t key =
     (if st_cap t = 0 then Some None
      else let msk = st_cap t - 1 in get_loop t msk key (hash_bytes key AND msk))"

section \<open>Contract\<close>

text \<open>What the tokenizer relies on: every lookup returns, an insertion into a table with room
  returns and changes the value of its key alone, and uses at most one unit of room.\<close>

locale string_table =
  fixes ok :: "'t \<Rightarrow> bool" and room :: "'t \<Rightarrow> nat" and abs_map :: "'t \<Rightarrow> bytes \<rightharpoonup> int"
    and get :: "'t \<Rightarrow> bytes \<Rightarrow> int option option" and put :: "'t \<Rightarrow> bytes \<Rightarrow> int \<Rightarrow> 't option"
  assumes get_abs: "ok t \<Longrightarrow> get t k = Some (abs_map t k)"
    and put_abs: "ok t \<Longrightarrow> 0 < room t \<Longrightarrow>
      \<exists>t'. put t k v = Some t' \<and> ok t' \<and> abs_map t' = (abs_map t)(k \<mapsto> v) \<and> room t \<le> Suc (room t')"
begin

primrec put_all :: "'t \<Rightarrow> (bytes \<times> int) list \<Rightarrow> 't option" where
  "put_all t [] = Some t"
| "put_all t (kv # kvs) = (case put t (fst kv) (snd kv) of
     None \<Rightarrow> None | Some t' \<Rightarrow> put_all t' kvs)"

lemma put_all_abs:
  "ok t \<Longrightarrow> length kvs \<le> room t \<Longrightarrow>
    \<exists>t'. put_all t kvs = Some t' \<and> ok t' \<and> abs_map t' = abs_map t ++ map_of (rev kvs)"
proof (induction kvs arbitrary: t)
  case (Cons kv kvs)
  obtain t1 where t1: "put t (fst kv) (snd kv) = Some t1" "ok t1"
    "abs_map t1 = (abs_map t)(fst kv \<mapsto> snd kv)" "room t \<le> Suc (room t1)"
    using put_abs [OF Cons.prems(1), of "fst kv" "snd kv"] Cons.prems(2) by auto
  obtain t' where "put_all t1 kvs = Some t'" "ok t'" "abs_map t' = abs_map t1 ++ map_of (rev kvs)"
    using Cons.IH [OF t1(2)] Cons.prems(2) t1(4) by auto
  then show ?case using t1 by (cases kv) (simp add: map_add_upd_left)
qed simp

end

section \<open>Positions of a key\<close>

text \<open>The \<open>n\<close>-th slot tried for a key.\<close>

definition slot_of :: "nat \<Rightarrow> bytes \<Rightarrow> nat \<Rightarrow> nat" where
  "slot_of k key n = (unat (hash_bytes key) + n) mod 2 ^ k"

lemma slot_less: "slot_of k key n < 2 ^ k"
  by (simp add: slot_of_def)

lemma slot_inj:
  assumes "slot_of k key m = slot_of k key n" "m < 2 ^ k" "n < 2 ^ k"
  shows "m = n"
proof -
  have le: "a = b" if e: "slot_of k key a = slot_of k key b" and l: "a \<le> b" and b: "b < 2 ^ k" for a b
  proof -
    have "2 ^ k dvd (unat (hash_bytes key) + b) - (unat (hash_bytes key) + a)"
      using e l mod_eq_dvd_iff_nat [of "unat (hash_bytes key) + a" "unat (hash_bytes key) + b" "2 ^ k"]
      by (simp add: slot_of_def)
    then have "2 ^ k dvd b - a" by simp
    then show ?thesis using l b by (metis diff_is_0_eq dvd_imp_le le_antisym less_imp_diff_less not_gr0 not_le)
  qed
  show ?thesis
    using le [of m n] le [of n m] assms by (metis le_cases)
qed

lemma slot_surj:
  assumes "j < 2 ^ k"
  obtains n where "n < 2 ^ k" "slot_of k key n = j"
proof -
  have "inj_on (slot_of k key) {..<2 ^ k}" by (auto intro: inj_onI slot_inj)
  then have "slot_of k key ` {..<2 ^ k} = {..<2 ^ k}"
    by (intro endo_inj_surj) (auto simp: slot_less)
  then show ?thesis using assms that by (metis (mono_tags, lifting) imageE lessThan_iff)
qed

lemma unat_pow2: "k < 64 \<Longrightarrow> unat (2 ^ k :: u64) = 2 ^ k"
  using unsigned_of_nat [of "2 ^ k", where 'b = 64 and 'a = nat]
  by (simp add: take_bit_nat_eq_self)

text \<open>Masking with the capacity less one is the remainder.\<close>

lemma and_mask_mod:
  assumes "k < 64"
  shows "unat (x AND (2 ^ k - 1) :: u64) = unat x mod 2 ^ k"
proof -
  have e: "x AND (2 ^ k - 1) = take_bit k x" by (simp add: take_bit_eq_mask mask_eq_exp_minus_1)
  show ?thesis unfolding e unsigned_take_bit_eq by (rule take_bit_eq_mod)
qed

section \<open>Invariant\<close>

definition tab_map :: "str_i32_table \<Rightarrow> bytes \<rightharpoonup> int" where
  "tab_map t = map_of (map (\<lambda>e. (se_key e, se_value e)) (filter se_used (st_entry t)))"

text \<open>A key stands behind the first free or equal slot of its own sequence of slots.\<close>

definition stops :: "str_i32_table \<Rightarrow> nat \<Rightarrow> bytes \<Rightarrow> nat \<Rightarrow> bool" where
  "stops t k key n \<longleftrightarrow> \<not> se_used (st_entry t ! slot_of k key n)
     \<or> se_key (st_entry t ! slot_of k key n) = key"

definition reaches :: "str_i32_table \<Rightarrow> nat \<Rightarrow> nat \<Rightarrow> bool" where
  "reaches t k j \<longleftrightarrow> (\<exists>n < 2 ^ k. slot_of k (se_key (st_entry t ! j)) n = j
     \<and> (\<forall>m < n. \<not> stops t k (se_key (st_entry t ! j)) m))"

definition tab_inv :: "nat \<Rightarrow> str_i32_table \<Rightarrow> bool" where
  "tab_inv k t \<longleftrightarrow> 4 \<le> k \<and> k < 64 \<and> st_cap t = 2 ^ k \<and> length (st_entry t) = 2 ^ k
     \<and> unat (st_used t) = length (filter se_used (st_entry t)) \<and> unat (st_used t) < 2 ^ k
     \<and> (\<forall>j < 2 ^ k. se_used (st_entry t ! j) \<longrightarrow> reaches t k j)"

definition table_ok :: "str_i32_table \<Rightarrow> bool" where
  "table_ok t \<longleftrightarrow> (\<exists>k. tab_inv k t)"

definition table_room :: "str_i32_table \<Rightarrow> nat" where
  "table_room t = unat (st_cap t) - 1 - unat (st_used t)"

text \<open>The slot at which the search for a key ends.\<close>

lemma first_stop:
  assumes "tab_inv k t"
  obtains n where "n < 2 ^ k" "stops t k key n" "\<forall>m < n. \<not> stops t k key m"
proof -
  have "\<exists>j < 2 ^ k. \<not> se_used (st_entry t ! j)"
  proof (rule ccontr)
    assume "\<not> (\<exists>j < 2 ^ k. \<not> se_used (st_entry t ! j))"
    then have "filter se_used (st_entry t) = st_entry t"
      using assms by (auto simp: tab_inv_def filter_id_conv in_set_conv_nth)
    then show False using assms unfolding tab_inv_def by (metis less_irrefl)
  qed
  then obtain n where "n < 2 ^ k" "stops t k key n"
    by (metis slot_surj stops_def)
  then show ?thesis
    using that exists_least_iff [of "stops t k key"] by (metis less_trans not_less_iff_gr_or_eq)
qed

text \<open>An occupied slot is on the way of its key alone: the search for a key ends at the slot that
  holds it, if there is one.\<close>

lemma stop_at_key:
  assumes "tab_inv k t" "j < 2 ^ k" "se_used (st_entry t ! j)" "se_key (st_entry t ! j) = key"
    and n: "n < 2 ^ k" "stops t k key n" "\<forall>m < n. \<not> stops t k key m"
  shows "slot_of k key n = j"
proof -
  obtain n' where n': "n' < 2 ^ k" "slot_of k key n' = j" "\<forall>m < n'. \<not> stops t k key m"
    using assms(1-4) by (auto simp: tab_inv_def reaches_def)
  have "stops t k key n'" using n'(2) assms(4) by (simp add: stops_def)
  then have "n' = n" using n n' by (metis linorder_neqE_nat)
  then show ?thesis using n'(2) by simp
qed

lemma tab_map_eq:
  assumes "tab_inv k t" and n: "n < 2 ^ k" "stops t k key n" "\<forall>m < n. \<not> stops t k key m"
  shows "tab_map t key = (let e = st_entry t ! slot_of k key n in
    if se_used e then Some (se_value e) else None)"
proof -
  let ?j = "slot_of k key n" and ?kvs = "map (\<lambda>e. (se_key e, se_value e)) (filter se_used (st_entry t))"
  have len: "length (st_entry t) = 2 ^ k" using assms(1) by (simp add: tab_inv_def)
  have only: "e = st_entry t ! ?j \<and> se_used (st_entry t ! ?j)" if "e \<in> set (st_entry t)" "se_used e" "se_key e = key" for e
    using that len stop_at_key [OF assms(1) _ _ _ n] by (metis in_set_conv_nth)
  show ?thesis
  proof (cases "se_used (st_entry t ! ?j)")
    case True
    let ?e = "st_entry t ! ?j"
    have key: "se_key ?e = key" using n(2) True by (simp add: stops_def)
    have mem: "?e \<in> set (st_entry t)" using len slot_less by (simp add: nth_mem)
    have "(key, se_value ?e) \<in> set ?kvs" using mem True key by (force simp: image_iff)
    then obtain v where v: "tab_map t key = Some v"
      unfolding tab_map_def by (metis weak_map_of_SomeI)
    then have "(key, v) \<in> set ?kvs" unfolding tab_map_def by (rule map_of_SomeD)
    then have "v = se_value ?e" using only by auto
    then show ?thesis using v True by simp
  next
    case False
    have "tab_map t key = None"
      unfolding tab_map_def map_of_eq_None_iff using only False by (force simp del: not_None_eq)
    then show ?thesis using False by (simp add: Let_def)
  qed
qed


section \<open>The loops end where the search ends\<close>

lemma start_slot:
  assumes "tab_inv k t"
  shows "unat (hash_bytes key AND (st_cap t - 1)) = slot_of k key 0"
    and "unat i = slot_of k key m \<Longrightarrow> unat ((i + 1) AND (st_cap t - 1)) = slot_of k key (Suc m)"
proof -
  have k: "k < 64" "st_cap t = 2 ^ k" using assms by (simp_all add: tab_inv_def)
  show "unat (hash_bytes key AND (st_cap t - 1)) = slot_of k key 0"
    using and_mask_mod [OF k(1)] k(2) by (simp add: slot_of_def)
  have "(2::nat) ^ k dvd 2 ^ 64" using k(1) by (intro le_imp_power_dvd) simp
  then have "unat (i + 1) mod 2 ^ k = (unat i + 1) mod 2 ^ k"
    by (simp add: unat_word_ariths mod_mod_cancel)
  moreover assume "unat i = slot_of k key m"
  ultimately show "unat ((i + 1) AND (st_cap t - 1)) = slot_of k key (Suc m)"
    using and_mask_mod [OF k(1), of "i + 1"] k(2) by (simp add: slot_of_def mod_Suc_eq)
qed

definition put_slot :: "str_i32_table \<Rightarrow> nat \<Rightarrow> bytes \<Rightarrow> int \<Rightarrow> str_i32_table" where
  "put_slot t j key val =
     (if se_used (st_entry t ! j)
      then t\<lparr>st_entry := (st_entry t)[j := (st_entry t ! j)\<lparr>se_value := val\<rparr>]\<rparr>
      else t\<lparr>st_entry := (st_entry t)[j := \<lparr>se_key = key, se_value = val, se_used = True\<rparr>],
             st_used := st_used t + 1\<rparr>)"

lemma put_loop_stop:
  assumes "tab_inv k t" "stops t k key n"
  shows "m \<le> n \<Longrightarrow> \<forall>l. m \<le> l \<longrightarrow> l < n \<longrightarrow> \<not> stops t k key l \<Longrightarrow> unat i = slot_of k key m
    \<Longrightarrow> put_loop t (st_cap t - 1) key val i = Some (put_slot t (slot_of k key n) key val)"
proof (induction "n - m" arbitrary: m i)
  case 0
  then have "m = n" by simp
  then show ?case using 0(4) assms(2)
    by (subst put_loop.simps) (auto simp: put_slot_def stops_def Let_def ds4_str_eq_def)
next
  case (Suc d)
  have "\<not> stops t k key m" using Suc by auto
  then have "put_loop t (st_cap t - 1) key val i = put_loop t (st_cap t - 1) key val ((i + 1) AND (st_cap t - 1))"
    using Suc.prems(3) by (subst put_loop.simps) (simp add: stops_def Let_def ds4_str_eq_def)
  also have "\<dots> = Some (put_slot t (slot_of k key n) key val)"
    using Suc.hyps(2) Suc.prems start_slot(2) [OF assms(1) Suc.prems(3)]
    by (intro Suc.hyps(1) [of "Suc m"]) simp_all
  finally show ?case .
qed

lemma get_loop_stop:
  assumes "tab_inv k t" "stops t k key n"
  shows "m \<le> n \<Longrightarrow> \<forall>l. m \<le> l \<longrightarrow> l < n \<longrightarrow> \<not> stops t k key l \<Longrightarrow> unat i = slot_of k key m
    \<Longrightarrow> get_loop t (st_cap t - 1) key i = Some (let e = st_entry t ! slot_of k key n in
          if se_used e then Some (se_value e) else None)"
proof (induction "n - m" arbitrary: m i)
  case 0
  then have "m = n" by simp
  then show ?case using 0(4) assms(2)
    by (subst get_loop.simps) (auto simp: stops_def Let_def)
next
  case (Suc d)
  have "\<not> stops t k key m" using Suc by auto
  then have "get_loop t (st_cap t - 1) key i = get_loop t (st_cap t - 1) key ((i + 1) AND (st_cap t - 1))"
    using Suc.prems(3) by (subst get_loop.simps) (auto simp: stops_def Let_def)
  also have "\<dots> = Some (let e = st_entry t ! slot_of k key n in
          if se_used e then Some (se_value e) else None)"
    using Suc.hyps(2) Suc.prems start_slot(2) [OF assms(1) Suc.prems(3)]
    by (intro Suc.hyps(1) [of "Suc m"]) simp_all
  finally show ?case .
qed

lemma table_get_abs:
  assumes "table_ok t"
  shows "table_get t key = Some (tab_map t key)"
proof -
  obtain k where inv: "tab_inv k t" using assms by (auto simp: table_ok_def)
  obtain n where n: "n < 2 ^ k" "stops t k key n" "\<forall>m < n. \<not> stops t k key m"
    by (rule first_stop [OF inv])
  have "unat (st_cap t) = 2 ^ k"
    using inv by (simp add: tab_inv_def unat_pow2)
  then have "st_cap t \<noteq> 0" by auto
  then show ?thesis
    using get_loop_stop [OF inv n(2), of 0] n(3) start_slot(1) [OF inv] tab_map_eq [OF inv n]
    by (simp add: table_get_def Let_def)
qed


section \<open>Insertion\<close>

lemma length_filter_update:
  "j < length xs \<Longrightarrow> \<not> P (xs ! j) \<Longrightarrow> P x
    \<Longrightarrow> length (filter P (xs[j := x])) = Suc (length (filter P xs))"
  by (induction xs arbitrary: j) (auto split: nat.splits)

lemma put_slot_same:
  assumes "se_used (st_entry t ! j)" "j < length (st_entry t)"
  shows "stops (put_slot t j key val) k x n = stops t k x n"
  using assms by (cases "slot_of k x n = j") (simp_all add: stops_def put_slot_def)

lemma put_slot_inv:
  assumes inv: "tab_inv k t" and n: "n < 2 ^ k" "stops t k key n" "\<forall>m < n. \<not> stops t k key m"
    and room: "0 < table_room t"
  shows "tab_inv k (put_slot t (slot_of k key n) key val)"
proof (cases "se_used (st_entry t ! slot_of k key n)")
  case True
  let ?j = "slot_of k key n"
  let ?t = "put_slot t ?j key val"
  have len: "length (st_entry t) = 2 ^ k" using inv by (simp add: tab_inv_def)
  have j: "?j < length (st_entry t)" using slot_less len by simp
  have e: "st_entry ?t = (st_entry t)[?j := (st_entry t ! ?j)\<lparr>se_value := val\<rparr>]"
    "st_cap ?t = st_cap t" "st_used ?t = st_used t"
    using True by (simp_all add: put_slot_def)
  have keys: "se_key (st_entry ?t ! i) = se_key (st_entry t ! i)"
    "se_used (st_entry ?t ! i) = se_used (st_entry t ! i)" if "i < 2 ^ k" for i
    using that e len j by (simp_all add: nth_list_update)
  have lenT: "length (st_entry ?t) = 2 ^ k" by (simp only: e(1) length_list_update len)
  have "map se_used (st_entry ?t) = map se_used (st_entry t)"
    using lenT len keys(2) by (simp add: list_eq_iff_nth_eq)
  then have "length (filter se_used (st_entry ?t)) = length (filter se_used (st_entry t))"
    by (metis length_filter_map comp_id filter_map id_comp length_map)
  moreover have "reaches ?t k i = reaches t k i" if "i < 2 ^ k" for i
    using keys(1) [OF that] put_slot_same [OF True j] by (simp add: reaches_def)
  ultimately show ?thesis using inv keys(2) by (simp add: tab_inv_def lenT e(2,3))
next
  case False
  let ?j = "slot_of k key n"
  let ?t = "put_slot t ?j key val"
  have len: "length (st_entry t) = 2 ^ k" and k: "k < 64" "st_cap t = 2 ^ k"
    and used: "unat (st_used t) = length (filter se_used (st_entry t))"
    using inv by (simp_all add: tab_inv_def)
  have j: "?j < 2 ^ k" by (rule slot_less)
  have e: "st_entry ?t = (st_entry t)[?j := \<lparr>se_key = key, se_value = val, se_used = True\<rparr>]"
    "st_cap ?t = st_cap t" "st_used ?t = st_used t + 1"
    using False by (simp_all add: put_slot_def)
  have lt: "unat (st_used t) + 1 < 2 ^ k" using room k by (simp add: table_room_def unat_pow2)
  have "(2::nat) ^ k \<le> 2 ^ 64" using k(1) by (intro power_increasing) simp_all
  then have u: "unat (st_used t + 1) = unat (st_used t) + 1"
    using lt by (simp add: unat_word_ariths)
  have cnt: "length (filter se_used (st_entry ?t)) = Suc (length (filter se_used (st_entry t)))"
    using length_filter_update [of ?j "st_entry t" se_used "\<lparr>se_key = key, se_value = val, se_used = True\<rparr>"]
      e False j len by simp
  have stop: "stops ?t k x m = stops t k x m" if "slot_of k x m \<noteq> ?j" for x m
    using that e by (simp add: stops_def)
  have "reaches ?t k i" if i: "i < 2 ^ k" "se_used (st_entry ?t ! i)" for i
  proof (cases "i = ?j")
    case True
    have "\<not> stops ?t k key m" if "m < n" for m
      using n that slot_inj [of k key m n] stop by auto
    then show ?thesis using True n(1) e(1) j len by (auto simp: reaches_def)
  next
    case ne: False
    then have same: "st_entry ?t ! i = st_entry t ! i" using e by simp
    obtain l where l: "l < 2 ^ k" "slot_of k (se_key (st_entry t ! i)) l = i"
      "\<forall>m < l. \<not> stops t k (se_key (st_entry t ! i)) m"
      using inv i same by (auto simp: tab_inv_def reaches_def)
    have "\<not> stops ?t k (se_key (st_entry t ! i)) m" if "m < l" for m
      using l(3) that stop False by (metis stops_def)
    then show ?thesis using l(1,2) same by (auto simp: reaches_def)
  qed
  moreover have "length (st_entry ?t) = 2 ^ k" by (simp only: e(1) length_list_update len)
  ultimately show ?thesis
    using inv u lt cnt used by (simp add: tab_inv_def e(2,3))
qed


text \<open>The search for another key is not disturbed, and the inserted key is found.\<close>

lemma tab_map_put:
  assumes inv: "tab_inv k t" and n: "n < 2 ^ k" "stops t k key n" "\<forall>m < n. \<not> stops t k key m"
    and room: "0 < table_room t"
  shows "tab_map (put_slot t (slot_of k key n) key val) = (tab_map t)(key \<mapsto> val)"
proof
  fix x
  let ?j = "slot_of k key n"
  let ?t = "put_slot t ?j key val"
  have inv': "tab_inv k ?t" by (rule put_slot_inv [OF assms])
  have len: "length (st_entry t) = 2 ^ k" using inv by (simp add: tab_inv_def)
  have j: "?j < 2 ^ k" by (rule slot_less)
  have new: "se_used (st_entry ?t ! ?j)" "se_key (st_entry ?t ! ?j) = key" "se_value (st_entry ?t ! ?j) = val"
    using j len n(2) by (auto simp: put_slot_def stops_def)
  have other: "st_entry ?t ! i = st_entry t ! i" if "i \<noteq> ?j" for i
    using that by (simp add: put_slot_def)
  obtain l where l: "l < 2 ^ k" "stops t k x l" "\<forall>m < l. \<not> stops t k x m"
    by (rule first_stop [OF inv])
  obtain l' where l': "l' < 2 ^ k" "stops ?t k x l'" "\<forall>m < l'. \<not> stops ?t k x m"
    by (rule first_stop [OF inv'])
  show "tab_map ?t x = ((tab_map t)(key \<mapsto> val)) x"
  proof (cases "x = key")
    case True
    have "slot_of k x l' = ?j" using stop_at_key [OF inv' j new(1,2)] l' True by simp
    then show ?thesis using tab_map_eq [OF inv' l'] new True by simp
  next
    case ne: False
    have eq: "stops ?t k x m = stops t k x m" if "slot_of k x m \<noteq> ?j" for m
      using that other by (simp add: stops_def)
    have nj: "\<not> stops ?t k x m" if "slot_of k x m = ?j" for m
      using that new ne by (simp add: stops_def)
    show ?thesis
    proof (cases "slot_of k x l = ?j")
      case False
      have "\<forall>m < l. \<not> stops ?t k x m" using l(3) eq nj by metis
      moreover have "stops ?t k x l" using l(2) eq False by simp
      ultimately show ?thesis
        using tab_map_eq [OF inv' l(1)] tab_map_eq [OF inv l] other False ne by simp
    next
      case True
      have "\<not> se_used (st_entry t ! ?j)"
        using l(2) n(2) True ne by (auto simp: stops_def)
      then have "tab_map t x = None" using tab_map_eq [OF inv l] True by simp
      moreover have "\<not> se_used (st_entry ?t ! slot_of k x l')"
      proof
        let ?i = "slot_of k x l'"
        assume u: "se_used (st_entry ?t ! ?i)"
        have i: "?i \<noteq> ?j" using nj l'(2) by blast
        then have "se_key (st_entry t ! ?i) = x" "se_used (st_entry t ! ?i)"
          using l'(2) u other by (auto simp: stops_def)
        then have "slot_of k x l = ?i" using stop_at_key [OF inv slot_less _ _ l] by simp
        then show False using True i by simp
      qed
      ultimately show ?thesis using tab_map_eq [OF inv' l'] ne by (simp add: Let_def)
    qed
  qed
qed

lemma table_put_abs:
  assumes "table_ok t" "0 < table_room t"
  shows "\<exists>t'. table_put t key val = Some t' \<and> table_ok t'
    \<and> tab_map t' = (tab_map t)(key \<mapsto> val) \<and> table_room t \<le> Suc (table_room t')"
proof -
  obtain k where inv: "tab_inv k t" using assms by (auto simp: table_ok_def)
  obtain n where n: "n < 2 ^ k" "stops t k key n" "\<forall>m < n. \<not> stops t k key m"
    by (rule first_stop [OF inv])
  let ?t = "put_slot t (slot_of k key n) key val"
  have "table_put t key val = Some ?t"
    using put_loop_stop [OF inv n(2), of 0] n(3) start_slot(1) [OF inv]
    by (simp add: table_put_def Let_def)
  moreover have "table_ok ?t" using put_slot_inv [OF inv n assms(2)] by (auto simp: table_ok_def)
  moreover have "table_room t \<le> Suc (table_room ?t)"
    by (auto simp: table_room_def put_slot_def unat_word_ariths)
  ultimately show ?thesis using tab_map_put [OF inv n assms(2)] by blast
qed

interpretation st: string_table table_ok table_room tab_map table_get table_put
  by unfold_locales (simp_all add: table_get_abs table_put_abs)

section \<open>A new table\<close>

lemma pow2_loop_returns:
  "n \<le> 2 ^ 63 \<Longrightarrow> k \<le> 63 \<Longrightarrow> k = 0 \<or> 2 ^ (k - 1) < unat n
    \<Longrightarrow> \<exists>j. k \<le> j \<and> j \<le> 63 \<and> pow2_loop (2 ^ k) n = Some (2 ^ j) \<and> unat n \<le> 2 ^ j"
proof (induction "63 - k" arbitrary: k)
  case 0
  then have "k = 63" by simp
  then have "\<not> 2 ^ k < n" "unat n \<le> 2 ^ k" using 0(2) by (simp_all add: word_le_nat_alt not_less)
  then show ?case using \<open>k = 63\<close> by (intro exI [of _ k]) (subst pow2_loop.simps, simp)
next
  case (Suc d)
  show ?case
  proof (cases "2 ^ k < n")
    case True
    have p: "push_bit 1 (2 ^ k) = (2 ^ Suc k :: u64)" by (simp add: push_bit_eq_mult)
    have step: "pow2_loop (2 ^ k) n = pow2_loop (2 ^ Suc k) n"
      using True p by (subst pow2_loop.simps) (simp only: if_True)
    have lt: "2 ^ k < unat n" using True Suc.prems by (simp add: word_less_nat_alt unat_pow2)
    have "\<exists>j. Suc k \<le> j \<and> j \<le> 63 \<and> pow2_loop (2 ^ Suc k) n = Some (2 ^ j) \<and> unat n \<le> 2 ^ j"
    proof (rule Suc.hyps(1))
      show "d = 63 - Suc k" "Suc k \<le> 63" using Suc.hyps(2) by linarith+
      show "Suc k = 0 \<or> 2 ^ (Suc k - 1) < unat n" using lt by simp
    qed (rule Suc.prems(1))
    then obtain j where "Suc k \<le> j" "j \<le> 63" "pow2_loop (2 ^ Suc k) n = Some (2 ^ j)" "unat n \<le> 2 ^ j"
      by (elim exE conjE)
    then show ?thesis unfolding step by (intro exI [of _ j] conjI) (assumption | linarith)+
  next
    case False
    then have "unat n \<le> 2 ^ k" using Suc by (simp add: not_less word_le_nat_alt unat_pow2)
    then show ?thesis using False Suc.prems by (intro exI [of _ k]) (subst pow2_loop.simps, simp)
  qed
qed

lemma table_init_ok:
  assumes "unat expected < 2 ^ 61"
  shows "\<exists>t. table_init expected = Some t \<and> table_ok t \<and> tab_map t = Map.empty
    \<and> unat expected \<le> table_room t"
proof -
  let ?n = "expected * 2 + 16"
  have n: "unat ?n = unat expected * 2 + 16"
    using assms by (simp add: unat_word_ariths)
  have "?n \<le> 2 ^ 63" using n assms by (simp add: word_le_nat_alt)
  then obtain k where k: "k \<le> 63" "next_pow2 ?n = Some (2 ^ k)" "unat ?n \<le> 2 ^ k"
    using pow2_loop_returns [of ?n 0] by (auto simp: next_pow2_def)
  have k4: "4 \<le> k"
  proof (rule ccontr)
    assume "\<not> 4 \<le> k"
    then have "(2::nat) ^ k \<le> 2 ^ 3" by (intro power_increasing) simp_all
    then show False using k(3) n by simp
  qed
  let ?t = "\<lparr>st_entry = replicate (2 ^ k) free_slot, st_cap = 2 ^ k, st_used = 0\<rparr>"
  have "table_init expected = Some ?t" using k by (simp add: table_init_def unat_pow2)
  moreover have "tab_inv k ?t" using k4 k(1) by (simp add: tab_inv_def free_slot_def)
  moreover have "tab_map ?t = Map.empty" by (simp add: tab_map_def free_slot_def)
  moreover have "unat expected \<le> table_room ?t" using k n by (simp add: table_room_def unat_pow2)
  ultimately show ?thesis by (auto simp: table_ok_def)
qed

end
