(* ===== verification/Byte_Coder.thy ===== *)
theory Byte_Coder
  imports Ds4_Prelude
begin

text \<open>
  The byte alphabet of the tokenizer (\<open>src/ds4.c\<close>): every byte of a text is written as a
  printable Unicode character before merging, and read back when a token is shown.  Code points
  are naturals (none is above 21 bits).
\<close>

section \<open>UTF-8\<close>

definition utf8_put_cp :: "nat \<Rightarrow> bytes" where
  "utf8_put_cp cp =
     (if cp \<le> 0x7f then [char_of cp]
      else if cp \<le> 0x7ff then
        [char_of (0xc0 OR drop_bit 6 cp), char_of (0x80 OR (cp AND 0x3f))]
      else if cp \<le> 0xffff then
        [char_of (0xe0 OR drop_bit 12 cp), char_of (0x80 OR (drop_bit 6 cp AND 0x3f)),
         char_of (0x80 OR (cp AND 0x3f))]
      else
        [char_of (0xf0 OR drop_bit 18 cp), char_of (0x80 OR (drop_bit 12 cp AND 0x3f)),
         char_of (0x80 OR (drop_bit 6 cp AND 0x3f)), char_of (0x80 OR (cp AND 0x3f))])"

definition utf8_len_from_first_byte :: "char \<Rightarrow> nat" where
  "utf8_len_from_first_byte ch = (let c = (of_char ch :: nat) in
     if c < 0x80 then 1
     else if c AND 0xe0 = 0xc0 then 2
     else if c AND 0xf0 = 0xe0 then 3
     else if c AND 0xf8 = 0xf0 then 4
     else 1)"

definition next_utf8_char :: "bytes \<Rightarrow> nat \<Rightarrow> nat" where
  "next_utf8_char s pos = (let n = utf8_len_from_first_byte (s ! pos) in
     if pos + n > length s then pos + 1 else pos + n)"

text \<open>The value of a lead byte and the 6 bits of each byte behind it.\<close>

definition utf8_bits :: "nat \<Rightarrow> bytes \<Rightarrow> nat" where
  "utf8_bits lead rest = fold (\<lambda>c cp. push_bit 6 cp OR (of_char c AND 0x3f)) rest lead"

definition utf8_peek_one :: "bytes \<Rightarrow> nat \<Rightarrow> nat \<times> nat" where
  "utf8_peek_one s pos =
     (let c0 = (of_char (s ! pos) :: nat);
          n = utf8_len_from_first_byte (s ! pos);
          n = if pos + n > length s then 1 else n
      in (if n = 1 then c0
          else if n = 2 then utf8_bits (c0 AND 0x1f) [s ! (pos + 1)]
          else if n = 3 then utf8_bits (c0 AND 0x0f) [s ! (pos + 1), s ! (pos + 2)]
          else utf8_bits (c0 AND 0x07) [s ! (pos + 1), s ! (pos + 2), s ! (pos + 3)],
          pos + n))"

text \<open>The decoded character and the position behind it.\<close>

definition utf8_decode_one :: "bytes \<Rightarrow> nat \<Rightarrow> nat \<times> nat" where
  "utf8_decode_one s pos = (let c = (of_char (s ! pos) :: nat) in
     if c < 0x80 \<or> pos + 1 \<ge> length s then (c, pos + 1)
     else if c AND 0xe0 = 0xc0 \<and> pos + 1 < length s then
       (utf8_bits (c AND 0x1f) [s ! (pos + 1)], pos + 2)
     else if c AND 0xf0 = 0xe0 \<and> pos + 2 < length s then
       (utf8_bits (c AND 0x0f) [s ! (pos + 1), s ! (pos + 2)], pos + 3)
     else if c AND 0xf8 = 0xf0 \<and> pos + 3 < length s then
       (utf8_bits (c AND 0x07) [s ! (pos + 1), s ! (pos + 2), s ! (pos + 3)], pos + 4)
     else (c, pos + 1))"

section \<open>The byte alphabet\<close>

definition gpt2_printable :: "nat \<Rightarrow> bool" where
  "gpt2_printable x \<longleftrightarrow> x \<ge> 33 \<and> x \<le> 126 \<or> x \<ge> 161 \<and> x \<le> 172 \<or> x \<ge> 174"

text \<open>The loops that count the bytes without a printable character of their own.\<close>

fun byte_rank :: "nat list \<Rightarrow> nat \<Rightarrow> nat \<Rightarrow> nat option" where
  "byte_rank [] b n = None"
| "byte_rank (x # xs) b n =
     (if gpt2_printable x then byte_rank xs b n
      else if x = b then Some (256 + n)
      else byte_rank xs b (n + 1))"

definition gpt2_byte_to_codepoint :: "nat \<Rightarrow> nat" where
  "gpt2_byte_to_codepoint b =
     (if gpt2_printable b then b
      else case byte_rank [0..<256] b 0 of Some cp \<Rightarrow> cp | None \<Rightarrow> b)"

fun rank_byte :: "nat list \<Rightarrow> nat \<Rightarrow> nat \<Rightarrow> nat option" where
  "rank_byte [] cp n = None"
| "rank_byte (b # bs) cp n =
     (if gpt2_printable b then rank_byte bs cp n
      else if cp = 256 + n then Some b
      else rank_byte bs cp (n + 1))"

text \<open>The C function answers -1 for a code point that stands for no byte.\<close>

definition gpt2_codepoint_to_byte :: "nat \<Rightarrow> nat option" where
  "gpt2_codepoint_to_byte cp =
     (if cp \<ge> 33 \<and> cp \<le> 126 \<or> cp \<ge> 161 \<and> cp \<le> 172 \<or> cp \<ge> 174 \<and> cp \<le> 255 then Some cp
      else rank_byte [0..<256] cp 0)"

definition encode_byte :: "char \<Rightarrow> bytes" where
  "encode_byte c = utf8_put_cp (gpt2_byte_to_codepoint (of_char c))"

definition byte_encode :: "bytes \<Rightarrow> bytes" where
  "byte_encode s = concat (map encode_byte s)"

text \<open>The loop of \<open>ds4_token_text\<close> over the characters of a token.\<close>

function decode_from :: "bytes \<Rightarrow> nat \<Rightarrow> bytes" where
  "decode_from s pos =
     (if pos < length s then
        (case utf8_decode_one s pos of (cp, pos') \<Rightarrow>
          (case gpt2_codepoint_to_byte cp of Some b \<Rightarrow> [char_of b] | None \<Rightarrow> []) @ decode_from s pos')
      else [])"
  by pat_completeness auto

termination
  by (relation "measure (\<lambda>(s, pos). length s - pos)")
     (auto simp: utf8_decode_one_def Let_def split: if_splits)

declare decode_from.simps [simp del]

section \<open>One byte there and back\<close>

lemma byte_rank_gap:
  "\<forall>x. a \<le> x \<longrightarrow> x < a + k \<longrightarrow> \<not> gpt2_printable x \<Longrightarrow>
    byte_rank ([a..<a + k] @ ys) b n
      = (if a \<le> b \<and> b < a + k then Some (256 + n + (b - a)) else byte_rank ys b (n + k))"
proof (induction k arbitrary: a n)
  case (Suc k)
  have "[a..<a + Suc k] = a # [Suc a..<Suc a + k]" by (simp add: upt_conv_Cons del: upt_Suc)
  then show ?case using Suc.IH [of "Suc a" "n + 1"] Suc.prems by (auto simp del: upt_Suc)
qed auto

lemma rank_byte_gap:
  "\<forall>x. a \<le> x \<longrightarrow> x < a + k \<longrightarrow> \<not> gpt2_printable x \<Longrightarrow>
    rank_byte ([a..<a + k] @ ys) cp n
      = (if 256 + n \<le> cp \<and> cp < 256 + n + k then Some (a + (cp - 256 - n)) else rank_byte ys cp (n + k))"
proof (induction k arbitrary: a n)
  case (Suc k)
  have "[a..<a + Suc k] = a # [Suc a..<Suc a + k]" by (simp add: upt_conv_Cons del: upt_Suc)
  then show ?case using Suc.IH [of "Suc a" "n + 1"] Suc.prems by (auto simp del: upt_Suc)
qed auto

lemma rank_printable:
  "\<forall>x \<in> set xs. gpt2_printable x \<Longrightarrow> byte_rank (xs @ ys) b n = byte_rank ys b n"
  "\<forall>x \<in> set xs. gpt2_printable x \<Longrightarrow> rank_byte (xs @ ys) b n = rank_byte ys b n"
  by (induction xs) auto

lemma byte_ranges:
  "[0..<256] = [0..<0 + 33] @ [33..<127] @ [127..<127 + 34] @ [161..<173] @ [173..<173 + 1] @ [174..<256]"
proof -
  have "[i..<j] @ [j..<k] = [i..<k]" if "i \<le> j" "j \<le> k" for i j k :: nat
    using that upt_add_eq_append [of i j "k - j"] by simp
  from this [of 173 174 256] this [of 161 173 256] this [of 127 161 256] this [of 33 127 256] this [of 0 33 256]
  show ?thesis by (simp del: upt_Suc)
qed

lemma printable_ranges:
  "\<forall>x \<in> set [33..<127]. gpt2_printable x" "\<forall>x \<in> set [161..<173]. gpt2_printable x"
  "\<forall>x \<in> set [174..<256]. gpt2_printable x"
  by (auto simp: gpt2_printable_def)

lemma gap_ranges:
  "\<forall>x. 0 \<le> x \<longrightarrow> x < 0 + 33 \<longrightarrow> \<not> gpt2_printable x"
  "\<forall>x. 127 \<le> x \<longrightarrow> x < 127 + 34 \<longrightarrow> \<not> gpt2_printable x"
  "\<forall>x. 173 \<le> x \<longrightarrow> x < 173 + 1 \<longrightarrow> \<not> gpt2_printable x"
  by (auto simp: gpt2_printable_def)

lemma rank_tail:
  "byte_rank [174..<256] b n = None" "rank_byte [174..<256] b n = None"
  using rank_printable [OF printable_ranges(3), of "[]"] by simp_all

lemma byte_to_codepoint_eq:
  "gpt2_byte_to_codepoint b =
    (if b < 33 then 256 + b else if 127 \<le> b \<and> b < 161 then 162 + b else if b = 173 then 323 else b)"
proof -
  have "byte_rank [0..<256] b 0 = (if b < 33 then Some (256 + b)
      else if 127 \<le> b \<and> b < 161 then Some (162 + b) else if b = 173 then Some 323 else None)"
    unfolding byte_ranges
    by (simp only: byte_rank_gap [OF gap_ranges(1)] byte_rank_gap [OF gap_ranges(2)]
        byte_rank_gap [OF gap_ranges(3)] rank_printable [OF printable_ranges(1)]
        rank_printable [OF printable_ranges(2)] rank_tail) auto
  then show ?thesis by (auto simp: gpt2_byte_to_codepoint_def gpt2_printable_def)
qed

lemma codepoint_to_byte_eq:
  "gpt2_codepoint_to_byte cp =
    (if 33 \<le> cp \<and> cp \<le> 126 \<or> 161 \<le> cp \<and> cp \<le> 172 \<or> 174 \<le> cp \<and> cp \<le> 255 then Some cp
     else if 256 \<le> cp \<and> cp < 289 then Some (cp - 256)
     else if 289 \<le> cp \<and> cp < 323 then Some (cp - 162)
     else if cp = 323 then Some 173 else None)"
proof -
  have "rank_byte [0..<256] cp 0 = (if 256 \<le> cp \<and> cp < 289 then Some (cp - 256)
      else if 289 \<le> cp \<and> cp < 323 then Some (cp - 162) else if cp = 323 then Some 173 else None)"
    unfolding byte_ranges
    by (simp only: rank_byte_gap [OF gap_ranges(1)] rank_byte_gap [OF gap_ranges(2)]
        rank_byte_gap [OF gap_ranges(3)] rank_printable [OF printable_ranges(1)]
        rank_printable [OF printable_ranges(2)] rank_tail) auto
  then show ?thesis by (cases "cp = 323") (simp_all add: gpt2_codepoint_to_byte_def)
qed

lemma codepoint_round_trip:
  "b < 256 \<Longrightarrow> gpt2_codepoint_to_byte (gpt2_byte_to_codepoint b) = Some b"
  by (auto simp: byte_to_codepoint_eq codepoint_to_byte_eq)

text \<open>Six low bits under a multiple of 64.\<close>

lemma or_low_bits:
  assumes "r < 64"
  shows "push_bit 6 q OR r = 64 * q + (r :: nat)"
proof -
  have "push_bit 6 q + r = push_bit 6 q OR r"
  proof (rule disjunctive_add)
    fix n
    show "\<not> bit (push_bit 6 q) n \<or> \<not> bit r n"
    proof (cases "n < 6")
      case False
      have "take_bit 6 r = r" using assms by (simp add: take_bit_nat_eq_self)
      then show ?thesis using False by (metis bit_take_bit_iff)
    qed (simp add: bit_push_bit_iff)
  qed
  then show ?thesis by (simp add: push_bit_eq_mult)
qed

lemma or_lead: "r < 64 \<Longrightarrow> 128 OR r = 128 + (r :: nat)" "r < 64 \<Longrightarrow> 192 OR r = 192 + (r :: nat)"
  using or_low_bits [of r 2] or_low_bits [of r 3] by (simp_all add: push_bit_eq_mult)

lemma and_63: "x AND 63 = x mod (64 :: nat)"
  using take_bit_eq_mask [of 6 x] by (simp add: mask_eq_exp_minus_1 take_bit_eq_mod)

text \<open>The UTF-8 form of a byte's code point: the byte itself, or a pair of a lead byte of two
  and a continuation byte.\<close>

lemma utf8_put_cp_cases:
  assumes "cp < 324"
  obtains (one) "cp < 128" "utf8_put_cp cp = [char_of cp]"
  | (two) q r where "2 \<le> q" "q \<le> 5" "r < 64" "cp = 64 * q + r"
      "utf8_put_cp cp = [char_of (192 + q), char_of (128 + r)]"
proof (cases "cp < 128")
  case True
  then show ?thesis using one by (simp add: utf8_put_cp_def)
next
  case False
  let ?q = "cp div 64" and ?r = "cp mod 64"
  have q: "2 \<le> ?q" "?q \<le> 5" using False assms by auto
  have "utf8_put_cp cp = [char_of (192 + ?q), char_of (128 + ?r)]"
    using False assms q or_lead(2) [of ?q] or_lead(1) [of ?r]
    by (simp add: utf8_put_cp_def and_63 drop_bit_eq_div)
  then show ?thesis using two [of ?q ?r] q by simp
qed

lemma lead_two:
  assumes "2 \<le> q" "q \<le> 5"
  shows "(192 + q) AND 0xe0 = (0xc0 :: nat)" "(192 + q) AND 0x1f = (q :: nat)"
proof -
  have "q = 2 \<or> q = 3 \<or> q = 4 \<or> q = 5" using assms by auto
  then show "(192 + q) AND 0xe0 = (0xc0 :: nat)" "(192 + q) AND 0x1f = (q :: nat)" by auto
qed

lemma codepoint_bound: "gpt2_byte_to_codepoint b < 324" if "b < 256"
  using that by (auto simp: byte_to_codepoint_eq)

text \<open>An encoded byte is one symbol of the merger, and decodes to the byte.\<close>

lemma encode_byte_first:
  "utf8_len_from_first_byte (hd (encode_byte c)) = length (encode_byte c)"
  "encode_byte c \<noteq> []" "length (encode_byte c) \<le> 2"
proof -
  have "gpt2_byte_to_codepoint (of_char c) < 324" using codepoint_bound nat_of_char_less_256 by blast
  then have "utf8_len_from_first_byte (hd (encode_byte c)) = length (encode_byte c)
    \<and> encode_byte c \<noteq> [] \<and> length (encode_byte c) \<le> 2"
  proof (cases rule: utf8_put_cp_cases)
    case one
    then show ?thesis by (simp add: encode_byte_def utf8_len_from_first_byte_def)
  next
    case (two q r)
    then show ?thesis by (simp add: encode_byte_def utf8_len_from_first_byte_def lead_two Let_def)
  qed
  then show "utf8_len_from_first_byte (hd (encode_byte c)) = length (encode_byte c)"
    "encode_byte c \<noteq> []" "length (encode_byte c) \<le> 2" by simp_all
qed

lemma decode_encode_byte:
  assumes "drop pos s = encode_byte c @ r" "pos \<le> length s"
  shows "decode_from s pos = c # decode_from s (pos + length (encode_byte c))"
proof -
  let ?cp = "gpt2_byte_to_codepoint (of_char c)"
  have len: "length s = pos + length (encode_byte c @ r)"
    using assms by (metis append_take_drop_id length_append length_take min_absorb2)
  have nth: "s ! (pos + i) = (encode_byte c @ r) ! i" if "i < length (encode_byte c)" for i
    using that assms len by (metis nth_drop)
  have b: "gpt2_codepoint_to_byte ?cp = Some (of_char c)"
    using codepoint_round_trip nat_of_char_less_256 by blast
  have "?cp < 324" using codepoint_bound nat_of_char_less_256 by blast
  then have "utf8_decode_one s pos = (?cp, pos + length (encode_byte c)) \<and> pos < length s"
  proof (cases rule: utf8_put_cp_cases)
    case one
    then show ?thesis
      using nth [of 0] len by (simp add: encode_byte_def utf8_decode_one_def)
  next
    case (two q r')
    have e: "encode_byte c = [char_of (192 + q), char_of (128 + r')]"
      using two by (simp add: encode_byte_def)
    have c: "s ! pos = char_of (192 + q)" "s ! Suc pos = char_of (128 + r')"
      using nth [of 0] nth [of 1] e by simp_all
    have m: "(128 + r') AND 63 = r'" using two(3) mod_mult_self2 [of r' 64 2] by (simp add: and_63 add.commute)
    show ?thesis
      using two c e len m or_low_bits [of r' q]
      by (simp add: utf8_decode_one_def lead_two Let_def utf8_bits_def)
  qed
  then show ?thesis using b by (subst decode_from.simps) simp
qed

lemma decode_encode_at:
  "drop pos s = byte_encode t \<Longrightarrow> pos \<le> length s \<Longrightarrow> decode_from s pos = t"
proof (induction t arbitrary: pos)
  case Nil
  then show ?case by (subst decode_from.simps) (simp add: byte_encode_def)
next
  case (Cons c t)
  have d: "drop pos s = encode_byte c @ byte_encode t" using Cons.prems by (simp add: byte_encode_def)
  have "drop (pos + length (encode_byte c)) s = byte_encode t"
    using d by (metis append_eq_conv_conj drop_drop add.commute)
  moreover have "pos + length (encode_byte c) \<le> length s"
    using d Cons.prems(2) by (metis append_take_drop_id le_add1 length_append length_take min_absorb2 add.assoc)
  ultimately show ?case using Cons.IH decode_encode_byte [OF d Cons.prems(2)] by simp
qed

lemma byte_round_trip: "decode_from (byte_encode t) 0 = t"
  by (rule decode_encode_at) simp_all

end
