(* ===== verification/Pretokenizer.thy ===== *)
theory Pretokenizer
  imports Bpe
begin

text \<open>
  Cutting a text into the pieces the merger works on (\<open>src/ds4.c\<close>, \<open>bpe_tokenize_text\<close>): runs of
  digits, of letters, of punctuation and of space, where the shape of the cut decides the tokens.
  A C string is the list of its bytes; positions are naturals and no position passes its end.
\<close>

section \<open>Characters\<close>

definition in_range :: "char \<Rightarrow> char \<Rightarrow> char \<Rightarrow> bool" where
  "in_range lo hi c \<longleftrightarrow> (of_char lo :: nat) \<le> of_char c \<and> (of_char c :: nat) \<le> of_char hi"

definition ascii_alpha :: "char \<Rightarrow> bool" where
  "ascii_alpha c \<longleftrightarrow> in_range CHR ''A'' CHR ''Z'' c \<or> in_range CHR ''a'' CHR ''z'' c"

definition ascii_digit :: "char \<Rightarrow> bool" where
  "ascii_digit c \<longleftrightarrow> in_range CHR ''0'' CHR ''9'' c"

definition ascii_space :: "char \<Rightarrow> bool" where
  "ascii_space c \<longleftrightarrow> c = CHR '' '' \<or> c = CHR 0x09 \<or> c = CHR 0x0a \<or> c = CHR 0x0d
     \<or> c = CHR 0x0b \<or> c = CHR 0x0c"

definition ascii_newline :: "char \<Rightarrow> bool" where
  "ascii_newline c \<longleftrightarrow> c = CHR 0x0a \<or> c = CHR 0x0d"

definition joyai_ascii_punct_symbol :: "char \<Rightarrow> bool" where
  "joyai_ascii_punct_symbol c \<longleftrightarrow> in_range CHR ''!'' CHR ''/'' c \<or> in_range CHR '':'' CHR ''@'' c
     \<or> in_range CHR ''['' CHR 0x60 c \<or> in_range CHR ''{'' CHR ''~'' c"

definition utf8_is_cjk_hira_kata :: "nat \<Rightarrow> bool" where
  "utf8_is_cjk_hira_kata cp \<longleftrightarrow> cp \<ge> 0x4e00 \<and> cp \<le> 0x9fa5 \<or> cp \<ge> 0x3040 \<and> cp \<le> 0x309f
     \<or> cp \<ge> 0x30a0 \<and> cp \<le> 0x30ff"

definition joyai_letter_like_at :: "bytes \<Rightarrow> nat \<Rightarrow> bool" where
  "joyai_letter_like_at s pos = (if (of_char (s ! pos) :: nat) < 128 then ascii_alpha (s ! pos) else True)"

definition joyai_cjk_at :: "bytes \<Rightarrow> nat \<Rightarrow> bool" where
  "joyai_cjk_at s pos = (if (of_char (s ! pos) :: nat) < 128 then False
     else utf8_is_cjk_hira_kata (fst (utf8_peek_one s pos)))"

section \<open>Runs\<close>

lemma next_utf8_char_range:
  "pos < length s \<Longrightarrow> pos < next_utf8_char s pos \<and> next_utf8_char s pos \<le> length s"
  by (auto simp: next_utf8_char_def utf8_len_from_first_byte_def Let_def)

function run_while :: "(char \<Rightarrow> bool) \<Rightarrow> bytes \<Rightarrow> nat \<Rightarrow> nat" where
  "run_while P s pos =
     (if pos < length s \<and> P (s ! pos) then run_while P s (pos + 1) else pos)"
  by pat_completeness auto

termination
  by (relation "measure (\<lambda>(P, s, pos). length s - pos)") auto

function digits_end :: "bytes \<Rightarrow> nat \<Rightarrow> nat \<Rightarrow> nat" where
  "digits_end s pos ndigits =
     (if pos < length s \<and> ascii_digit (s ! pos) \<and> ndigits < 3
      then digits_end s (pos + 1) (ndigits + 1) else pos)"
  by pat_completeness auto

termination
  by (relation "measure (\<lambda>(s, pos, n). length s - pos)") auto

function joyai_consume_letters :: "bytes \<Rightarrow> nat \<Rightarrow> nat" where
  "joyai_consume_letters s pos =
     (if pos < length s \<and> joyai_letter_like_at s pos
      then joyai_consume_letters s (next_utf8_char s pos) else pos)"
  by pat_completeness auto

termination
  using next_utf8_char_range
  by (relation "measure (\<lambda>(s, pos). length s - pos)") (auto intro!: diff_less_mono2)

function consume_cjk :: "bytes \<Rightarrow> nat \<Rightarrow> nat" where
  "consume_cjk s pos =
     (if pos < length s \<and> joyai_cjk_at s pos then consume_cjk s (next_utf8_char s pos) else pos)"
  by pat_completeness auto

termination
  using next_utf8_char_range
  by (relation "measure (\<lambda>(s, pos). length s - pos)") (auto intro!: diff_less_mono2)

text \<open>The end of a run of space and the position behind its last newline (0 if it has none).\<close>

function space_run :: "bytes \<Rightarrow> nat \<Rightarrow> nat \<Rightarrow> nat \<times> nat" where
  "space_run s p last_newline_end =
     (if p < length s \<and> ascii_space (s ! p)
      then space_run s (p + 1) (if ascii_newline (s ! p) then p + 1 else last_newline_end)
      else (p, last_newline_end))"
  by pat_completeness auto

termination
  by (relation "measure (\<lambda>(s, p, l). length s - p)") auto

declare run_while.simps [simp del] digits_end.simps [simp del] joyai_consume_letters.simps [simp del]
  consume_cjk.simps [simp del] space_run.simps [simp del]

section \<open>The next piece\<close>

definition punct_end :: "bytes \<Rightarrow> nat \<Rightarrow> nat" where
  "punct_end s pos = run_while ascii_newline s (run_while joyai_ascii_punct_symbol s pos)"

definition space_end :: "bytes \<Rightarrow> nat \<Rightarrow> nat" where
  "space_end s pos = (case space_run s pos 0 of (p, last_newline_end) \<Rightarrow>
     if last_newline_end \<noteq> 0 then last_newline_end
     else if p < length s \<and> p > pos + 1
             \<and> (joyai_letter_like_at s p \<or> joyai_ascii_punct_symbol (s ! p))
     then p - 1
     else p)"

text \<open>The chain of rules of the loop body, and the rule that every piece has a character.\<close>

definition piece_rule :: "bytes \<Rightarrow> nat \<Rightarrow> nat" where
  "piece_rule s pos =
     (let c = s ! pos in
      if ascii_digit c then digits_end s pos 0
      else if joyai_cjk_at s pos then consume_cjk s (next_utf8_char s pos)
      else if joyai_ascii_punct_symbol c \<and> pos + 1 < length s \<and> ascii_alpha (s ! (pos + 1))
      then run_while ascii_alpha s (pos + 1)
      else if joyai_letter_like_at s pos then joyai_consume_letters s pos
      else if \<not> ascii_newline c \<and> \<not> joyai_ascii_punct_symbol c \<and> pos + 1 < length s
              \<and> joyai_letter_like_at s (pos + 1)
      then joyai_consume_letters s (pos + 1)
      else if c = CHR '' '' \<and> pos + 1 < length s \<and> joyai_ascii_punct_symbol (s ! (pos + 1))
      then punct_end s (pos + 1)
      else if joyai_ascii_punct_symbol c then punct_end s pos
      else if ascii_space c then space_end s pos
      else next_utf8_char s pos)"

definition piece_end :: "bytes \<Rightarrow> nat \<Rightarrow> nat" where
  "piece_end s start = (let pos = piece_rule s start in
     if pos = start then next_utf8_char s pos else pos)"

section \<open>Every piece is inside the text and not empty\<close>

lemma run_while_range: "pos \<le> length s \<Longrightarrow> pos \<le> run_while P s pos \<and> run_while P s pos \<le> length s"
  by (induction P s pos rule: run_while.induct) (subst (1 2) run_while.simps, auto)

lemma digits_end_range: "pos \<le> length s \<Longrightarrow> pos \<le> digits_end s pos n \<and> digits_end s pos n \<le> length s"
  by (induction s pos n rule: digits_end.induct) (subst (1 2) digits_end.simps, auto)

lemma letters_range:
  "pos \<le> length s \<Longrightarrow> pos \<le> joyai_consume_letters s pos \<and> joyai_consume_letters s pos \<le> length s"
proof (induction s pos rule: joyai_consume_letters.induct)
  case (1 s pos)
  then show ?case using next_utf8_char_range [of pos s]
    by (subst (1 2) joyai_consume_letters.simps) auto
qed

lemma cjk_range: "pos \<le> length s \<Longrightarrow> pos \<le> consume_cjk s pos \<and> consume_cjk s pos \<le> length s"
proof (induction s pos rule: consume_cjk.induct)
  case (1 s pos)
  then show ?case using next_utf8_char_range [of pos s] by (subst (1 2) consume_cjk.simps) auto
qed

lemma space_run_range:
  assumes "space_run s p l = (q, l')" "p \<le> length s" "l = 0 \<or> start < l \<and> l \<le> p" "start \<le> p"
  shows "p \<le> q \<and> q \<le> length s \<and> (l' = 0 \<or> start < l' \<and> l' \<le> q)"
  using assms
proof (induction s p l rule: space_run.induct)
  case (1 s p l)
  show ?case
  proof (cases "p < length s \<and> ascii_space (s ! p)")
    case True
    then have "space_run s (p + 1) (if ascii_newline (s ! p) then p + 1 else l) = (q, l')"
      using 1(2) by (subst (asm) space_run.simps) simp
    then have "p + 1 \<le> q \<and> q \<le> length s \<and> (l' = 0 \<or> start < l' \<and> l' \<le> q)"
      using True 1(4,5) by (intro 1(1)) auto
    then show ?thesis by simp
  next
    case False
    then show ?thesis using 1(2-5) by (subst (asm) space_run.simps) auto
  qed
qed

lemma space_end_range:
  assumes "pos < length s"
  shows "pos \<le> space_end s pos \<and> space_end s pos \<le> length s"
proof -
  obtain q l where q: "space_run s pos 0 = (q, l)" by force
  then have "pos \<le> q \<and> q \<le> length s \<and> (l = 0 \<or> pos < l \<and> l \<le> q)"
    using assms by (intro space_run_range [OF q]) simp_all
  then show ?thesis using q by (auto simp: space_end_def)
qed

lemma piece_end_range:
  assumes "pos < length s"
  shows "pos < piece_end s pos \<and> piece_end s pos \<le> length s"
proof -
  have p: "pos \<le> punct_end s p \<and> punct_end s p \<le> length s" if "pos \<le> p" "p \<le> length s" for p
    using run_while_range [of p s joyai_ascii_punct_symbol] run_while_range [of _ s ascii_newline] that
    unfolding punct_end_def by fastforce
  have "pos \<le> piece_rule s pos \<and> piece_rule s pos \<le> length s"
    using assms digits_end_range [of pos s 0] run_while_range [of "pos + 1" s ascii_alpha]
      cjk_range [of "next_utf8_char s pos" s] next_utf8_char_range [OF assms]
      letters_range [of pos s] letters_range [of "pos + 1" s] p [of pos] p [of "pos + 1"]
      space_end_range [OF assms]
    by (simp add: piece_rule_def Let_def)
  then show ?thesis using next_utf8_char_range [OF assms] by (auto simp: piece_end_def Let_def)
qed

section \<open>Tokenizing a text\<close>

function tokenize_from :: "ds4_vocab \<Rightarrow> bytes \<Rightarrow> nat \<Rightarrow> int list \<Rightarrow> int list option" where
  "tokenize_from v s pos out =
     (if pos < length s then
        (case bpe_emit_piece v (take (piece_end s pos - pos) (drop pos s)) out of
           None \<Rightarrow> None
         | Some out \<Rightarrow> tokenize_from v s (piece_end s pos) out)
      else Some out)"
  by pat_completeness auto

termination
  using piece_end_range
  by (relation "measure (\<lambda>(v, s, pos, out). length s - pos)") (auto intro!: diff_less_mono2)

declare tokenize_from.simps [simp del]

definition bpe_tokenize_text :: "ds4_vocab \<Rightarrow> bytes \<Rightarrow> int list \<Rightarrow> int list option" where
  "bpe_tokenize_text v text out = tokenize_from v text 0 out"

text \<open>The pieces themselves: their concatenation is the text.\<close>

function pieces_from :: "bytes \<Rightarrow> nat \<Rightarrow> bytes list" where
  "pieces_from s pos =
     (if pos < length s
      then take (piece_end s pos - pos) (drop pos s) # pieces_from s (piece_end s pos) else [])"
  by pat_completeness auto

termination
  using piece_end_range
  by (relation "measure (\<lambda>(s, pos). length s - pos)") (auto intro!: diff_less_mono2)

declare pieces_from.simps [simp del]

lemma concat_pieces_from: "pos \<le> length s \<Longrightarrow> concat (pieces_from s pos) = drop pos s"
proof (induction s pos rule: pieces_from.induct)
  case (1 s pos)
  show ?case
  proof (cases "pos < length s")
    case True
    then have "concat (pieces_from s (piece_end s pos)) = drop (piece_end s pos) s"
      using 1 piece_end_range [of pos s] by simp
    moreover have "drop (piece_end s pos) s = drop (piece_end s pos - pos) (drop pos s)"
      using True piece_end_range [of pos s] by simp
    ultimately show ?thesis using True by (subst pieces_from.simps) (simp only: if_True concat.simps append_take_drop_id)
  next
    case False
    then show ?thesis using 1(2) by (subst pieces_from.simps) simp
  qed
qed

end
