(* ===== verification/Token_Text.thy ===== *)
theory Token_Text
  imports Pretokenizer
begin

text \<open>
  The text of tokens (\<open>src/ds4.c\<close>, \<open>ds4_token_text\<close>) and what tokenizing does to a text: it
  always returns, its tokens spell the text when the vocabulary is complete, and it never makes a
  control token of a text.
\<close>

section \<open>Showing a token\<close>

definition vocab_token_is_literal_special :: "bytes \<Rightarrow> bool" where
  "vocab_token_is_literal_special s =
     (if length s < length bar then False
      else list_ex (\<lambda>i. take (length bar) (drop i s) = bar) [0..<length s - length bar + 1])"

definition ds4_token_text :: "ds4_vocab \<Rightarrow> int \<Rightarrow> bytes" where
  "ds4_token_text v token =
     (if token < 0 \<or> token \<ge> v_n_vocab v then []
      else let s = v_token v ! nat token in
        if vocab_token_is_literal_special s then s else decode_from s 0)"

section \<open>Well-formed and complete vocabularies\<close>

text \<open>The table maps a string to a token with that string, and the control tokens are there.\<close>

definition tokens_ok :: "ds4_vocab \<Rightarrow> bool" where
  "tokens_ok v \<longleftrightarrow> v_n_vocab v = int (length (v_token v))
     \<and> (\<forall>s t. tab_map (v_token_to_id v) s = Some t \<longrightarrow>
          0 \<le> t \<and> t < v_n_vocab v \<and> v_token v ! nat t = s)"

lemma tokens_okD:
  "tokens_ok v \<Longrightarrow> tab_map (v_token_to_id v) s = Some t \<Longrightarrow>
    0 \<le> t \<and> t < v_n_vocab v \<and> v_token v ! nat t = s"
  unfolding tokens_ok_def by blast

definition vocab_ok :: "ds4_vocab \<Rightarrow> bool" where
  "vocab_ok v \<longleftrightarrow> table_ok (v_token_to_id v) \<and> table_ok (v_merge_rank v) \<and> tokens_ok v
     \<and> tab_map (v_token_to_id v) begin_of_sentence = Some (v_bos_id v)
     \<and> tab_map (v_token_to_id v) end_of_sentence = Some (v_eos_id v)
     \<and> tab_map (v_token_to_id v) user_mark = Some (v_user_id v)
     \<and> tab_map (v_token_to_id v) assistant_mark = Some (v_assistant_id v)
     \<and> tab_map (v_token_to_id v) ''<think>'' = Some (v_think_start_id v)
     \<and> tab_map (v_token_to_id v) ''</think>'' = Some (v_think_end_id v)
     \<and> tab_map (v_token_to_id v) dsml_token_mark = Some (v_dsml_id v)"

text \<open>A byte-level vocabulary has a token for every byte, and one for every pair it merges.\<close>

definition vocab_complete :: "ds4_vocab \<Rightarrow> bool" where
  "vocab_complete v \<longleftrightarrow> (\<forall>c. tab_map (v_token_to_id v) (encode_byte c) \<noteq> None)
     \<and> (\<forall>a b. tab_map (v_merge_rank v) (a @ '' '' @ b) \<noteq> None \<longrightarrow>
          tab_map (v_token_to_id v) (a @ b) \<noteq> None)"

section \<open>Encoded text\<close>

lemma byte_encode_append: "byte_encode (a @ b) = byte_encode a @ byte_encode b"
  by (simp add: byte_encode_def)

lemma split_symbols_encode: "split_symbols (byte_encode t) = map encode_byte t"
proof (induction t)
  case Nil
  then show ?case by (subst split_symbols.simps) (simp add: byte_encode_def)
next
  case (Cons c t)
  have e: "byte_encode (c # t) = encode_byte c @ byte_encode t" by (simp add: byte_encode_def)
  have "hd (encode_byte c @ byte_encode t) = hd (encode_byte c)"
    using encode_byte_first(2) [of c] by simp
  then show ?case
    unfolding e using encode_byte_first [of c] Cons
    by (subst split_symbols.simps) (simp add: Let_def)
qed

text \<open>The bar never occurs in encoded text: none of its bytes is the first byte of the bar.\<close>

lemma encode_byte_bytes: "c \<in> set (encode_byte b) \<Longrightarrow> c \<noteq> CHR 0xef"
proof -
  assume c: "c \<in> set (encode_byte b)"
  have small: "char_of n \<noteq> CHR 0xef" if "n < 239" for n :: nat
  proof
    assume "char_of n = CHR 0xef"
    then have "(of_char (char_of n) :: nat) = of_char CHR 0xef" by (rule arg_cong)
    then show False using that by simp
  qed
  have "gpt2_byte_to_codepoint (of_char b) < 324" using codepoint_bound nat_of_char_less_256 by blast
  then show "c \<noteq> CHR 0xef"
  proof (cases rule: utf8_put_cp_cases)
    case one
    then show ?thesis using c small by (simp add: encode_byte_def)
  next
    case (two q r)
    then show ?thesis using c small [of "192 + q"] small [of "128 + r"] by (auto simp: encode_byte_def)
  qed
qed

lemma encode_no_bar: "CHR 0xef \<notin> set (byte_encode t)"
  using encode_byte_bytes by (auto simp: byte_encode_def)

lemma special_has_bar: "vocab_token_is_literal_special s \<Longrightarrow> CHR 0xef \<in> set s \<and> 3 \<le> length s"
proof -
  assume sp: "vocab_token_is_literal_special s"
  then obtain i where "take (length bar) (drop i s) = bar"
    unfolding vocab_token_is_literal_special_def list_ex_iff by (metis (no_types, lifting))
  then have "set bar \<subseteq> set s" by (metis set_drop_subset set_take_subset subset_trans)
  then show ?thesis using sp by (auto simp: bar_def vocab_token_is_literal_special_def split: if_splits)
qed

lemma encode_not_special: "\<not> vocab_token_is_literal_special (byte_encode t)"
  using special_has_bar encode_no_bar by blast

section \<open>Merging\<close>

lemma bpe_rank_abs:
  "table_ok (v_merge_rank v) \<Longrightarrow> bpe_rank v a b = Some (case tab_map (v_merge_rank v) (a @ '' '' @ b) of
     Some rank \<Rightarrow> rank | None \<Rightarrow> -1)"
  by (simp add: bpe_rank_def st.get_abs)

text \<open>The scan returns, and the pair it finds is in the merge table.\<close>

lemma best_pair_abs:
  assumes ok: "table_ok (v_merge_rank v)"
  shows "\<exists>bi br. best_pair v i syms best = Some (bi, br)
    \<and> ((bi, br) = best \<or> i \<le> bi \<and> bi + 1 < i + int (length syms)
        \<and> tab_map (v_merge_rank v) (syms ! nat (bi - i) @ '' '' @ syms ! nat (bi - i + 1)) \<noteq> None)"
proof (induction syms arbitrary: i best)
  case (Cons a syms)
  show ?case
  proof (cases syms)
    case Nil
    then show ?thesis by (cases best) simp
  next
    case (Cons b rest)
    define r where "r = (case tab_map (v_merge_rank v) (a @ '' '' @ b) of Some rank \<Rightarrow> rank | None \<Rightarrow> -1)"
    have rank: "bpe_rank v a b = Some r" by (simp add: bpe_rank_abs [OF ok] r_def)
    define nb where "nb = (if r \<ge> 0 \<and> r < snd best then (i, r) else best)"
    obtain bi br where h: "best_pair v (i + 1) (b # rest) nb = Some (bi, br)"
      "(bi, br) = nb \<or> i + 1 \<le> bi \<and> bi + 1 < i + 1 + int (length (b # rest))
        \<and> tab_map (v_merge_rank v) ((b # rest) ! nat (bi - (i + 1)) @ '' '' @ (b # rest) ! nat (bi - (i + 1) + 1)) \<noteq> None"
      using Cons.IH [of "i + 1" nb] Cons by blast
    have step: "best_pair v i (a # syms) best = Some (bi, br)"
      using h(1) Cons rank by (simp add: nb_def)
    from h(2) show ?thesis
    proof
      assume n: "(bi, br) = nb"
      show ?thesis
      proof (cases "r \<ge> 0 \<and> r < snd best")
        case True
        then have "tab_map (v_merge_rank v) (a @ '' '' @ b) \<noteq> None" by (auto simp: r_def split: option.splits)
        then show ?thesis using True n step Cons by (simp add: nb_def)
      next
        case False
        then have "(bi, br) = best" using n by (simp only: nb_def if_False)
        then show ?thesis using step by blast
      qed
    next
      assume n: "i + 1 \<le> bi \<and> bi + 1 < i + 1 + int (length (b # rest))
        \<and> tab_map (v_merge_rank v) ((b # rest) ! nat (bi - (i + 1)) @ '' '' @ (b # rest) ! nat (bi - (i + 1) + 1)) \<noteq> None"
      have "nat (bi - i) = Suc (nat (bi - (i + 1)))" "nat (bi - i + 1) = Suc (nat (bi - (i + 1) + 1))"
        using n by linarith+
      then show ?thesis using n step Cons by simp
    qed
  qed
next
  case Nil
  then show ?case by (cases best) simp
qed

text \<open>Merging keeps the text of the symbols, and any property of the symbols that a merge keeps.\<close>

lemma concat_merge_at:
  assumes "Suc i < length syms"
  shows "concat (merge_at i syms) = concat syms"
proof -
  have "syms = take i syms @ syms ! i # syms ! Suc i # drop (Suc (Suc i)) syms"
    using assms by (simp add: Cons_nth_drop_Suc Suc_lessD)
  then have "concat syms = concat (take i syms @ syms ! i # syms ! Suc i # drop (Suc (Suc i)) syms)"
    by (rule arg_cong)
  then show ?thesis by (simp add: merge_at_def)
qed

lemma merge_loop_abs:
  assumes ok: "table_ok (v_merge_rank v)"
    and step: "\<And>a b. P a \<Longrightarrow> P b \<Longrightarrow> tab_map (v_merge_rank v) (a @ '' '' @ b) \<noteq> None \<Longrightarrow> P (a @ b)"
  shows "\<forall>s \<in> set syms. P s \<Longrightarrow>
    \<exists>syms'. merge_loop v syms = Some syms' \<and> concat syms' = concat syms \<and> (\<forall>s \<in> set syms'. P s)"
proof (induction "length syms" arbitrary: syms rule: less_induct)
  case less
  obtain bi br where b: "best_pair v 0 syms (-1, INT32_MAX) = Some (bi, br)"
    "(bi, br) = (-1, INT32_MAX) \<or> 0 \<le> bi \<and> bi + 1 < 0 + int (length syms)
      \<and> tab_map (v_merge_rank v) (syms ! nat (bi - 0) @ '' '' @ syms ! nat (bi - 0 + 1)) \<noteq> None"
    using best_pair_abs [OF ok] by blast
  show ?case
  proof (cases "bi < 0")
    case True
    then show ?thesis using less.prems b(1) by (subst merge_loop.simps) simp
  next
    case False
    let ?i = "nat bi"
    have i: "Suc ?i < length syms" and r: "tab_map (v_merge_rank v) (syms ! ?i @ '' '' @ syms ! Suc ?i) \<noteq> None"
      using b(2) False nat_add_distrib [of bi 1] by auto
    have "P (syms ! ?i)" "P (syms ! Suc ?i)" using less.prems i by simp_all
    then have "P (syms ! ?i @ syms ! Suc ?i)" using step r by blast
    then have "\<forall>s \<in> set (merge_at ?i syms). P s"
      using less.prems by (auto simp: merge_at_def dest: in_set_takeD in_set_dropD)
    moreover have "length (merge_at ?i syms) < length syms" using i by (simp add: merge_at_def)
    ultimately obtain syms' where "merge_loop v (merge_at ?i syms) = Some syms'"
      "concat syms' = concat (merge_at ?i syms)" "\<forall>s \<in> set syms'. P s"
      using less.hyps by blast
    then show ?thesis using b(1) False concat_merge_at [OF i] by (subst merge_loop.simps) simp
  qed
qed

section \<open>Emitting\<close>

text \<open>The strings of the tokens that are made of a text: encoded text or a single byte.\<close>

definition plain_token :: "ds4_vocab \<Rightarrow> int \<Rightarrow> bool" where
  "plain_token v t \<longleftrightarrow> 0 \<le> t \<and> t < v_n_vocab v \<and> \<not> vocab_token_is_literal_special (v_token v ! nat t)"

lemma emit_bytes_abs:
  assumes "vocab_ok v"
  shows "\<exists>toks. (\<forall>out. emit_bytes v s out = Some (out @ toks)) \<and> (\<forall>t \<in> set toks. plain_token v t)"
proof (induction s)
  case (Cons c s)
  have ok: "table_ok (v_token_to_id v)" "tokens_ok v" using assms by (simp_all add: vocab_ok_def)
  obtain toks where h: "\<And>out. emit_bytes v s out = Some (out @ toks)" "\<forall>t \<in> set toks. plain_token v t"
    using Cons by blast
  show ?case
  proof (cases "tab_map (v_token_to_id v) [c]")
    case None
    then show ?thesis using h by (intro exI [of _ toks]) (simp add: st.get_abs [OF ok(1)])
  next
    case (Some t)
    have "\<not> vocab_token_is_literal_special [c]" using special_has_bar by force
    then have "plain_token v t" using Some ok(2) by (auto dest: tokens_okD simp: plain_token_def)
    then show ?thesis using Some h by (intro exI [of _ "t # toks"]) (simp add: st.get_abs [OF ok(1)])
  qed
qed simp

lemma emit_symbols_abs:
  assumes "vocab_ok v"
  shows "\<forall>s \<in> set syms. \<exists>w. s = byte_encode w \<Longrightarrow>
    \<exists>toks. (\<forall>out. emit_symbols v syms out = Some (out @ toks)) \<and> (\<forall>t \<in> set toks. plain_token v t)
      \<and> ((\<forall>s \<in> set syms. tab_map (v_token_to_id v) s \<noteq> None)
           \<longrightarrow> byte_encode (concat (map (ds4_token_text v) toks)) = concat syms)"
proof (induction syms)
  case Nil
  then show ?case by (simp add: byte_encode_def)
next
  case (Cons s syms)
  have ok: "table_ok (v_token_to_id v)" "tokens_ok v" using assms by (simp_all add: vocab_ok_def)
  obtain w where w: "s = byte_encode w" using Cons.prems by auto
  obtain toks where h: "\<And>out. emit_symbols v syms out = Some (out @ toks)" "\<forall>t \<in> set toks. plain_token v t"
    "(\<forall>s \<in> set syms. tab_map (v_token_to_id v) s \<noteq> None)
      \<longrightarrow> byte_encode (concat (map (ds4_token_text v) toks)) = concat syms"
    using Cons by auto
  show ?case
  proof (cases "tab_map (v_token_to_id v) s")
    case None
    obtain ts where ts: "\<And>out. emit_bytes v s out = Some (out @ ts)" "\<forall>t \<in> set ts. plain_token v t"
      using emit_bytes_abs [OF assms] by blast
    have "emit_symbols v (s # syms) out = Some (out @ ts @ toks)" for out
      using None h(1) ts(1) by (simp add: st.get_abs [OF ok(1)])
    then show ?thesis using None h(2) ts(2) by (intro exI [of _ "ts @ toks"]) auto
  next
    case (Some t)
    have t: "0 \<le> t" "t < v_n_vocab v" "v_token v ! nat t = byte_encode w"
      using tokens_okD [OF ok(2) Some] w by simp_all
    then have "ds4_token_text v t = w" "plain_token v t"
      using encode_not_special byte_round_trip by (simp_all add: ds4_token_text_def plain_token_def)
    moreover have "emit_symbols v (s # syms) out = Some (out @ t # toks)" for out
      using Some h(1) by (simp add: st.get_abs [OF ok(1)])
    ultimately show ?thesis using h(2,3) w by (intro exI [of _ "t # toks"]) (auto simp: byte_encode_append)
  qed
qed

lemma byte_encode_inj: "byte_encode a = byte_encode b \<Longrightarrow> a = b"
  by (metis byte_round_trip)

lemma emit_piece_abs:
  assumes "vocab_ok v"
  shows "\<exists>toks. (\<forall>out. bpe_emit_piece v p out = Some (out @ toks)) \<and> (\<forall>t \<in> set toks. plain_token v t)
    \<and> (vocab_complete v \<longrightarrow> concat (map (ds4_token_text v) toks) = p)"
proof -
  let ?enc = "\<lambda>s. \<exists>w. s = byte_encode w"
  let ?P = "\<lambda>s. ?enc s \<and> (vocab_complete v \<longrightarrow> tab_map (v_token_to_id v) s \<noteq> None)"
  have one: "?P s" if mem: "s \<in> set (split_symbols (byte_encode p))" for s
  proof -
    obtain c where "s = encode_byte c" using mem unfolding split_symbols_encode by auto
    then have "s = byte_encode [c]" by (simp add: byte_encode_def)
    moreover have "vocab_complete v \<longrightarrow> tab_map (v_token_to_id v) s \<noteq> None"
      using \<open>s = encode_byte c\<close> by (simp add: vocab_complete_def)
    ultimately show ?thesis by blast
  qed
  have step: "?P (a @ b)" if "?P a" "?P b" "tab_map (v_merge_rank v) (a @ '' '' @ b) \<noteq> None" for a b
    using that by (auto simp: vocab_complete_def simp flip: byte_encode_append)
  have ok: "table_ok (v_merge_rank v)" using assms by (simp add: vocab_ok_def)
  obtain syms where m: "merge_loop v (split_symbols (byte_encode p)) = Some syms"
    "concat syms = concat (split_symbols (byte_encode p))" "\<forall>s \<in> set syms. ?P s"
    using merge_loop_abs [OF ok, of ?P, OF step] one by blast
  obtain toks where t: "\<And>out. emit_symbols v syms out = Some (out @ toks)" "\<forall>t \<in> set toks. plain_token v t"
    "(\<forall>s \<in> set syms. tab_map (v_token_to_id v) s \<noteq> None)
      \<longrightarrow> byte_encode (concat (map (ds4_token_text v) toks)) = concat syms"
    using emit_symbols_abs [OF assms, of syms] m(3) by blast
  have "concat syms = byte_encode p" using m(2) by (simp only: split_symbols_encode) (simp only: byte_encode_def)
  then have "vocab_complete v \<longrightarrow> concat (map (ds4_token_text v) toks) = p"
    using t(3) m(3) byte_encode_inj by metis
  then show ?thesis using m(1) t(1,2) by (intro exI [of _ toks]) (simp add: bpe_emit_piece_def)
qed

section \<open>A whole text\<close>

lemma tokenize_from_abs:
  assumes "vocab_ok v"
  shows "pos \<le> length s \<Longrightarrow> \<exists>toks. (\<forall>out. tokenize_from v s pos out = Some (out @ toks))
    \<and> (\<forall>t \<in> set toks. plain_token v t)
    \<and> (vocab_complete v \<longrightarrow> concat (map (ds4_token_text v) toks) = drop pos s)"
proof (induction s pos rule: pieces_from.induct)
  case (1 s pos)
  show ?case
  proof (cases "pos < length s")
    case False
    then show ?thesis using 1(2) by (subst tokenize_from.simps) (intro exI [of _ "[]"], simp)
  next
    case True
    let ?e = "piece_end s pos"
    let ?p = "take (?e - pos) (drop pos s)"
    have e: "pos < ?e" "?e \<le> length s" using piece_end_range [OF True] by simp_all
    obtain ts where ts: "\<And>out. bpe_emit_piece v ?p out = Some (out @ ts)" "\<forall>t \<in> set ts. plain_token v t"
      "vocab_complete v \<longrightarrow> concat (map (ds4_token_text v) ts) = ?p"
      using emit_piece_abs [OF assms] by blast
    obtain toks where r: "\<And>out. tokenize_from v s ?e out = Some (out @ toks)" "\<forall>t \<in> set toks. plain_token v t"
      "vocab_complete v \<longrightarrow> concat (map (ds4_token_text v) toks) = drop ?e s"
      using 1(1) [OF True] e by blast
    have "?p @ drop ?e s = drop pos s"
      using e append_take_drop_id [of "?e - pos" "drop pos s"] by simp
    then show ?thesis
      using True ts r by (intro exI [of _ "ts @ toks"]) (subst tokenize_from.simps, auto)
  qed
qed

lemma tokenize_text_abs:
  assumes "vocab_ok v"
  obtains toks where "\<And>out. bpe_tokenize_text v s out = Some (out @ toks)"
    "\<forall>t \<in> set toks. plain_token v t"
    "vocab_complete v \<Longrightarrow> concat (map (ds4_token_text v) toks) = s"
  using tokenize_from_abs [OF assms, of 0 s] unfolding bpe_tokenize_text_def by auto

end
