(* ===== verification/Gguf_Safe.thy ===== *)
theory Gguf_Safe
  imports Gguf_Model
begin

text \<open>
  What opening a model file establishes: the cursor never leaves the mapping, every metadata
  value that was skipped can be read back, and every tensor with data lies inside the file.
\<close>

section \<open>Readers on the rest of the mapping\<close>

lemma cursor_error_ok [simp]: "cur_ok (cursor_error c m) = cur_ok c"
  by (simp add: cur_ok_def)

lemma cursor_u32_eq:
  "cur_ok c \<Longrightarrow> cursor_u32 c = (if length (cur_rest c) < 4
     then (None, cursor_error c ''truncated GGUF file'')
     else (Some (le_get32 (take 4 (cur_rest c))), advance c 4))"
  by (simp add: cursor_u32_def cursor_read_eq)

lemma cursor_u64_eq:
  "cur_ok c \<Longrightarrow> cursor_u64 c = (if length (cur_rest c) < 8
     then (None, cursor_error c ''truncated GGUF file'')
     else (Some (le_get64 (take 8 (cur_rest c))), advance c 8))"
  by (simp add: cursor_u64_def cursor_read_eq)

lemma cursor_string_eq:
  assumes "cur_ok c"
  shows "cursor_string c = (if length (cur_rest c) < 8
      then (None, cursor_error c ''truncated GGUF file'')
      else let len = le_get64 (take 8 (cur_rest c)); c8 = advance c 8 in
        if length (cur_rest c8) < unat len then (None, cursor_error c8 ''truncated GGUF file'')
        else (Some (take (unat len) (cur_rest c8)), advance c8 len))"
  using assms advance_ok [of c 8]
  by (auto simp: cursor_string_def cursor_u64_eq cursor_has_eq Let_def)
     (simp_all add: cur_rest_def advance_def)

section \<open>The cursor only moves forward inside the mapping\<close>

definition cur_le :: "ds4_cursor \<Rightarrow> ds4_cursor \<Rightarrow> bool" where
  "cur_le c c' \<longleftrightarrow> cur_ok c' \<and> cur_base c' = cur_base c \<and> cur_size c' = cur_size c
     \<and> unat (cur_pos c) \<le> unat (cur_pos c')"

lemma cur_le_refl [simp]: "cur_le c c \<longleftrightarrow> cur_ok c"
  by (simp add: cur_le_def)

lemma cur_le_trans: "cur_le a b \<Longrightarrow> cur_le b c \<Longrightarrow> cur_le a c"
  by (auto simp: cur_le_def)

lemma cur_le_ok: "cur_le c c' \<Longrightarrow> cur_ok c'"
  by (simp add: cur_le_def)

lemma cur_le_error [simp]: "cur_le c (cursor_error c' m) \<longleftrightarrow> cur_le c c'"
  by (simp add: cur_le_def)

lemma cur_le_advance:
  "cur_ok c \<Longrightarrow> unat n \<le> length (cur_rest c) \<Longrightarrow> cur_le c (advance c n)"
  by (simp add: cur_le_def advance_ok unat_advance)

lemma cursor_u32_le: "cur_ok c \<Longrightarrow> cursor_u32 c = (r, c') \<Longrightarrow> cur_le c c'"
  by (auto simp: cursor_u32_eq intro: cur_le_advance split: if_splits)

lemma cursor_u64_le: "cur_ok c \<Longrightarrow> cursor_u64 c = (r, c') \<Longrightarrow> cur_le c c'"
  by (auto simp: cursor_u64_eq intro: cur_le_advance split: if_splits)

lemma cursor_skip_le: "cur_ok c \<Longrightarrow> cursor_skip c n = (r, c') \<Longrightarrow> cur_le c c'"
  by (auto simp: cursor_skip_eq intro: cur_le_advance split: if_splits)

lemma cursor_string_le:
  assumes "cur_ok c" "cursor_string c = (r, c')"
  shows "cur_le c c'"
proof (cases "length (cur_rest c) < 8")
  case True
  with assms show ?thesis by (auto simp: cursor_string_eq)
next
  case False
  then have le: "cur_le c (advance c 8)" using assms(1) by (intro cur_le_advance) simp_all
  then show ?thesis
    using assms False cur_le_advance [OF cur_le_ok [OF le]]
    by (auto simp: cursor_string_eq Let_def not_less split: if_splits intro: cur_le_trans)
qed

lemmas cursor_le = cursor_u32_le cursor_u64_le cursor_skip_le cursor_string_le

lemma skip_le:
  shows "cur_ok c \<Longrightarrow> skip_value c ty d = (b, c') \<Longrightarrow> cur_le c c'"
    and "cur_ok c \<Longrightarrow> skip_items c ty d n = (b, c') \<Longrightarrow> cur_le c c'"
proof (induction c ty d and c ty d n arbitrary: b c' and b c' rule: skip_value_skip_items.induct)
  case (1 c ty depth)
  show ?case
  proof (cases "\<not> depth > 8 \<and> scalar_value_size ty = 0 \<and> ty \<noteq> GGUF_VALUE_STRING \<and> ty = GGUF_VALUE_ARRAY")
    case False
    then show ?thesis using 1(2,3)
      by (auto simp: skip_value.simps [of c] split: if_splits prod.splits intro: cursor_le)
  next
    case True
    obtain r1 c1 where u: "cursor_u32 c = (r1, c1)" by force
    have le1: "cur_le c c1" using cursor_u32_le [OF 1(2) u] .
    obtain r2 c2 where v: "cursor_u64 c1 = (r2, c2)" by force
    have le2: "cur_le c c2" using cursor_u64_le [OF cur_le_ok [OF le1] v] le1 cur_le_trans by blast
    show ?thesis
    proof (cases "r1 = None \<or> r2 = None")
      case True
      then show ?thesis using 1(3) \<open>\<not> depth > 8 \<and> _\<close> u v le1 le2
        by (auto simp: skip_value.simps [of c] split: option.splits)
    next
      case False
      then obtain ity len where r: "r1 = Some ity" "r2 = Some len" by auto
      have items: "cur_le c2 c'" if "skip_items c2 ity (depth + 1) (unat len) = (b, c')"
        "scalar_value_size ity = 0"
        using 1(1) [where b = b and c' = c', OF _ _ _ _ _ refl _ refl refl] True u v r that cur_le_ok [OF le2] by auto
      show ?thesis
        using 1(3) True u v r le2 items cursor_skip_le [OF cur_le_ok [OF le2]]
        by (auto simp: skip_value.simps [of c] Let_def split: if_splits intro: cur_le_trans)
    qed
  qed
next
  case (2 c ty depth)
  then show ?case by simp
next
  case (3 c ty depth n)
  then show ?case by (auto split: prod.splits bool.splits intro: cur_le_trans cur_le_ok)
qed

text \<open>A value that is skipped leaves no error behind, and a value of no fixed size takes at
  least 8 bytes: its length field.\<close>

lemma cursor_u_keeps_error:
  "cur_ok c \<Longrightarrow> cursor_u32 c = (Some v, c') \<Longrightarrow> cur_error c' = cur_error c"
  "cur_ok c \<Longrightarrow> cursor_u64 c = (Some w, c') \<Longrightarrow> cur_error c' = cur_error c"
  "cur_ok c \<Longrightarrow> cursor_skip c n = (True, c') \<Longrightarrow> cur_error c' = cur_error c"
  by (auto simp: cursor_u32_eq cursor_u64_eq cursor_skip_eq split: if_splits)

lemma cursor_string_cases:
  assumes "cur_ok c" "cursor_string c = (Some s, c')"
  obtains len where "8 \<le> length (cur_rest c)" "unat len \<le> length (cur_rest (advance c 8))"
    "s = take (unat len) (cur_rest (advance c 8))" "c' = advance (advance c 8) len"
    "len = le_get64 (take 8 (cur_rest c))"
proof -
  have "8 \<le> length (cur_rest c)"
    using assms(2) by (cases "length (cur_rest c) < 8") (simp_all add: cursor_string_eq [OF assms(1)])
  then show ?thesis
    using assms(2) that by (simp add: cursor_string_eq [OF assms(1)] Let_def split: if_splits)
qed

lemma cursor_string_keeps_error:
  "cur_ok c \<Longrightarrow> cursor_string c = (Some s, c') \<Longrightarrow> cur_error c' = cur_error c"
  by (erule (1) cursor_string_cases) simp

lemmas cursor_keeps_error = cursor_u_keeps_error cursor_string_keeps_error

text \<open>On success a string moves the cursor by the 8 bytes of its length and the string.\<close>

lemma cursor_string_pos:
  assumes "cur_ok c" "cursor_string c = (Some s, c')"
  shows "unat (cur_pos c') = unat (cur_pos c) + 8 + length s"
  using assms
proof (rule cursor_string_cases)
  fix len
  assume a: "8 \<le> length (cur_rest c)" "unat len \<le> length (cur_rest (advance c 8))"
    "s = take (unat len) (cur_rest (advance c 8))" "c' = advance (advance c 8) len"
  have "cur_ok (advance c 8)" using advance_ok [OF assms(1), of 8] a(1) by simp
  then show ?thesis
    using unat_advance [OF assms(1), of 8] unat_advance [of "advance c 8" len] a by simp
qed

lemma cursor_pos:
  "cur_ok c \<Longrightarrow> cursor_u32 c = (Some v, c') \<Longrightarrow> unat (cur_pos c') = unat (cur_pos c) + 4"
  "cur_ok c \<Longrightarrow> cursor_u64 c = (Some w, c') \<Longrightarrow> unat (cur_pos c') = unat (cur_pos c) + 8"
  by (auto simp: cursor_u32_eq cursor_u64_eq unat_advance split: if_splits)

lemma value_type_simps [simp]:
  "GGUF_VALUE_ARRAY \<noteq> GGUF_VALUE_STRING" "GGUF_VALUE_STRING \<noteq> GGUF_VALUE_ARRAY"
  "scalar_value_size GGUF_VALUE_STRING = 0" "scalar_value_size GGUF_VALUE_ARRAY = 0"
  "scalar_value_size GGUF_VALUE_UINT32 = 4" "scalar_value_size GGUF_VALUE_UINT64 = 8"
  "scalar_value_size GGUF_VALUE_BOOL = 1"
  by (simp_all add: GGUF_VALUE_ARRAY_def GGUF_VALUE_STRING_def scalar_value_size_def
      GGUF_VALUE_UINT32_def GGUF_VALUE_UINT64_def GGUF_VALUE_BOOL_def)

lemma skip_value_cases:
  assumes "skip_value c ty d = (True, c')"
  obtains
    (scalar) "scalar_value_size ty \<noteq> 0" "cursor_skip c (scalar_value_size ty) = (True, c')"
  | (string) s where "scalar_value_size ty = 0" "ty = GGUF_VALUE_STRING" "cursor_string c = (Some s, c')"
  | (packed) ity len c1 c2 where "scalar_value_size ty = 0" "ty = GGUF_VALUE_ARRAY"
      "cursor_u32 c = (Some ity, c1)" "cursor_u64 c1 = (Some len, c2)"
      "scalar_value_size ity \<noteq> 0" "len \<le> (- 1) div scalar_value_size ity"
      "cursor_skip c2 (len * scalar_value_size ity) = (True, c')"
  | (items) ity len c1 c2 where "scalar_value_size ty = 0" "ty = GGUF_VALUE_ARRAY" "\<not> d > 8"
      "cursor_u32 c = (Some ity, c1)" "cursor_u64 c1 = (Some len, c2)"
      "scalar_value_size ity = 0" "skip_items c2 ity (d + 1) (unat len) = (True, c')"
proof -
  have d: "\<not> d > 8" using assms by (auto simp: skip_value.simps [of c])
  show ?thesis
  proof (cases "scalar_value_size ty \<noteq> 0")
    case True
    then show ?thesis using assms d scalar by (simp add: skip_value.simps [of c])
  next
    case False
    then have z: "scalar_value_size ty = 0" by simp
    show ?thesis
    proof (cases "ty = GGUF_VALUE_STRING")
      case True
      then show ?thesis using assms d z string by (auto simp: skip_value.simps [of c] split: prod.splits)
    next
      case False
      then have ty: "ty = GGUF_VALUE_ARRAY"
        using assms d z by (simp add: skip_value.simps [of c] split: if_splits)
      obtain r1 c1 where u: "cursor_u32 c = (r1, c1)" by force
      obtain r2 c2 where v: "cursor_u64 c1 = (r2, c2)" by force
      have eq: "(case r1 of None \<Rightarrow> (False, c1) | Some ity \<Rightarrow> case r2 of None \<Rightarrow> (False, c2) | Some len \<Rightarrow>
          if scalar_value_size ity \<noteq> 0
          then if len > (- 1) div scalar_value_size ity
            then (False, cursor_error c2 ''metadata array is too large'')
            else cursor_skip c2 (len * scalar_value_size ity)
          else skip_items c2 ity (d + 1) (unat len)) = (True, c')"
        using assms d z ty False by (simp add: skip_value.simps [of c] u v Let_def cong: option.case_cong)
      then obtain ity len where r: "r1 = Some ity" "r2 = Some len" by (simp split: option.splits)
      show ?thesis
      proof (cases "scalar_value_size ity = 0")
        case True
        then show ?thesis using items [OF z ty d] eq u v r by simp
      next
        case False
        then show ?thesis using packed [OF z ty] eq u v r by (simp split: if_splits)
      qed
    qed
  qed
qed

lemma skip_keeps_error:
  shows "cur_ok c \<Longrightarrow> skip_value c ty d = (True, c') \<Longrightarrow> cur_error c' = cur_error c"
    and "cur_ok c \<Longrightarrow> skip_items c ty d n = (True, c') \<Longrightarrow> cur_error c' = cur_error c"
proof (induction c ty d and c ty d n arbitrary: c' and c' rule: skip_value_skip_items.induct)
  case (1 c ty depth)
  from 1(3) show ?case
  proof (cases rule: skip_value_cases)
    case scalar
    then show ?thesis using cursor_keeps_error(3) 1(2) by blast
  next
    case string
    then show ?thesis using cursor_keeps_error(4) 1(2) by blast
  next
    case (packed ity len c1 c2)
    have ok: "cur_ok c1" "cur_ok c2"
      using cursor_u32_le [OF 1(2) packed(3)] cursor_u64_le [OF _ packed(4)] by (auto dest: cur_le_ok)
    show ?thesis
      using cursor_keeps_error(1) [OF 1(2) packed(3)] cursor_keeps_error(2) [OF ok(1) packed(4)]
        cursor_keeps_error(3) [OF ok(2) packed(7)] by simp
  next
    case (items ity len c1 c2)
    have ok: "cur_ok c1" "cur_ok c2"
      using cursor_u32_le [OF 1(2) items(4)] cursor_u64_le [OF _ items(5)] by (auto dest: cur_le_ok)
    have "cur_error c' = cur_error c2"
      using 1(1) [where c' = c', OF _ _ _ _ _ refl _ refl refl] items ok by auto
    then show ?thesis
      using cursor_keeps_error(1) [OF 1(2) items(4)] cursor_keeps_error(2) [OF ok(1) items(5)] by simp
  qed
next
  case (2 c ty depth)
  then show ?case by simp
next
  case (3 c ty depth n)
  obtain c1 where s: "skip_value c ty depth = (True, c1)" "skip_items c1 ty depth n = (True, c')"
    using 3(4) by (simp split: prod.splits bool.splits)
  have "cur_ok c1" using cur_le_ok [OF skip_le(1) [OF 3(3) s(1)]] .
  then show ?case using 3(1) [OF 3(3) s(1)] 3(2) [OF s(1) [symmetric] refl _ s(2)] by simp
qed

lemma skip_value_pos:
  assumes "cur_ok c" "skip_value c ty d = (True, c')" "scalar_value_size ty = 0"
  shows "unat (cur_pos c) + 8 \<le> unat (cur_pos c')"
  using assms(2)
proof (cases rule: skip_value_cases)
  case scalar
  then show ?thesis using assms(3) by simp
next
  case (string s)
  then show ?thesis using cursor_string_pos [OF assms(1)] by fastforce
next
  case (packed ity len c1 c2)
  have ok: "cur_ok c1" "cur_ok c2"
    using cursor_u32_le [OF assms(1) packed(3)] cursor_u64_le [OF _ packed(4)] by (auto dest: cur_le_ok)
  show ?thesis
    using cursor_pos(1) [OF assms(1) packed(3)] cursor_pos(2) [OF ok(1) packed(4)]
      cursor_skip_le [OF ok(2) packed(7)] by (simp add: cur_le_def)
next
  case (items ity len c1 c2)
  have ok: "cur_ok c1" "cur_ok c2"
    using cursor_u32_le [OF assms(1) items(4)] cursor_u64_le [OF _ items(5)] by (auto dest: cur_le_ok)
  show ?thesis
    using cursor_pos(1) [OF assms(1) items(4)] cursor_pos(2) [OF ok(1) items(5)]
      skip_le(2) [OF ok(2) items(7)] by (simp add: cur_le_def)
qed

lemma skip_items_pos:
  "cur_ok c \<Longrightarrow> skip_items c ty d n = (True, c') \<Longrightarrow> scalar_value_size ty = 0
    \<Longrightarrow> unat (cur_pos c) + 8 * n \<le> unat (cur_pos c')"
proof (induction n arbitrary: c)
  case (Suc n)
  then obtain c1 where s: "skip_value c ty d = (True, c1)"
    by (auto split: prod.splits bool.splits)
  have "unat (cur_pos c1) + 8 * n \<le> unat (cur_pos c')"
    using Suc s skip_le(1) [OF Suc.prems(1) s] by (auto dest: cur_le_ok)
  then show ?case using skip_value_pos [OF Suc.prems(1) s Suc.prems(3)] by simp
qed simp

section \<open>Well-formed models\<close>

definition kv_ok :: "ds4_model \<Rightarrow> ds4_kv \<Rightarrow> bool" where
  "kv_ok m kv \<longleftrightarrow> kv_value_pos kv \<le> m_size m
     \<and> fst (skip_value (cursor_at m (kv_value_pos kv)) (kv_type kv) 0)"

text \<open>The element count is the exact product of the dimensions, and the data of a tensor, when
  it has a size, lies between the start of the tensor data and the end of the file.\<close>

definition tensor_ok :: "ds4_model \<Rightarrow> ds4_tensor \<Rightarrow> bool" where
  "tensor_ok m t \<longleftrightarrow>
     1 \<le> unat (t_ndim t) \<and> unat (t_ndim t) \<le> 8 \<and> length (t_dim t) = 8
     \<and> unat (t_elements t) = prod_list (map unat (take (unat (t_ndim t)) (t_dim t)))
     \<and> t_bytes t = (case tensor_nbytes (t_type t) (t_elements t) of Some n \<Rightarrow> n | None \<Rightarrow> 0)
     \<and> unat (t_abs_offset t) = unat (m_tensor_data_pos m) + unat (t_rel_offset t)
     \<and> (t_bytes t \<noteq> 0 \<longrightarrow> unat (t_abs_offset t) + unat (t_bytes t) \<le> length (m_map m))"

definition model_ok :: "ds4_model \<Rightarrow> bool" where
  "model_ok m \<longleftrightarrow>
     unat (m_size m) = length (m_map m)
     \<and> length (m_kv m) = unat (m_n_kv m) \<and> length (m_tensors m) = unat (m_n_tensors m)
     \<and> m_alignment m \<noteq> 0 \<and> unat (m_alignment m) dvd unat (m_tensor_data_pos m)
     \<and> (\<forall>kv \<in> set (m_kv m). kv_ok m kv) \<and> (\<forall>t \<in> set (m_tensors m). tensor_ok m t)"

text \<open>A cursor that reads model \<open>m\<close> and has met no error is determined by its position.\<close>

definition reads :: "ds4_model \<Rightarrow> ds4_cursor \<Rightarrow> bool" where
  "reads m c \<longleftrightarrow> cur_ok c \<and> cur_base c = m_map m \<and> cur_size c = m_size m \<and> cur_error c = None"

lemma reads_cursor_at: "reads m c \<Longrightarrow> cursor_at m (cur_pos c) = c"
  by (simp add: reads_def cursor_at_def)

lemma reads_ok: "reads m c \<Longrightarrow> cur_ok c"
  by (simp add: reads_def)

lemma reads_step: "reads m c \<Longrightarrow> cur_le c c' \<Longrightarrow> cur_error c' = cur_error c \<Longrightarrow> reads m c'"
  by (simp add: reads_def cur_le_def)

lemma reads_u32: "reads m c \<Longrightarrow> cursor_u32 c = (Some v, c') \<Longrightarrow> reads m c'"
  by (meson reads_step reads_ok cursor_u32_le cursor_keeps_error)

lemma reads_u64: "reads m c \<Longrightarrow> cursor_u64 c = (Some v, c') \<Longrightarrow> reads m c'"
  by (meson reads_step reads_ok cursor_u64_le cursor_keeps_error)

lemma reads_string: "reads m c \<Longrightarrow> cursor_string c = (Some v, c') \<Longrightarrow> reads m c'"
  by (meson reads_step reads_ok cursor_string_le cursor_keeps_error)

lemma reads_skip: "reads m c \<Longrightarrow> skip_value c ty d = (True, c') \<Longrightarrow> reads m c'"
  by (meson reads_step reads_ok skip_le skip_keeps_error)

lemma reads_cong: "m_map m = m_map m' \<Longrightarrow> m_size m = m_size m' \<Longrightarrow> reads m = reads m'"
  by (auto simp: reads_def)

lemma kv_ok_cong: "m_map m = m_map m' \<Longrightarrow> m_size m = m_size m' \<Longrightarrow> kv_ok m = kv_ok m'"
  by (auto simp: kv_ok_def cursor_at_def)

lemma cursor_die_not_Inr [simp]: "cursor_die c \<noteq> Inr x"
  by (simp add: cursor_die_def)

lemma read_alignment_keeps [simp]:
  "m_map (read_alignment m kv) = m_map m" "m_size (read_alignment m kv) = m_size m"
  "m_kv (read_alignment m kv) = m_kv m" "m_n_kv (read_alignment m kv) = m_n_kv m"
  "m_n_tensors (read_alignment m kv) = m_n_tensors m"
  by (auto simp: read_alignment_def split: prod.splits option.splits)

lemma unat_ucast_u64: "unat (ucast a :: u64) = unat a" for a :: u32
  using unsigned_less [of a, where 'a = nat] by (simp add: unsigned_ucast_eq take_bit_nat_eq_self)

lemma read_alignment_range:
  assumes "m_alignment m \<noteq> 0" "unat (m_alignment m) < 2 ^ 32"
  shows "m_alignment (read_alignment m kv) \<noteq> 0" "unat (m_alignment (read_alignment m kv)) < 2 ^ 32"
proof -
  have u: "unat (ucast a :: u64) = unat a" "unat a < 2 ^ 32" for a :: u32
    using unat_ucast_u64 [of a] unsigned_less [of a, where 'a = nat] by simp_all
  then have nz: "(ucast a :: u64) \<noteq> 0" if "a \<noteq> 0" for a :: u32
    using that unat_eq_zero by metis
  show "m_alignment (read_alignment m kv) \<noteq> 0"
    using assms(1) nz by (simp add: read_alignment_def split: prod.splits option.splits)
  show "unat (m_alignment (read_alignment m kv)) < 2 ^ 32"
    using assms(2) u by (simp add: read_alignment_def split: prod.splits option.splits)
qed

lemma parse_kvs_ok:
  assumes "parse_kvs n m c = Inr (m', c')" "reads m c"
    and "m_alignment m \<noteq> 0" "unat (m_alignment m) < 2 ^ 32" "\<forall>kv \<in> set (m_kv m). kv_ok m kv"
  shows "reads m' c' \<and> m_map m' = m_map m \<and> m_size m' = m_size m \<and> m_n_kv m' = m_n_kv m
    \<and> m_n_tensors m' = m_n_tensors m \<and> length (m_kv m') = length (m_kv m) + n
    \<and> m_alignment m' \<noteq> 0 \<and> unat (m_alignment m') < 2 ^ 32
    \<and> (\<forall>kv \<in> set (m_kv m'). kv_ok m' kv)"
  using assms
proof (induction n arbitrary: m c)
  case 0
  then show ?case by simp
next
  case (Suc n)
  obtain key c1 where s: "cursor_string c = (Some key, c1)"
    using Suc.prems(1) by (simp split: prod.splits option.splits)
  obtain ty c2 where t: "cursor_u32 c1 = (Some ty, c2)"
    using Suc.prems(1) s by (simp split: prod.splits option.splits)
  define kv where "kv = \<lparr>kv_key = key, kv_type = ty, kv_value_pos = cur_pos c2\<rparr>"
  obtain c3 where k: "skip_value c2 ty 0 = (True, c3)"
    using Suc.prems(1) s t by (simp add: Let_def split: prod.splits bool.splits)
  let ?m = "(read_alignment m kv)\<lparr>m_kv := m_kv (read_alignment m kv) @ [kv]\<rparr>"
  have r2: "reads m c2" using reads_u32 [OF reads_string [OF Suc.prems(2) s] t] .
  have "kv_ok m kv"
    using reads_cursor_at [OF r2] r2 k by (auto simp: kv_ok_def kv_def reads_def cur_ok_def)
  then have kvs: "\<forall>x \<in> set (m_kv ?m). kv_ok ?m x"
    using Suc.prems(5) kv_ok_cong [of m ?m] by simp
  have rest: "parse_kvs n ?m c3 = Inr (m', c')"
    using Suc.prems(1) s t k by (simp add: Let_def kv_def)
  have "reads ?m c3" using reads_skip [OF r2 k] reads_cong [of m ?m] by simp
  then show ?case
    using Suc.IH [OF rest] read_alignment_range [OF Suc.prems(3,4), of kv] kvs by simp
qed

section \<open>Opening establishes well-formedness\<close>

lemma unat_max_u64: "unat (- 1 :: u64) = 2 ^ 64 - 1"
  by (simp add: unsigned_minus_1_eq_mask mask_eq_exp_minus_1)

lemma le_max_u64_iff: "n \<le> 2 ^ 64 - 1 \<longleftrightarrow> n < 2 ^ 64" for n :: nat
  by auto

lemma max_div_iff:
  fixes x d :: u64
  assumes "d \<noteq> 0"
  shows "x \<le> (- 1) div d \<longleftrightarrow> unat x * unat d < 2 ^ 64"
proof -
  have d: "0 < unat d" using assms by (simp add: unat_gt_0)
  have "x \<le> (- 1) div d \<longleftrightarrow> unat x \<le> (2 ^ 64 - 1) div unat d"
    by (simp add: word_le_nat_alt unat_div unat_max_u64)
  also have "\<dots> \<longleftrightarrow> unat x * unat d \<le> 2 ^ 64 - 1"
    using d by (rule less_eq_div_iff_mult_less_eq)
  also have "\<dots> \<longleftrightarrow> unat x * unat d < 2 ^ 64" by (rule le_max_u64_iff)
  finally show ?thesis .
qed

lemma unat_mult_exact: "unat x * unat y < 2 ^ 64 \<Longrightarrow> unat (x * y) = unat x * unat y" for x y :: u64
  by (simp add: unat_word_ariths)

lemma unat_add_exact: "unat x + unat y < 2 ^ 64 \<Longrightarrow> unat (x + y) = unat x + unat y" for x y :: u64
  by (simp add: unat_word_ariths)

lemma parse_dims_ok:
  assumes "parse_dims n d t c = Inr (t', c')" "reads m c" "length (t_dim t) = 8" "d + n \<le> 8"
    and "unat (t_elements t) = prod_list (map unat (take d (t_dim t)))"
  shows "reads m c' \<and> length (t_dim t') = 8 \<and> t_ndim t' = t_ndim t \<and> t_bytes t' = t_bytes t
    \<and> unat (t_elements t') = prod_list (map unat (take (d + n) (t_dim t')))"
  using assms
proof (induction n arbitrary: d t c)
  case 0
  then show ?case by simp
next
  case (Suc n)
  obtain dim c1 where u: "cursor_u64 c = (Some dim, c1)"
    using Suc.prems(1) by (simp split: prod.splits option.splits)
  let ?t = "t\<lparr>t_dim := (t_dim t)[d := dim], t_elements := t_elements t * dim\<rparr>"
  have g: "\<not> (dim \<noteq> 0 \<and> t_elements t > (- 1) div dim)" and rest: "parse_dims n (Suc d) ?t c1 = Inr (t', c')"
    using Suc.prems(1) u by (simp_all split: if_splits)
  have "unat (t_elements t) * unat dim < 2 ^ 64"
    using g max_div_iff [of dim "t_elements t"] by (cases "dim = 0") (simp_all add: not_less)
  then have "unat (t_elements t * dim) = unat (t_elements t) * unat dim" by (rule unat_mult_exact)
  then have "unat (t_elements ?t) = prod_list (map unat (take (Suc d) (t_dim ?t)))"
    using Suc.prems by (simp add: take_Suc_conv_app_nth)
  then show ?case
    using Suc.IH [OF rest reads_u64 [OF Suc.prems(2) u]] Suc.prems by simp
qed

definition tensor_read_ok :: "ds4_tensor \<Rightarrow> bool" where
  "tensor_read_ok t \<longleftrightarrow> 1 \<le> unat (t_ndim t) \<and> unat (t_ndim t) \<le> 8 \<and> length (t_dim t) = 8
     \<and> unat (t_elements t) = prod_list (map unat (take (unat (t_ndim t)) (t_dim t)))
     \<and> t_bytes t = (case tensor_nbytes (t_type t) (t_elements t) of Some n \<Rightarrow> n | None \<Rightarrow> 0)"

lemma parse_tensor_ok:
  assumes "parse_tensor c = Inr (t', c')" "reads m c"
  shows "tensor_read_ok t' \<and> reads m c'"
proof -
  obtain name c1 where s: "cursor_string c = (Some name, c1)"
    using assms(1) by (simp add: parse_tensor_def split: prod.splits option.splits)
  obtain ndim c2 where n: "cursor_u32 c1 = (Some ndim, c2)"
    using assms(1) s by (simp add: parse_tensor_def split: prod.splits option.splits)
  let ?t = "\<lparr>t_name = name, t_ndim = ndim, t_dim = replicate DS4_MAX_DIMS 0, t_type = 0,
    t_rel_offset = 0, t_abs_offset = 0, t_elements = 1, t_bytes = 0\<rparr>"
  have nd: "\<not> (ndim = 0 \<or> unat ndim > DS4_MAX_DIMS)"
    using assms(1) s n by (simp add: parse_tensor_def split: if_splits)
  obtain t c3 where d: "parse_dims (unat ndim) 0 ?t c2 = Inr (t, c3)"
    using assms(1) s n nd by (simp add: parse_tensor_def split: sum.splits prod.splits)
  obtain ty c4 where y: "cursor_u32 c3 = (Some ty, c4)"
    using assms(1) s n nd d by (simp add: parse_tensor_def split: option.splits prod.splits)
  obtain rel c5 where o: "cursor_u64 c4 = (Some rel, c5)"
    using assms(1) s n nd d y by (simp add: parse_tensor_def split: option.splits prod.splits)
  have t': "t' = t\<lparr>t_type := ty, t_rel_offset := rel, t_bytes := (case tensor_nbytes ty (t_elements t) of
      Some n \<Rightarrow> n | None \<Rightarrow> t_bytes t)\<rparr>" "c' = c5"
    using assms(1) s n nd d y o by (simp_all add: parse_tensor_def)
  have r2: "reads m c2" using reads_u32 [OF reads_string [OF assms(2) s] n] .
  have q: "reads m c3 \<and> length (t_dim t) = 8 \<and> t_ndim t = ndim \<and> t_bytes t = 0
    \<and> unat (t_elements t) = prod_list (map unat (take (unat ndim) (t_dim t)))"
    using parse_dims_ok [OF d r2] nd by (simp add: DS4_MAX_DIMS_def)
  have "1 \<le> unat ndim" using nd by (simp add: unat_gt_0 Suc_leI)
  then show ?thesis
    using q t' nd reads_u64 [OF reads_u32 [OF _ y] o] 
    by (simp add: tensor_read_ok_def DS4_MAX_DIMS_def split: option.splits)
qed

lemma parse_directory_ok:
  "parse_directory n c = Inr (ts, c') \<Longrightarrow> reads m c
    \<Longrightarrow> length ts = n \<and> list_all tensor_read_ok ts \<and> reads m c'"
proof (induction n arbitrary: c ts)
  case (Suc n)
  obtain t c1 where t: "parse_tensor c = Inr (t, c1)"
    using Suc.prems(1) by (simp split: sum.splits prod.splits)
  obtain ts' where r: "parse_directory n c1 = Inr (ts', c')" "ts = t # ts'"
    using Suc.prems(1) t by (simp split: sum.splits prod.splits)
  then show ?case using Suc.IH [OF r(1)] parse_tensor_ok [OF t Suc.prems(2)] by simp
qed simp

lemma place_tensors_ok:
  "place_tensors data_pos (m_size m) ts = Inr ts' \<Longrightarrow> list_all tensor_read_ok ts
    \<Longrightarrow> m_tensor_data_pos m = data_pos \<Longrightarrow> unat (m_size m) = length (m_map m)
    \<Longrightarrow> length ts' = length ts \<and> (\<forall>t \<in> set ts'. tensor_ok m t)"
proof (induction ts arbitrary: ts')
  case (Cons t ts)
  let ?t = "t\<lparr>t_abs_offset := data_pos + t_rel_offset t\<rparr>"
  have g: "\<not> t_rel_offset t > (- 1) - data_pos"
    "\<not> (t_bytes ?t \<noteq> 0 \<and> (t_abs_offset ?t > m_size m \<or> t_bytes ?t > m_size m - t_abs_offset ?t))"
    using Cons.prems(1) by (simp_all add: Let_def split: if_splits)
  obtain ts1 where r: "place_tensors data_pos (m_size m) ts = Inr ts1" "ts' = ?t # ts1"
    using Cons.prems(1) g by (simp add: Let_def split: sum.splits if_splits)
  have "unat (- 1 - data_pos) = 2 ^ 64 - 1 - unat data_pos"
    using unat_sub [of data_pos "- 1"] by (simp add: unat_max_u64)
  then have "unat (t_rel_offset t) \<le> 2 ^ 64 - 1 - unat data_pos"
    using g(1) by (simp add: word_le_nat_alt not_less)
  then have off: "unat (t_abs_offset ?t) = unat data_pos + unat (t_rel_offset t)"
    using unsigned_less [of data_pos, where 'a = nat] by (simp add: unat_add_exact)
  have "unat (t_abs_offset ?t) + unat (t_bytes ?t) \<le> length (m_map m)" if "t_bytes ?t \<noteq> 0"
    using g(2) that Cons.prems(4) by (auto simp: not_less word_le_nat_alt unat_sub)
  then have "tensor_ok m ?t"
    using off Cons.prems(2,3) by (simp add: tensor_ok_def tensor_read_ok_def)
  then show ?case using Cons.IH [OF r(1)] Cons.prems r(2) by simp
qed simp

lemma align_up_spec:
  assumes "alignment \<noteq> 0" "unat v + unat alignment < 2 ^ 64"
  shows "unat alignment dvd unat (align_up v alignment)"
    and "unat v \<le> unat (align_up v alignment)"
    and "unat (align_up v alignment) < unat v + unat alignment"
proof -
  let ?a = "unat alignment" and ?r = "unat v mod unat alignment"
  have a: "0 < ?a" using assms(1) by (simp add: unat_gt_0)
  have r: "unat (v mod alignment) = ?r" by (simp add: unat_mod)
  have eq: "unat (align_up v alignment) = (if ?r = 0 then unat v else unat v + ?a - ?r)"
  proof (cases "?r = 0")
    case True
    then have "v mod alignment = 0" using r unat_eq_zero by metis
    then show ?thesis using True by (simp add: align_up_def)
  next
    case False
    have s: "unat (v + alignment) = unat v + ?a" using assms(2) by (rule unat_add_exact)
    have "v mod alignment \<le> v + alignment"
      using r s mod_le_divisor [OF a, of "unat v"] by (simp add: word_le_nat_alt)
    then have "unat (v + alignment - v mod alignment) = unat v + ?a - ?r" using r s by (simp add: unat_sub)
    moreover have "v mod alignment \<noteq> 0" using False r by (metis unsigned_0)
    ultimately show ?thesis using False by (simp add: align_up_def)
  qed
  have le: "?r < ?a" using a by simp
  have "?a dvd unat v + ?a - ?r"
  proof -
    have "unat v + ?a - ?r = (unat v div ?a + 1) * ?a"
      using div_mult_mod_eq [of "unat v" ?a] le by (simp only: distrib_right)
    then show ?thesis by simp
  qed
  then show "?a dvd unat (align_up v alignment)" using eq by (auto simp: mod_eq_0_iff_dvd)
  show "unat v \<le> unat (align_up v alignment)" "unat (align_up v alignment) < unat v + ?a"
    using le by (simp_all add: eq, linarith)
qed


lemma parse_metadata_ok:
  assumes "parse_metadata ok m c = Inr (m', c')" "reads m c"
  shows "reads m' c' \<and> m_map m' = m_map m \<and> m_size m' = m_size m
    \<and> m_n_tensors m' = m_n_tensors m \<and> length (m_kv m') = unat (m_n_kv m')
    \<and> m_alignment m' \<noteq> 0 \<and> unat (m_alignment m') < 2 ^ 32
    \<and> (\<forall>kv \<in> set (m_kv m'). kv_ok m' kv)"
proof -
  let ?m = "m\<lparr>m_kv := [], m_alignment := 32\<rparr>"
  have p: "parse_kvs (unat (m_n_kv m)) ?m c = Inr (m', c')"
    using assms(1) by (simp add: parse_metadata_def split: if_splits)
  have "reads ?m c" using assms(2) reads_cong [of m ?m] by simp
  then show ?thesis using parse_kvs_ok [OF p] by simp
qed

lemma parse_tensors_ok:
  assumes "parse_tensors ok m c = Inr m'" "reads m c" "unat (m_size m) < 2 ^ 63"
    and "length (m_kv m) = unat (m_n_kv m)" "m_alignment m \<noteq> 0" "unat (m_alignment m) < 2 ^ 32"
    and "\<forall>kv \<in> set (m_kv m). kv_ok m kv"
  shows "model_ok m'"
proof -
  obtain ts c1 where d: "parse_directory (unat (m_n_tensors m)) c = Inr (ts, c1)"
    using assms(1) by (simp add: parse_tensors_def split: if_splits sum.splits prod.splits)
  define p where "p = align_up (cur_pos c1) (m_alignment m)"
  obtain ts' where l: "place_tensors p (m_size m) ts = Inr ts'"
    and m': "m' = m\<lparr>m_tensor_data_pos := p, m_tensors := ts'\<rparr>"
    using assms(1) d by (simp add: parse_tensors_def p_def Let_def split: if_splits sum.splits)
  have q: "length ts = unat (m_n_tensors m)" "list_all tensor_read_ok ts" "reads m c1"
    using parse_directory_ok [OF d assms(2)] by simp_all
  have size: "unat (m_size m') = length (m_map m')" and pos: "unat (cur_pos c1) \<le> unat (m_size m)"
    using q(3) m' by (auto simp: reads_def cur_ok_def word_le_nat_alt)
  have al: "unat (m_alignment m) dvd unat p"
    unfolding p_def using assms(3,5,6) pos by (intro align_up_spec) simp_all
  have "length ts' = length ts \<and> (\<forall>t \<in> set ts'. tensor_ok m' t)"
    using place_tensors_ok [of p m' ts ts'] l q(2) size m' by simp
  moreover have "\<forall>kv \<in> set (m_kv m). kv_ok m' kv" using assms(7) m' kv_ok_cong [of m m'] by simp
  ultimately show ?thesis using m' size q(1) al assms(4,5) by (simp add: model_ok_def)
qed

text \<open>The model and the cursor after the 24 bytes of the header.\<close>

definition header_model :: "bytes \<Rightarrow> ds4_model" where
  "header_model data = \<lparr>m_map = data, m_size = of_nat (length data), m_version = 3,
     m_n_kv = le_get64 (take 8 (drop 16 data)), m_n_tensors = le_get64 (take 8 (drop 8 data)),
     m_alignment = 0, m_tensor_data_pos = 0, m_kv = [], m_tensors = []\<rparr>"

definition header_cursor :: "bytes \<Rightarrow> ds4_cursor" where
  "header_cursor data = \<lparr>cur_base = data, cur_size = of_nat (length data), cur_pos = 24,
     cur_error = None\<rparr>"

lemma model_open_eq:
  assumes "32 \<le> length data" "length data < 2 ^ 63"
  shows "model_open ok data =
    (if le_get32 (take 4 data) \<noteq> DS4_GGUF_MAGIC then Inl (Plain ''model is not a GGUF file'')
     else if le_get32 (take 4 (drop 4 data)) \<noteq> 3 then Inl (Plain ''only GGUF v3 is supported'')
     else case parse_metadata ok (header_model data) (header_cursor data) of
       Inl e \<Rightarrow> Inl e | Inr (m, c) \<Rightarrow> parse_tensors ok m c)"
proof -
  let ?c = "\<lambda>p. \<lparr>cur_base = data, cur_size = of_nat (length data), cur_pos = p, cur_error = None\<rparr>"
  have size: "unat (of_nat (length data) :: u64) = length data"
    using assms(2) by (simp add: unsigned_of_nat take_bit_nat_eq_self)
  have c: "cur_ok (?c p)" "cur_rest (?c p) = drop (unat p) data" "advance (?c p) n = ?c (p + n)"
    if "unat p \<le> length data" for p n
    using that size by (simp_all add: cur_ok_def word_le_nat_alt cur_rest_def advance_def)
  have r: "cursor_u32 (?c 0) = (Some (le_get32 (take 4 data)), ?c 4)"
    "cursor_u32 (?c 4) = (Some (le_get32 (take 4 (drop 4 data))), ?c 8)"
    "cursor_u64 (?c 8) = (Some (le_get64 (take 8 (drop 8 data))), ?c 16)"
    "cursor_u64 (?c 16) = (Some (le_get64 (take 8 (drop 16 data))), ?c 24)"
    using assms(1) by (simp_all add: cursor_u32_eq cursor_u64_eq c)
  show ?thesis
    using assms(1) by (simp add: model_open_def Let_def cursor_at_def r header_model_def header_cursor_def)
qed

lemma model_open_ok:
  assumes "length data < 2 ^ 63" "model_open ok data = Inr m"
  shows "model_ok m"
proof -
  have len: "32 \<le> length data"
    using assms(2) by (simp add: model_open_def split: if_splits)
  have size: "unat (of_nat (length data) :: u64) = length data"
    using assms(1) by (simp add: unsigned_of_nat take_bit_nat_eq_self)
  obtain m1 c1 where p: "parse_metadata ok (header_model data) (header_cursor data) = Inr (m1, c1)"
    and t: "parse_tensors ok m1 c1 = Inr m"
    using assms(2) model_open_eq [OF len assms(1)] by (simp split: if_splits sum.splits prod.splits)
  have "reads (header_model data) (header_cursor data)"
    using len size by (simp add: reads_def header_model_def header_cursor_def cur_ok_def word_le_nat_alt)
  from parse_metadata_ok [OF p this] have q: "reads m1 c1" "m_map m1 = data" "m_size m1 = of_nat (length data)"
    "length (m_kv m1) = unat (m_n_kv m1)" "m_alignment m1 \<noteq> 0" "unat (m_alignment m1) < 2 ^ 32"
    "\<forall>kv \<in> set (m_kv m1). kv_ok m1 kv"
    by (simp_all add: header_model_def)
  show ?thesis
    using parse_tensors_ok [OF t q(1) _ q(4-7)] q(3) size assms(1) by simp
qed

lemma model_open_map:
  assumes "length data < 2 ^ 63" "model_open ok data = Inr m"
  shows "m_map m = data"
proof -
  have len: "32 \<le> length data"
    using assms(2) by (simp add: model_open_def split: if_splits)
  obtain m1 c1 where p: "parse_metadata ok (header_model data) (header_cursor data) = Inr (m1, c1)"
    and t: "parse_tensors ok m1 c1 = Inr m"
    using assms(2) model_open_eq [OF len assms(1)] by (simp split: if_splits sum.splits prod.splits)
  have "unat (of_nat (length data) :: u64) = length data"
    using assms(1) by (simp add: unsigned_of_nat take_bit_nat_eq_self)
  then have "reads (header_model data) (header_cursor data)"
    using len by (simp add: reads_def header_model_def header_cursor_def cur_ok_def word_le_nat_alt)
  then have "m_map m1 = data" using parse_metadata_ok [OF p] by (simp add: header_model_def)
  moreover have "m_map m = m_map m1"
    using t by (auto simp: parse_tensors_def Let_def split: if_splits sum.splits)
  ultimately show ?thesis by simp
qed

text \<open>In a well-formed model a lookup succeeds exactly on a key of the type asked for.\<close>

lemma find_kv_ok:
  "model_ok m \<Longrightarrow> model_find_kv m key = Some kv \<Longrightarrow> kv_ok m kv"
  by (auto simp: model_ok_def model_find_kv_def find_Some_iff)

lemma kv_ok_cursor:
  assumes "model_ok m" "kv_ok m kv"
  obtains c' where "cur_ok (cursor_at m (kv_value_pos kv))"
    "skip_value (cursor_at m (kv_value_pos kv)) (kv_type kv) 0 = (True, c')"
proof -
  have "cur_ok (cursor_at m (kv_value_pos kv))"
    using assms by (simp add: model_ok_def kv_ok_def cur_ok_def cursor_at_def)
  moreover obtain c' where "skip_value (cursor_at m (kv_value_pos kv)) (kv_type kv) 0 = (True, c')"
    using assms(2) by (auto simp: kv_ok_def) (metis (full_types) prod.collapse)
  ultimately show ?thesis using that by blast
qed

lemma get_string_iff:
  assumes "model_ok m"
  shows "model_get_string m key \<noteq> None \<longleftrightarrow>
    (\<exists>kv. model_find_kv m key = Some kv \<and> kv_type kv = GGUF_VALUE_STRING)"
proof (cases "model_find_kv m key")
  case (Some kv)
  obtain c' where c: "skip_value (cursor_at m (kv_value_pos kv)) (kv_type kv) 0 = (True, c')"
    using kv_ok_cursor [OF assms find_kv_ok [OF assms Some]] by blast
  show ?thesis
  proof (cases "kv_type kv = GGUF_VALUE_STRING")
    case True
    then have "fst (cursor_string (cursor_at m (kv_value_pos kv))) \<noteq> None"
      using c by (auto elim: skip_value_cases)
    then show ?thesis using Some True by (simp add: model_get_string_def)
  qed (simp add: model_get_string_def Some)
qed (simp add: model_get_string_def)

text \<open>An array that is read has been walked when the file was opened: its elements are in the
  file, so a table of strings has at most one string for every 8 bytes of it.\<close>

lemma get_array_bound:
  assumes "model_ok m" "model_get_array m key = Some a" "scalar_value_size (a_type a) = 0"
  shows "unat (a_data_pos a) + 8 * unat (a_len a) \<le> length (m_map m)"
proof -
  obtain kv where f: "model_find_kv m key = Some kv" and ty: "kv_type kv = GGUF_VALUE_ARRAY"
    using assms(2) by (simp add: model_get_array_def split: option.splits if_splits)
  let ?c = "cursor_at m (kv_value_pos kv)"
  obtain c' where ok: "cur_ok ?c" and s: "skip_value ?c (kv_type kv) 0 = (True, c')"
    using kv_ok_cursor [OF assms(1) find_kv_ok [OF assms(1) f]] by blast
  from s show ?thesis
  proof (cases rule: skip_value_cases)
    case (items ity len c1 c2)
    have a: "a = \<lparr>a_type = ity, a_len = len, a_data_pos = cur_pos c2\<rparr>"
      using assms(2) f ty items by (simp add: model_get_array_def)
    have le: "cur_le ?c c1" using cursor_u32_le [OF ok items(4)] .
    then have le2: "cur_le ?c c2" using cursor_u64_le [OF cur_le_ok [OF le] items(5)] cur_le_trans by blast
    have ok2: "cur_ok c2" using cur_le_ok [OF le2] .
    have "unat (cur_pos c2) + 8 * unat len \<le> unat (cur_pos c')"
      using skip_items_pos [OF ok2 items(7) items(6)] .
    moreover have "unat (cur_pos c') \<le> length (m_map m)"
      using skip_le(1) [OF ok s] by (auto simp: cur_le_def cur_ok_def word_le_nat_alt cursor_at_def)
    ultimately show ?thesis using a by simp
  next
    case (packed ity len c1 c2)
    then show ?thesis using assms(2,3) f ty by (auto simp: model_get_array_def)
  qed (use ty in simp_all)
qed

section \<open>The size of a tensor\<close>

text \<open>The reference: whole blocks that hold the elements, over the natural numbers.\<close>

definition exact_nbytes :: "u32 \<Rightarrow> nat \<Rightarrow> nat" where
  "exact_nbytes ty elements = (case tensor_type ty of
     None \<Rightarrow> 0
   | Some (_, be, bb) \<Rightarrow> (elements + unat be - 1) div unat be * unat bb)"


lemma gguf_types_block:
  "tensor_type ty = Some (name, be, bb) \<Longrightarrow> be \<noteq> 0 \<and> be \<le> 256 \<and> bb \<noteq> 0"
proof -
  have all: "list_all (\<lambda>x. case x of None \<Rightarrow> True | Some (_, be, bb) \<Rightarrow> be \<noteq> 0 \<and> be \<le> 256 \<and> bb \<noteq> 0) gguf_types"
    by (simp add: gguf_types_def)
  assume "tensor_type ty = Some (name, be, bb)"
  then have "Some (name, be, bb) \<in> set gguf_types"
    by (auto simp: tensor_type_def in_set_conv_nth not_le split: if_splits)
  with all show ?thesis by (auto simp: list_all_iff)
qed

lemma tensor_nbytes_eq:
  assumes t: "tensor_type ty = Some (name, be, bb)"
  shows "tensor_nbytes ty elements =
    (if unat elements + unat be > 2 ^ 64 then Some 0
     else if exact_nbytes ty (unat elements) \<ge> 2 ^ 64 then None
     else Some (of_nat (exact_nbytes ty (unat elements))))"
proof -
  have be: "be \<noteq> 0" "unat be \<le> 256" "bb \<noteq> 0" "1 \<le> unat be"
    using gguf_types_block [OF t] by (simp_all add: word_le_nat_alt unat_gt_0 Suc_leI)
  let ?be = "ucast be :: u64" and ?bb = "ucast bb :: u64"
  have nz: "?be \<noteq> 0" "?bb \<noteq> 0" using be unat_ucast_u64 unat_eq_zero by metis+
  have s: "elements + ?be - 1 = elements + (?be - 1)" by simp
  have b1: "unat (?be - 1) = unat be - 1"
    using unat_sub [of 1 ?be] be(4) by (simp add: word_le_nat_alt unat_ucast_u64)
  define blocks where "blocks = (elements + ?be - 1) div ?be"
  have eq: "tensor_nbytes ty elements = (if blocks > (- 1) div ?bb then None else Some (blocks * ?bb))"
    using t be(1) by (simp add: tensor_nbytes_def blocks_def Let_def)
  show ?thesis
  proof (cases "unat elements + unat be > 2 ^ 64")
    case True
    have "unat (elements + (?be - 1)) = (unat elements + (unat be - 1)) mod 2 ^ 64"
      by (simp add: unat_word_ariths b1)
    also have "\<dots> = unat elements + (unat be - 1) - 2 ^ 64" (is "_ = ?r")
    proof -
      have "unat elements + (unat be - 1) = ?r + 2 ^ 64" "?r < 2 ^ 64"
        using True be(2,4) unsigned_less [of elements, where 'a = nat] by simp_all
      then show ?thesis by (metis mod_add_self2 mod_less)
    qed
    also have "\<dots> < unat be" using unsigned_less [of elements, where 'a = nat] be(4) by simp
    finally have "unat blocks = 0" unfolding blocks_def s by (simp add: unat_div unat_ucast_u64)
    then have "blocks = 0" by (simp add: unat_eq_zero)
    then show ?thesis using eq True by simp
  next
    case False
    have "unat (elements + (?be - 1)) = unat elements + unat be - 1"
      using False be(4) b1 by (subst unat_add_exact) simp_all
    then have bl: "unat blocks = (unat elements + unat be - 1) div unat be"
      unfolding blocks_def s by (simp add: unat_div unat_ucast_u64)
    have ex: "exact_nbytes ty (unat elements) = unat blocks * unat ?bb"
      using t bl by (simp add: exact_nbytes_def unat_ucast_u64)
    have "of_nat (unat blocks * unat ?bb) = blocks * ?bb" by (simp add: unat_ucast_u64)
    moreover have "blocks > (- 1) div ?bb \<longleftrightarrow> unat blocks * unat ?bb \<ge> 2 ^ 64"
      using max_div_iff [OF nz(2), of blocks] by (metis not_le)
    ultimately show ?thesis using False eq ex by simp
  qed
qed

end
