(* ===== verification/Gguf_Round.thy ===== *)
theory Gguf_Round
  imports Gguf_Safe
begin

text \<open>
  A writer of the GGUF format as the reference the reader is compared with: the reader opens
  every file the writer makes and finds in it the metadata and the tensors it was made of.
\<close>

section \<open>Values and their encoding\<close>

text \<open>A metadata value: a scalar (its type and its bytes), a string, an array of scalars (item
  type, count and bytes) or an array of values of no fixed size.\<close>

datatype gval =
  Scalar_Val u32 bytes
| String_Val bytes
| Packed_Val u32 u64 bytes
| Array_Val u32 "gval list"

fun gval_type :: "gval \<Rightarrow> u32" where
  "gval_type (Scalar_Val ty bs) = ty"
| "gval_type (String_Val s) = GGUF_VALUE_STRING"
| "gval_type (Packed_Val ty n bs) = GGUF_VALUE_ARRAY"
| "gval_type (Array_Val ty vs) = GGUF_VALUE_ARRAY"

definition put_string :: "bytes \<Rightarrow> bytes" where
  "put_string s = le_put64 (of_nat (length s)) @ s"

fun put_gval :: "gval \<Rightarrow> bytes" where
  "put_gval (Scalar_Val ty bs) = bs"
| "put_gval (String_Val s) = put_string s"
| "put_gval (Packed_Val ty n bs) = le_put32 ty @ le_put64 n @ bs"
| "put_gval (Array_Val ty vs) = le_put32 ty @ le_put64 (of_nat (length vs)) @ concat (map put_gval vs)"

text \<open>The values a file can hold: sizes agree, items have the type of their array, and arrays
  nest at most to the depth the reader follows.\<close>

fun gval_ok :: "nat \<Rightarrow> gval \<Rightarrow> bool" where
  "gval_ok d (Scalar_Val ty bs) \<longleftrightarrow> d \<le> 8 \<and> bs \<noteq> [] \<and> length bs = unat (scalar_value_size ty)"
| "gval_ok d (String_Val s) \<longleftrightarrow> d \<le> 8"
| "gval_ok d (Packed_Val ty n bs) \<longleftrightarrow> d \<le> 8 \<and> scalar_value_size ty \<noteq> 0
     \<and> length bs = unat n * unat (scalar_value_size ty)"
| "gval_ok d (Array_Val ty vs) \<longleftrightarrow> d \<le> 8 \<and> scalar_value_size ty = 0
     \<and> (\<forall>v \<in> set vs. gval_type v = ty \<and> gval_ok (Suc d) v)"

section \<open>Reading what was written\<close>

definition past :: "ds4_cursor \<Rightarrow> bytes \<Rightarrow> ds4_cursor" where
  "past c bs = advance c (of_nat (length bs))"

lemma past_append: "past (past c a) b = past c (a @ b)"
  by (simp add: past_def advance_def algebra_simps)

lemma past_Nil [simp]: "past c [] = c"
  by (simp add: past_def advance_def)

lemma past_simps [simp]:
  "cur_base (past c n) = cur_base c" "cur_size (past c n) = cur_size c"
  "cur_error (past c n) = cur_error c"
  by (simp_all add: past_def)

lemma length_rest_bound: "cur_ok c \<Longrightarrow> length (cur_rest c) < 2 ^ 64"
  using unsigned_less [of "cur_size c", where 'a = nat] by (simp add: length_cur_rest)

lemma unat_length_rest:
  "cur_ok c \<Longrightarrow> cur_rest c = a @ r \<Longrightarrow> unat (of_nat (length a) :: u64) = length a"
  using length_rest_bound [of c] by (simp add: unsigned_of_nat take_bit_nat_eq_self)

lemma past_spec:
  assumes "cur_ok c" "cur_rest c = a @ r"
  shows past_ok: "cur_ok (past c a)" and rest_past: "cur_rest (past c a) = r"
    and past_pos: "unat (cur_pos (past c a)) = unat (cur_pos c) + length a"
  using advance_ok [of c "of_nat (length a)"] rest_advance [of c "of_nat (length a)"]
    unat_advance [of c "of_nat (length a)"] unat_length_rest [OF assms] assms
  by (simp_all add: past_def)

lemma put_lengths [simp]: "length (le_put32 x) = 4" "length (le_put64 y) = 8"
  by (simp_all add: le_put32_def le_put64_def)

lemma cursor_u32_put:
  assumes "cur_ok c" "cur_rest c = le_put32 x @ r"
  shows "cursor_u32 c = (Some x, past c (le_put32 x))"
  using assms by (simp add: cursor_u32_eq past_def le_get32_put32 [of _ "[]", simplified])

lemma cursor_u64_put:
  assumes "cur_ok c" "cur_rest c = le_put64 x @ r"
  shows "cursor_u64 c = (Some x, past c (le_put64 x))"
  using assms by (simp add: cursor_u64_eq past_def le_get64_put64 [of _ "[]", simplified])

lemma cursor_string_put:
  assumes "cur_ok c" "cur_rest c = put_string s @ r"
  shows "cursor_string c = (Some s, past c (put_string s))"
proof -
  let ?n = "of_nat (length s) :: u64" and ?c = "past c (le_put64 (of_nat (length s)))"
  have r: "cur_rest c = le_put64 ?n @ s @ r" using assms(2) by (simp add: put_string_def)
  have ok: "cur_ok ?c" and r1: "cur_rest ?c = s @ r"
    using past_ok [OF assms(1) r] rest_past [OF assms(1) r] by simp_all
  have n: "unat ?n = length s" using unat_length_rest [OF ok r1] .
  show ?thesis
    using n r1 past_append [of c "le_put64 ?n" s]
    by (simp add: cursor_string_def cursor_u64_put [OF assms(1) r] cursor_has_eq [OF ok] put_string_def)
       (simp add: cur_rest_def past_def advance_def)
qed


lemma skip_bytes:
  assumes "cur_ok c" "cur_rest c = bs @ r" "unat n = length bs"
  shows "cursor_skip c n = (True, past c bs)"
proof -
  have "n = of_nat (length bs)" by (simp flip: assms(3))
  then show ?thesis using assms by (simp add: cursor_skip_eq past_def)
qed

text \<open>A value of no fixed size has at least the 8 bytes of its length, so the elements of an
  array are fewer than its bytes.\<close>

lemma gvals_length:
  "scalar_value_size ty = 0 \<Longrightarrow> \<forall>v \<in> set vs. gval_type v = ty \<and> gval_ok d v
    \<Longrightarrow> length vs \<le> length (concat (map put_gval vs))"
proof (induction vs)
  case (Cons v vs)
  have "1 \<le> length (put_gval v)"
    using Cons.prems by (cases v) (auto simp: put_string_def Suc_le_eq)
  then show ?case using Cons by simp
qed simp

lemma skip_put:
  shows "gval_ok d v \<Longrightarrow> cur_ok c \<Longrightarrow> cur_rest c = put_gval v @ r
      \<Longrightarrow> skip_value c (gval_type v) d = (True, past c (put_gval v))"
proof (induction v arbitrary: d c r)
  case (Scalar_Val ty bs)
  then have "scalar_value_size ty \<noteq> 0" by auto
  then show ?case using Scalar_Val skip_bytes [OF Scalar_Val(2), of bs r]
    by (simp add: skip_value.simps [of c])
next
  case (String_Val s)
  then show ?case using cursor_string_put [of c s r] by (simp add: skip_value.simps [of c])
next
  case (Packed_Val ty n bs)
  let ?c1 = "past c (le_put32 ty)"
  let ?c2 = "past ?c1 (le_put64 n)"
  have r0: "cur_rest c = le_put32 ty @ le_put64 n @ bs @ r" using Packed_Val(3) by simp
  have ok1: "cur_ok ?c1" and r1: "cur_rest ?c1 = le_put64 n @ bs @ r"
    using past_ok [OF Packed_Val(2) r0] rest_past [OF Packed_Val(2) r0] by simp_all
  have ok2: "cur_ok ?c2" and r2: "cur_rest ?c2 = bs @ r"
    using past_ok [OF ok1 r1] rest_past [OF ok1 r1] by simp_all
  have nz: "scalar_value_size ty \<noteq> 0" and len: "length bs = unat n * unat (scalar_value_size ty)"
    and d: "\<not> d > 8" using Packed_Val(1) by auto
  have lt: "unat n * unat (scalar_value_size ty) < 2 ^ 64"
    using length_rest_bound [OF ok2] r2 len by simp
  then have sk: "cursor_skip ?c2 (n * scalar_value_size ty) = (True, past ?c2 bs)"
    using skip_bytes [OF ok2 r2] len unat_mult_exact [OF lt] by simp
  have "\<not> n > (- 1) div scalar_value_size ty"
    using lt max_div_iff [OF nz, of n] by (simp add: not_less)
  then show ?case
    using d nz sk by (simp add: skip_value.simps [of c] cursor_u32_put [OF Packed_Val(2) r0]
        cursor_u64_put [OF ok1 r1] Let_def past_append)
next
  case (Array_Val ty vs)
  let ?n = "of_nat (length vs) :: u64" and ?c1 = "past c (le_put32 ty)"
  let ?c2 = "past ?c1 (le_put64 ?n)"
  have items: "skip_items c ty (Suc d) (length ws) = (True, past c (concat (map put_gval ws)))"
    if "set ws \<subseteq> set vs" "cur_ok c" "cur_rest c = concat (map put_gval ws) @ r" for ws c r
    using that
  proof (induction ws arbitrary: c)
    case (Cons w ws)
    have w: "gval_type w = ty" "gval_ok (Suc d) w" "w \<in> set vs"
      using Cons.prems(1) Array_Val(2) by auto
    have rw: "cur_rest c = put_gval w @ concat (map put_gval ws) @ r" using Cons.prems(3) by simp
    have "skip_value c ty (Suc d) = (True, past c (put_gval w))"
      using Array_Val(1) [OF w(3,2) Cons.prems(2) rw] w(1) by simp
    then show ?case
      using Cons.IH [OF _ past_ok [OF Cons.prems(2) rw] rest_past [OF Cons.prems(2) rw]] Cons.prems(1)
      by (simp add: past_append)
  qed simp
  have r0: "cur_rest c = le_put32 ty @ le_put64 ?n @ concat (map put_gval vs) @ r"
    using Array_Val(4) by simp
  have ok1: "cur_ok ?c1" and r1: "cur_rest ?c1 = le_put64 ?n @ concat (map put_gval vs) @ r"
    using past_ok [OF Array_Val(3) r0] rest_past [OF Array_Val(3) r0] by simp_all
  have ok2: "cur_ok ?c2" and r2: "cur_rest ?c2 = concat (map put_gval vs) @ r"
    using past_ok [OF ok1 r1] rest_past [OF ok1 r1] by simp_all
  have z: "scalar_value_size ty = 0" and d: "\<not> d > 8" using Array_Val(2) by auto
  have "unat ?n = length vs"
    using Array_Val(2) length_rest_bound [OF ok2] r2 gvals_length [of ty vs "Suc d"]
    by (simp add: unsigned_of_nat take_bit_nat_eq_self)
  then show ?case
    using d z items [OF _ ok2 r2] by (simp add: skip_value.simps [of c] cursor_u32_put [OF Array_Val(3) r0]
        cursor_u64_put [OF ok1 r1] Let_def past_append)
qed


section \<open>Writing a file\<close>

record tensor_info =
  i_name :: bytes
  i_dims :: "u64 list"
  i_type :: u32
  i_offset :: u64

definition put_kv :: "bytes \<times> gval \<Rightarrow> bytes" where
  "put_kv kv = put_string (fst kv) @ le_put32 (gval_type (snd kv)) @ put_gval (snd kv)"

definition put_tensor :: "tensor_info \<Rightarrow> bytes" where
  "put_tensor i = put_string (i_name i) @ le_put32 (of_nat (length (i_dims i)))
     @ concat (map le_put64 (i_dims i)) @ le_put32 (i_type i) @ le_put64 (i_offset i)"

definition put_header :: "(bytes \<times> gval) list \<Rightarrow> tensor_info list \<Rightarrow> bytes" where
  "put_header kvs ts = le_put32 DS4_GGUF_MAGIC @ le_put32 3
     @ le_put64 (of_nat (length ts)) @ le_put64 (of_nat (length kvs))"

definition write_gguf :: "(bytes \<times> gval) list \<Rightarrow> tensor_info list \<Rightarrow> bytes \<Rightarrow> bytes" where
  "write_gguf kvs ts payload =
     put_header kvs ts @ concat (map put_kv kvs) @ concat (map put_tensor ts) @ payload"

text \<open>The alignment the metadata asks for: the last one that is not 0.\<close>

definition alignment_step :: "bytes \<times> gval \<Rightarrow> u64 \<Rightarrow> u64" where
  "alignment_step kv al = (case snd kv of
     Scalar_Val ty bs \<Rightarrow>
       if fst kv = ''general.alignment'' \<and> ty = GGUF_VALUE_UINT32 \<and> le_get32 bs \<noteq> 0
       then ucast (le_get32 bs) else al
   | _ \<Rightarrow> al)"

definition file_alignment :: "(bytes \<times> gval) list \<Rightarrow> u64" where
  "file_alignment kvs = fold alignment_step kvs 32"

definition data_start :: "(bytes \<times> gval) list \<Rightarrow> tensor_info list \<Rightarrow> u64" where
  "data_start kvs ts = align_up
     (of_nat (length (put_header kvs ts @ concat (map put_kv kvs) @ concat (map put_tensor ts))))
     (file_alignment kvs)"

section \<open>Reading the metadata back\<close>

text \<open>The table entry of a written pair points at the bytes of its value.\<close>

definition kv_at :: "ds4_model \<Rightarrow> bytes \<times> gval \<Rightarrow> ds4_kv \<Rightarrow> bool" where
  "kv_at m kv e \<longleftrightarrow> kv_key e = fst kv \<and> kv_type e = gval_type (snd kv)
     \<and> kv_value_pos e \<le> m_size m
     \<and> (\<exists>r. drop (unat (kv_value_pos e)) (m_map m) = put_gval (snd kv) @ r)"

lemma kv_at_cong: "m_map m = m_map m' \<Longrightarrow> m_size m = m_size m' \<Longrightarrow> kv_at m = kv_at m'"
  by (simp add: kv_at_def fun_eq_iff)

lemma read_alignment_put:
  assumes "reads m c" "cur_rest c = put_gval v @ r" "gval_ok d v"
  shows "read_alignment m \<lparr>kv_key = k, kv_type = gval_type v, kv_value_pos = cur_pos c\<rparr>
    = m\<lparr>m_alignment := alignment_step (k, v) (m_alignment m)\<rparr>"
proof (cases "gval_type v = GGUF_VALUE_UINT32")
  case True
  then obtain bs where v: "v = Scalar_Val GGUF_VALUE_UINT32 bs" and l: "length bs = 4"
    using assms(3) by (cases v) (auto simp: GGUF_VALUE_STRING_def GGUF_VALUE_ARRAY_def GGUF_VALUE_UINT32_def scalar_value_size_def)
  have "cursor_u32 c = (Some (le_get32 bs), advance c 4)"
    using assms(2) v l by (simp add: cursor_u32_eq [OF reads_ok [OF assms(1)]])
  then show ?thesis
    using v reads_cursor_at [OF assms(1)] by (simp add: read_alignment_def alignment_step_def ds4_streq_def)
next
  case False
  then show ?thesis by (auto simp: read_alignment_def alignment_step_def split: gval.splits)
qed

lemma parse_kvs_put:
  assumes "reads m c" "cur_rest c = concat (map put_kv kvs) @ r" "\<forall>kv \<in> set kvs. gval_ok 0 (snd kv)"
  shows "\<exists>es. parse_kvs (length kvs) m c
      = Inr (m\<lparr>m_kv := m_kv m @ es, m_alignment := fold alignment_step kvs (m_alignment m)\<rparr>,
             past c (concat (map put_kv kvs)))
    \<and> list_all2 (kv_at m) kvs es"
  using assms
proof (induction kvs arbitrary: m c)
  case Nil
  then show ?case by (intro exI [of _ "[]"]) simp
next
  case (Cons kv kvs)
  obtain k v where kv: "kv = (k, v)" by force
  let ?r3 = "concat (map put_kv kvs) @ r"
  let ?c1 = "past c (put_string k)"
  let ?c2 = "past ?c1 (le_put32 (gval_type v))"
  let ?c3 = "past ?c2 (put_gval v)"
  note ok0 = reads_ok [OF Cons.prems(1)]
  have r0: "cur_rest c = put_string k @ le_put32 (gval_type v) @ put_gval v @ ?r3"
    using Cons.prems(2) kv by (simp add: put_kv_def [of "(k, v)"])
  have ok1: "cur_ok ?c1" and r1: "cur_rest ?c1 = le_put32 (gval_type v) @ put_gval v @ ?r3"
    using past_ok [OF ok0 r0] rest_past [OF ok0 r0] by simp_all
  have ok2: "cur_ok ?c2" and r2: "cur_rest ?c2 = put_gval v @ ?r3"
    using past_ok [OF ok1 r1] rest_past [OF ok1 r1] by simp_all
  have ok3: "cur_ok ?c3" and r3: "cur_rest ?c3 = ?r3"
    using past_ok [OF ok2 r2] rest_past [OF ok2 r2] by simp_all
  have rd: "reads m ?c2" and rd3: "reads m ?c3" using Cons.prems(1) ok2 ok3 by (simp_all add: reads_def)
  have gv: "gval_ok 0 v" using Cons.prems(3) kv by simp
  let ?e = "\<lparr>kv_key = k, kv_type = gval_type v, kv_value_pos = cur_pos ?c2\<rparr>"
  let ?m = "m\<lparr>m_alignment := alignment_step (k, v) (m_alignment m), m_kv := m_kv m @ [?e]\<rparr>"
  have step: "parse_kvs (length (kv # kvs)) m c = parse_kvs (length kvs) ?m ?c3"
    using read_alignment_put [OF rd r2 gv]
    by (simp add: cursor_string_put [OF ok0 r0] cursor_u32_put [OF ok1 r1] Let_def skip_put [OF gv ok2 r2])
  have "drop (unat (cur_pos ?c2)) (m_map m) = put_gval v @ ?r3"
    using r2 rd by (simp add: cur_rest_def reads_def)
  then have at: "kv_at m kv ?e" using rd kv by (auto simp: kv_at_def reads_def cur_ok_def)
  have "reads ?m ?c3" using rd3 reads_cong [of m ?m] by simp
  from Cons.IH [OF this r3] obtain es where es: "parse_kvs (length kvs) ?m ?c3
      = Inr (?m\<lparr>m_kv := m_kv ?m @ es, m_alignment := fold alignment_step kvs (m_alignment ?m)\<rparr>,
             past ?c3 (concat (map put_kv kvs)))" "list_all2 (kv_at ?m) kvs es"
    using Cons.prems(3) by auto
  show ?case
  proof (intro exI [of _ "?e # es"] conjI)
    show "parse_kvs (length (kv # kvs)) m c
      = Inr (m\<lparr>m_kv := m_kv m @ ?e # es, m_alignment := fold alignment_step (kv # kvs) (m_alignment m)\<rparr>,
             past c (concat (map put_kv (kv # kvs))))"
      unfolding step using es(1) kv by (simp add: past_append put_kv_def [of "(k, v)"])
    show "list_all2 (kv_at m) (kv # kvs) (?e # es)"
      using es(2) at kv_at_cong [of m ?m] by simp
  qed
qed


section \<open>Reading the tensor directory back\<close>

definition dims_ok :: "u64 list \<Rightarrow> bool" where
  "dims_ok ds \<longleftrightarrow> 1 \<le> length ds \<and> length ds \<le> 8
     \<and> (\<forall>k \<le> length ds. prod_list (map unat (take k ds)) < 2 ^ 64)"

text \<open>The descriptor the reader makes of a written tensor, once the data starts at \<open>start\<close>.\<close>

definition loaded_tensor :: "u64 \<Rightarrow> tensor_info \<Rightarrow> ds4_tensor" where
  "loaded_tensor start i =
     (let elements = prod_list (i_dims i) in
      \<lparr>t_name = i_name i, t_ndim = of_nat (length (i_dims i)),
       t_dim = i_dims i @ replicate (8 - length (i_dims i)) 0, t_type = i_type i,
       t_rel_offset = i_offset i, t_abs_offset = start + i_offset i, t_elements = elements,
       t_bytes = (case tensor_nbytes (i_type i) elements of Some n \<Rightarrow> n | None \<Rightarrow> 0)\<rparr>)"

lemma prod_list_exact:
  fixes ds :: "u64 list"
  assumes "\<forall>k \<le> length ds. prod_list (map unat (take k ds)) < 2 ^ 64"
  shows "unat (prod_list ds) = prod_list (map unat ds)"
  using assms
proof (induction ds rule: rev_induct)
  case (snoc d ds)
  have p: "prod_list (map unat (take k ds)) < 2 ^ 64" if "k \<le> length ds" for k
    using snoc.prems that by (auto dest!: spec [of _ k])
  then have "unat (prod_list ds) = prod_list (map unat ds)" using snoc.IH by blast
  moreover have "prod_list (map unat (ds @ [d])) < 2 ^ 64"
    using snoc.prems by (auto dest!: spec [of _ "length (ds @ [d])"])
  ultimately show ?case by (simp add: unat_mult_exact)
qed simp

lemma parse_dims_put:
  assumes "cur_ok c" "cur_rest c = concat (map le_put64 ds) @ r"
    and "d + length ds \<le> length (t_dim t)"
    and "\<forall>k \<le> length ds. unat (t_elements t) * prod_list (map unat (take k ds)) < 2 ^ 64"
  shows "parse_dims (length ds) d t c =
    Inr (t\<lparr>t_dim := take d (t_dim t) @ ds @ drop (d + length ds) (t_dim t),
           t_elements := t_elements t * prod_list ds\<rparr>, past c (concat (map le_put64 ds)))"
  using assms
proof (induction ds arbitrary: d t c)
  case (Cons x ds)
  let ?t = "t\<lparr>t_dim := (t_dim t)[d := x], t_elements := t_elements t * x\<rparr>"
  let ?c = "past c (le_put64 x)"
  have r0: "cur_rest c = le_put64 x @ concat (map le_put64 ds) @ r" using Cons.prems(2) by simp
  have ok1: "cur_ok ?c" and r1: "cur_rest ?c = concat (map le_put64 ds) @ r"
    using past_ok [OF Cons.prems(1) r0] rest_past [OF Cons.prems(1) r0] by simp_all
  have lt: "unat (t_elements t) * unat x < 2 ^ 64"
    using Cons.prems(4) by (auto dest!: spec [of _ 1])
  then have ov: "\<not> (x \<noteq> 0 \<and> t_elements t > (- 1) div x)"
    using max_div_iff [of x "t_elements t"] by (auto simp: not_less)
  have el: "unat (t_elements t * x) = unat (t_elements t) * unat x" using lt by (rule unat_mult_exact)
  have nx: "\<forall>k \<le> length ds. unat (t_elements ?t) * prod_list (map unat (take k ds)) < 2 ^ 64"
  proof (intro allI impI)
    fix k assume "k \<le> length ds"
    then show "unat (t_elements ?t) * prod_list (map unat (take k ds)) < 2 ^ 64"
      using Cons.prems(4) [rule_format, of "Suc k"] el by (simp add: mult.assoc)
  qed
  have dim: "take (Suc d) ((t_dim t)[d := x]) @ ds @ drop (Suc d + length ds) ((t_dim t)[d := x])
      = take d (t_dim t) @ (x # ds) @ drop (d + length (x # ds)) (t_dim t)"
    using Cons.prems(3) by (simp add: take_Suc_conv_app_nth)
  have "parse_dims (length (x # ds)) d t c = parse_dims (length ds) (Suc d) ?t ?c"
    using ov by (auto simp: cursor_u64_put [OF Cons.prems(1) r0])
  also have "\<dots> = Inr (?t\<lparr>t_dim := take (Suc d) (t_dim ?t) @ ds @ drop (Suc d + length ds) (t_dim ?t),
        t_elements := t_elements ?t * prod_list ds\<rparr>, past ?c (concat (map le_put64 ds)))"
    using Cons.prems(3) by (intro Cons.IH [OF ok1 r1 _ nx]) simp
  finally show ?case using dim by (simp add: past_append mult.assoc)
qed simp

lemma parse_tensor_put:
  assumes "cur_ok c" "cur_rest c = put_tensor i @ r" "dims_ok (i_dims i)"
  shows "parse_tensor c = Inr ((loaded_tensor 0 i)\<lparr>t_abs_offset := 0\<rparr>, past c (put_tensor i))"
proof -
  let ?ds = "i_dims i" and ?n = "of_nat (length (i_dims i)) :: u32"
  let ?c1 = "past c (put_string (i_name i))"
  let ?c2 = "past ?c1 (le_put32 ?n)"
  let ?c3 = "past ?c2 (concat (map le_put64 ?ds))"
  let ?c4 = "past ?c3 (le_put32 (i_type i))"
  have n: "unat ?n = length ?ds" "?n \<noteq> 0"
    using assms(3) by (auto simp: dims_ok_def unsigned_of_nat take_bit_nat_eq_self unat_eq_zero [symmetric])
  have r0: "cur_rest c = put_string (i_name i) @ le_put32 ?n @ concat (map le_put64 ?ds)
      @ le_put32 (i_type i) @ le_put64 (i_offset i) @ r"
    using assms(2) by (simp add: put_tensor_def)
  have ok1: "cur_ok ?c1" and r1: "cur_rest ?c1 = le_put32 ?n @ concat (map le_put64 ?ds)
      @ le_put32 (i_type i) @ le_put64 (i_offset i) @ r"
    using past_ok [OF assms(1) r0] rest_past [OF assms(1) r0] by simp_all
  have ok2: "cur_ok ?c2" and r2: "cur_rest ?c2 = concat (map le_put64 ?ds)
      @ le_put32 (i_type i) @ le_put64 (i_offset i) @ r"
    using past_ok [OF ok1 r1] rest_past [OF ok1 r1] by simp_all
  have ok3: "cur_ok ?c3" and r3: "cur_rest ?c3 = le_put32 (i_type i) @ le_put64 (i_offset i) @ r"
    using past_ok [OF ok2 r2] rest_past [OF ok2 r2] by simp_all
  have ok4: "cur_ok ?c4" and r4: "cur_rest ?c4 = le_put64 (i_offset i) @ r"
    using past_ok [OF ok3 r3] rest_past [OF ok3 r3] by simp_all
  let ?t = "\<lparr>t_name = i_name i, t_ndim = ?n, t_dim = replicate DS4_MAX_DIMS 0, t_type = 0,
    t_rel_offset = 0, t_abs_offset = 0, t_elements = 1, t_bytes = 0\<rparr>"
  have d: "parse_dims (length ?ds) 0 ?t ?c2 =
      Inr (?t\<lparr>t_dim := ?ds @ replicate (8 - length ?ds) 0, t_elements := prod_list ?ds\<rparr>, ?c3)"
    using parse_dims_put [OF ok2 r2, of 0 ?t] assms(3) by (simp add: dims_ok_def DS4_MAX_DIMS_def)
  show ?thesis
    using n d assms(3)
    by (simp add: parse_tensor_def cursor_string_put [OF assms(1) r0] cursor_u32_put [OF ok1 r1]
        cursor_u32_put [OF ok3 r3] cursor_u64_put [OF ok4 r4] DS4_MAX_DIMS_def dims_ok_def
        loaded_tensor_def Let_def)
       (simp add: past_append put_tensor_def split: option.splits)
qed

lemma parse_directory_put:
  "cur_ok c \<Longrightarrow> cur_rest c = concat (map put_tensor ts) @ r \<Longrightarrow> \<forall>i \<in> set ts. dims_ok (i_dims i)
    \<Longrightarrow> parse_directory (length ts) c
      = Inr (map (\<lambda>i. (loaded_tensor 0 i)\<lparr>t_abs_offset := 0\<rparr>) ts, past c (concat (map put_tensor ts)))"
proof (induction ts arbitrary: c)
  case (Cons i ts)
  have r0: "cur_rest c = put_tensor i @ concat (map put_tensor ts) @ r" using Cons.prems(2) by simp
  show ?case
    using Cons.IH [OF past_ok [OF Cons.prems(1) r0] rest_past [OF Cons.prems(1) r0]] Cons.prems(3)
      parse_tensor_put [OF Cons.prems(1) r0] by (simp add: past_append)
qed simp

text \<open>A tensor is placed when its data, if it has a size, lies between \<open>start\<close> and the end.\<close>

definition placed :: "u64 \<Rightarrow> nat \<Rightarrow> tensor_info \<Rightarrow> bool" where
  "placed start fsize i \<longleftrightarrow>
     unat start + unat (i_offset i) + unat (t_bytes (loaded_tensor start i)) \<le> fsize"

lemma place_tensors_put:
  "\<forall>i \<in> set ts. placed start (unat fsize) i
    \<Longrightarrow> place_tensors start fsize (map (\<lambda>i. (loaded_tensor 0 i)\<lparr>t_abs_offset := 0\<rparr>) ts)
      = Inr (map (loaded_tensor start) ts)"
proof (induction ts)
  case (Cons i ts)
  let ?t = "(loaded_tensor 0 i)\<lparr>t_abs_offset := 0\<rparr>"
  have t: "?t\<lparr>t_abs_offset := start + i_offset i\<rparr> = loaded_tensor start i"
    "t_rel_offset ?t = i_offset i" "t_abs_offset (loaded_tensor start i) = start + i_offset i"
    by (simp_all add: loaded_tensor_def Let_def)
  have p: "unat start + unat (i_offset i) + unat (t_bytes (loaded_tensor start i)) \<le> unat fsize"
    using Cons.prems by (simp add: placed_def)
  have f: "unat fsize < 2 ^ 64" using unsigned_less [of fsize, where 'a = nat] by simp
  have s: "unat (start + i_offset i) = unat start + unat (i_offset i)"
    using p f by (intro unat_add_exact) simp
  have "unat (- 1 - start) = 2 ^ 64 - 1 - unat start"
    using unat_sub [of start "- 1"] by (simp add: unat_max_u64)
  then have "\<not> i_offset i > (- 1) - start" using p f by (simp add: word_less_nat_alt not_less)
  moreover have le: "start + i_offset i \<le> fsize" using s p by (simp add: word_le_nat_alt)
  moreover have "t_bytes (loaded_tensor start i) \<le> fsize - (start + i_offset i)"
    using s p unat_sub [OF le] by (simp add: word_le_nat_alt)
  ultimately show ?case using Cons t by (simp add: Let_def not_less)
qed simp


section \<open>The whole file\<close>

text \<open>What a file must satisfy to be opened: its values, its tensors and their places.\<close>

definition file_ok :: "(bytes \<times> gval) list \<Rightarrow> tensor_info list \<Rightarrow> bytes \<Rightarrow> bool" where
  "file_ok kvs ts payload \<longleftrightarrow>
     (let n = length (write_gguf kvs ts payload) in
      32 \<le> n \<and> n < 2 ^ 63
      \<and> (\<forall>kv \<in> set kvs. gval_ok 0 (snd kv))
      \<and> (\<forall>i \<in> set ts. dims_ok (i_dims i) \<and> placed (data_start kvs ts) n i))"

lemma length_concat_ge: "(\<And>x. x \<in> set xs \<Longrightarrow> 1 \<le> length (f x)) \<Longrightarrow> length xs \<le> length (concat (map f xs))"
proof (induction xs)
  case (Cons x xs)
  then have "1 \<le> length (f x)" "length xs \<le> length (concat (map f xs))" by auto
  then show ?case by simp
qed simp

lemma write_gguf_counts:
  assumes "length (write_gguf kvs ts payload) < 2 ^ 63"
  shows "unat (of_nat (length kvs) :: u64) = length kvs" "unat (of_nat (length ts) :: u64) = length ts"
proof -
  have "length kvs \<le> length (concat (map put_kv kvs))"
    by (rule length_concat_ge) (simp add: put_kv_def)
  moreover have "length ts \<le> length (concat (map put_tensor ts))"
    by (rule length_concat_ge) (simp add: put_tensor_def)
  ultimately have "length kvs < 2 ^ 64" "length ts < 2 ^ 64"
    using assms by (simp_all add: write_gguf_def)
  then show "unat (of_nat (length kvs) :: u64) = length kvs" "unat (of_nat (length ts) :: u64) = length ts"
    by (simp_all add: unsigned_of_nat take_bit_nat_eq_self)
qed

lemma write_gguf_header:
  "take 4 (write_gguf kvs ts payload) = le_put32 DS4_GGUF_MAGIC"
  "take 4 (drop 4 (write_gguf kvs ts payload)) = le_put32 3"
  "take 8 (drop 8 (write_gguf kvs ts payload)) = le_put64 (of_nat (length ts))"
  "take 8 (drop 16 (write_gguf kvs ts payload)) = le_put64 (of_nat (length kvs))"
  "drop 24 (write_gguf kvs ts payload)
     = concat (map put_kv kvs) @ concat (map put_tensor ts) @ payload"
  by (simp_all add: write_gguf_def put_header_def)

text \<open>The model a written file opens to, whose metadata table is \<open>es\<close>.\<close>

definition written_model ::
  "(bytes \<times> gval) list \<Rightarrow> tensor_info list \<Rightarrow> bytes \<Rightarrow> ds4_kv list \<Rightarrow> ds4_model" where
  "written_model kvs ts payload es =
     \<lparr>m_map = write_gguf kvs ts payload, m_size = of_nat (length (write_gguf kvs ts payload)),
      m_version = 3, m_n_kv = of_nat (length kvs), m_n_tensors = of_nat (length ts),
      m_alignment = file_alignment kvs, m_tensor_data_pos = data_start kvs ts,
      m_kv = es, m_tensors = map (loaded_tensor (data_start kvs ts)) ts\<rparr>"

lemma written_file_opens:
  assumes "file_ok kvs ts payload"
    and "calloc_ok (of_nat (length kvs)) 32" "calloc_ok (of_nat (length ts)) 128"
  shows "\<exists>es. model_open calloc_ok (write_gguf kvs ts payload) = Inr (written_model kvs ts payload es)
    \<and> list_all2 (kv_at (written_model kvs ts payload es)) kvs es"
proof -
  let ?f = "write_gguf kvs ts payload" and ?start = "data_start kvs ts"
  let ?m = "header_model ?f" and ?c = "header_cursor ?f"
  have len: "32 \<le> length ?f" "length ?f < 2 ^ 63"
    and vals: "\<forall>kv \<in> set kvs. gval_ok 0 (snd kv)" and dims: "\<forall>i \<in> set ts. dims_ok (i_dims i)"
    and pl: "\<forall>i \<in> set ts. placed ?start (length ?f) i"
    using assms(1) by (simp_all add: file_ok_def Let_def)
  note counts = write_gguf_counts [OF len(2)]
  have size: "unat (of_nat (length ?f) :: u64) = length ?f"
    using len(2) by (simp add: unsigned_of_nat take_bit_nat_eq_self)
  have hd: "le_get32 (take 4 ?f) = DS4_GGUF_MAGIC" "le_get32 (take 4 (drop 4 ?f)) = 3"
    "m_n_tensors ?m = of_nat (length ts)" "m_n_kv ?m = of_nat (length kvs)"
    using write_gguf_header [of kvs ts payload] le_get32_put32 [of _ "[]"] le_get64_put64 [of _ "[]"]
    by (simp_all add: header_model_def)
  let ?mz = "?m\<lparr>m_kv := [], m_alignment := 32\<rparr>"
  have rd: "reads ?mz ?c"
    using len size by (simp add: reads_def header_model_def header_cursor_def cur_ok_def word_le_nat_alt)
  have r0: "cur_rest ?c = concat (map put_kv kvs) @ concat (map put_tensor ts) @ payload"
    using write_gguf_header(5) [of kvs ts payload] by (simp add: cur_rest_def header_cursor_def)
  let ?c1 = "past ?c (concat (map put_kv kvs))"
  let ?c2 = "past ?c1 (concat (map put_tensor ts))"
  obtain es where es: "parse_kvs (length kvs) ?mz ?c =
      Inr (?mz\<lparr>m_kv := es, m_alignment := file_alignment kvs\<rparr>, ?c1)" "list_all2 (kv_at ?mz) kvs es"
    using parse_kvs_put [OF rd r0 vals] by (auto simp: file_alignment_def)
  let ?m1 = "?mz\<lparr>m_kv := es, m_alignment := file_alignment kvs\<rparr>"
  have md: "parse_metadata calloc_ok ?m ?c = Inr (?m1, ?c1)"
    using es(1) hd(4) counts assms(2) by (simp add: parse_metadata_def)
  have ok1: "cur_ok ?c1" and r1: "cur_rest ?c1 = concat (map put_tensor ts) @ payload"
    using past_ok [OF reads_ok [OF rd] r0] rest_past [OF reads_ok [OF rd] r0] by simp_all
  have "cur_pos ?c2 = of_nat (length (put_header kvs ts @ concat (map put_kv kvs) @ concat (map put_tensor ts)))"
    by (simp add: past_append) (simp add: past_def advance_def header_cursor_def put_header_def)
  then have start: "align_up (cur_pos ?c2) (file_alignment kvs) = ?start" by (simp add: data_start_def)
  have "parse_tensors calloc_ok ?m1 ?c1 = Inr (?m1\<lparr>m_tensor_data_pos := ?start,
      m_tensors := map (loaded_tensor ?start) ts\<rparr>)"
    using parse_directory_put [OF ok1 r1 dims] hd(3) counts assms(3) start size
      place_tensors_put [of ts ?start "m_size ?m"] pl
    by (simp add: parse_tensors_def header_model_def Let_def)
  moreover have "?m1\<lparr>m_tensor_data_pos := ?start, m_tensors := map (loaded_tensor ?start) ts\<rparr>
      = written_model kvs ts payload es"
    using hd(3,4) by (simp add: written_model_def header_model_def)
  ultimately have "model_open calloc_ok ?f = Inr (written_model kvs ts payload es)"
    using model_open_eq [OF len, of calloc_ok] hd(1,2) md by simp
  moreover have "kv_at ?mz = kv_at (written_model kvs ts payload es)"
    by (rule kv_at_cong) (simp_all add: header_model_def written_model_def)
  ultimately show ?thesis using es(2) by auto
qed

section \<open>Looking written values up\<close>

lemma find_kv_written:
  "list_all2 (kv_at m) kvs es \<Longrightarrow> m_kv m = es \<Longrightarrow> map_of kvs key = Some v
    \<Longrightarrow> \<exists>e. model_find_kv m key = Some e \<and> kv_at m (key, v) e"
proof -
  have "list_all2 (kv_at m) kvs es \<Longrightarrow> map_of kvs key = Some v
    \<Longrightarrow> \<exists>e. find (\<lambda>kv. ds4_streq (kv_key kv) key) es = Some e \<and> kv_at m (key, v) e"
  proof (induction kvs es rule: list_all2_induct)
    case (Cons kv kvs e es)
    then show ?case by (cases kv) (auto simp: kv_at_def ds4_streq_def split: if_splits)
  qed simp
  then show "list_all2 (kv_at m) kvs es \<Longrightarrow> m_kv m = es \<Longrightarrow> map_of kvs key = Some v
    \<Longrightarrow> \<exists>e. model_find_kv m key = Some e \<and> kv_at m (key, v) e"
    by (simp add: model_find_kv_def)
qed

lemma kv_at_cursor:
  assumes "unat (m_size m) = length (m_map m)" "kv_at m (key, v) e"
  obtains r where "cur_ok (cursor_at m (kv_value_pos e))"
    "cur_rest (cursor_at m (kv_value_pos e)) = put_gval v @ r" "kv_type e = gval_type v"
  using assms by (auto simp: kv_at_def cur_ok_def cur_rest_def cursor_at_def)

lemma get_string_written:
  assumes "unat (m_size m) = length (m_map m)" "list_all2 (kv_at m) kvs (m_kv m)"
    and "map_of kvs key = Some (String_Val s)"
  shows "model_get_string m key = Some s"
proof -
  obtain e where e: "model_find_kv m key = Some e" "kv_at m (key, String_Val s) e"
    using find_kv_written [OF assms(2) refl assms(3)] by blast
  obtain r where "cur_ok (cursor_at m (kv_value_pos e))"
    "cur_rest (cursor_at m (kv_value_pos e)) = put_string s @ r" "kv_type e = GGUF_VALUE_STRING"
    by (rule kv_at_cursor [OF assms(1) e(2)]) simp
  then show ?thesis using e(1) by (simp add: model_get_string_def cursor_string_put)
qed

lemma get_array_written:
  assumes "unat (m_size m) = length (m_map m)" "list_all2 (kv_at m) kvs (m_kv m)"
    and "map_of kvs key = Some (Array_Val ty vs)"
  obtains r p where "model_get_array m key = Some \<lparr>a_type = ty, a_len = of_nat (length vs), a_data_pos = p\<rparr>"
    "cur_ok (cursor_at m p)" "cur_rest (cursor_at m p) = concat (map put_gval vs) @ r"
proof -
  obtain e where e: "model_find_kv m key = Some e" "kv_at m (key, Array_Val ty vs) e"
    using find_kv_written [OF assms(2) refl assms(3)] by blast
  let ?c = "cursor_at m (kv_value_pos e)" and ?n = "of_nat (length vs) :: u64"
  obtain r where ok: "cur_ok ?c" and r0: "cur_rest ?c = le_put32 ty @ le_put64 ?n @ concat (map put_gval vs) @ r"
    and ty: "kv_type e = GGUF_VALUE_ARRAY"
    by (rule kv_at_cursor [OF assms(1) e(2)]) simp
  let ?c1 = "past ?c (le_put32 ty)"
  let ?c2 = "past ?c1 (le_put64 ?n)"
  have ok1: "cur_ok ?c1" and r1: "cur_rest ?c1 = le_put64 ?n @ concat (map put_gval vs) @ r"
    using past_ok [OF ok r0] rest_past [OF ok r0] by simp_all
  have ok2: "cur_ok ?c2" and r2: "cur_rest ?c2 = concat (map put_gval vs) @ r"
    using past_ok [OF ok1 r1] rest_past [OF ok1 r1] by simp_all
  have c2: "?c2 = cursor_at m (cur_pos ?c2)" by (simp add: cursor_at_def past_def advance_def)
  have "model_get_array m key = Some \<lparr>a_type = ty, a_len = ?n, a_data_pos = cur_pos ?c2\<rparr>"
    using e(1) ty by (simp add: model_get_array_def cursor_u32_put [OF ok r0] cursor_u64_put [OF ok1 r1])
  then show ?thesis using that [of "cur_pos ?c2" r] ok2 r2 c2 by simp
qed

end
