(* ===== verification/Vocab_Load.thy ===== *)
theory Vocab_Load
  imports Token_Text Gguf_Round
begin

text \<open>
  Loading the vocabulary of an opened model: it returns whatever the file holds, a vocabulary it
  returns is well formed, and the vocabulary of a written file is the one that was written.
\<close>

section \<open>The loops return\<close>

definition tokens_map_ok :: "bytes list \<Rightarrow> str_i32_table \<Rightarrow> bool" where
  "tokens_map_ok toks t \<longleftrightarrow>
     (\<forall>s x. tab_map t s = Some x \<longrightarrow> 0 \<le> x \<and> x < int (length toks) \<and> toks ! nat x = s)"

lemma load_tokens_returns:
  assumes "table_ok t" "n \<le> table_room t" "cur_ok c" "tokens_map_ok toks t" "i = length toks"
  shows "\<exists>r. load_tokens n i c toks t = Some r
    \<and> (\<forall>toks' t'. r = Inr (toks', t') \<longrightarrow>
         table_ok t' \<and> tokens_map_ok toks' t' \<and> length toks' = length toks + n)"
  using assms
proof (induction n arbitrary: i c toks t)
  case (Suc n)
  obtain s c' where s: "cursor_string c = (s, c')" by force
  show ?case
  proof (cases s)
    case None
    then show ?thesis using s by (auto simp: cursor_die_def)
  next
    case (Some x)
    obtain t1 where t1: "table_put t x (int i) = Some t1" "table_ok t1"
      "tab_map t1 = (tab_map t)(x \<mapsto> int i)" "table_room t \<le> Suc (table_room t1)"
      using st.put_abs [OF Suc.prems(1), of x "int i"] Suc.prems(2) by auto
    have m: "tokens_map_ok (toks @ [x]) t1"
      unfolding tokens_map_ok_def
    proof (intro allI impI)
      fix s y assume y: "tab_map t1 s = Some y"
      show "0 \<le> y \<and> y < int (length (toks @ [x])) \<and> (toks @ [x]) ! nat y = s"
      proof (cases "s = x")
        case True
        then have "y = int (length toks)" using y t1(3) Suc.prems(5) by simp
        then show ?thesis using True by (simp add: nth_append)
      next
        case False
        then have "0 \<le> y \<and> y < int (length toks) \<and> toks ! nat y = s"
          using y t1(3) Suc.prems(4) unfolding tokens_map_ok_def by simp
        then show ?thesis by (simp add: nth_append nat_less_iff)
      qed
    qed
    have "cur_ok c'" using cursor_string_le [OF Suc.prems(3) s] by (rule cur_le_ok)
    then obtain r where r: "load_tokens n (Suc i) c' (toks @ [x]) t1 = Some r"
      "\<forall>toks' t'. r = Inr (toks', t') \<longrightarrow>
         table_ok t' \<and> tokens_map_ok toks' t' \<and> length toks' = length (toks @ [x]) + n"
      using Suc.IH [OF t1(2) _ _ m, of c' "Suc i"] Suc.prems(2,5) t1(4) by auto
    have "load_tokens (Suc n) i c toks t = Some r" using s Some t1(1) r(1) by simp
    then show ?thesis using r(2) by simp
  qed
qed simp

lemma load_merges_returns:
  assumes "table_ok t" "n \<le> table_room t" "cur_ok c"
  shows "\<exists>r. load_merges n i c t = Some r \<and> (\<forall>t'. r = Inr t' \<longrightarrow> table_ok t')"
  using assms
proof (induction n arbitrary: i c t)
  case (Suc n)
  obtain s c' where s: "cursor_string c = (s, c')" by force
  show ?case
  proof (cases s)
    case None
    then show ?thesis using s by (auto simp: cursor_die_def)
  next
    case (Some x)
    obtain t1 where t1: "table_put t x (sint (of_nat i :: 32 word)) = Some t1" "table_ok t1"
      "table_room t \<le> Suc (table_room t1)"
      using st.put_abs [OF Suc.prems(1), of x "sint (of_nat i :: 32 word)"] Suc.prems(2) by auto
    have "cur_ok c'" using cursor_string_le [OF Suc.prems(3) s] by (rule cur_le_ok)
    then show ?thesis using Suc.IH [OF t1(2), of c' "Suc i"] Suc.prems(2) t1(1,3) s Some by auto
  qed
qed simp

text \<open>The control tokens are looked up one after another; the first that is missing ends the
  program.\<close>

lemma vocab_lookup_abs:
  "table_ok t \<Longrightarrow> vocab_lookup t text = Some (case tab_map t text of
     None \<Rightarrow> Inl (Plain (''required tokenizer token is missing: '' @ text)) | Some x \<Rightarrow> Inr x)"
  by (simp add: vocab_lookup_def st.get_abs split: option.splits)

lemma load_specials_returns:
  assumes "table_ok (v_token_to_id v)"
  shows "\<exists>r. load_specials v special_fields = Some r
    \<and> (\<forall>v'. r = Inr v' \<longrightarrow> v_token v' = v_token v \<and> v_n_vocab v' = v_n_vocab v
         \<and> v_token_to_id v' = v_token_to_id v \<and> v_merge_rank v' = v_merge_rank v
         \<and> tab_map (v_token_to_id v) begin_of_sentence = Some (v_bos_id v')
         \<and> tab_map (v_token_to_id v) end_of_sentence = Some (v_eos_id v')
         \<and> tab_map (v_token_to_id v) user_mark = Some (v_user_id v')
         \<and> tab_map (v_token_to_id v) assistant_mark = Some (v_assistant_id v')
         \<and> tab_map (v_token_to_id v) ''<think>'' = Some (v_think_start_id v')
         \<and> tab_map (v_token_to_id v) ''</think>'' = Some (v_think_end_id v')
         \<and> tab_map (v_token_to_id v) dsml_token_mark = Some (v_dsml_id v'))"
  by (simp add: special_fields_def vocab_lookup_abs assms split: option.splits)

lemma vocab_load_returns:
  assumes m: "model_ok m" and size: "length (m_map m) < 2 ^ 63"
  shows "\<exists>r. vocab_load m = Some r \<and> (\<forall>v. r = Inr v \<longrightarrow> vocab_ok v)"
proof (cases "model_get_array m ''tokenizer.ggml.tokens''")
  case None
  then show ?thesis by (auto simp: vocab_load_def)
next
  case toks: (Some tokens)
  show ?thesis
  proof (cases "a_type tokens \<noteq> GGUF_VALUE_STRING \<or> uint (a_len tokens) > INT32_MAX
      \<or> model_get_array m ''tokenizer.ggml.merges'' = None
      \<or> a_type (the (model_get_array m ''tokenizer.ggml.merges'')) \<noteq> GGUF_VALUE_STRING")
    case True
    then show ?thesis using toks by (auto simp: vocab_load_def split: option.splits)
  next
    case False
    then obtain merges where mer: "model_get_array m ''tokenizer.ggml.merges'' = Some merges" by auto
    have ty: "scalar_value_size (a_type tokens) = 0" "scalar_value_size (a_type merges) = 0"
      using False mer by simp_all
    have bt: "unat (a_data_pos tokens) + 8 * unat (a_len tokens) \<le> length (m_map m)"
      by (rule get_array_bound [OF m toks ty(1)])
    have bm: "unat (a_data_pos merges) + 8 * unat (a_len merges) \<le> length (m_map m)"
      by (rule get_array_bound [OF m mer ty(2)])
    have c: "cur_ok (cursor_at m (a_data_pos a))" if "unat (a_data_pos a) \<le> length (m_map m)" for a
      using that m by (simp add: cur_ok_def cursor_at_def model_ok_def word_le_nat_alt)
    have lt: "unat (a_len tokens) < 2 ^ 61" "unat (a_len merges) < 2 ^ 61"
      using bt bm size by simp_all
    obtain t0 where t0: "table_init (a_len tokens) = Some t0" "table_ok t0" "tab_map t0 = Map.empty"
      "unat (a_len tokens) \<le> table_room t0"
      using table_init_ok [OF lt(1)] by blast
    obtain m0 where m0: "table_init (a_len merges) = Some m0" "table_ok m0"
      "unat (a_len merges) \<le> table_room m0"
      using table_init_ok [OF lt(2)] by blast
    have "tokens_map_ok [] t0" by (simp add: tokens_map_ok_def t0(3))
    then obtain r1 where r1: "load_tokens (unat (a_len tokens)) 0 (cursor_at m (a_data_pos tokens)) [] t0 = Some r1"
      "\<forall>toks' t'. r1 = Inr (toks', t') \<longrightarrow> table_ok t' \<and> tokens_map_ok toks' t'
          \<and> length toks' = unat (a_len tokens)"
      using load_tokens_returns [OF t0(2,4) c, of tokens "[]" 0] bt by auto
    obtain r2 where r2: "load_merges (unat (a_len merges)) 0 (cursor_at m (a_data_pos merges)) m0 = Some r2"
      "\<forall>t'. r2 = Inr t' \<longrightarrow> table_ok t'"
      using load_merges_returns [OF m0(2,3) c, of merges 0] bm by auto
    show ?thesis
    proof (cases r1)
      case (Inl e)
      then show ?thesis using toks mer False t0(1) r1(1) by (simp add: vocab_load_def)
    next
      case i1: (Inr p)
      obtain ts t1 where p: "p = (ts, t1)" by force
      show ?thesis
      proof (cases r2)
        case (Inl e)
        then show ?thesis using toks mer False t0(1) m0(1) r1(1) r2(1) i1 p by (simp add: vocab_load_def)
      next
        case (Inr m1)
        let ?v = "\<lparr>v_token = ts, v_n_vocab = uint (a_len tokens), v_bos_id = 0, v_eos_id = 0,
               v_user_id = 0, v_assistant_id = 0, v_think_start_id = 0, v_think_end_id = 0,
               v_dsml_id = 0, v_token_to_id = t1, v_merge_rank = m1\<rparr>"
        have eq: "vocab_load m = load_specials ?v special_fields"
          using toks mer False t0(1) m0(1) r1(1) r2(1) i1 p Inr by (simp add: vocab_load_def)
        have ok: "table_ok t1" "tokens_map_ok ts t1" "length ts = unat (a_len tokens)" "table_ok m1"
          using r1(2) r2(2) i1 p Inr by simp_all
        have "tokens_ok v'" if "v_token v' = ts" "v_n_vocab v' = uint (a_len tokens)" "v_token_to_id v' = t1" for v'
          using ok(2,3) that by (simp add: tokens_ok_def tokens_map_ok_def)
        then show ?thesis
          using load_specials_returns [of ?v] ok(1,4) unfolding eq vocab_ok_def by fastforce
      qed
    qed
  qed
qed


section \<open>The vocabulary of a written file\<close>

text \<open>A list of strings as a map to their indices; the last occurrence of a string counts.\<close>

definition index_map :: "bytes list \<Rightarrow> bytes \<rightharpoonup> int" where
  "index_map ss = map_of (rev (zip ss (map int [0..<length ss])))"

lemma index_map_mem: "s \<in> set ss \<longleftrightarrow> index_map ss s \<noteq> None"
proof -
  have "s \<in> set ss \<longleftrightarrow> s \<in> fst ` set (zip ss (map int [0..<length ss]))"
    by (simp flip: set_map)
  then show ?thesis by (simp add: index_map_def map_of_eq_None_iff)
qed

lemma put_string_gval: "concat (map put_gval (map String_Val ss)) = concat (map put_string ss)"
  by (induction ss) simp_all

lemma load_tokens_put:
  "cur_ok c \<Longrightarrow> cur_rest c = concat (map put_string ss) @ r \<Longrightarrow>
    load_tokens (length ss) i c toks t
      = map_option (\<lambda>t. Inr (toks @ ss, t)) (st.put_all t (zip ss (map int [i..<i + length ss])))"
proof (induction ss arbitrary: i c toks t)
  case (Cons s ss)
  have r0: "cur_rest c = put_string s @ concat (map put_string ss) @ r" using Cons.prems(2) by simp
  have up: "[i..<i + length (s # ss)] = i # [Suc i..<Suc i + length ss]"
    by (simp add: upt_conv_Cons del: upt_Suc)
  show ?case
    using Cons.IH [OF past_ok [OF Cons.prems(1) r0] rest_past [OF Cons.prems(1) r0]]
    unfolding up by (simp add: cursor_string_put [OF Cons.prems(1) r0] del: upt_Suc split: option.splits)
qed simp

lemma load_merges_put:
  "cur_ok c \<Longrightarrow> cur_rest c = concat (map put_string ss) @ r \<Longrightarrow> i + length ss < 2 ^ 31 \<Longrightarrow>
    load_merges (length ss) i c t
      = map_option Inr (st.put_all t (zip ss (map int [i..<i + length ss])))"
proof (induction ss arbitrary: i c t)
  case (Cons s ss)
  have r0: "cur_rest c = put_string s @ concat (map put_string ss) @ r" using Cons.prems(2) by simp
  have up: "[i..<i + length (s # ss)] = i # [Suc i..<Suc i + length ss]"
    by (simp add: upt_conv_Cons del: upt_Suc)
  have si: "sint (of_nat i :: 32 word) = int i"
    using Cons.prems(3) by (simp add: signed_of_nat signed_take_bit_int_eq_self)
  show ?case
    using Cons.IH [OF past_ok [OF Cons.prems(1) r0] rest_past [OF Cons.prems(1) r0], of "Suc i"] Cons.prems(3)
    unfolding up by (cases "table_put t s (int i)") (simp_all add: cursor_string_put [OF Cons.prems(1) r0] si del: upt_Suc)
qed simp

lemma fill_table:
  assumes "length ss < 2 ^ 61"
  shows "\<exists>t0 t. table_init (of_nat (length ss)) = Some t0
    \<and> st.put_all t0 (zip ss (map int [0..<0 + length ss])) = Some t \<and> table_ok t \<and> tab_map t = index_map ss"
proof -
  have n: "unat (of_nat (length ss) :: u64) = length ss"
    using assms by (simp add: unsigned_of_nat take_bit_nat_eq_self)
  obtain t0 where t0: "table_init (of_nat (length ss)) = Some t0" "table_ok t0" "tab_map t0 = Map.empty"
    "length ss \<le> table_room t0"
    using table_init_ok [of "of_nat (length ss)"] n assms by auto
  have "length (zip ss (map int [0..<0 + length ss])) \<le> table_room t0" using t0(4) by simp
  then show ?thesis
    using st.put_all_abs [OF t0(2)] t0(1,3) unfolding index_map_def by fastforce
qed

definition special_strings :: "bytes list" where
  "special_strings = [begin_of_sentence, end_of_sentence, user_mark, assistant_mark, ''<think>'', ''</think>'', dsml_token_mark]"

lemma vocab_load_written:
  assumes size: "unat (m_size m) = length (m_map m)" and kvs: "list_all2 (kv_at m) kvs (m_kv m)"
    and toks: "map_of kvs ''tokenizer.ggml.tokens'' = Some (Array_Val GGUF_VALUE_STRING (map String_Val toks))"
    and mers: "map_of kvs ''tokenizer.ggml.merges'' = Some (Array_Val GGUF_VALUE_STRING (map String_Val mers))"
    and len: "length toks < 2 ^ 31" "length mers < 2 ^ 31" and sp: "set special_strings \<subseteq> set toks"
  shows "\<exists>v. vocab_load m = Some (Inr v) \<and> v_token v = toks
    \<and> tab_map (v_token_to_id v) = index_map toks \<and> tab_map (v_merge_rank v) = index_map mers"
proof -
  have n: "unat (of_nat (length ss) :: u64) = length ss" if "length ss < 2 ^ 31" for ss :: "bytes list"
    using that by (simp add: unsigned_of_nat take_bit_nat_eq_self)
  obtain r p where a: "model_get_array m ''tokenizer.ggml.tokens''
      = Some \<lparr>a_type = GGUF_VALUE_STRING, a_len = of_nat (length toks), a_data_pos = p\<rparr>"
    "cur_ok (cursor_at m p)" "cur_rest (cursor_at m p) = concat (map put_string toks) @ r"
    by (rule get_array_written [OF size kvs toks]) (simp only: put_string_gval length_map)
  obtain r' q where b: "model_get_array m ''tokenizer.ggml.merges''
      = Some \<lparr>a_type = GGUF_VALUE_STRING, a_len = of_nat (length mers), a_data_pos = q\<rparr>"
    "cur_ok (cursor_at m q)" "cur_rest (cursor_at m q) = concat (map put_string mers) @ r'"
    by (rule get_array_written [OF size kvs mers]) (simp only: put_string_gval length_map)
  obtain t0 t where t: "table_init (of_nat (length toks)) = Some t0"
    "st.put_all t0 (zip toks (map int [0..<0 + length toks])) = Some t" "table_ok t" "tab_map t = index_map toks"
    using fill_table [of toks] len(1) by auto
  obtain m0 m1 where m1: "table_init (of_nat (length mers)) = Some m0"
    "st.put_all m0 (zip mers (map int [0..<0 + length mers])) = Some m1" "tab_map m1 = index_map mers"
    using fill_table [of mers] len(2) by auto
  let ?v = "\<lparr>v_token = toks, v_n_vocab = int (length toks), v_bos_id = 0, v_eos_id = 0,
         v_user_id = 0, v_assistant_id = 0, v_think_start_id = 0, v_think_end_id = 0,
         v_dsml_id = 0, v_token_to_id = t, v_merge_rank = m1\<rparr>"
  have u: "uint (of_nat (length toks) :: u64) = int (length toks)"
    using n [OF len(1)] by (metis uint_nat)
  have "int (length toks) \<le> INT32_MAX" using len(1) by (simp add: INT32_MAX_def)
  then have "vocab_load m = load_specials ?v special_fields"
    using a(1) b(1) t(1,2) m1(1,2) n [OF len(1)] n [OF len(2)] u
      load_tokens_put [OF a(2,3), of 0 "[]" t0] load_merges_put [OF b(2,3), of 0 m0] len(2)
    by (simp add: vocab_load_def)
  moreover have "\<exists>v'. load_specials ?v special_fields = Some (Inr v')
      \<and> v_token v' = toks \<and> v_token_to_id v' = t \<and> v_merge_rank v' = m1"
  proof -
    have "index_map toks s \<noteq> None" if "s \<in> set special_strings" for s
      using that sp index_map_mem by blast
    then have "index_map toks begin_of_sentence \<noteq> None" "index_map toks end_of_sentence \<noteq> None"
      "index_map toks user_mark \<noteq> None" "index_map toks assistant_mark \<noteq> None"
      "index_map toks ''<think>'' \<noteq> None" "index_map toks ''</think>'' \<noteq> None" "index_map toks dsml_token_mark \<noteq> None"
      by (simp_all add: special_strings_def)
    then show ?thesis
      by (elim not_None_eq [THEN iffD1, THEN exE])
        (simp add: special_fields_def vocab_lookup_abs t(3,4))
  qed
  ultimately show ?thesis using t(4) m1(3) by auto
qed


text \<open>A written file whose metadata holds a vocabulary.\<close>

definition vocab_file :: "(bytes \<times> gval) list \<Rightarrow> bytes list \<Rightarrow> bytes list \<Rightarrow> bool" where
  "vocab_file kvs toks mers \<longleftrightarrow>
     map_of kvs ''tokenizer.ggml.tokens'' = Some (Array_Val GGUF_VALUE_STRING (map String_Val toks))
     \<and> map_of kvs ''tokenizer.ggml.merges'' = Some (Array_Val GGUF_VALUE_STRING (map String_Val mers))
     \<and> length toks < 2 ^ 31 \<and> length mers < 2 ^ 31 \<and> set special_strings \<subseteq> set toks"

lemma written_vocab:
  assumes "file_ok kvs ts payload" "vocab_file kvs toks mers"
    and "calloc_ok (of_nat (length kvs)) 32" "calloc_ok (of_nat (length ts)) 128"
  shows "\<exists>m v. model_open calloc_ok (write_gguf kvs ts payload) = Inr m \<and> vocab_load m = Some (Inr v)
    \<and> vocab_ok v \<and> v_token v = toks
    \<and> tab_map (v_token_to_id v) = index_map toks \<and> tab_map (v_merge_rank v) = index_map mers"
proof -
  obtain es where o: "model_open calloc_ok (write_gguf kvs ts payload) = Inr (written_model kvs ts payload es)"
    and es: "list_all2 (kv_at (written_model kvs ts payload es)) kvs es"
    using written_file_opens [OF assms(1,3,4)] by blast
  let ?m = "written_model kvs ts payload es"
  have len: "length (write_gguf kvs ts payload) < 2 ^ 63" using assms(1) by (simp add: file_ok_def Let_def)
  have ok: "model_ok ?m" by (rule model_open_ok [OF len o])
  have m: "unat (m_size ?m) = length (m_map ?m)" "m_kv ?m = es" "length (m_map ?m) < 2 ^ 63"
    using ok len by (simp_all add: model_ok_def written_model_def)
  obtain v where v: "vocab_load ?m = Some (Inr v)" "v_token v = toks"
    "tab_map (v_token_to_id v) = index_map toks" "tab_map (v_merge_rank v) = index_map mers"
    using vocab_load_written [OF m(1), of kvs toks mers] es m(2) assms(2) by (auto simp: vocab_file_def)
  then show ?thesis using o vocab_load_returns [OF ok m(3)] by auto
qed

lemma index_map_complete:
  assumes "tab_map (v_token_to_id v) = index_map toks" "tab_map (v_merge_rank v) = index_map mers"
    and "\<And>c. encode_byte c \<in> set toks" "\<And>a b. a @ '' '' @ b \<in> set mers \<Longrightarrow> a @ b \<in> set toks"
  shows "vocab_complete v"
  using assms index_map_mem unfolding vocab_complete_def by metis

section \<open>An example\<close>

text \<open>A file with the byte alphabet, the control tokens and one merge.\<close>

definition example_tokens :: "bytes list" where
  "example_tokens = special_strings @ map (\<lambda>n. encode_byte (char_of n)) [0..<256] @ [''hi'']"

definition example_kvs :: "(bytes \<times> gval) list" where
  "example_kvs =
     [(''general.architecture'', String_Val ''deepseek4''),
      (''tokenizer.ggml.tokens'', Array_Val GGUF_VALUE_STRING (map String_Val example_tokens)),
      (''tokenizer.ggml.merges'', Array_Val GGUF_VALUE_STRING (map String_Val [''h i'']))]"

lemma encode_byte_example: "encode_byte c \<in> set example_tokens"
proof -
  have "char_of (of_char c :: nat) = c" "(of_char c :: nat) < 256" using nat_of_char_less_256 by simp_all
  then have "encode_byte c \<in> set (map (\<lambda>n. encode_byte (char_of n)) [0..<256])"
    unfolding set_map image_iff by (intro bexI [of _ "of_char c :: nat"]) simp_all
  then show ?thesis unfolding example_tokens_def by simp
qed

lemma example_vocab_file: "vocab_file example_kvs example_tokens [''h i'']"
  by (simp add: vocab_file_def example_kvs_def example_tokens_def special_strings_def)

lemma put_strings_length:
  "length (concat (map put_gval (map String_Val ss))) = 8 * length ss + length (concat ss)"
  by (induction ss) (simp_all add: put_string_def)

lemma example_file_ok: "file_ok example_kvs [] []"
proof -
  have e: "length (concat (map (\<lambda>n. encode_byte (char_of n)) [0..<256])) \<le> 2 * 256"
  proof -
    have "length (concat (map (\<lambda>n. encode_byte (char_of n)) ns)) \<le> 2 * length ns" for ns :: "nat list"
    proof (induction ns)
      case (Cons n ns)
      then show ?case using encode_byte_first(3) [of "char_of n"] by simp
    qed simp
    from this [of "[0..<256]"] show ?thesis by simp
  qed
  have t: "length (concat (map put_gval (map String_Val example_tokens))) \<le> 4096"
    using e unfolding put_strings_length example_tokens_def
    by (simp add: special_strings_def begin_of_sentence_def end_of_sentence_def user_mark_def
        assistant_mark_def dsml_token_mark_def bar_def word_sep_def del: upt.simps)
  have "length (write_gguf example_kvs [] []) \<le> 2 ^ 20" "32 \<le> length (write_gguf example_kvs [] [])"
    using t by (simp_all add: write_gguf_def put_header_def example_kvs_def put_kv_def put_string_def)
  then show ?thesis by (simp add: file_ok_def Let_def example_kvs_def GGUF_VALUE_STRING_def GGUF_VALUE_ARRAY_def scalar_value_size_def)
qed

text \<open>The vocabulary that loading the file yields.\<close>

definition example_vocab :: ds4_vocab where
  "example_vocab = (case model_open (\<lambda>_ _. True) (write_gguf example_kvs [] []) of
     Inr m \<Rightarrow> (case vocab_load m of Some (Inr v) \<Rightarrow> v))"

lemma example_vocab_facts:
  "vocab_ok example_vocab" "vocab_complete example_vocab"
  "v_token example_vocab = example_tokens"
  "tab_map (v_token_to_id example_vocab) = index_map example_tokens"
  "tab_map (v_merge_rank example_vocab) = index_map [''h i'']"
proof -
  obtain m v where v: "model_open (\<lambda>_ _. True) (write_gguf example_kvs [] []) = Inr m"
    "vocab_load m = Some (Inr v)" "vocab_ok v" "v_token v = example_tokens"
    "tab_map (v_token_to_id v) = index_map example_tokens" "tab_map (v_merge_rank v) = index_map [''h i'']"
    using written_vocab [OF example_file_ok example_vocab_file, of "\<lambda>_ _. True"] by auto
  have ev: "example_vocab = v" using v(1,2) by (simp add: example_vocab_def)
  have "a @ b \<in> set example_tokens" if "a @ '' '' @ b \<in> set [''h i'']" for a b
  proof -
    have "a @ '' '' @ b = ''h i''" using that by simp
    then have "a = ''h'' \<and> b = ''i''" by (auto simp: append_eq_Cons_conv Cons_eq_append_conv)
    then show ?thesis by (simp add: example_tokens_def)
  qed
  then have "vocab_complete v" using index_map_complete [OF v(5,6)] encode_byte_example by blast
  then show "vocab_ok example_vocab" "vocab_complete example_vocab"
    "v_token example_vocab = example_tokens"
    "tab_map (v_token_to_id example_vocab) = index_map example_tokens"
    "tab_map (v_merge_rank example_vocab) = index_map [''h i'']"
    using v ev by simp_all
qed

end
