(* ===== verification/Model_Files.thy ===== *)
theory Model_Files
  imports Vocab_Load
begin

text \<open>
  Properties of the reader of model files and of the vocabulary tables, on the definitions of
  \<open>src/ds4.c\<close>.
\<close>

section \<open>An example file\<close>

definition small_kvs :: "(bytes \<times> gval) list" where
  "small_kvs = [(''general.name'', String_Val ''ds4''), (''general.alignment'', Scalar_Val GGUF_VALUE_UINT32 (le_put32 64))]"

definition small_tensors :: "tensor_info list" where
  "small_tensors = [\<lparr>i_name = ''w'', i_dims = [2, 3], i_type = 0, i_offset = 0\<rparr>]"

definition small_payload :: bytes where
  "small_payload = replicate 88 CHR 0x07"

lemma small_lengths:
  "length (put_header small_kvs small_tensors) = 24"
  "length (concat (map put_kv small_kvs)) = 68" "length (concat (map put_tensor small_tensors)) = 41"
  by (simp_all add: put_header_def small_kvs_def small_tensors_def put_kv_def put_tensor_def put_string_def)

lemma small_start: "data_start small_kvs small_tensors = 192"
proof -
  have "file_alignment small_kvs = 64"
    using le_get32_put32 [of 64 "[]"] by (simp add: file_alignment_def small_kvs_def alignment_step_def)
  then show ?thesis by (simp add: data_start_def small_lengths align_up_def)
qed

lemma small_file_ok: "file_ok small_kvs small_tensors small_payload"
proof -
  have n: "length (write_gguf small_kvs small_tensors small_payload) = 221"
    by (simp add: write_gguf_def small_lengths small_payload_def)
  have t: "t_bytes (loaded_tensor 192 \<lparr>i_name = ''w'', i_dims = [2, 3], i_type = 0, i_offset = 0\<rparr>) = 24"
    by (simp add: loaded_tensor_def tensor_nbytes_def tensor_type_def gguf_types_def Let_def)
  have "prod_list (map unat (take k [2, 3 :: u64])) < 2 ^ 64" if le: "k \<le> 2" for k
  proof -
    consider "k = 0" | "k = 1" | "k = 2" using le by linarith
    then show ?thesis by cases simp_all
  qed
  then have d: "dims_ok [2, 3]" by (simp add: dims_ok_def)
  have "\<forall>kv \<in> set small_kvs. gval_ok 0 (snd kv)"
    by (simp add: small_kvs_def GGUF_VALUE_UINT32_def scalar_value_size_def le_put32_def)
  moreover have "\<forall>i \<in> set small_tensors. dims_ok (i_dims i) \<and> placed 192 221 i"
    using t d by (simp add: small_tensors_def placed_def)
  ultimately show ?thesis unfolding file_ok_def Let_def n small_start by simp
qed

lemma small_file_opens:
  "\<exists>m. model_open (\<lambda>_ _. True) (write_gguf small_kvs small_tensors small_payload) = Inr m"
  using written_file_opens [OF small_file_ok, of "\<lambda>_ _. True"] by auto

lemma small_file_length: "length (write_gguf small_kvs small_tensors small_payload) < 2 ^ 63"
  using small_file_ok by (simp add: file_ok_def Let_def)

section \<open>Properties\<close>



text \<open>C20. The reader opens every file the reference writer makes, and finds what was written: the
  tensors with their names, dimensions, types and absolute offsets, and for every metadata pair an entry
  that points at the bytes of its value.\<close>

theorem written_file_read_back:
  assumes "file_ok kvs ts payload"
    and "calloc_ok (of_nat (length kvs)) 32" "calloc_ok (of_nat (length ts)) 128"
  shows "\<exists>es. model_open calloc_ok (write_gguf kvs ts payload) = Inr (written_model kvs ts payload es)
    \<and> list_all2 (kv_at (written_model kvs ts payload es)) kvs es"
  by (rule written_file_opens [OF assms])

lemma written_file_read_back_witness:
  "\<exists>es. model_open (\<lambda>_ _. True) (write_gguf small_kvs small_tensors small_payload)
      = Inr (written_model small_kvs small_tensors small_payload es)
    \<and> list_all2 (kv_at (written_model small_kvs small_tensors small_payload es)) small_kvs es"
  by (rule written_file_read_back [OF small_file_ok]) simp_all

text \<open>In an opened model the lookup of a string succeeds exactly when the first entry with the key is a
  string: no entry that the reader accepted is truncated when it is read later.\<close>

theorem string_lookup_iff:
  assumes "length data < 2 ^ 63" "model_open calloc_ok data = Inr m"
  shows "model_get_string m key \<noteq> None \<longleftrightarrow>
    (\<exists>kv. model_find_kv m key = Some kv \<and> kv_type kv = GGUF_VALUE_STRING)"
  by (rule get_string_iff [OF model_open_ok [OF assms]])

lemma string_lookup_iff_witness:
  "\<exists>m. model_open (\<lambda>_ _. True) (write_gguf small_kvs small_tensors small_payload) = Inr m
    \<and> (model_get_string m ''general.name'' \<noteq> None \<longleftrightarrow>
        (\<exists>kv. model_find_kv m ''general.name'' = Some kv \<and> kv_type kv = GGUF_VALUE_STRING))"
  using small_file_opens string_lookup_iff [OF small_file_length] by blast

text \<open>C33. The size of a tensor is the exact size of its whole blocks, or refused when it does not fit
  64 bits, except for element counts within one block of \<open>2 ^ 64\<close>: there the rounding wraps around,
  the size is reported as 0, and the check that the tensor lies in the file is skipped.\<close>

theorem tensor_size_exact:
  assumes "tensor_type ty = Some (name, be, bb)"
  shows "tensor_nbytes ty elements =
    (if unat elements + unat be > 2 ^ 64 then Some 0
     else if exact_nbytes ty (unat elements) \<ge> 2 ^ 64 then None
     else Some (of_nat (exact_nbytes ty (unat elements))))"
  by (rule tensor_nbytes_eq [OF assms])

lemma tensor_size_exact_witness:
  "tensor_nbytes 8 (- 1) =
    (if unat (- 1 :: u64) + unat (32 :: u32) > 2 ^ 64 then Some 0
     else if exact_nbytes 8 (unat (- 1 :: u64)) \<ge> 2 ^ 64 then None
     else Some (of_nat (exact_nbytes 8 (unat (- 1 :: u64)))))"
  by (rule tensor_size_exact [of 8 "''q8_0''" 32 34]) code_simp

text \<open>C32. An insertion into the hash table returns when the table has room, and every lookup afterwards
  returns: the new value for the inserted key, and for every other key what the table answered before.\<close>

theorem table_insert_lookup:
  assumes "table_ok t" "0 < table_room t"
  shows "\<exists>t'. table_put t key val = Some t' \<and> table_ok t'
    \<and> (\<forall>x. table_get t' x = (if x = key then Some (Some val) else table_get t x))"
proof -
  obtain t' where "table_put t key val = Some t'" "table_ok t'" "tab_map t' = (tab_map t)(key \<mapsto> val)"
    using st.put_abs [OF assms] by blast
  then show ?thesis using st.get_abs [OF assms(1)] st.get_abs [of t'] by auto
qed

lemma empty_table_ok:
  "table_init 0 = Some \<lparr>st_entry = replicate 16 free_slot, st_cap = 16, st_used = 0\<rparr>"
  "table_ok \<lparr>st_entry = replicate 16 free_slot, st_cap = 16, st_used = 0\<rparr>"
proof -
  have loop: "pow2_loop 1 16 = Some 16"
    by (subst pow2_loop.simps, simp)+
  then show i: "table_init 0 = Some \<lparr>st_entry = replicate 16 free_slot, st_cap = 16, st_used = 0\<rparr>"
    by (simp add: table_init_def next_pow2_def)
  show "table_ok \<lparr>st_entry = replicate 16 free_slot, st_cap = 16, st_used = 0\<rparr>"
    using table_init_ok [of 0] i by simp
qed

lemma table_insert_lookup_witness:
  "\<exists>t'. table_put \<lparr>st_entry = replicate 16 free_slot, st_cap = 16, st_used = 0\<rparr> ''a'' 7 = Some t' \<and> table_ok t'
    \<and> (\<forall>x. table_get t' x = (if x = ''a'' then Some (Some 7)
           else table_get \<lparr>st_entry = replicate 16 free_slot, st_cap = 16, st_used = 0\<rparr> x))"
  by (rule table_insert_lookup [OF empty_table_ok(2)]) (simp add: table_room_def)

text \<open>C17. Loading the vocabulary ends for every model that opens, however its metadata is malformed: no
  hash table is ever full and no size wraps around.  A vocabulary it returns is well formed: a string
  maps to a token of that string, and all control tokens are there.\<close>

theorem vocabulary_loading_returns:
  assumes "length data < 2 ^ 63" "model_open calloc_ok data = Inr m"
  shows "\<exists>r. vocab_load m = Some r \<and> (\<forall>v. r = Inr v \<longrightarrow> vocab_ok v)"
proof -
  have ok: "model_ok m" by (rule model_open_ok [OF assms])
  have "m_map m = data" by (rule model_open_map [OF assms])
  then show ?thesis using vocab_load_returns [OF ok] assms(1) by simp
qed

lemma vocabulary_loading_returns_witness:
  "\<exists>m r. model_open (\<lambda>_ _. True) (write_gguf small_kvs small_tensors small_payload) = Inr m
    \<and> vocab_load m = Some r \<and> (\<forall>v. r = Inr v \<longrightarrow> vocab_ok v)"
  using small_file_opens vocabulary_loading_returns [OF small_file_length] by blast

text \<open>C31. The vocabulary of a written file is the one that was written: opening the file and loading its
  vocabulary gives the token strings in their order, a table that maps every string to its last index,
  and the ranks of the merges in their order.\<close>

theorem vocabulary_round_trip:
  assumes "file_ok kvs ts payload" "vocab_file kvs toks mers"
    and "calloc_ok (of_nat (length kvs)) 32" "calloc_ok (of_nat (length ts)) 128"
  shows "\<exists>m v. model_open calloc_ok (write_gguf kvs ts payload) = Inr m \<and> vocab_load m = Some (Inr v)
    \<and> v_token v = toks
    \<and> tab_map (v_token_to_id v) = index_map toks \<and> tab_map (v_merge_rank v) = index_map mers"
  using written_vocab [OF assms] by blast

lemma vocabulary_round_trip_witness:
  "\<exists>m v. model_open (\<lambda>_ _. True) (write_gguf example_kvs [] []) = Inr m \<and> vocab_load m = Some (Inr v)
    \<and> v_token v = example_tokens
    \<and> tab_map (v_token_to_id v) = index_map example_tokens \<and> tab_map (v_merge_rank v) = index_map [''h i'']"
  by (rule vocabulary_round_trip [OF example_file_ok example_vocab_file]) simp_all

end
