(* ===== verification/Chat_Tokens.thy ===== *)
theory Chat_Tokens
  imports Vocab_Load
begin

text \<open>
  Tokenizing a conversation (\<open>src/ds4.c\<close>): the rendered prompt, whose control marks become control
  tokens, and the builders that append messages token by token, whose content never does.  A
  NULL string argument is \<^const>\<open>None\<close>; the functions that replace it by the empty string take a
  string.
\<close>

section \<open>The rendered prompt\<close>

definition specials :: "ds4_vocab \<Rightarrow> (bytes \<times> int) list" where
  "specials v =
     [(begin_of_sentence, v_bos_id v), (end_of_sentence, v_eos_id v), (user_mark, v_user_id v),
      (assistant_mark, v_assistant_id v), (''<think>'', v_think_start_id v),
      (''</think>'', v_think_end_id v), (dsml_token_mark, v_dsml_id v)]"

text \<open>The control mark a text starts with: its token and its length.\<close>

definition special_token_at :: "ds4_vocab \<Rightarrow> bytes \<Rightarrow> (int \<times> nat) option" where
  "special_token_at v p = map_option (\<lambda>(text, token). (token, length text))
     (find (\<lambda>(text, token). take (length text) p = text) (specials v))"

definition tokenize_span :: "ds4_vocab \<Rightarrow> bytes \<Rightarrow> int list \<Rightarrow> int list option" where
  "tokenize_span v span out = (if span = [] then Some out else bpe_tokenize_text v span out)"

lemma special_token_at_pos: "special_token_at v p = Some (t, n) \<Longrightarrow> 0 < n"
  by (auto simp: special_token_at_def specials_def begin_of_sentence_def end_of_sentence_def user_mark_def
      assistant_mark_def dsml_token_mark_def bar_def split: if_splits)

text \<open>The scan: \<open>span\<close> is the text since the last mark and \<open>p\<close> the text ahead.\<close>

function scan_chat :: "ds4_vocab \<Rightarrow> bytes \<Rightarrow> bytes \<Rightarrow> int list \<Rightarrow> int list option" where
  "scan_chat v span [] out = tokenize_span v span out"
| "scan_chat v span (c # p) out = (case special_token_at v (c # p) of
     Some (token, len) \<Rightarrow> (case tokenize_span v span out of
         None \<Rightarrow> None
       | Some out \<Rightarrow> scan_chat v [] (drop len (c # p)) (out @ [token]))
   | None \<Rightarrow> scan_chat v (span @ [c]) p out)"
  by pat_completeness auto

termination
  by (relation "measure (\<lambda>(v, span, p, out). length p)") (auto dest: special_token_at_pos)

definition tokenize_rendered_chat_vocab :: "ds4_vocab \<Rightarrow> bytes \<Rightarrow> int list \<Rightarrow> int list option" where
  "tokenize_rendered_chat_vocab v text out = scan_chat v [] text out"

section \<open>Prompts built token by token\<close>

definition encode_chat_prompt ::
  "ds4_vocab \<Rightarrow> bytes option \<Rightarrow> bytes \<Rightarrow> ds4_think_mode \<Rightarrow> int list \<Rightarrow> int list option" where
  "encode_chat_prompt v system prompt think_mode out = do {
     out \<leftarrow> Some (out @ [v_bos_id v]);
     out \<leftarrow> (if think_mode = THINK_MAX then bpe_tokenize_text v ds4_think_max_prefix out else Some out);
     out \<leftarrow> (case system of Some (c # cs) \<Rightarrow> bpe_tokenize_text v (c # cs) out | _ \<Rightarrow> Some out);
     out \<leftarrow> Some (out @ [v_user_id v]);
     out \<leftarrow> bpe_tokenize_text v prompt out;
     out \<leftarrow> Some (out @ [v_assistant_id v]);
     Some (if ds4_think_mode_enabled think_mode
           then out @ [v_think_start_id v] else out @ [v_think_end_id v]) }"

definition ds4_chat_append_message ::
  "ds4_vocab \<Rightarrow> int list \<Rightarrow> string option \<Rightarrow> bytes option \<Rightarrow> int list option" where
  "ds4_chat_append_message v tokens role content =
     (let role = (case role of None \<Rightarrow> ''user'' | Some r \<Rightarrow> r);
          content = or_empty content
      in if role = ''system'' \<or> role = ''developer'' then bpe_tokenize_text v content tokens
         else if role = ''assistant'' then
           bpe_tokenize_text v content
             (if take 7 content \<noteq> ''<think>'' \<and> take 8 content \<noteq> ''</think>''
              then tokens @ [v_assistant_id v] @ [v_think_end_id v]
              else tokens @ [v_assistant_id v])
         else do {
           tokens \<leftarrow> (if role = ''tool'' \<or> role = ''function''
                      then bpe_tokenize_text v ''Tool: '' (tokens @ [v_user_id v])
                      else Some (tokens @ [v_user_id v]));
           bpe_tokenize_text v content tokens })"

definition ds4_chat_append_assistant_prefix :: "ds4_vocab \<Rightarrow> int list \<Rightarrow> ds4_think_mode \<Rightarrow> int list" where
  "ds4_chat_append_assistant_prefix v tokens think_mode =
     tokens @ [v_assistant_id v]
       @ [if ds4_think_mode_enabled think_mode then v_think_start_id v else v_think_end_id v]"

definition ds4_tokens_starts_with :: "int list \<Rightarrow> int list \<Rightarrow> bool" where
  "ds4_tokens_starts_with tokens pre =
     (if length pre > length tokens then False
      else list_all (\<lambda>i. tokens ! i = pre ! i) [0..<length pre])"

section \<open>Control tokens\<close>

text \<open>The marks between which a conversation is cut; \<open><think>\<close> and \<open></think>\<close> have no bar.\<close>

definition control_ids :: "ds4_vocab \<Rightarrow> int set" where
  "control_ids v = {v_bos_id v, v_eos_id v, v_user_id v, v_assistant_id v, v_dsml_id v}"

lemma special_literal:
  "vocab_token_is_literal_special begin_of_sentence" "vocab_token_is_literal_special end_of_sentence"
  "vocab_token_is_literal_special user_mark" "vocab_token_is_literal_special assistant_mark"
  "vocab_token_is_literal_special dsml_token_mark"
  by code_simp+

lemma control_not_plain: "vocab_ok v \<Longrightarrow> t \<in> control_ids v \<Longrightarrow> \<not> plain_token v t"
proof -
  assume v: "vocab_ok v" and t: "t \<in> control_ids v"
  have ids: "v_token v ! nat (v_bos_id v) = begin_of_sentence" "v_token v ! nat (v_eos_id v) = end_of_sentence"
    "v_token v ! nat (v_user_id v) = user_mark" "v_token v ! nat (v_assistant_id v) = assistant_mark"
    "v_token v ! nat (v_dsml_id v) = dsml_token_mark"
    using v tokens_okD [of v] by (simp_all add: vocab_ok_def)
  show ?thesis using t ids special_literal by (auto simp: control_ids_def plain_token_def)
qed

lemma special_ids:
  assumes "vocab_ok v" "(text, t) \<in> set (specials v)"
  shows "tab_map (v_token_to_id v) text = Some t"
  using assms by (auto simp: specials_def vocab_ok_def)

lemma special_token_text:
  assumes "vocab_ok v" "(text, t) \<in> set (specials v)"
  shows "ds4_token_text v t = text"
proof -
  have t: "0 \<le> t" "t < v_n_vocab v" "v_token v ! nat t = text"
    using tokens_okD [OF _ special_ids [OF assms]] assms(1) by (simp_all add: vocab_ok_def)
  have "vocab_token_is_literal_special text \<or> decode_from text 0 = text"
  proof (cases "text = ''<think>'' \<or> text = ''</think>''")
    case True
    have e: "byte_encode ''<think>'' = ''<think>''" "byte_encode ''</think>'' = ''</think>''"
      by (simp_all add: byte_encode_def encode_byte_def byte_to_codepoint_eq utf8_put_cp_def char_of_eq_iff)
    show ?thesis using True byte_round_trip [of "''<think>''"] byte_round_trip [of "''</think>''"]
      unfolding e by auto
  next
    case False
    then show ?thesis using assms(2) special_literal by (auto simp: specials_def)
  qed
  then show ?thesis using t by (auto simp: ds4_token_text_def)
qed

lemma found_special: "find P xs = Some x \<Longrightarrow> x \<in> set xs \<and> P x"
  by (induction xs) (auto split: if_splits)

lemma special_at_text:
  assumes "special_token_at v p = Some (t, n)"
  obtains mark where "(mark, t) \<in> set (specials v)" "n = length mark" "take n p = mark"
proof -
  obtain x where x: "find (\<lambda>(text, token). take (length text) p = text) (specials v) = Some x" "x = (fst x, t)"
    "n = length (fst x)"
    using assms by (auto simp: special_token_at_def)
  have "x \<in> set (specials v)" "take n p = fst x"
    using found_special [OF x(1)] x(2,3) by (simp_all add: case_prod_beta)
  then show ?thesis using that [of "fst x"] x(2,3) by simp
qed

lemma tokenize_span_abs:
  assumes "vocab_ok v"
  obtains toks where "\<And>out. tokenize_span v s out = Some (out @ toks)"
    "\<forall>t \<in> set toks. plain_token v t" "vocab_complete v \<Longrightarrow> concat (map (ds4_token_text v) toks) = s"
proof (cases "s = []")
  case True
  then show ?thesis using that [of "[]"] by (simp add: tokenize_span_def)
next
  case False
  then show ?thesis using tokenize_text_abs [OF assms, of s] that by (metis tokenize_span_def)
qed

text \<open>The rendered prompt always tokenizes, and its tokens spell it.\<close>

lemma scan_chat_abs:
  assumes "vocab_ok v"
  shows "\<exists>toks. (\<forall>out. scan_chat v span p out = Some (out @ toks))
    \<and> (vocab_complete v \<longrightarrow> concat (map (ds4_token_text v) toks) = span @ p)"
proof (induction "length p" arbitrary: span p rule: less_induct)
  case less
  show ?case
  proof (cases p)
    case Nil
    then show ?thesis using tokenize_span_abs [OF assms, of span] by (metis append_Nil2 scan_chat.simps(1))
  next
    case (Cons c p')
    show ?thesis
    proof (cases "special_token_at v (c # p')")
      case None
      then show ?thesis using less [of p' "span @ [c]"] Cons by simp
    next
      case (Some tn)
      obtain t n where tn: "tn = (t, n)" by force
      obtain mark where x: "(mark, t) \<in> set (specials v)" "n = length mark" "take n p = mark"
        using special_at_text Some tn Cons by metis
      have n: "0 < n" using special_token_at_pos Some tn by blast
      obtain ts where ts: "\<And>out. tokenize_span v span out = Some (out @ ts)"
        "vocab_complete v \<Longrightarrow> concat (map (ds4_token_text v) ts) = span"
        using tokenize_span_abs [OF assms, of span] by metis
      obtain toks where r: "\<And>out. scan_chat v [] (drop n p) out = Some (out @ toks)"
        "vocab_complete v \<Longrightarrow> concat (map (ds4_token_text v) toks) = drop n p"
        using less [of "drop n p" "[]"] n Cons by auto
      have tx: "ds4_token_text v t @ drop n p = p"
        using special_token_text [OF assms x(1)] x(3) append_take_drop_id [of n p] by simp
      have "scan_chat v span p out = Some (out @ ts @ t # toks)" for out
        using Cons Some tn ts(1) r(1) [of "out @ ts @ [t]"] by simp
      moreover have "concat (map (ds4_token_text v) (ts @ t # toks)) = span @ p" if "vocab_complete v"
        using ts(2) [OF that] r(2) [OF that] tx by simp
      ultimately show ?thesis by blast
    qed
  qed
qed


section \<open>Marks end a text\<close>

text \<open>A text without marks: no mark starts anywhere in it.\<close>

definition special_free :: "ds4_vocab \<Rightarrow> bytes \<Rightarrow> bool" where
  "special_free v s \<longleftrightarrow> (\<forall>i < length s. special_token_at v (drop i s) = None)"

text \<open>No mark has the character \<open><\<close> behind its first, so none reaches across the start of one.\<close>

lemma special_tail: "(m, t) \<in> set (specials v) \<Longrightarrow> CHR ''<'' \<notin> set (tl m)"
  by (auto simp: specials_def begin_of_sentence_def end_of_sentence_def user_mark_def
      assistant_mark_def dsml_token_mark_def bar_def word_sep_def)

lemma special_none_iff:
  "special_token_at v p = None \<longleftrightarrow> (\<forall>(m, t) \<in> set (specials v). take (length m) p \<noteq> m)"
  by (auto simp: special_token_at_def find_None_iff)

lemma special_not_across:
  assumes "special_token_at v x = None" "x \<noteq> []" "r = [] \<or> hd r = CHR ''<''"
  shows "special_token_at v (x @ r) = None"
  unfolding special_none_iff
proof (clarify)
  fix m t assume m: "(m, t) \<in> set (specials v)" and e: "take (length m) (x @ r) = m"
  show False
  proof (cases "length m \<le> length x")
    case True
    then show False using e m assms(1) by (auto simp: special_none_iff)
  next
    case False
    then have mx: "m = x @ take (length m - length x) r" and ne: "take (length m - length x) r \<noteq> []"
      using e by (auto simp: take_append)
    then have "CHR ''<'' \<in> set (take (length m - length x) r)" using assms(3) by (cases r) (auto split: nat.splits simp: take_Cons')
    moreover have "tl m = tl x @ take (length m - length x) r" using mx assms(2) by (metis tl_append2)
    ultimately show False using special_tail [OF m] by simp
  qed
qed

lemma scan_free_text:
  "special_free v s \<Longrightarrow> r = [] \<or> hd r = CHR ''<'' \<Longrightarrow>
    scan_chat v span (s @ r) out = scan_chat v (span @ s) r out"
proof (induction s arbitrary: span)
  case (Cons c s)
  have free: "special_free v s"
    unfolding special_free_def
  proof (intro allI impI)
    fix i assume "i < length s"
    then show "special_token_at v (drop i s) = None"
      using Cons.prems(1) unfolding special_free_def by (auto dest: spec [of _ "Suc i"])
  qed
  have "special_token_at v (c # s) = None" using Cons.prems(1) by (auto simp: special_free_def)
  then have "special_token_at v (c # s @ r) = None"
    using special_not_across [of v "c # s" r] Cons.prems(2) by simp
  then show ?case using Cons.IH [OF free Cons.prems(2), of "span @ [c]"] by simp
qed simp

lemma scan_mark:
  assumes "special_token_at v (m @ r) = Some (t, length m)"
  shows "scan_chat v span (m @ r) out = (case tokenize_span v span out of
     None \<Rightarrow> None | Some out \<Rightarrow> scan_chat v [] r (out @ [t]))"
proof -
  obtain c p where c: "m @ r = c # p" using special_token_at_pos [OF assms] by (cases m) auto
  have "scan_chat v span (c # p) out = (case tokenize_span v span out of
     None \<Rightarrow> None | Some out \<Rightarrow> scan_chat v [] (drop (length m) (c # p)) (out @ [t]))"
    using assms c by (simp del: drop_Cons')
  then show ?thesis using c by (metis append_eq_conv_conj)
qed

lemma marks_at:
  "special_token_at v (begin_of_sentence @ r) = Some (v_bos_id v, length begin_of_sentence)"
  "special_token_at v (user_mark @ r) = Some (v_user_id v, length user_mark)"
  "special_token_at v (assistant_mark @ r) = Some (v_assistant_id v, length assistant_mark)"
  "special_token_at v (''<think>'' @ r) = Some (v_think_start_id v, length ''<think>'')"
  "special_token_at v (''</think>'' @ r) = Some (v_think_end_id v, length ''</think>'')"
  by (simp_all add: special_token_at_def specials_def begin_of_sentence_def end_of_sentence_def user_mark_def
      assistant_mark_def dsml_token_mark_def bar_def word_sep_def)

lemma marks_hd:
  "hd (user_mark @ r) = CHR ''<''" "hd (assistant_mark @ r) = CHR ''<''"
  by (simp_all add: user_mark_def assistant_mark_def)

text \<open>A rendered one-turn conversation tokenizes to what the builder makes of its parts.\<close>

lemma tokenize_rendered_turn:
  assumes "vocab_ok v" "special_free v system" "special_free v prompt" "mode \<noteq> THINK_MAX"
  shows "tokenize_rendered_chat_vocab v
      (begin_of_sentence @ system @ user_mark @ prompt @ assistant_mark
        @ (if ds4_think_mode_enabled mode then ''<think>'' else ''</think>'')) out
    = encode_chat_prompt v (Some system) prompt mode out"
proof -
  let ?tag = "if ds4_think_mode_enabled mode then ''<think>'' else ''</think>''"
  let ?id = "if ds4_think_mode_enabled mode then v_think_start_id v else v_think_end_id v"
  have tag: "scan_chat v [] (?tag @ []) ot = Some (ot @ [?id])" for ot
    by (simp only: scan_mark [OF marks_at(4)] scan_mark [OF marks_at(5)] tokenize_span_def split: if_splits)
      (simp add: tokenize_span_def)
  obtain ts where ts: "\<And>out. bpe_tokenize_text v system out = Some (out @ ts)"
    using tokenize_text_abs [OF assms(1), of system] by blast
  obtain tp where tp: "\<And>out. bpe_tokenize_text v prompt out = Some (out @ tp)"
    using tokenize_text_abs [OF assms(1), of prompt] by blast
  have span: "tokenize_span v system out = Some (out @ ts)" "tokenize_span v prompt out = Some (out @ tp)" for out
    using ts [of out] tp [of out] by (auto simp: tokenize_span_def bpe_tokenize_text_def tokenize_from.simps)
  have "scan_chat v [] (begin_of_sentence @ system @ user_mark @ prompt @ assistant_mark @ ?tag @ []) out
      = Some (out @ [v_bos_id v] @ ts @ [v_user_id v] @ tp @ [v_assistant_id v] @ [?id])"
    using span tag
    by (simp only: scan_mark [OF marks_at(1)] scan_mark [OF marks_at(2)] scan_mark [OF marks_at(3)]
        scan_free_text [OF assms(2)] scan_free_text [OF assms(3)] marks_hd simp_thms append_Nil append_Nil2
        tokenize_span_def [of v "[]"] if_True option.case append_assoc)
  moreover have "encode_chat_prompt v (Some system) prompt mode out
      = Some (out @ [v_bos_id v] @ ts @ [v_user_id v] @ tp @ [v_assistant_id v] @ [?id])"
    using assms(4) ts tp ts [of "[]"]
    by (cases system) (simp_all add: encode_chat_prompt_def bpe_tokenize_text_def tokenize_from.simps)
  ultimately show ?thesis by (simp add: tokenize_rendered_chat_vocab_def)
qed

end
