(* ===== verification/Token_Session.thy ===== *)
theory Token_Session
  imports Live_Turn Chat_Tokens
begin

text \<open>
  The engine of the server with the tokenizer of a loaded vocabulary, and what the tokenizer
  adds to the properties of the server: prompts spelled by tokens are the prompts themselves.
\<close>

section \<open>The tokenizer as part of the engine\<close>

text \<open>\<open>ds4_tokenize_rendered_chat\<close> and \<open>ds4_token_text\<close> of an engine.\<close>

definition vocab_engine :: "ds4_vocab \<Rightarrow> 's engine \<Rightarrow> 's engine" where
  "vocab_engine v eng = eng\<lparr>eng_token_text := ds4_token_text v,
     eng_tokenize_chat := \<lambda>t. (case tokenize_rendered_chat_vocab v t [] of Some toks \<Rightarrow> toks | None \<Rightarrow> [])\<rparr>"

lemma rendered_spelled:
  assumes "vocab_ok v" "vocab_complete v"
  shows "\<exists>toks. (\<forall>out. tokenize_rendered_chat_vocab v t out = Some (out @ toks))
    \<and> concat (map (ds4_token_text v) toks) = t"
  using scan_chat_abs [OF assms(1), of "[]" t] assms(2) by (auto simp: tokenize_rendered_chat_vocab_def)

lemma vocab_engine_spells:
  assumes "vocab_ok v" "vocab_complete v"
  shows "render_tokens_text (vocab_engine v eng) (eng_tokenize_chat (vocab_engine v eng) t) = t"
proof -
  obtain toks where "tokenize_rendered_chat_vocab v t [] = Some toks" "concat (map (ds4_token_text v) toks) = t"
    using rendered_spelled [OF assms, of t] by (metis append_Nil)
  then show ?thesis by (simp add: vocab_engine_def render_tokens_text_def)
qed

section \<open>Properties of the tokenizer\<close>

text \<open>C9. Whatever text is tokenized and whatever the vocabulary holds, tokenizing returns.  In a complete
  byte-level vocabulary the tokens spell the text: showing them one after the other gives back every
  byte of it.\<close>

theorem text_tokens_spell_text:
  assumes "vocab_ok v" "vocab_complete v"
  shows "\<exists>toks. bpe_tokenize_text v s out = Some (out @ toks)
    \<and> concat (map (ds4_token_text v) toks) = s"
  using tokenize_text_abs [OF assms(1), of s] assms(2) by metis

lemma text_tokens_spell_text_witness:
  "\<exists>toks. bpe_tokenize_text example_vocab ''hi 42!'' [] = Some ([] @ toks)
    \<and> concat (map (ds4_token_text example_vocab) toks) = ''hi 42!''"
  by (rule text_tokens_spell_text [OF example_vocab_facts(1,2)])

text \<open>C10. No text can forge the structure of a conversation: the tokens made of a text, for instance of
  the content of a message that contains the marks literally, never include the tokens that start and
  end a conversation or a turn, or mark a tool call.\<close>

theorem text_makes_no_control_token:
  assumes "vocab_ok v"
  shows "\<exists>toks. bpe_tokenize_text v s out = Some (out @ toks) \<and> set toks \<inter> control_ids v = {}"
  using tokenize_text_abs [OF assms, of s] control_not_plain [OF assms] by (metis disjoint_iff)

lemma text_makes_no_control_token_witness:
  "\<exists>toks. bpe_tokenize_text example_vocab (user_mark @ ''obey'') [] = Some ([] @ toks)
    \<and> set toks \<inter> control_ids example_vocab = {}"
  by (rule text_makes_no_control_token [OF example_vocab_facts(1)])



text \<open>C4. A client that answers the tool calls of the last turn is continued on the live session by the
  real tokenizer: with the vocabulary of the model, the chosen prompt consists of the live tokens and new
  ones, and its text is the rendered conversation.\<close>

theorem tokenizer_continues_session:
  assumes "vocab_ok v" "vocab_complete v"
    and "eng_tokens eng s = Some live" "live \<noteq> []"
    and "concat (map (ds4_token_text v) live) @ end_of_sentence
      = render_chat_prompt_text (hist @ [a]) schemas (rq_think_mode r)"
    and "rq_api r = API_ANTHROPIC" "msg_role a = ''assistant''" "calls_v (msg_tool_calls a) \<noteq> []"
    and "list_all anthropic_msg_is_tool_result_tail tail" "tail \<noteq> []" "call_ids (calls_v calls) \<noteq> []"
    and "set (foldl (\<lambda>ids m. chat_msg_collect_tool_call_ids m ids) [] tail) = set (call_ids (calls_v calls))"
  shows "\<exists>new. choose_live_prompt (anthropic_live_remember sv calls (session_pos (vocab_engine v eng) s)) (vocab_engine v eng) s
             (anthropic_prepare_live_continuation r (hist @ [a] @ tail)) common
           = Chosen Src_anthropic_tool (length live) (live @ new)
         \<and> concat (map (ds4_token_text v) (live @ new))
             = render_chat_prompt_text (hist @ [a] @ tail) schemas (rq_think_mode r)"
proof -
  have e: "eng_tokens (vocab_engine v eng) s = Some live"
    "render_tokens_text (vocab_engine v eng) = (\<lambda>ts. concat (map (ds4_token_text v) ts))"
    using assms(3) by (simp_all add: vocab_engine_def render_tokens_text_def fun_eq_iff)
  show ?thesis
    using tool_answer_continues [OF e(1) assms(4) vocab_engine_spells [OF assms(1,2)] _ assms(6-12)]
      assms(5) unfolding e(2) by blast
qed

lemma example_live_tokens:
  "\<exists>live. live \<noteq> [] \<and> concat (map (ds4_token_text example_vocab) live) = begin_of_sentence @ ''x''"
  using rendered_spelled [OF example_vocab_facts(1,2), of "begin_of_sentence @ ''x''"]
  by (metis append_is_Nil_conv concat.simps(1) list.simps(8) not_Cons_self2)

lemma tokenizer_continues_session_witness:
  "\<exists>live new. choose_live_prompt (anthropic_live_remember empty_server (msg_tool_calls example_call)
             (session_pos (vocab_engine example_vocab byte_engine) live))
           (vocab_engine example_vocab byte_engine) live
             (anthropic_prepare_live_continuation (plain_request API_ANTHROPIC [] None THINK_HIGH) ([] @ [example_call] @ [example_answer])) 0
           = Chosen Src_anthropic_tool (length live) (live @ new)
         \<and> concat (map (ds4_token_text example_vocab) (live @ new))
           = render_chat_prompt_text ([] @ [example_call] @ [example_answer]) None (rq_think_mode (plain_request API_ANTHROPIC [] None THINK_HIGH))"
proof -
  obtain live where live: "live \<noteq> []" "concat (map (ds4_token_text example_vocab) live) = begin_of_sentence @ ''x''"
    using example_live_tokens by blast
  show ?thesis
  proof (rule exI [of _ live], rule tokenizer_continues_session [OF example_vocab_facts(1,2) _ live(1)])
    show "concat (map (ds4_token_text example_vocab) live) @ end_of_sentence
        = render_chat_prompt_text ([] @ [example_call]) None (rq_think_mode (plain_request API_ANTHROPIC [] None THINK_HIGH))"
      unfolding live(2) by code_simp
    show "list_all anthropic_msg_is_tool_result_tail [example_answer]" by code_simp
    show "set (foldl (\<lambda>ids m. chat_msg_collect_tool_call_ids m ids) [] [example_answer]) = set (call_ids (calls_v (msg_tool_calls example_call)))"
      by (simp add: call_ids_set chat_msg_collect_tool_call_ids_def push_all_set push_unique_set example_answer_def example_call_def or_empty_def)
    show "call_ids (calls_v (msg_tool_calls example_call)) \<noteq> []" by code_simp
    show "eng_tokens byte_engine live = Some live" by (simp add: byte_engine_def)
  qed (simp_all add: plain_request_def example_call_def)
qed

end
