(* ===== verification/Req_Loops.thy ===== *)
theory Req_Loops
  imports Stream_Text Dsml_Calls
begin

text \<open>
  The shape that all parsers of request bodies in \<open>src/ds4_server.c\<close> share: loops over the members of
  an object and the items of an array, and strings that are owned by a local variable or a field.

  A parser changes a state (its local variables or the structure it fills) and moves the position.
  It goes on (\<open>Next\<close>), leaves by \<open>return\<close> or \<open>goto\<close> with the state it has then (\<open>Stop\<close>), frees a string a
  second time (\<open>Double_free\<close>), or does not return (\<open>Endless\<close>; the loops run on fuel, which the length
  of the text bounds, and no parser is endless: the \<open>short\<close> lemmas).
\<close>

datatype 's outcome = Next 's bytes | Stop 's | Double_free | Endless

named_theorems short_intros \<open>every parser returns and consumes\<close>

section \<open>Owned strings\<close>

text \<open>A \<open>char *\<close> that owns its string.  \<open>free\<close> leaves the pointer as it is, so it dangles unless it was
  \<open>NULL\<close>; what the pointer shows ends at the first NUL.\<close>

datatype owned = Null | Held bytes | Dangling

definition freed :: "owned \<Rightarrow> owned" where
  "freed p = (if p = Null then Null else Dangling)"

definition held :: "owned \<Rightarrow> bytes option" where
  "held p = (case p of Held s \<Rightarrow> Some s | _ \<Rightarrow> None)"

text \<open>The clean-up of a function frees its strings once each; \<open>free_all\<close> tells whether it may.\<close>

definition free_all :: "owned list \<Rightarrow> bool" where
  "free_all ps \<longleftrightarrow> Dangling \<notin> set ps"

type_synonym reader = "bytes \<Rightarrow> (bytes \<times> bytes) option"

text \<open>\<open>free(x); if (!reader(p, &x)) fail;\<close>  A reader that fails does not assign the variable.\<close>

definition reread :: "reader \<Rightarrow> owned \<Rightarrow> (owned \<Rightarrow> 's) \<Rightarrow> bytes \<Rightarrow> 's outcome" where
  "reread reader x set_x s =
     (if x = Dangling then Double_free
      else case reader s of None \<Rightarrow> Stop (set_x (freed x)) | Some (v, r) \<Rightarrow> Next (set_x (Held (c_str v))) r)"

text \<open>\<open>else if (!json_skip_value(p)) fail;\<close>\<close>

definition ignore_value :: "'s \<Rightarrow> bytes \<Rightarrow> 's outcome" where
  "ignore_value st s = (case json_skip_value s of None \<Rightarrow> Stop st | Some r \<Rightarrow> Next st r)"

text \<open>The string of a local variable that is used up at once.\<close>

definition with_string :: "(bytes \<Rightarrow> 's) \<Rightarrow> 's \<Rightarrow> bytes \<Rightarrow> 's outcome" where
  "with_string f st s = (case json_string s of None \<Rightarrow> Stop st | Some (v, r) \<Rightarrow> Next (f (c_str v)) r)"

definition with_bool :: "(bool \<Rightarrow> 's) \<Rightarrow> 's \<Rightarrow> bytes \<Rightarrow> 's outcome" where
  "with_bool f st s = (case json_bool s of None \<Rightarrow> Stop st | Some (v, r) \<Rightarrow> Next (f v) r)"

section \<open>Loops\<close>

text \<open>\<open>while (**p && **p != '}')\<close> with the key, the colon and the commas; \<open>field\<close> is the chain of
  \<open>strcmp\<close> on the key.  \<open>while (**p && **p != ']')\<close> is the loop over items.\<close>

type_synonym 's field = "bytes \<Rightarrow> 's \<Rightarrow> bytes \<Rightarrow> 's outcome"
type_synonym 's item = "'s \<Rightarrow> bytes \<Rightarrow> 's outcome"

fun object_loop :: "nat \<Rightarrow> 's field \<Rightarrow> 's item" where
  "object_loop 0 field st s = Endless"
| "object_loop (Suc n) field st s =
     (if s = [] \<or> hd s = CHR ''}'' then Next st s
      else case json_string s of None \<Rightarrow> Stop st
      | Some (key, r) \<Rightarrow>
          (case json_ws r of [] \<Rightarrow> Stop st
           | c # r \<Rightarrow>
               if c \<noteq> CHR '':'' then Stop st
               else case field (c_str key) st r of
                      Next st r \<Rightarrow> object_loop n field st (after_comma r)
                    | out \<Rightarrow> out))"

fun array_loop :: "nat \<Rightarrow> 's item \<Rightarrow> 's item" where
  "array_loop 0 item st s = Endless"
| "array_loop (Suc n) item st s =
     (if s = [] \<or> hd s = CHR '']'' then Next st s
      else case item st s of Next st r \<Rightarrow> array_loop n item st (after_comma r) | out \<Rightarrow> out)"

definition members :: "'s field \<Rightarrow> 's item" where
  "members field st s = object_loop (Suc (length s)) field st s"

definition items :: "'s item \<Rightarrow> 's item" where
  "items item st s = array_loop (Suc (length s)) item st s"

text \<open>\<open>if (**p != '}') fail; (*p)++;\<close> after a loop.\<close>

definition past_close :: "'s outcome \<Rightarrow> 's outcome" where
  "past_close out = (case out of Next st s \<Rightarrow> if s = [] then Stop st else Next st (tl s) | _ \<Rightarrow> out)"

definition read_object :: "'s field \<Rightarrow> 's item" where
  "read_object field st s =
     (if take 1 s \<noteq> ''{'' then Stop st else past_close (members field st (json_ws (drop 1 s))))"

definition read_array :: "'s item \<Rightarrow> 's item" where
  "read_array item st s =
     (if take 1 s \<noteq> ''['' then Stop st else past_close (items item st (json_ws (drop 1 s))))"

section \<open>Every parser returns and consumes\<close>

definition short :: "bytes \<Rightarrow> 's outcome \<Rightarrow> bool" where
  "short s out \<longleftrightarrow> (case out of Next _ r \<Rightarrow> length r < length s | Endless \<Rightarrow> False | _ \<Rightarrow> True)"

definition short_le :: "bytes \<Rightarrow> 's outcome \<Rightarrow> bool" where
  "short_le s out \<longleftrightarrow> (case out of Next _ r \<Rightarrow> length r \<le> length s | Endless \<Rightarrow> False | _ \<Rightarrow> True)"

definition short_reader :: "reader \<Rightarrow> bool" where
  "short_reader reader \<longleftrightarrow> (\<forall>s v r. reader s = Some (v, r) \<longrightarrow> length r < length s)"

lemma short_simps [simp]:
  "short s (Next st r) = (length r < length s)" "short s (Stop st)" "short s Double_free" "\<not> short s Endless"
  "short_le s (Next st r) = (length r \<le> length s)" "short_le s (Stop st)" "short_le s Double_free" "\<not> short_le s Endless"
  by (simp_all add: short_def short_le_def)

lemma short_weaken: "short s out \<Longrightarrow> length s \<le> length t \<Longrightarrow> short t out"
  by (cases out) auto

lemma short_ws: "short (json_ws s) out \<Longrightarrow> short s out"
  by (rule short_weaken [OF _ json_ws_le])

lemma short_map [simp]: "short s (map_outcome f out) = short s out"
  by (cases out) auto

lemma json_string_shorter: "json_string s = Some (v, r) \<Longrightarrow> length r < length s"
  by (rule suffix_length_less [OF json_string_strict])

lemma json_skip_shorter: "json_skip_value s = Some r \<Longrightarrow> length r < length s"
  by (rule suffix_length_less [OF json_skip_value_strict])

lemma reader_string [short_intros]: "short_reader json_string"
  unfolding short_reader_def by (auto dest: json_string_shorter)

lemma reader_raw [short_intros]: "short_reader json_raw_value"
  unfolding short_reader_def json_raw_value_def Let_def
  by (auto split: option.splits dest!: json_skip_shorter intro: less_le_trans [OF _ json_ws_le])

lemma short_reread [short_intros]: "short_reader reader \<Longrightarrow> short s (reread reader x f s)"
  by (auto simp: reread_def short_reader_def split: option.split)

lemma short_ignore [short_intros]: "short s (ignore_value st s)"
  by (auto simp: ignore_value_def json_skip_shorter split: option.split)

lemma short_string [short_intros]: "short s (with_string f st s)"
  by (auto simp: with_string_def json_string_shorter split: option.split)

lemma json_bool_short: "json_bool s = Some (v, r) \<Longrightarrow> length r < length s"
  by (auto simp: json_bool_def Let_def split: option.splits
      dest!: json_lit_strict suffix_length_less intro: less_le_trans [OF _ json_ws_le])

lemma short_bool [short_intros]: "short s (with_bool f st s)"
  using json_bool_short by (auto simp: with_bool_def split: option.split)

lemma object_loop_short:
  assumes f: "\<And>k st s. short s (field k st s)"
  shows "length s < n \<Longrightarrow> short_le s (object_loop n field st s)"
proof (induction n arbitrary: st s)
  case (Suc n)
  have "short_le s (case field (c_str k) st r of Next st r \<Rightarrow> object_loop n field st (after_comma r) | out \<Rightarrow> out)"
    if j: "json_string s = Some (k, q)" and w: "json_ws q = c # r" for k q c r
  proof (cases "field (c_str k) st r")
    case (Next st' r')
    have "length r < length s" using json_string_shorter [OF j] json_ws_le [of q] w by simp
    moreover have "length r' < length r" using f [of r "c_str k" st] Next by simp
    ultimately have l: "length (after_comma r') < length s" using after_comma_le [of r'] by simp
    then have "short_le (after_comma r') (object_loop n field st' (after_comma r'))" using Suc by simp
    then show ?thesis using Next l by (cases "object_loop n field st' (after_comma r')") auto
  qed (use f [of r "c_str k" st] in auto)
  then show ?case by (auto split: option.split list.split)
qed simp

lemma array_loop_short:
  assumes f: "\<And>st s. short s (item st s)"
  shows "length s < n \<Longrightarrow> short_le s (array_loop n item st s)"
proof (induction n arbitrary: st s)
  case (Suc n)
  show ?case
  proof (cases "item st s")
    case (Next st' r')
    have l: "length (after_comma r') < length s" using f [of s st] Next after_comma_le [of r'] by simp
    then have "short_le (after_comma r') (array_loop n item st' (after_comma r'))" using Suc by simp
    then show ?thesis using Next l by (cases "array_loop n item st' (after_comma r')") auto
  qed (use f [of s st] in auto)
qed simp

lemma short_le_members: "(\<And>k st s. short s (field k st s)) \<Longrightarrow> short_le s (members field st s)"
  unfolding members_def by (rule object_loop_short) auto

lemma short_le_items: "(\<And>st s. short s (item st s)) \<Longrightarrow> short_le s (items item st s)"
  unfolding items_def by (rule array_loop_short) auto

lemma short_past_close: "short_le s out \<Longrightarrow> length s < length t \<Longrightarrow> short t (past_close out)"
  by (cases out) (auto simp: past_close_def)

lemma after_open: "take 1 s = [c] \<Longrightarrow> length (json_ws (drop 1 s)) < length s"
  using json_ws_le [of "drop 1 s"] by (cases s) auto

lemma short_object [short_intros]: "(\<And>k st s. short s (field k st s)) \<Longrightarrow> short s (read_object field st s)"
  unfolding read_object_def by (simp add: short_past_close [OF short_le_members after_open] del: One_nat_def)

lemma short_array [short_intros]: "(\<And>st s. short s (item st s)) \<Longrightarrow> short s (read_array item st s)"
  unfolding read_array_def by (simp add: short_past_close [OF short_le_items after_open] del: One_nat_def)

section \<open>The loops without fuel\<close>

lemma object_loop_fuel:
  assumes f: "\<And>k st s. short s (field k st s)"
  shows "length s < n \<Longrightarrow> length s < m \<Longrightarrow> object_loop n field st s = object_loop m field st s"
proof (induction n arbitrary: m st s)
  case (Suc n)
  then obtain m' where m: "m = Suc m'" by (cases m) auto
  have "(case field (c_str k) st r of Next st r \<Rightarrow> object_loop n field st (after_comma r) | out \<Rightarrow> out)
      = (case field (c_str k) st r of Next st r \<Rightarrow> object_loop m' field st (after_comma r) | out \<Rightarrow> out)"
    if j: "json_string s = Some (k, q)" and w: "json_ws q = c # r" for k q c r
  proof (cases "field (c_str k) st r")
    case (Next st' r')
    have "length r < length s" using json_string_shorter [OF j] json_ws_le [of q] w by simp
    moreover have "length r' < length r" using f [of r "c_str k" st] Next by simp
    ultimately have "length (after_comma r') < length s" using after_comma_le [of r'] by simp
    then show ?thesis using Next Suc.IH [of "after_comma r'" m' st'] Suc.prems m by simp
  qed auto
  then show ?case unfolding m by (auto split: option.split list.split)
qed simp

lemma array_loop_fuel:
  assumes f: "\<And>st s. short s (item st s)"
  shows "length s < n \<Longrightarrow> length s < m \<Longrightarrow> array_loop n item st s = array_loop m item st s"
proof (induction n arbitrary: m st s)
  case (Suc n)
  then obtain m' where m: "m = Suc m'" by (cases m) auto
  show ?case
  proof (cases "item st s")
    case (Next st' r')
    have "length (after_comma r') < length s" using f [of s st] Next after_comma_le [of r'] by simp
    then show ?thesis using Next Suc.IH [of "after_comma r'" m' st'] Suc.prems m by simp
  qed (auto simp: m)
qed simp

lemma members_unfold:
  assumes f: "\<And>k st s. short s (field k st s)"
  shows "members field st s =
     (if s = [] \<or> hd s = CHR ''}'' then Next st s
      else case json_string s of None \<Rightarrow> Stop st
      | Some (key, r) \<Rightarrow>
          (case json_ws r of [] \<Rightarrow> Stop st
           | c # r \<Rightarrow>
               if c \<noteq> CHR '':'' then Stop st
               else case field (c_str key) st r of Next st r \<Rightarrow> members field st (after_comma r) | out \<Rightarrow> out))"
proof -
  have "object_loop (length s) field st' (after_comma r') = members field st' (after_comma r')"
    if j: "json_string s = Some (k, q)" and w: "json_ws q = c # r" and n: "field (c_str k) st r = Next st' r'" for k q c r st' r'
  proof -
    have "length r < length s" using json_string_shorter [OF j] json_ws_le [of q] w by simp
    moreover have "length r' < length r" using f [of r "c_str k" st] n by simp
    ultimately have "length (after_comma r') < length s" using after_comma_le [of r'] by simp
    then show ?thesis unfolding members_def by (intro object_loop_fuel f) auto
  qed
  then show ?thesis
    unfolding members_def [of field st s] object_loop.simps
    by (auto split: option.split list.split outcome.split)
qed

lemma items_unfold:
  assumes f: "\<And>st s. short s (item st s)"
  shows "items item st s =
     (if s = [] \<or> hd s = CHR '']'' then Next st s
      else case item st s of Next st r \<Rightarrow> items item st (after_comma r) | out \<Rightarrow> out)"
proof -
  have "array_loop (length s) item st' (after_comma r') = items item st' (after_comma r')"
    if n: "item st s = Next st' r'" for st' r'
  proof -
    have "length (after_comma r') < length s" using f [of s st] n after_comma_le [of r'] by simp
    then show ?thesis unfolding items_def by (intro array_loop_fuel f) auto
  qed
  then show ?thesis unfolding items_def [of item st s] array_loop.simps by (auto split: outcome.split)
qed

end
