(* ===== verification/Req_Messages.thy ===== *)
theory Req_Messages
  imports Req_Loops Chat_Render
begin

text \<open>
  The \<open>messages\<close> of an OpenAI request (\<open>parse_messages\<close> of \<open>src/ds4_server.c\<close>): the structures being
  filled, tool calls, messages, and a reference client that writes messages.
\<close>

section \<open>Structures being filled\<close>

record raw_call =
  rc_id :: owned
  rc_name :: owned
  rc_arguments :: owned

record raw_msg =
  rm_role :: owned
  rm_content :: owned
  rm_thought :: owned
  rm_ids :: "bytes option \<times> bytes list"
  rm_calls :: tool_calls

definition zero_call :: raw_call where
  "zero_call = \<lparr>rc_id = Null, rc_name = Null, rc_arguments = Null\<rparr>"

definition zero_msg :: raw_msg where
  "zero_msg = \<lparr>rm_role = Null, rm_content = Null, rm_thought = Null, rm_ids = (None, []), rm_calls = no_calls\<rparr>"

text \<open>\<open>tool_call_free\<close> and \<open>chat_msg_free\<close> free each string once; the calls of a message are whole.\<close>

definition tool_call_free :: "raw_call \<Rightarrow> bool" where
  "tool_call_free c = free_all [rc_id c, rc_name c, rc_arguments c]"

definition chat_msg_free :: "raw_msg \<Rightarrow> bool" where
  "chat_msg_free m = free_all [rm_role m, rm_content m, rm_thought m]"

definition chat_msg_add_tool_call_id :: "bytes \<Rightarrow> bytes option \<times> bytes list \<Rightarrow> bytes option \<times> bytes list" where
  "chat_msg_add_tool_call_id i ids =
     (if i = [] then ids
      else (case fst ids of None \<Rightarrow> Some i | Some j \<Rightarrow> Some j,
            if i \<in> set (snd ids) then snd ids else snd ids @ [i]))"

definition whole_call :: "raw_call \<Rightarrow> tool_call" where
  "whole_call c = \<lparr>tc_id = held (rc_id c), tc_name = held (rc_name c), tc_arguments = held (rc_arguments c)\<rparr>"

text \<open>A message without a role is the user's, one without content is empty.\<close>

definition whole_msg :: "raw_msg \<Rightarrow> chat_msg" where
  "whole_msg m =
     \<lparr>msg_role = (case held (rm_role m) of Some s \<Rightarrow> s | None \<Rightarrow> ''user''),
      msg_text = Some (or_empty (held (rm_content m))), msg_thought = held (rm_thought m),
      msg_tool_call_id = fst (rm_ids m), msg_tool_call_ids = snd (rm_ids m), msg_tool_calls = rm_calls m\<rparr>"

section \<open>Tool calls\<close>

text \<open>Arguments are the text in a string, or the text of any other value.\<close>

definition text_or_raw :: reader where
  "text_or_raw s = (let s = json_ws s in if take 1 s = [CHR 0x22] then json_string s else json_raw_value s)"

definition function_field :: "raw_call field" where
  "function_field key c s =
     (if key = ''name'' then reread json_string (rc_name c) (\<lambda>x. c\<lparr>rc_name := x\<rparr>) s
      else if key = ''arguments'' then reread text_or_raw (rc_arguments c) (\<lambda>x. c\<lparr>rc_arguments := x\<rparr>) s
      else ignore_value c s)"

definition parse_function_call :: "raw_call item" where
  "parse_function_call c s = read_object function_field c (json_ws s)"

definition tool_call_field :: "raw_call field" where
  "tool_call_field key c s =
     (if key = ''id'' then reread json_string (rc_id c) (\<lambda>x. c\<lparr>rc_id := x\<rparr>) s
      else if key = ''function'' then parse_function_call c s
      else ignore_value c s)"

text \<open>One element of the array; a call without a name or without arguments is dropped.\<close>

definition tool_call_item :: "tool_calls item" where
  "tool_call_item calls s =
     (case read_object tool_call_field zero_call s of
        Next c r \<Rightarrow>
          if rc_name c \<noteq> Null \<and> rc_arguments c \<noteq> Null then Next (tool_calls_push calls (whole_call c)) r
          else if tool_call_free c then Next calls r else Double_free
      | Stop c \<Rightarrow> if tool_call_free c then Stop calls else Double_free
      | Double_free \<Rightarrow> Double_free
      | Endless \<Rightarrow> Endless)"

definition parse_tool_calls_value :: "tool_calls item" where
  "parse_tool_calls_value calls s =
     (let s = json_ws s
      in case json_lit ''null'' s of Some r \<Rightarrow> Next calls r | None \<Rightarrow> read_array tool_call_item calls s)"

section \<open>Messages\<close>

definition message_field :: "raw_msg field" where
  "message_field key m s =
     (if key = ''role'' then reread json_string (rm_role m) (\<lambda>x. m\<lparr>rm_role := x\<rparr>) s
      else if key = ''content'' then reread json_content (rm_content m) (\<lambda>x. m\<lparr>rm_content := x\<rparr>) s
      else if key = ''reasoning_content'' then reread json_content (rm_thought m) (\<lambda>x. m\<lparr>rm_thought := x\<rparr>) s
      else if key = ''tool_call_id'' then
        with_string (\<lambda>i. m\<lparr>rm_ids := chat_msg_add_tool_call_id i (rm_ids m)\<rparr>) m s
      else if key = ''tool_calls'' then
        map_outcome (\<lambda>calls. m\<lparr>rm_calls := calls\<rparr>) (parse_tool_calls_value no_calls s)
      else ignore_value m s)"

definition message_item :: "chat_msg list item" where
  "message_item msgs s =
     (case read_object message_field zero_msg s of
        Next m r \<Rightarrow> Next (msgs @ [whole_msg m]) r
      | Stop m \<Rightarrow> if chat_msg_free m then Stop msgs else Double_free
      | Double_free \<Rightarrow> Double_free
      | Endless \<Rightarrow> Endless)"

definition parse_messages :: "chat_msg list item" where
  "parse_messages msgs s = read_array message_item msgs (json_ws s)"

section \<open>Every parser returns\<close>

lemma content_items_shorter: "content_items b s = Some (v, r) \<Longrightarrow> length r < length s"
proof (induction b s rule: content_items.induct)
  case (1 b s)
  have step: "length r < length s" if "length r < length (after_comma q)" "length q < length s" for q
    using that after_comma_le [of q] by simp
  show ?case
  proof (cases "s = [] \<or> hd s = CHR '']''")
    case True
    then show ?thesis using "1.prems" unfolding content_items.simps [of b s] by (cases s) auto
  next
    case False
    then have f: "s \<noteq> []" "hd s \<noteq> CHR '']''" by auto
    consider (str) "hd s = CHR 0x22" | (obj) "hd s \<noteq> CHR 0x22" "hd s = CHR ''{''" | (other) "hd s \<noteq> CHR 0x22" "hd s \<noteq> CHR ''{''"
      by blast
    then show ?thesis
    proof cases
      case str
      then obtain w q where w: "json_string s = Some (w, q)" "content_items (b @ c_str w) (after_comma q) = Some (v, r)"
        using "1.prems" f by (auto simp: content_items.simps [of b s] split: option.splits)
      show ?thesis by (rule step [OF "1.IH"(1) [OF f str w(1) refl w(2)] json_string_shorter [OF w(1)]])
    next
      case obj
      then obtain b' q where w: "content_members b (json_ws (tl s)) = Some (b', q)" "content_items b' (after_comma q) = Some (v, r)"
        using "1.prems" f by (auto simp: content_items.simps [of b s] split: option.splits)
      have "length q < length s"
        using suffix_length_less [OF content_members_suffix [OF w(1)]] json_ws_le [of "tl s"] f(1) by (cases s) auto
      then show ?thesis by (rule step [OF "1.IH"(2) [OF f obj w(1) refl w(2)]])
    next
      case other
      then obtain q where w: "json_skip_value s = Some q" "content_items b (after_comma q) = Some (v, r)"
        using "1.prems" f by (auto simp: content_items.simps [of b s] split: option.splits)
      show ?thesis by (rule step [OF "1.IH"(3) [OF f other w] json_skip_shorter [OF w(1)]])
    qed
  qed
qed

lemma reader_content [short_intros]: "short_reader json_content"
proof -
  have "length r < length s" if "json_content s = Some (v, r)" for s v r
  proof -
    let ?s = "json_ws s"
    have "length r < length ?s"
    proof (cases "take 1 ?s = [CHR 0x22]")
      case True
      then show ?thesis using that json_string_shorter by (simp add: json_content_def Let_def)
    next
      case nq: False
      show ?thesis
      proof (cases "json_lit ''null'' ?s")
        case (Some q)
        then show ?thesis using that nq suffix_length_less [OF json_lit_strict [OF Some]]
          by (simp add: json_content_def Let_def)
      next
        case None
        show ?thesis
        proof (cases "take 1 ?s = ''[''")
          case True
          then have "length (json_ws (drop 1 ?s)) < length ?s" by (rule after_open)
          then show ?thesis
            using that nq None True content_items_shorter [of "[]" "json_ws (drop 1 ?s)" v r]
            by (simp add: json_content_def Let_def)
        next
          case False
          then show ?thesis using that nq None by (auto simp: json_content_def Let_def dest: json_skip_shorter)
        qed
      qed
    qed
    then show ?thesis using json_ws_le [of s] by simp
  qed
  then show ?thesis by (simp add: short_reader_def)
qed

lemma reader_text_or_raw [short_intros]: "short_reader text_or_raw"
  using reader_string reader_raw unfolding short_reader_def text_or_raw_def Let_def
  by (auto split: if_splits intro: less_le_trans [OF _ json_ws_le])

lemma short_function [short_intros]: "short s (function_field k c s)"
  by (simp add: function_field_def short_intros)

lemma short_function_call [short_intros]: "short s (parse_function_call c s)"
  unfolding parse_function_call_def by (rule short_ws) (intro short_intros)

lemma short_tool_call_field [short_intros]: "short s (tool_call_field k c s)"
  by (simp add: tool_call_field_def short_intros)

lemma short_tool_call_item [short_intros]: "short s (tool_call_item calls s)"
proof -
  have "short s (read_object tool_call_field zero_call s)" by (intro short_intros)
  then show ?thesis by (cases "read_object tool_call_field zero_call s") (auto simp: tool_call_item_def)
qed

lemma short_lit: "json_lit lit s = Some r \<Longrightarrow> lit \<noteq> [] \<Longrightarrow> length r < length s"
  by (rule suffix_length_less [OF json_lit_strict])

lemma short_tool_calls [short_intros]: "short s (parse_tool_calls_value calls s)"
  unfolding parse_tool_calls_value_def Let_def
  by (rule short_ws) (auto split: option.split intro: short_intros dest: short_lit)

lemma short_message_field [short_intros]: "short s (message_field k m s)"
  by (simp add: message_field_def short_intros)

lemma short_message_item [short_intros]: "short s (message_item msgs s)"
proof -
  have "short s (read_object message_field zero_msg s)" by (intro short_intros)
  then show ?thesis by (cases "read_object message_field zero_msg s") (auto simp: message_item_def)
qed

lemma short_messages [short_intros]: "short s (parse_messages msgs s)"
  unfolding parse_messages_def by (rule short_ws) (intro short_intros)

end
