(* ===== verification/Req_Written.thy ===== *)
theory Req_Written
  imports Req_Messages
begin

text \<open>
  A client that writes conversations as JSON, and the parsers of \<open>Req_Messages\<close> that read them back.
  The calls are written with the members the server's own \<open>append_tool_calls_json\<close> writes, so that
  what the server sent is what comes back with the next request.
\<close>

section \<open>Writing\<close>

definition write_object :: "(bytes \<times> bytes) list \<Rightarrow> bytes" where
  "write_object kvs = ''{'' @ comma_separated (map (\<lambda>(k, v). json_escape k @ '':'' @ v) kvs) @ ''}''"

definition write_array :: "bytes list \<Rightarrow> bytes" where
  "write_array vs = ''['' @ comma_separated vs @ '']''"

definition write_call :: "tool_call \<Rightarrow> bytes" where
  "write_call tc =
     write_object
       [(''id'', json_escape (or_empty (tc_id tc))), (''type'', json_escape ''function''),
        (''function'', write_object
           [(''name'', json_escape (or_empty (tc_name tc))), (''arguments'', json_escape (or_empty (tc_arguments tc)))])]"

definition write_message :: "chat_msg \<Rightarrow> bytes" where
  "write_message m =
     write_object
       ([(''role'', json_escape (msg_role m)), (''content'', json_escape (or_empty (msg_text m)))]
        @ (case msg_thought m of None \<Rightarrow> [] | Some t \<Rightarrow> [(''reasoning_content'', json_escape t)])
        @ (case msg_tool_call_id m of None \<Rightarrow> [] | Some i \<Rightarrow> [(''tool_call_id'', json_escape i)])
        @ (if calls_v (msg_tool_calls m) = [] then []
           else [(''tool_calls'', write_array (map write_call (calls_v (msg_tool_calls m))))]))"

definition write_messages :: "chat_msg list \<Rightarrow> bytes" where
  "write_messages msgs = write_array (map write_message msgs)"

text \<open>What can be written: C strings, whole calls, and one id per message.\<close>

definition c_text :: "bytes \<Rightarrow> bool" where
  "c_text s \<longleftrightarrow> c_str s = s"

definition wire_call :: "tool_call \<Rightarrow> bool" where
  "wire_call tc \<longleftrightarrow>
     (case (tc_id tc, tc_name tc, tc_arguments tc) of (Some i, Some n, Some a) \<Rightarrow> c_text i \<and> c_text n \<and> c_text a | _ \<Rightarrow> False)"

definition wire_msg :: "chat_msg \<Rightarrow> bool" where
  "wire_msg m \<longleftrightarrow>
     c_text (msg_role m) \<and> (case msg_text m of None \<Rightarrow> False | Some t \<Rightarrow> c_text t)
     \<and> (case msg_thought m of None \<Rightarrow> True | Some t \<Rightarrow> c_text t)
     \<and> (case msg_tool_call_id m of None \<Rightarrow> True | Some i \<Rightarrow> c_text i \<and> i \<noteq> [])
     \<and> msg_tool_call_ids m = (case msg_tool_call_id m of None \<Rightarrow> [] | Some i \<Rightarrow> [i])
     \<and> raw_dsml (msg_tool_calls m) = None \<and> list_all wire_call (calls_v (msg_tool_calls m))"

section \<open>Written structures are read back\<close>

lemma ws_quote [simp]: "json_ws (CHR 0x22 # s) = CHR 0x22 # s"
  and ws_brace [simp]: "json_ws (CHR ''{'' # s) = CHR ''{'' # s" "json_ws (CHR ''}'' # s) = CHR ''}'' # s"
  and ws_bracket [simp]: "json_ws (CHR ''['' # s) = CHR ''['' # s" "json_ws (CHR '']'' # s) = CHR '']'' # s"
  and ws_sep [simp]: "json_ws (CHR '':'' # s) = CHR '':'' # s" "json_ws (CHR '','' # s) = CHR '','' # s"
  by (simp_all add: json_ws_def is_cspace_def Let_def)

lemma json_escape_quote: "\<exists>t. json_escape k = CHR 0x22 # t"
  by (simp add: json_escape_def)

lemma json_escape_app: "\<exists>t. json_escape k @ s = CHR 0x22 # t"
  by (simp add: json_escape_def)

lemma after_comma_simps [simp]:
  "after_comma (CHR ''}'' # s) = CHR ''}'' # s" "after_comma (CHR '']'' # s) = CHR '']'' # s"
  "after_comma (CHR '','' # s) = json_ws s"
  by (simp_all add: after_comma_def)

text \<open>The members one by one; a value stands before a comma or the closing bracket.\<close>

definition delimited :: "bytes \<Rightarrow> bool" where
  "delimited s \<longleftrightarrow> s \<noteq> [] \<and> hd s \<in> {CHR '','', CHR ''}'', CHR '']''}"

lemma ex_delimited [simp]: "Ex delimited"
  by (rule exI [of _ "''}''"]) (simp add: delimited_def)

fun reads_fields :: "'s field \<Rightarrow> 's \<Rightarrow> (bytes \<times> bytes) list \<Rightarrow> 's \<Rightarrow> bool" where
  "reads_fields field st [] st' \<longleftrightarrow> st' = st"
| "reads_fields field st ((k, v) # kvs) st' \<longleftrightarrow>
     (\<exists>st1. (\<forall>t. delimited t \<longrightarrow> field (c_str k) st (v @ t) = Next st1 t) \<and> reads_fields field st1 kvs st')"

fun reads_items :: "'s item \<Rightarrow> 's \<Rightarrow> bytes list \<Rightarrow> 's \<Rightarrow> bool" where
  "reads_items item st [] st' \<longleftrightarrow> st' = st"
| "reads_items item st (v # vs) st' \<longleftrightarrow>
     v \<noteq> [] \<and> \<not> is_cspace (hd v) \<and> hd v \<noteq> CHR '']''
     \<and> (\<exists>st1. (\<forall>t. delimited t \<longrightarrow> item st (v @ t) = Next st1 t) \<and> reads_items item st1 vs st')"

lemma c_str_idem [simp]: "c_str (c_str s) = c_str s"
  by (simp add: c_str_def)

abbreviation members_text :: "(bytes \<times> bytes) list \<Rightarrow> bytes" where
  "members_text kvs \<equiv> comma_separated (map (\<lambda>(k, v). json_escape k @ CHR '':'' # v) kvs)"

lemma ws_members [simp]: "json_ws (members_text kvs @ CHR ''}'' # t) = members_text kvs @ CHR ''}'' # t"
proof (cases kvs)
  case (Cons kv kvs')
  obtain k v where "kv = (k, v)" by force
  then have "\<exists>q. members_text kvs @ CHR ''}'' # t = CHR 0x22 # q"
    using Cons json_escape_quote [of k] by (cases kvs') auto
  then show ?thesis by auto
qed simp

lemma members_written:
  assumes f: "\<And>k st s. short s (field k st s)"
  shows "reads_fields field st kvs st' \<Longrightarrow> members field st (members_text kvs @ CHR ''}'' # rest) = Next st' (CHR ''}'' # rest)"
proof (induction kvs arbitrary: st)
  case Nil
  then show ?case by (simp add: members_unfold [OF f])
next
  case (Cons kv kvs)
  obtain k v where kv: "kv = (k, v)" by force
  from Cons.prems obtain st1 where
    r: "\<And>t. delimited t \<Longrightarrow> field (c_str k) st (v @ t) = Next st1 t" and rs: "reads_fields field st1 kvs st'"
    by (auto simp: kv)
  let ?t = "(if kvs = [] then [] else '','' @ members_text kvs) @ CHR ''}'' # rest"
  have s: "members_text (kv # kvs) @ CHR ''}'' # rest = json_escape k @ CHR '':'' # v @ ?t"
    by (cases kvs) (auto simp: kv)
  obtain q where q: "json_escape k @ CHR '':'' # v @ ?t = CHR 0x22 # q" using json_escape_app by blast
  have j: "json_string (CHR 0x22 # q) = Some (c_str k, CHR '':'' # v @ ?t)"
    using json_string_escape [of k "CHR '':'' # v @ ?t"] q by simp
  have d: "delimited ?t" by (cases "kvs = []") (auto simp: delimited_def)
  have a: "after_comma ?t = members_text kvs @ CHR ''}'' # rest"
    by (cases "kvs = []") auto
  have "members field st (CHR 0x22 # q) = members field st1 (after_comma ?t)"
    using j r [OF d] by (subst members_unfold [OF f]) simp
  then show ?case using Cons.IH [OF rs] unfolding s q a by simp
qed

lemma object_written:
  assumes "\<And>k st s. short s (field k st s)" "reads_fields field st kvs st'"
  shows "read_object field st (write_object kvs @ t) = Next st' t"
  using members_written [OF assms(1,2), of t] by (simp add: read_object_def write_object_def past_close_def)

lemma items_written:
  assumes f: "\<And>st s. short s (item st s)"
  shows "reads_items item st vs st' \<Longrightarrow> items item st (json_ws (comma_separated vs @ CHR '']'' # rest)) = Next st' (CHR '']'' # rest)"
proof (induction vs arbitrary: st)
  case Nil
  then show ?case by (simp add: items_unfold [OF f])
next
  case (Cons v vs)
  from Cons.prems obtain st1 where v: "v \<noteq> []" "\<not> is_cspace (hd v)" "hd v \<noteq> CHR '']''" and
    r: "\<And>t. delimited t \<Longrightarrow> item st (v @ t) = Next st1 t" and rs: "reads_items item st1 vs st'"
    by auto
  let ?t = "(if vs = [] then [] else '','' @ comma_separated vs) @ CHR '']'' # rest"
  have s: "comma_separated (v # vs) @ CHR '']'' # rest = v @ ?t" by (cases vs) auto
  have w: "json_ws (v @ ?t) = v @ ?t" using v by (cases v) (auto simp: json_ws_def)
  have d: "delimited ?t" by (cases "vs = []") (auto simp: delimited_def)
  have a: "after_comma ?t = json_ws (comma_separated vs @ CHR '']'' # rest)" by (cases "vs = []") auto
  have "items item st (v @ ?t) = items item st1 (after_comma ?t)"
    using r [OF d] v by (subst items_unfold [OF f]) simp
  then show ?case using Cons.IH [OF rs] unfolding s w a by simp
qed

lemma array_written:
  assumes "\<And>st s. short s (item st s)" "reads_items item st vs st'"
  shows "read_array item st (write_array vs @ t) = Next st' t"
  using items_written [OF assms(1,2), of t] by (simp add: read_array_def write_array_def past_close_def)

text \<open>A written value is not white space.\<close>

lemma object_start [simp]: "\<exists>q. write_object kvs = CHR ''{'' # q" "\<exists>q. write_array vs = CHR ''['' # q"
  by (simp_all add: write_object_def write_array_def)

lemma ws_object [simp]: "json_ws (write_object kvs @ t) = write_object kvs @ t"
  and ws_array [simp]: "json_ws (write_array vs @ t) = write_array vs @ t"
  and ws_escape [simp]: "json_ws (json_escape s @ t) = json_escape s @ t"
  by (simp_all add: write_object_def write_array_def json_escape_def)

lemma reread_string [simp]:
  "x \<noteq> Dangling \<Longrightarrow> reread json_string x f (json_escape s @ t) = Next (f (Held (c_str s))) t"
  by (simp add: reread_def json_string_escape)

lemma escape_opens:
  obtains q where "json_escape s @ t = CHR 0x22 # q" "json_string (CHR 0x22 # q) = Some (c_str s, t)"
  using json_escape_app [of s t] json_string_escape [of s t] by metis

lemma reread_content [simp]:
  "x \<noteq> Dangling \<Longrightarrow> reread json_content x f (json_escape s @ t) = Next (f (Held (c_str s))) t"
  by (rule escape_opens [of s t]) (simp add: reread_def json_content_def Let_def)

lemma reread_text_or_raw [simp]:
  "x \<noteq> Dangling \<Longrightarrow> reread text_or_raw x f (json_escape s @ t) = Next (f (Held (c_str s))) t"
  by (rule escape_opens [of s t]) (simp add: reread_def text_or_raw_def Let_def)

lemma with_string_escape [simp]: "with_string f st (json_escape s @ t) = Next (f (c_str s)) t"
  by (simp add: with_string_def json_string_escape)

lemma ignore_escape [simp]: "ignore_value st (json_escape s @ t) = Next st t"
  by (rule escape_opens [of s t]) (simp add: ignore_value_def json_skip_value_def json_skip_value_depth.simps [of 0] Let_def)

section \<open>Calls and messages\<close>

lemma c_str_literal [simp]:
  "c_str ''id'' = ''id''" "c_str ''type'' = ''type''" "c_str ''function'' = ''function''" "c_str ''name'' = ''name''"
  "c_str ''arguments'' = ''arguments''" "c_str ''role'' = ''role''" "c_str ''content'' = ''content''"
  "c_str ''reasoning_content'' = ''reasoning_content''" "c_str ''tool_call_id'' = ''tool_call_id''"
  "c_str ''tool_calls'' = ''tool_calls''"
  by (simp_all add: c_str_def)

lemma call_read:
  assumes "wire_call tc"
  shows "tool_call_item calls (write_call tc @ t) = Next (tool_calls_push calls tc) t"
proof -
  obtain i n a where tc: "tc = \<lparr>tc_id = Some i, tc_name = Some n, tc_arguments = Some a\<rparr>"
    and c: "c_str i = i" "c_str n = n" "c_str a = a"
    using assms by (cases tc) (auto simp: wire_call_def c_text_def split: option.splits)
  let ?c = "\<lparr>rc_id = Held i, rc_name = Held n, rc_arguments = Held a\<rparr>"
  have fn: "parse_function_call \<lparr>rc_id = Held i, rc_name = Null, rc_arguments = Null\<rparr>
      (write_object [(''name'', json_escape n), (''arguments'', json_escape a)] @ u) = Next ?c u" for u
    unfolding parse_function_call_def ws_object
    by (rule object_written [OF short_function]) (simp add: function_field_def c)
  have "read_object tool_call_field zero_call (write_call tc @ t) = Next ?c t"
    unfolding write_call_def
    by (rule object_written [OF short_tool_call_field])
      (simp add: tool_call_field_def zero_call_def fn tc or_empty_def c)
  then show ?thesis by (simp add: tool_call_item_def whole_call_def held_def tc)
qed

lemma calls_read:
  assumes "list_all wire_call cs" "raw_dsml calls = None"
  shows "parse_tool_calls_value calls (write_array (map write_call cs) @ t) = Next (calls\<lparr>calls_v := calls_v calls @ cs\<rparr>) t"
proof -
  have "reads_items tool_call_item calls (map write_call cs) (calls\<lparr>calls_v := calls_v calls @ cs\<rparr>)"
    using assms(1)
  proof (induction cs arbitrary: calls)
    case (Cons tc cs)
    obtain q where q: "write_call tc = CHR ''{'' # q" using object_start(1) by (metis write_call_def)
    show ?case
      using Cons.IH [of "tool_calls_push calls tc"] Cons.prems call_read [of tc calls] q
      by (simp add: tool_calls_push_def is_cspace_def)
  qed simp
  then have "read_array tool_call_item calls (write_array (map write_call cs) @ t) = Next (calls\<lparr>calls_v := calls_v calls @ cs\<rparr>) t"
    by (rule array_written [OF short_tool_call_item])
  moreover have "json_lit ''null'' (write_array (map write_call cs) @ t) = None"
    by (simp add: json_lit_def write_array_def)
  ultimately show ?thesis by (simp add: parse_tool_calls_value_def Let_def)
qed

lemma reads_fields_append:
  "reads_fields field st a st1 \<Longrightarrow> reads_fields field st1 b st' \<Longrightarrow> reads_fields field st (a @ b) st'"
proof (induction a arbitrary: st)
  case (Cons kv a)
  then show ?case by (cases kv) auto
qed simp

text \<open>The optional members, each on the message filled so far.\<close>

lemma thought_read:
  assumes "rm_thought m = Null" "\<forall>u. x = Some u \<longrightarrow> c_str u = u"
  shows "reads_fields message_field m (case x of None \<Rightarrow> [] | Some u \<Rightarrow> [(''reasoning_content'', json_escape u)])
    (m\<lparr>rm_thought := (case x of None \<Rightarrow> Null | Some u \<Rightarrow> Held u)\<rparr>)"
  using assms by (cases x) (simp_all add: message_field_def)

lemma call_id_read:
  assumes "rm_ids m = (None, [])" "\<forall>i. x = Some i \<longrightarrow> c_str i = i \<and> i \<noteq> []"
  shows "reads_fields message_field m (case x of None \<Rightarrow> [] | Some i \<Rightarrow> [(''tool_call_id'', json_escape i)])
    (m\<lparr>rm_ids := (x, case x of None \<Rightarrow> [] | Some i \<Rightarrow> [i])\<rparr>)"
  using assms by (cases x) (simp_all add: message_field_def chat_msg_add_tool_call_id_def)

lemma message_calls_read:
  assumes "rm_calls m = no_calls" "list_all wire_call cs"
  shows "reads_fields message_field m (if cs = [] then [] else [(''tool_calls'', write_array (map write_call cs))])
    (m\<lparr>rm_calls := \<lparr>calls_v = cs, raw_dsml = None\<rparr>\<rparr>)"
  using assms calls_read [of cs no_calls] by (simp add: message_field_def no_calls_def)

lemma message_read:
  assumes "wire_msg m"
  shows "message_item msgs (write_message m @ t) = Next (msgs @ [m]) t"
proof -
  obtain r x u i cs where m: "m = \<lparr>msg_role = r, msg_text = Some x, msg_thought = u, msg_tool_call_id = i,
      msg_tool_call_ids = (case i of None \<Rightarrow> [] | Some i \<Rightarrow> [i]), msg_tool_calls = \<lparr>calls_v = cs, raw_dsml = None\<rparr>\<rparr>"
    and w: "c_str r = r" "c_str x = x" "\<forall>s. u = Some s \<longrightarrow> c_str s = s" "\<forall>s. i = Some s \<longrightarrow> c_str s = s \<and> s \<noteq> []"
      "list_all wire_call cs"
    using assms by (cases m, cases "msg_tool_calls m") (auto simp: wire_msg_def c_text_def split: option.splits)
  let ?m0 = "zero_msg\<lparr>rm_role := Held r, rm_content := Held x\<rparr>"
  let ?m1 = "?m0\<lparr>rm_thought := (case u of None \<Rightarrow> Null | Some u \<Rightarrow> Held u)\<rparr>"
  let ?m2 = "?m1\<lparr>rm_ids := (i, case i of None \<Rightarrow> [] | Some i \<Rightarrow> [i])\<rparr>"
  let ?m3 = "?m2\<lparr>rm_calls := \<lparr>calls_v = cs, raw_dsml = None\<rparr>\<rparr>"
  have r0: "reads_fields message_field zero_msg [(''role'', json_escape r), (''content'', json_escape x)] ?m0"
    using w by (simp add: message_field_def zero_msg_def)
  have r1: "reads_fields message_field ?m0 (case u of None \<Rightarrow> [] | Some u \<Rightarrow> [(''reasoning_content'', json_escape u)]) ?m1"
    by (rule thought_read) (use w in \<open>simp_all add: zero_msg_def\<close>)
  have r2: "reads_fields message_field ?m1 (case i of None \<Rightarrow> [] | Some i \<Rightarrow> [(''tool_call_id'', json_escape i)]) ?m2"
    by (rule call_id_read) (use w in \<open>simp_all add: zero_msg_def\<close>)
  have r3: "reads_fields message_field ?m2 (if cs = [] then [] else [(''tool_calls'', write_array (map write_call cs))]) ?m3"
    by (rule message_calls_read) (use w in \<open>simp_all add: zero_msg_def\<close>)
  have "read_object message_field zero_msg (write_message m @ t) = Next ?m3 t"
    unfolding write_message_def m chat_msg.simps tool_calls.simps or_empty_def option.case
    by (rule object_written [OF short_message_field reads_fields_append [OF r0 reads_fields_append [OF r1 reads_fields_append [OF r2 r3]]]])
  moreover have "whole_msg ?m3 = m"
    by (cases u) (simp_all add: whole_msg_def held_def zero_msg_def m or_empty_def)
  ultimately show ?thesis by (simp add: message_item_def)
qed

lemma messages_read:
  assumes "list_all wire_msg ms"
  shows "parse_messages msgs (write_messages ms @ t) = Next (msgs @ ms) t"
proof -
  have "reads_items message_item msgs (map write_message ms) (msgs @ ms)"
    using assms
  proof (induction ms arbitrary: msgs)
    case (Cons m ms)
    obtain q where q: "write_message m = CHR ''{'' # q" using object_start(1) by (metis write_message_def)
    show ?case
      using Cons.IH [of "msgs @ [m]"] Cons.prems message_read [of m msgs] q by (simp add: is_cspace_def)
  qed simp
  then show ?thesis
    unfolding parse_messages_def write_messages_def ws_array by (rule array_written [OF short_message_item])
qed

section \<open>The server's own calls\<close>

lemma escape_plain: "json_escape ''id'' = quoted ''id''" "json_escape ''type'' = quoted ''type''"
  "json_escape ''function'' = quoted ''function''" "json_escape ''name'' = quoted ''name''"
  "json_escape ''arguments'' = quoted ''arguments''"
  by code_simp+

text \<open>The calls as the response shows them: with an id, and the arguments as one object.\<close>

definition shown_calls :: "tool_call list \<Rightarrow> bytes \<Rightarrow> tool_call list" where
  "shown_calls cs id_prefix =
     map (\<lambda>(i, tc). \<lparr>tc_id = Some (call_id_or id_prefix i tc), tc_name = Some (or_empty (tc_name tc)),
                     tc_arguments = Some (append_json_object_or_empty (tc_arguments tc))\<rparr>) (enumerate 0 cs)"

lemma append_tool_calls_json_written:
  "append_tool_calls_json calls id_prefix = write_array (map write_call (shown_calls (calls_v calls) id_prefix))"
proof -
  have "''{'' @ call_function_json id_prefix i tc
      = write_call \<lparr>tc_id = Some (call_id_or id_prefix i tc), tc_name = Some (or_empty (tc_name tc)),
                   tc_arguments = Some (append_json_object_or_empty (tc_arguments tc))\<rparr>" for i tc
    unfolding write_call_def write_object_def call_function_json_def append_json_object_string_def
    by (simp add: escape_plain or_empty_def)
  then show ?thesis
    unfolding append_tool_calls_json_def write_array_def shown_calls_def by (simp add: comp_def case_prod_unfold)
qed

end
