(* ===== verification/Req_Fields.thy ===== *)
theory Req_Fields
  imports Req_Messages
begin

text \<open>
  The smaller values of a request (\<open>src/ds4_server.c\<close>): thinking and effort, stop sequences, stream
  options; and the content of Anthropic and Responses messages.
\<close>

section \<open>Thinking\<close>

definition think_mode_from_enabled :: "bool \<Rightarrow> ds4_think_mode \<Rightarrow> ds4_think_mode" where
  "think_mode_from_enabled enabled effort =
     (if \<not> enabled \<or> effort = THINK_NONE then THINK_NONE
      else if effort = THINK_MAX then THINK_MAX else THINK_HIGH)"

definition ds4_think_mode_for_context :: "ds4_think_mode \<Rightarrow> int \<Rightarrow> ds4_think_mode" where
  "ds4_think_mode_for_context mode ctx_size =
     (if mode = THINK_MAX \<and> (if ctx_size > 0 then ctx_size else 0) < 393216 then THINK_HIGH else mode)"

definition parse_reasoning_effort_name :: "bytes \<Rightarrow> ds4_think_mode option" where
  "parse_reasoning_effort_name s =
     (if s = ''max'' then Some THINK_MAX
      else if s = ''xhigh'' \<or> s = ''high'' \<or> s = ''medium'' \<or> s = ''low'' \<or> s = ''minimal'' then Some THINK_HIGH
      else if s = ''none'' then Some THINK_NONE
      else None)"

definition parse_reasoning_effort_value :: "ds4_think_mode item" where
  "parse_reasoning_effort_value effort s =
     (let s = json_ws s
      in case json_lit ''null'' s of Some r \<Rightarrow> Next effort r
         | None \<Rightarrow>
             (case json_string s of None \<Rightarrow> Stop effort
              | Some (v, r) \<Rightarrow>
                  (case parse_reasoning_effort_name (c_str v) of None \<Rightarrow> Stop effort | Some m \<Rightarrow> Next m r)))"

definition thinking_field :: "bool field" where
  "thinking_field key enabled s =
     (if key = ''type'' then
        with_string (\<lambda>v. if v = ''enabled'' then True else if v = ''disabled'' then False else enabled) enabled s
      else ignore_value enabled s)"

definition parse_thinking_control_value :: "bool item" where
  "parse_thinking_control_value enabled s =
     (let s = json_ws s
      in case json_lit ''null'' s of Some r \<Rightarrow> Next enabled r
         | None \<Rightarrow>
             if take 1 s = ''t'' \<or> take 1 s = ''f'' then with_bool (\<lambda>v. v) enabled s
             else if take 1 s \<noteq> ''{'' then ignore_value enabled s
             else read_object thinking_field enabled s)"

definition effort_field :: "ds4_think_mode field" where
  "effort_field key effort s =
     (if key = ''effort'' then parse_reasoning_effort_value effort s else ignore_value effort s)"

definition parse_output_config_effort :: "ds4_think_mode item" where
  "parse_output_config_effort effort s =
     (let s = json_ws s
      in case json_lit ''null'' s of Some r \<Rightarrow> Next effort r
         | None \<Rightarrow> if take 1 s \<noteq> ''{'' then ignore_value effort s else read_object effort_field effort s)"

definition model_alias_disables_thinking :: "bytes option \<Rightarrow> bool" where
  "model_alias_disables_thinking model \<longleftrightarrow> model = Some ''deepseek-chat''"

definition model_alias_enables_thinking :: "bytes option \<Rightarrow> bool" where
  "model_alias_enables_thinking model \<longleftrightarrow> model = Some ''deepseek-reasoner''"

section \<open>Options\<close>

definition stream_option_field :: "bool field" where
  "stream_option_field key usage s =
     (if key = ''include_usage'' then with_bool (\<lambda>v. v) usage s else ignore_value usage s)"

definition parse_stream_options :: "bool item" where
  "parse_stream_options usage s =
     (let s = json_ws s
      in if take 1 s \<noteq> ''{'' then ignore_value usage s else read_object stream_option_field usage s)"

text \<open>The effort and the summary mode of a Responses request; the last flag says that an effort was given.\<close>

definition reasoning_field :: "(ds4_think_mode \<times> bool \<times> bool) field" where
  "reasoning_field key st s =
     (case st of (effort, summary, seen) \<Rightarrow>
        let s = (if key = ''effort'' \<or> key = ''summary'' then json_ws s else s) in
        if key = ''effort'' then
          (case json_lit ''null'' s of Some r \<Rightarrow> Next st r
           | None \<Rightarrow>
               (case parse_reasoning_effort_value effort s of
                  Next effort r \<Rightarrow> Next (effort, summary, True) r
                | Stop effort \<Rightarrow> Stop (effort, summary, seen)
                | Double_free \<Rightarrow> Double_free
                | Endless \<Rightarrow> Endless))
        else if key = ''summary'' then
          (case json_lit ''null'' s of Some r \<Rightarrow> Next st r
           | None \<Rightarrow>
               if take 1 s = [CHR 0x22] then
                 with_string (\<lambda>mode. (effort, summary \<or> mode = ''auto'' \<or> mode = ''concise'' \<or> mode = ''detailed'', seen)) st s
               else ignore_value st s)
        else ignore_value st s)"

definition parse_responses_reasoning :: "(ds4_think_mode \<times> bool \<times> bool) item" where
  "parse_responses_reasoning st s =
     (let s = json_ws s
      in case json_lit ''null'' s of Some r \<Rightarrow> Next st r
         | None \<Rightarrow> if take 1 s \<noteq> ''{'' then ignore_value st s else read_object reasoning_field st s)"

section \<open>Anthropic messages\<close>

record raw_block =
  ab_type :: owned
  ab_text :: owned
  ab_thinking :: owned
  ab_id :: owned
  ab_name :: owned
  ab_input :: owned
  ab_result :: owned

definition zero_block :: raw_block where
  "zero_block = \<lparr>ab_type = Null, ab_text = Null, ab_thinking = Null, ab_id = Null, ab_name = Null,
     ab_input = Null, ab_result = Null\<rparr>"

definition block_free :: "raw_block \<Rightarrow> bool" where
  "block_free b = free_all [ab_type b, ab_text b, ab_thinking b, ab_id b, ab_name b, ab_input b, ab_result b]"

definition block_field :: "raw_block field" where
  "block_field key b s =
     (if key = ''type'' then reread json_string (ab_type b) (\<lambda>x. b\<lparr>ab_type := x\<rparr>) s
      else if key = ''text'' then reread json_content (ab_text b) (\<lambda>x. b\<lparr>ab_text := x\<rparr>) s
      else if key = ''thinking'' then reread json_content (ab_thinking b) (\<lambda>x. b\<lparr>ab_thinking := x\<rparr>) s
      else if key = ''id'' \<or> key = ''tool_use_id'' then reread json_string (ab_id b) (\<lambda>x. b\<lparr>ab_id := x\<rparr>) s
      else if key = ''name'' then reread json_string (ab_name b) (\<lambda>x. b\<lparr>ab_name := x\<rparr>) s
      else if key = ''input'' then reread json_raw_value (ab_input b) (\<lambda>x. b\<lparr>ab_input := x\<rparr>) s
      else if key = ''content'' then reread json_content (ab_result b) (\<lambda>x. b\<lparr>ab_result := x\<rparr>) s
      else ignore_value b s)"

text \<open>\<open>buf_puts(&b, x ? x : ""); buf_puts(&b, s); free(x); x = buf_take(&b);\<close>\<close>

definition appended :: "owned \<Rightarrow> bytes \<Rightarrow> owned" where
  "appended x s = Held (or_empty (held x) @ s)"

definition apply_block :: "raw_block \<Rightarrow> raw_msg \<Rightarrow> raw_msg" where
  "apply_block b m =
     (if ab_type b = Held ''tool_use'' then
        m\<lparr>rm_calls := tool_calls_push (rm_calls m)
            \<lparr>tc_id = held (ab_id b), tc_name = Some (or_empty (held (ab_name b))),
             tc_arguments = Some (case held (ab_input b) of Some x \<Rightarrow> x | None \<Rightarrow> ''{}'')\<rparr>\<rparr>
      else if ab_type b = Held ''tool_result'' then
        m\<lparr>rm_ids := chat_msg_add_tool_call_id (or_empty (held (ab_id b))) (rm_ids m),
          rm_content := appended (rm_content m)
            (''<tool_result>'' @ append_tool_result_text (held (ab_result b)) @ ''</tool_result>'')\<rparr>
      else
        (let m = (case held (ab_text b) of None \<Rightarrow> m | Some t \<Rightarrow> m\<lparr>rm_content := appended (rm_content m) t\<rparr>)
         in case held (ab_thinking b) of None \<Rightarrow> m | Some t \<Rightarrow> m\<lparr>rm_thought := appended (rm_thought m) t\<rparr>))"

definition parse_anthropic_content_block :: "raw_msg item" where
  "parse_anthropic_content_block m s =
     (case read_object block_field zero_block s of
        Next b r \<Rightarrow> Next (apply_block b m) r
      | Stop b \<Rightarrow> if block_free b then Stop m else Double_free
      | Double_free \<Rightarrow> Double_free
      | Endless \<Rightarrow> Endless)"

definition anthropic_content_item :: "raw_msg item" where
  "anthropic_content_item m s =
     (if take 1 s = [CHR 0x22] then with_string (\<lambda>v. m\<lparr>rm_content := appended (rm_content m) v\<rparr>) m s
      else if take 1 s = ''{'' then parse_anthropic_content_block m s
      else ignore_value m s)"

definition parse_anthropic_content :: "raw_msg item" where
  "parse_anthropic_content m s =
     (let s = json_ws s
      in if take 1 s = [CHR 0x22] then with_string (\<lambda>v. m\<lparr>rm_content := Held v\<rparr>) m s
         else case json_lit ''null'' s of Some r \<Rightarrow> Next (m\<lparr>rm_content := Held []\<rparr>) r
         | None \<Rightarrow>
             if take 1 s \<noteq> ''['' then ignore_value m s
             else case read_array anthropic_content_item m s of
                    Next m r \<Rightarrow> Next (if rm_content m = Null then m\<lparr>rm_content := Held []\<rparr> else m) r
                  | out \<Rightarrow> out)"

text \<open>\<open>content\<close> is freed and cleared before it is read.\<close>

definition anthropic_message_field :: "raw_msg field" where
  "anthropic_message_field key m s =
     (if key = ''role'' then reread json_string (rm_role m) (\<lambda>x. m\<lparr>rm_role := x\<rparr>) s
      else if key = ''content'' then
        (if rm_content m = Dangling then Double_free else parse_anthropic_content (m\<lparr>rm_content := Null\<rparr>) s)
      else ignore_value m s)"

definition anthropic_message_item :: "chat_msg list item" where
  "anthropic_message_item msgs s =
     (case read_object anthropic_message_field zero_msg s of
        Next m r \<Rightarrow> Next (msgs @ [whole_msg m]) r
      | Stop m \<Rightarrow> if chat_msg_free m then Stop msgs else Double_free
      | Double_free \<Rightarrow> Double_free
      | Endless \<Rightarrow> Endless)"

definition parse_anthropic_messages :: "chat_msg list item" where
  "parse_anthropic_messages msgs s = read_array anthropic_message_item msgs (json_ws s)"

section \<open>The system text of an Anthropic request\<close>

definition anthropic_system_part_is_private :: "bytes \<Rightarrow> bool" where
  "anthropic_system_part_is_private s \<longleftrightarrow> take 12 s = ''x-anthropic-''"

definition append_anthropic_system_part :: "bytes \<Rightarrow> bytes \<Rightarrow> bytes" where
  "append_anthropic_system_part b s =
     (if s = [] \<or> anthropic_system_part_is_private s then b
      else b @ (if b \<noteq> [] \<and> last b \<noteq> CHR 0x0a then [CHR 0x0a] else []) @ s)"

definition system_field :: "bytes field" where
  "system_field key b s =
     (if key = ''text'' then with_string (append_anthropic_system_part b) b s else ignore_value b s)"

definition parse_anthropic_system_object :: "bytes item" where
  "parse_anthropic_system_object b s = read_object system_field b s"

definition system_item :: "bytes item" where
  "system_item b s =
     (if take 1 s = [CHR 0x22] then with_string (append_anthropic_system_part b) b s
      else if take 1 s = ''{'' then parse_anthropic_system_object b s
      else ignore_value b s)"

text \<open>These two parsers free no string twice; as readers they give the text only when they succeed.\<close>

definition as_reader :: "bytes outcome \<Rightarrow> (bytes \<times> bytes) option" where
  "as_reader out = (case out of Next b r \<Rightarrow> Some (b, r) | _ \<Rightarrow> None)"

definition parse_anthropic_system :: reader where
  "parse_anthropic_system s =
     as_reader
       (let s = json_ws s
        in if take 1 s = [CHR 0x22] then with_string (append_anthropic_system_part []) [] s
           else case json_lit ''null'' s of Some r \<Rightarrow> Next [] r
           | None \<Rightarrow> if take 1 s \<noteq> ''['' then ignore_value [] s else read_array system_item [] s)"

section \<open>Content of Responses items\<close>

definition typed_text_field :: "(bytes option \<times> bytes option) field" where
  "typed_text_field key st s =
     (case st of (type, text) \<Rightarrow>
        if key = ''type'' then with_string (\<lambda>v. (Some v, text)) st s
        else if key = ''text'' then
          (let s = json_ws s
           in case json_lit ''null'' s of Some r \<Rightarrow> Next (type, Some []) r
              | None \<Rightarrow> with_string (\<lambda>v. (type, Some v)) st s)
        else ignore_value st s)"

definition is_text_block :: "bytes option \<Rightarrow> bool" where
  "is_text_block type \<longleftrightarrow>
     type \<in> Some ` {''input_text'', ''output_text'', ''text'', ''summary_text'', ''reasoning_text''}"

definition responses_content_item :: "bytes item" where
  "responses_content_item b s =
     (if take 1 s = [CHR 0x22] then with_string (\<lambda>v. b @ v) b s
      else if take 1 s = ''{'' then
        (case read_object typed_text_field (None, None) s of
           Next (type, Some text) r \<Rightarrow> if is_text_block type then Next (b @ text) r else Stop b
         | Next (type, None) r \<Rightarrow> Stop b
         | Stop _ \<Rightarrow> Stop b
         | Double_free \<Rightarrow> Double_free
         | Endless \<Rightarrow> Endless)
      else Stop b)"

definition parse_responses_content_array :: reader where
  "parse_responses_content_array s =
     as_reader
       (let s = json_ws s
        in if take 1 s = [CHR 0x22] then with_string (\<lambda>v. v) [] s
           else case json_lit ''null'' s of Some r \<Rightarrow> Next [] r
           | None \<Rightarrow> if take 1 s \<noteq> ''['' then Stop [] else read_array responses_content_item [] s)"

section \<open>Every parser returns\<close>

lemma short_null [short_intros]:
  "(json_lit ''null'' s = None \<Longrightarrow> short s out) \<Longrightarrow> short s (case json_lit ''null'' s of Some r \<Rightarrow> Next st r | None \<Rightarrow> out)"
  using suffix_length_less [OF json_lit_strict] by (cases "json_lit ''null'' s") auto

lemma short_effort_value [short_intros]: "short s (parse_reasoning_effort_value effort s)"
  unfolding parse_reasoning_effort_value_def Let_def
  by (rule short_ws, rule short_null) (auto split: option.split dest: json_string_shorter)

lemma short_thinking [short_intros]: "short s (parse_thinking_control_value enabled s)"
  unfolding parse_thinking_control_value_def Let_def
  by (rule short_ws, rule short_null) (simp add: short_intros thinking_field_def)

lemma short_output_config [short_intros]: "short s (parse_output_config_effort effort s)"
  unfolding parse_output_config_effort_def Let_def
  by (rule short_ws, rule short_null) (simp add: short_intros effort_field_def)

lemma short_stream_options [short_intros]: "short s (parse_stream_options usage s)"
  unfolding parse_stream_options_def Let_def
  by (rule short_ws) (simp add: short_intros stream_option_field_def)

lemma short_reasoning_field [short_intros]: "short s (reasoning_field k st s)"
proof -
  obtain effort summary seen where st: "st = (effort, summary, seen)" by (cases st)
  have e: "short (json_ws s) (case parse_reasoning_effort_value effort (json_ws s) of Next effort r \<Rightarrow> Next (effort, summary, True) r
      | Stop effort \<Rightarrow> Stop (effort, summary, seen) | Double_free \<Rightarrow> Double_free | Endless \<Rightarrow> Endless)"
    using short_effort_value [of "json_ws s" effort] by (cases "parse_reasoning_effort_value effort (json_ws s)") auto
  show ?thesis
    unfolding reasoning_field_def st Let_def using e by (simp add: short_intros short_ws [OF short_null])
qed

lemma short_reasoning [short_intros]: "short s (parse_responses_reasoning st s)"
  unfolding parse_responses_reasoning_def Let_def
  by (rule short_ws, rule short_null) (simp add: short_intros)

lemma short_block_field [short_intros]: "short s (block_field k b s)"
  by (simp add: block_field_def short_intros)

lemma short_content_block [short_intros]: "short s (parse_anthropic_content_block m s)"
proof -
  have "short s (read_object block_field zero_block s)" by (intro short_intros)
  then show ?thesis by (cases "read_object block_field zero_block s") (auto simp: parse_anthropic_content_block_def)
qed

lemma short_anthropic_item [short_intros]: "short s (anthropic_content_item m s)"
  by (simp add: anthropic_content_item_def short_intros)

lemma short_anthropic_content [short_intros]: "short s (parse_anthropic_content m s)"
proof -
  have "short q (case read_array anthropic_content_item m q of
      Next m r \<Rightarrow> Next (if rm_content m = Null then m\<lparr>rm_content := Held []\<rparr> else m) r | out \<Rightarrow> out)" for q
  proof -
    have "short q (read_array anthropic_content_item m q)" by (intro short_intros)
    then show ?thesis by (cases "read_array anthropic_content_item m q") auto
  qed
  then show ?thesis
    unfolding parse_anthropic_content_def Let_def by (intro short_ws [of s]) (simp add: short_intros)
qed

lemma short_anthropic_field [short_intros]: "short s (anthropic_message_field k m s)"
  by (simp add: anthropic_message_field_def short_intros)

lemma short_anthropic_message [short_intros]: "short s (anthropic_message_item msgs s)"
proof -
  have "short s (read_object anthropic_message_field zero_msg s)" by (intro short_intros)
  then show ?thesis
    by (cases "read_object anthropic_message_field zero_msg s") (auto simp: anthropic_message_item_def)
qed

lemma short_anthropic_messages [short_intros]: "short s (parse_anthropic_messages msgs s)"
  unfolding parse_anthropic_messages_def by (rule short_ws) (intro short_intros)

lemma short_as_reader: "(\<And>s. short s (f s)) \<Longrightarrow> short_reader (\<lambda>s. as_reader (f s))"
proof -
  assume f: "\<And>s. short s (f s)"
  have "length r < length s" if "as_reader (f s) = Some (v, r)" for s v r
    using that f [of s] by (cases "f s") (auto simp: as_reader_def)
  then show ?thesis by (simp add: short_reader_def)
qed

lemma short_system_item [short_intros]: "short s (system_item b s)"
  by (simp add: system_item_def parse_anthropic_system_object_def system_field_def short_intros)

lemma reader_system [short_intros]: "short_reader parse_anthropic_system"
  unfolding parse_anthropic_system_def [abs_def] Let_def
  by (rule short_as_reader, rule short_ws) (simp add: short_intros)

lemma short_typed_text [short_intros]: "short s (typed_text_field k st s)"
proof -
  obtain ty tx where st: "st = (ty, tx)" by (cases st)
  have "short (json_ws s) (case json_lit ''null'' (json_ws s) of Some r \<Rightarrow> Next (ty, Some []) r
      | None \<Rightarrow> with_string (\<lambda>v. (ty, Some v)) st (json_ws s))"
    by (intro short_intros)
  from short_ws [OF this] show ?thesis unfolding typed_text_field_def st Let_def by (simp add: short_intros)
qed

lemma short_responses_content [short_intros]: "short s (responses_content_item b s)"
proof -
  have "short s (read_object typed_text_field (None, None) s)" by (intro short_intros)
  then show ?thesis
    by (cases "read_object typed_text_field (None, None) s")
      (auto simp: responses_content_item_def short_intros split: option.split)
qed

lemma reader_responses_content [short_intros]: "short_reader parse_responses_content_array"
  unfolding parse_responses_content_array_def [abs_def] Let_def
  by (rule short_as_reader, rule short_ws) (simp add: short_intros)

end
