(* ===== verification/Req_Tools.thy ===== *)
theory Req_Tools
  imports Req_Loops
begin

text \<open>
  The \<open>tools\<close> of a request (\<open>parse_tools_value\<close> of \<open>src/ds4_server.c\<close>): the schemas that go into the
  prompt, one per line, and the order of the parameters of every tool.  A function that frees local
  strings returns \<^const>\<open>None\<close> where it frees one of them twice.
\<close>

section \<open>Parameter orders\<close>

record tool_schema_order =
  so_name :: bytes
  so_wire_name :: "bytes option"
  so_namespace :: "bytes option"
  so_tool_search :: bool
  so_props :: "bytes list"

type_synonym tool_schema_orders = "tool_schema_order list"

text \<open>The position of a name, the length of the list when it is not there.\<close>

definition tool_schema_orders_find_index :: "tool_schema_orders \<Rightarrow> bytes \<Rightarrow> nat" where
  "tool_schema_orders_find_index orders name = length (takeWhile (\<lambda>ord. so_name ord \<noteq> name) orders)"

definition tool_schema_orders_push :: "tool_schema_orders \<Rightarrow> tool_schema_order \<Rightarrow> tool_schema_orders" where
  "tool_schema_orders_push orders ord =
     (let idx = tool_schema_orders_find_index orders (so_name ord)
      in if idx < length orders then orders[idx := ord] else orders @ [ord])"

definition property_field :: "bytes list field" where
  "property_field key props s = ignore_value (props @ [key]) s"

definition schema_field :: "bytes list field" where
  "schema_field key props s =
     (if key = ''properties'' then read_object property_field props (json_ws s) else ignore_value props s)"

text \<open>The caller ignores whether the schema was well formed and keeps the names found so far.\<close>

definition parse_schema_properties :: "bytes \<Rightarrow> bytes list \<Rightarrow> bytes list" where
  "parse_schema_properties json props =
     (let s = json_ws json
      in if take 1 s \<noteq> ''{'' then props
         else case members schema_field props (json_ws (drop 1 s)) of Next ps _ \<Rightarrow> ps | Stop ps \<Rightarrow> ps | _ \<Rightarrow> props)"

definition order_field :: "(owned \<times> bytes list) field" where
  "order_field key st s =
     (case st of (name, props) \<Rightarrow>
        if key = ''name'' then reread json_string name (\<lambda>x. (x, props)) s
        else if key = ''input_schema'' \<or> key = ''parameters'' then
          (case json_raw_value s of None \<Rightarrow> Stop st
           | Some (schema, r) \<Rightarrow> Next (name, parse_schema_properties (c_str schema) props) r)
        else ignore_value st s)"

definition tool_schema_orders_add_json_wire ::
  "tool_schema_orders \<Rightarrow> bytes \<Rightarrow> bytes option \<Rightarrow> bytes option \<Rightarrow> bool \<Rightarrow> tool_schema_orders option" where
  "tool_schema_orders_add_json_wire orders json namespace wire_name tool_search =
     (let s = json_ws json
      in if take 1 s \<noteq> ''{'' then Some orders
         else case members order_field (Null, []) (json_ws (drop 1 s)) of
           Next (name, props) _ \<Rightarrow>
             (case held name of None \<Rightarrow> if free_all [name] then Some orders else None
              | Some n \<Rightarrow> Some (tool_schema_orders_push orders
                  \<lparr>so_name = n, so_wire_name = (if or_empty wire_name = [] then None else wire_name),
                   so_namespace = (if or_empty namespace = [] then None else namespace),
                   so_tool_search = tool_search, so_props = props\<rparr>))
         | Stop (name, props) \<Rightarrow> if free_all [name] then Some orders else None
         | _ \<Rightarrow> None)"

definition tool_schema_orders_add_json :: "tool_schema_orders \<Rightarrow> bytes \<Rightarrow> tool_schema_orders option" where
  "tool_schema_orders_add_json orders json = tool_schema_orders_add_json_wire orders json None None False"

section \<open>Schemas\<close>

definition append_raw_json_line :: "bytes \<Rightarrow> bytes \<Rightarrow> bytes" where
  "append_raw_json_line b json = (if json = [] then b else b @ (if b \<noteq> [] then [CHR 0x0a] else []) @ json)"

text \<open>The loop returns the value of the first \<open>"function"\<close> member.\<close>

definition function_member :: "bytes option field" where
  "function_member key found s =
     (if key = ''function'' then Stop (map_option (c_str \<circ> fst) (json_raw_value s)) else ignore_value found s)"

definition openai_function_schema_from_tool :: "bytes \<Rightarrow> bytes option" where
  "openai_function_schema_from_tool raw =
     (let s = json_ws raw
      in if take 1 s \<noteq> ''{'' then None
         else case members function_member None (json_ws (drop 1 s)) of Stop found \<Rightarrow> found | _ \<Rightarrow> None)"

record raw_schema =
  rs_type :: owned
  rs_name :: owned
  rs_description :: owned
  rs_parameters :: owned

definition zero_schema :: raw_schema where
  "zero_schema = \<lparr>rs_type = Null, rs_name = Null, rs_description = Null, rs_parameters = Null\<rparr>"

definition schema_free :: "raw_schema \<Rightarrow> bool" where
  "schema_free x = free_all [rs_type x, rs_name x, rs_description x, rs_parameters x]"

definition schema_json :: "bytes \<Rightarrow> bytes \<Rightarrow> owned \<Rightarrow> bytes" where
  "schema_json name description parameters =
     ''{'' @ quoted ''name'' @ '':'' @ name @ '','' @ quoted ''description'' @ '':'' @ json_escape description @ '',''
     @ quoted ''parameters'' @ '':''
     @ (case held parameters of Some x \<Rightarrow> x
        | None \<Rightarrow> ''{'' @ quoted ''type'' @ '':'' @ quoted ''object'' @ '','' @ quoted ''properties'' @ '':{}}'') @ ''}''"

definition special_field :: "raw_schema field" where
  "special_field key st s =
     (if key = ''type'' then reread json_string (rs_type st) (\<lambda>x. st\<lparr>rs_type := x\<rparr>) s
      else if key = ''description'' then reread json_string (rs_description st) (\<lambda>x. st\<lparr>rs_description := x\<rparr>) s
      else if key = ''parameters'' then reread json_raw_value (rs_parameters st) (\<lambda>x. st\<lparr>rs_parameters := x\<rparr>) s
      else ignore_value st s)"

text \<open>The common frame: the loop, what is built when it ends, and the clean-up on every way out.\<close>

definition schema_from :: "raw_schema field \<Rightarrow> (raw_schema \<Rightarrow> 'a option) \<Rightarrow> bytes \<Rightarrow> 'a option option" where
  "schema_from field build raw =
     (let s = json_ws raw
      in if take 1 s \<noteq> ''{'' then Some None
         else case members field zero_schema (json_ws (drop 1 s)) of
           Next st _ \<Rightarrow> if schema_free st then Some (build st) else None
         | Stop st \<Rightarrow> if schema_free st then Some None else None
         | _ \<Rightarrow> None)"

definition responses_special_schema_from_tool :: "bytes \<Rightarrow> bytes option option" where
  "responses_special_schema_from_tool raw =
     schema_from special_field
       (\<lambda>st. if rs_type st = Held ''tool_search''
             then Some (schema_json (quoted ''tool_search'')
               (case held (rs_description st) of Some d \<Rightarrow> d | None \<Rightarrow> ''Search available tools.'') (rs_parameters st))
             else None) raw"

definition namespace_function_field :: "raw_schema field" where
  "namespace_function_field key st s =
     (if key = ''type'' then reread json_string (rs_type st) (\<lambda>x. st\<lparr>rs_type := x\<rparr>) s
      else if key = ''name'' then reread json_string (rs_name st) (\<lambda>x. st\<lparr>rs_name := x\<rparr>) s
      else if key = ''description'' then reread json_string (rs_description st) (\<lambda>x. st\<lparr>rs_description := x\<rparr>) s
      else if key = ''parameters'' \<or> key = ''input_schema'' then
        reread json_raw_value (rs_parameters st) (\<lambda>x. st\<lparr>rs_parameters := x\<rparr>) s
      else ignore_value st s)"

text \<open>The schema and the name the client knows the tool by.\<close>

definition responses_namespace_function_schema_from_tool :: "bytes \<Rightarrow> bytes \<Rightarrow> (bytes \<times> bytes) option option" where
  "responses_namespace_function_schema_from_tool raw namespace =
     schema_from namespace_function_field
       (\<lambda>st. case held (rs_name st) of None \<Rightarrow> None
         | Some name \<Rightarrow>
             if (rs_type st = Null \<or> rs_type st = Held ''function'') \<and> name \<noteq> []
             then Some (schema_json (json_escape (namespace @ name)) (or_empty (held (rs_description st))) (rs_parameters st), name)
             else None) raw"

definition namespace_field :: "raw_schema field" where
  "namespace_field key st s =
     (if key = ''type'' then reread json_string (rs_type st) (\<lambda>x. st\<lparr>rs_type := x\<rparr>) s
      else if key = ''name'' then reread json_string (rs_name st) (\<lambda>x. st\<lparr>rs_name := x\<rparr>) s
      else if key = ''tools'' then reread json_raw_value (rs_parameters st) (\<lambda>x. st\<lparr>rs_parameters := x\<rparr>) s
      else ignore_value st s)"

definition namespace_item :: "bytes \<Rightarrow> (bool \<times> bytes \<times> tool_schema_orders) item" where
  "namespace_item name st s =
     (case st of (appended, schemas, orders) \<Rightarrow>
      case json_raw_value s of None \<Rightarrow> Stop st
      | Some (tool_raw, r) \<Rightarrow>
          (case responses_namespace_function_schema_from_tool (c_str tool_raw) name of
             None \<Rightarrow> Double_free
           | Some None \<Rightarrow> Next st r
           | Some (Some (schema, wire_name)) \<Rightarrow>
               (case tool_schema_orders_add_json_wire orders schema (Some name) (Some wire_name) False of
                  None \<Rightarrow> Double_free
                | Some orders \<Rightarrow> Next (True, append_raw_json_line schemas schema, orders) r)))"

text \<open>The strings of the namespace object are \<open>type\<close>, \<open>name\<close> and \<open>tools\<close> (kept in \<open>rs_parameters\<close>).\<close>

definition append_responses_namespace_tool_schemas ::
  "bytes \<Rightarrow> tool_schema_orders \<Rightarrow> bytes \<Rightarrow> (bool \<times> bytes \<times> tool_schema_orders) option" where
  "append_responses_namespace_tool_schemas schemas orders raw =
     (case schema_from namespace_field
         (\<lambda>st. case (held (rs_name st), held (rs_parameters st)) of
                 (Some name, Some tools) \<Rightarrow> if rs_type st = Held ''namespace'' then Some (name, tools) else None
               | _ \<Rightarrow> None) raw of
        None \<Rightarrow> None
      | Some None \<Rightarrow> Some (False, schemas, orders)
      | Some (Some (name, tools)) \<Rightarrow>
          (let s = json_ws tools
           in if take 1 s \<noteq> ''['' then Some (False, schemas, orders)
              else case items (namespace_item name) (False, schemas, orders) (json_ws (drop 1 s)) of
                     Next st _ \<Rightarrow> Some st | Stop st \<Rightarrow> Some st | _ \<Rightarrow> None))"

section \<open>The tools of a request\<close>

definition tools_item :: "(bytes \<times> tool_schema_orders) item" where
  "tools_item st s =
     (case st of (schemas, orders) \<Rightarrow>
      case json_raw_value s of None \<Rightarrow> Stop st
      | Some (v, r) \<Rightarrow>
          let raw = c_str v;
              add = (\<lambda>json tool_search.
                case tool_schema_orders_add_json_wire orders json None None tool_search of
                  None \<Rightarrow> Double_free
                | Some orders \<Rightarrow> Next (append_raw_json_line schemas json, orders) r)
          in case openai_function_schema_from_tool raw of
               Some function \<Rightarrow> add function False
             | None \<Rightarrow>
                 (case append_responses_namespace_tool_schemas schemas orders raw of
                    None \<Rightarrow> Double_free
                  | Some (appended, schemas', orders') \<Rightarrow>
                      if appended then Next (schemas', orders') r
                      else case responses_special_schema_from_tool raw of
                             None \<Rightarrow> Double_free
                           | Some (Some special) \<Rightarrow> add special True
                           | Some None \<Rightarrow> add raw False))"

definition parse_tools_value :: "tool_schema_orders \<Rightarrow> bytes \<Rightarrow> (bytes \<times> tool_schema_orders) outcome" where
  "parse_tools_value orders s =
     (let s = json_ws s
      in case json_lit ''null'' s of Some r \<Rightarrow> Next ([], orders) r | None \<Rightarrow> read_array tools_item ([], orders) s)"

section \<open>Every parser returns\<close>

lemma short_schema_field [short_intros]: "short s (schema_field k props s)"
proof -
  have "short s (read_object property_field props (json_ws s))"
    by (rule short_ws) (simp add: short_intros property_field_def)
  then show ?thesis by (simp add: schema_field_def short_intros)
qed

lemma json_raw_shorter: "json_raw_value s = Some (v, r) \<Longrightarrow> length r < length s"
  using reader_raw by (simp add: short_reader_def)

lemma short_order_field [short_intros]: "short s (order_field k st s)"
  by (cases st) (auto simp: order_field_def short_intros json_raw_shorter split: option.split)

lemma short_function_member [short_intros]: "short s (function_member k found s)"
  by (simp add: function_member_def short_intros)

lemma short_special_field [short_intros]: "short s (special_field k st s)"
  by (simp add: special_field_def short_intros)

lemma short_namespace_function_field [short_intros]: "short s (namespace_function_field k st s)"
  by (simp add: namespace_function_field_def short_intros)

lemma short_namespace_field [short_intros]: "short s (namespace_field k st s)"
  by (simp add: namespace_field_def short_intros)

lemma short_namespace_item [short_intros]: "short s (namespace_item name st s)"
  by (cases st) (auto simp: namespace_item_def json_raw_shorter split: option.split)

lemma short_tools_item [short_intros]: "short s (tools_item st s)"
  by (cases st) (auto simp: tools_item_def Let_def json_raw_shorter split: option.split)

lemma short_tools [short_intros]: "short s (parse_tools_value orders s)"
proof -
  have "short q (case json_lit ''null'' q of Some r \<Rightarrow> Next ([], orders) r | None \<Rightarrow> read_array tools_item ([], orders) q)" for q
    using suffix_length_less [OF json_lit_strict] by (auto split: option.split intro: short_array short_tools_item)
  then show ?thesis unfolding parse_tools_value_def Let_def by (rule short_ws)
qed

end
