(* ===== verification/Req_Parse.thy ===== *)
theory Req_Parse
  imports Req_Fields Req_Tools Tool_Map
begin

text \<open>
  The parsers of whole request bodies for the OpenAI, Anthropic and completion endpoints
  (\<open>parse_chat_request\<close>, \<open>parse_anthropic_request\<close>, \<open>parse_completion_request\<close> of
  \<open>src/ds4_server.c\<close>), from the bytes of the body to the tokens of the prompt.

  Numbers are kept as the text that \<open>strtod\<close> converts (\<^const>\<open>None\<close> for the default); the engine, the
  session and the file system are those of the theory \<open>Kv_Store\<close>.
\<close>

section \<open>The request being filled\<close>

datatype refusal =
    Invalid_json | Missing_messages | Missing_input | Missing_prompt
  | Choice_not_supported bytes | Forced_choice | Reference_not_supported bytes
  | Unknown_tool_use bytes | Unknown_call bytes

text \<open>The fields of \<open>request\<close> that the loops fill, and the local variables of the parsers.  \<open>ps_text\<close> is
  \<open>system\<close>, \<open>instructions\<close> or \<open>prompt\<close>; \<open>ps_got\<close> is \<open>got_messages\<close> or \<open>got_input\<close>.\<close>

record parsing =
  ps_model :: owned
  ps_stops :: stop_list
  ps_orders :: tool_schema_orders
  ps_max_tokens :: "bytes option"
  ps_temperature :: "bytes option"
  ps_top_p :: "bytes option"
  ps_min_p :: "bytes option"
  ps_top_k :: "bytes option"
  ps_seed :: "bytes option"
  ps_stream :: bool
  ps_usage :: bool
  ps_summary :: bool
  ps_msgs :: "chat_msg list"
  ps_got :: bool
  ps_text :: owned
  ps_tools :: owned
  ps_loaded :: bytes
  ps_choice_none :: bool
  ps_got_thinking :: bool
  ps_thinking :: bool
  ps_effort :: ds4_think_mode
  ps_error :: "refusal option"

definition request_init :: parsing where
  "request_init =
     \<lparr>ps_model = Held ''deepseek-v4-flash'', ps_stops = stop_list_clear, ps_orders = [], ps_max_tokens = None,
      ps_temperature = None, ps_top_p = None, ps_min_p = None, ps_top_k = None, ps_seed = None,
      ps_stream = False, ps_usage = False, ps_summary = False, ps_msgs = [], ps_got = False,
      ps_text = Null, ps_tools = Null, ps_loaded = [], ps_choice_none = False, ps_got_thinking = False,
      ps_thinking = True, ps_effort = THINK_HIGH, ps_error = None\<rparr>"

text \<open>\<open>request_free\<close> and the frees of the local strings.\<close>

definition request_free :: "parsing \<Rightarrow> bool" where
  "request_free p = free_all [ps_model p, ps_text p, ps_tools p]"

section \<open>Members that several parsers know\<close>

definition with_number :: "(bytes \<Rightarrow> 's) \<Rightarrow> 's item" where
  "with_number f st s = (case json_number s of None \<Rightarrow> Stop st | Some (v, r) \<Rightarrow> Next (f v) r)"

definition read_model :: "parsing item" where
  "read_model p s = reread json_string (ps_model p) (\<lambda>x. p\<lparr>ps_model := x\<rparr>) s"

text \<open>The schemas are freed and cleared before they are read.\<close>

definition read_tools :: "parsing item" where
  "read_tools p s =
     (if ps_tools p = Dangling then Double_free
      else case parse_tools_value (ps_orders p) s of
             Next (schemas, orders) r \<Rightarrow> Next (p\<lparr>ps_tools := Held schemas, ps_orders := orders\<rparr>) r
           | Stop (_, orders) \<Rightarrow> Stop (p\<lparr>ps_tools := Null, ps_orders := orders\<rparr>)
           | Double_free \<Rightarrow> Double_free
           | Endless \<Rightarrow> Endless)"

definition read_stop :: "parsing item" where
  "read_stop p s =
     (case parse_stop s of None \<Rightarrow> Stop p | Some (stops, r) \<Rightarrow> Next (p\<lparr>ps_stops := stops\<rparr>) r)"

definition read_thinking :: "parsing item" where
  "read_thinking p s =
     map_outcome (\<lambda>v. p\<lparr>ps_thinking := v, ps_got_thinking := True\<rparr>) (parse_thinking_control_value (ps_thinking p) s)"

definition read_effort :: "parsing item" where
  "read_effort p s = map_outcome (\<lambda>v. p\<lparr>ps_effort := v\<rparr>) (parse_reasoning_effort_value (ps_effort p) s)"

definition choice_text :: "parsing item" where
  "choice_text p s = with_string (\<lambda>v. p\<lparr>ps_choice_none := (v = ''none'')\<rparr>) p s"

section \<open>The members of the three bodies\<close>

definition chat_field :: "parsing field" where
  "chat_field key p s =
     (if key = ''messages'' then
        map_outcome (\<lambda>msgs. p\<lparr>ps_msgs := msgs, ps_got := True\<rparr>) (parse_messages [] s)
      else if key = ''tools'' then read_tools p s
      else if key = ''tool_choice'' then
        (let s = json_ws s in if take 1 s = [CHR 0x22] then choice_text p s else ignore_value p s)
      else if key = ''model'' then read_model p s
      else if key = ''max_tokens'' \<or> key = ''max_completion_tokens'' then with_number (\<lambda>v. p\<lparr>ps_max_tokens := Some v\<rparr>) p s
      else if key = ''temperature'' then with_number (\<lambda>v. p\<lparr>ps_temperature := Some v\<rparr>) p s
      else if key = ''top_p'' then with_number (\<lambda>v. p\<lparr>ps_top_p := Some v\<rparr>) p s
      else if key = ''min_p'' then with_number (\<lambda>v. p\<lparr>ps_min_p := Some v\<rparr>) p s
      else if key = ''top_k'' then with_number (\<lambda>v. p\<lparr>ps_top_k := Some v\<rparr>) p s
      else if key = ''seed'' then with_number (\<lambda>v. p\<lparr>ps_seed := Some v\<rparr>) p s
      else if key = ''stream'' then with_bool (\<lambda>v. p\<lparr>ps_stream := v\<rparr>) p s
      else if key = ''stream_options'' then map_outcome (\<lambda>v. p\<lparr>ps_usage := v\<rparr>) (parse_stream_options (ps_usage p) s)
      else if key = ''thinking'' then read_thinking p s
      else if key = ''reasoning_effort'' then read_effort p s
      else if key = ''think'' then with_bool (\<lambda>v. p\<lparr>ps_thinking := v, ps_got_thinking := True\<rparr>) p s
      else if key = ''stop'' then read_stop p s
      else ignore_value p s)"

definition choice_field :: "parsing field" where
  "choice_field key p s = (if key = ''type'' then choice_text p s else ignore_value p s)"

definition anthropic_field :: "parsing field" where
  "anthropic_field key p s =
     (if key = ''messages'' then
        map_outcome (\<lambda>msgs. p\<lparr>ps_msgs := msgs, ps_got := True\<rparr>) (parse_anthropic_messages [] s)
      else if key = ''system'' then reread parse_anthropic_system (ps_text p) (\<lambda>x. p\<lparr>ps_text := x\<rparr>) s
      else if key = ''tools'' then read_tools p s
      else if key = ''tool_choice'' then
        (let s = json_ws s in if take 1 s = ''{'' then read_object choice_field p s else ignore_value p s)
      else if key = ''model'' then read_model p s
      else if key = ''max_tokens'' then with_number (\<lambda>v. p\<lparr>ps_max_tokens := Some v\<rparr>) p s
      else if key = ''temperature'' then with_number (\<lambda>v. p\<lparr>ps_temperature := Some v\<rparr>) p s
      else if key = ''top_p'' then with_number (\<lambda>v. p\<lparr>ps_top_p := Some v\<rparr>) p s
      else if key = ''top_k'' then with_number (\<lambda>v. p\<lparr>ps_top_k := Some v\<rparr>) p s
      else if key = ''stream'' then with_bool (\<lambda>v. p\<lparr>ps_stream := v\<rparr>) p s
      else if key = ''stop_sequences'' then read_stop p s
      else if key = ''thinking'' then read_thinking p s
      else if key = ''output_config'' then map_outcome (\<lambda>v. p\<lparr>ps_effort := v\<rparr>) (parse_output_config_effort (ps_effort p) s)
      else if key = ''reasoning_effort'' then read_effort p s
      else ignore_value p s)"

text \<open>The rest of an array prompt after its first element.\<close>

function (sequential) prompt_tail :: "bytes \<Rightarrow> bytes option" where
  "prompt_tail s =
     (if s = [] then None
      else if hd s = CHR '']'' then Some (tl s)
      else let q = json_ws s
           in if take 1 q = '','' then
                (case json_skip_value (drop 1 q) of None \<Rightarrow> None | Some r \<Rightarrow> prompt_tail r)
              else if take 1 q = '']'' then Some (drop 1 q) else None)"
  by pat_completeness auto
termination
proof (relation "measure length", goal_cases)
  case (2 s q r)
  then have "length r < length (drop 1 (json_ws s))" by (auto dest: json_skip_shorter)
  then show ?case using json_ws_le [of s] by simp
qed simp

declare prompt_tail.simps [simp del]

text \<open>The state is \<open>*out\<close>: an array assigns it before the rest of the array is read.\<close>

definition parse_prompt :: "owned item" where
  "parse_prompt out s =
     (let s = json_ws s
      in if take 1 s = [CHR 0x22] then with_string Held out s
         else if take 1 s \<noteq> ''['' then
           (case json_skip_value s of None \<Rightarrow> Stop out | Some r \<Rightarrow> Next (Held []) r)
         else
           let s = json_ws (drop 1 s);
               first = (if take 1 s = [CHR 0x22] then with_string Held out s
                        else if s \<noteq> [] \<and> hd s \<noteq> CHR '']'' then ignore_value (Held []) s
                        else Next (Held []) s)
           in case first of
                Next out r \<Rightarrow> (case prompt_tail r of None \<Rightarrow> Stop out | Some r \<Rightarrow> Next out r)
              | other \<Rightarrow> other)"

definition completion_field :: "parsing field" where
  "completion_field key p s =
     (if key = ''prompt'' then
        (if ps_text p = Dangling then Double_free
         else map_outcome (\<lambda>x. p\<lparr>ps_text := x\<rparr>) (parse_prompt (freed (ps_text p)) s))
      else if key = ''model'' then read_model p s
      else if key = ''max_tokens'' then with_number (\<lambda>v. p\<lparr>ps_max_tokens := Some v\<rparr>) p s
      else if key = ''temperature'' then with_number (\<lambda>v. p\<lparr>ps_temperature := Some v\<rparr>) p s
      else if key = ''top_p'' then with_number (\<lambda>v. p\<lparr>ps_top_p := Some v\<rparr>) p s
      else if key = ''min_p'' then with_number (\<lambda>v. p\<lparr>ps_min_p := Some v\<rparr>) p s
      else if key = ''top_k'' then with_number (\<lambda>v. p\<lparr>ps_top_k := Some v\<rparr>) p s
      else if key = ''seed'' then with_number (\<lambda>v. p\<lparr>ps_seed := Some v\<rparr>) p s
      else if key = ''stream'' then with_bool (\<lambda>v. p\<lparr>ps_stream := v\<rparr>) p s
      else if key = ''stream_options'' then map_outcome (\<lambda>v. p\<lparr>ps_usage := v\<rparr>) (parse_stream_options (ps_usage p) s)
      else if key = ''thinking'' then read_thinking p s
      else if key = ''reasoning_effort'' then read_effort p s
      else if key = ''think'' then with_bool (\<lambda>v. p\<lparr>ps_thinking := v, ps_got_thinking := True\<rparr>) p s
      else if key = ''stop'' then read_stop p s
      else ignore_value p s)"

end
