(* ===== verification/Req_Responses.thy ===== *)
theory Req_Responses
  imports Req_Parse
begin

text \<open>
  The \<open>input\<close> of a Responses request (\<open>parse_responses_input\<close> of \<open>src/ds4_server.c\<close>): the items of the
  protocol folded into messages, and the members of the body.
\<close>

section \<open>One item\<close>

record raw_item =
  ri_type :: owned
  ri_role :: owned
  ri_content :: owned
  ri_name :: owned
  ri_namespace :: owned
  ri_call_id :: owned
  ri_item_id :: owned
  ri_arguments :: owned
  ri_output :: owned
  ri_input :: owned
  ri_summary :: owned
  ri_action :: owned
  ri_result :: owned
  ri_tools :: owned
  ri_status :: owned

definition zero_item :: raw_item where
  "zero_item = \<lparr>ri_type = Null, ri_role = Null, ri_content = Null, ri_name = Null, ri_namespace = Null, ri_call_id = Null,
     ri_item_id = Null, ri_arguments = Null, ri_output = Null, ri_input = Null, ri_summary = Null, ri_action = Null,
     ri_result = Null, ri_tools = Null, ri_status = Null\<rparr>"

definition item_free :: "raw_item \<Rightarrow> bool" where
  "item_free i = free_all [ri_type i, ri_role i, ri_content i, ri_name i, ri_namespace i, ri_call_id i, ri_item_id i,
     ri_arguments i, ri_output i, ri_input i, ri_summary i, ri_action i, ri_result i, ri_tools i, ri_status i]"

text \<open>An output is a content array, a string, or the text of another value.\<close>

definition output_value :: reader where
  "output_value s =
     (let s = json_ws s in if take 1 s = ''['' then parse_responses_content_array s else text_or_raw s)"

definition item_field :: "raw_item field" where
  "item_field key i s =
     (if key = ''type'' then reread json_string (ri_type i) (\<lambda>x. i\<lparr>ri_type := x\<rparr>) s
      else if key = ''role'' then reread json_string (ri_role i) (\<lambda>x. i\<lparr>ri_role := x\<rparr>) s
      else if key = ''content'' then reread parse_responses_content_array (ri_content i) (\<lambda>x. i\<lparr>ri_content := x\<rparr>) s
      else if key = ''name'' then reread json_string (ri_name i) (\<lambda>x. i\<lparr>ri_name := x\<rparr>) s
      else if key = ''namespace'' then reread json_string (ri_namespace i) (\<lambda>x. i\<lparr>ri_namespace := x\<rparr>) s
      else if key = ''call_id'' then reread json_string (ri_call_id i) (\<lambda>x. i\<lparr>ri_call_id := x\<rparr>) s
      else if key = ''id'' then reread json_string (ri_item_id i) (\<lambda>x. i\<lparr>ri_item_id := x\<rparr>) s
      else if key = ''arguments'' then reread text_or_raw (ri_arguments i) (\<lambda>x. i\<lparr>ri_arguments := x\<rparr>) s
      else if key = ''output'' then reread output_value (ri_output i) (\<lambda>x. i\<lparr>ri_output := x\<rparr>) s
      else if key = ''input'' then reread text_or_raw (ri_input i) (\<lambda>x. i\<lparr>ri_input := x\<rparr>) s
      else if key = ''summary'' then reread parse_responses_content_array (ri_summary i) (\<lambda>x. i\<lparr>ri_summary := x\<rparr>) s
      else if key = ''action'' then reread json_raw_value (ri_action i) (\<lambda>x. i\<lparr>ri_action := x\<rparr>) s
      else if key = ''result'' then reread text_or_raw (ri_result i) (\<lambda>x. i\<lparr>ri_result := x\<rparr>) s
      else if key = ''status'' then reread json_string (ri_status i) (\<lambda>x. i\<lparr>ri_status := x\<rparr>) s
      else if key = ''tools'' then reread json_raw_value (ri_tools i) (\<lambda>x. i\<lparr>ri_tools := x\<rparr>) s
      else ignore_value i s)"

section \<open>What an item adds to the conversation\<close>

record input_state =
  in_msgs :: "chat_msg list"
  in_loaded :: bytes
  in_orders :: tool_schema_orders
  in_pending :: bytes

text \<open>\<open>x ? x : y\<close>.\<close>

definition or_else :: "bytes option \<Rightarrow> bytes option \<Rightarrow> bytes option" where
  "or_else x y = (case x of None \<Rightarrow> y | Some _ \<Rightarrow> x)"

definition plain_msg :: "bytes \<Rightarrow> bytes \<Rightarrow> chat_msg" where
  "plain_msg role content =
     \<lparr>msg_role = role, msg_text = Some content, msg_thought = None, msg_tool_call_id = None,
      msg_tool_call_ids = [], msg_tool_calls = no_calls\<rparr>"

definition push_msg :: "chat_msg \<Rightarrow> input_state \<Rightarrow> input_state" where
  "push_msg m st = st\<lparr>in_msgs := in_msgs st @ [m]\<rparr>"

text \<open>\<open>if (pending_reasoning.len) msg.reasoning = buf_take(&pending_reasoning);\<close> and push the message.\<close>

definition push_thinking :: "chat_msg \<Rightarrow> input_state \<Rightarrow> input_state" where
  "push_thinking m st =
     (if in_pending st = [] then push_msg m st
      else push_msg (m\<lparr>msg_thought := Some (in_pending st)\<rparr>) (st\<lparr>in_pending := []\<rparr>))"

text \<open>A call joins the assistant message before it.\<close>

definition push_call :: "tool_call \<Rightarrow> input_state \<Rightarrow> input_state" where
  "push_call tc st =
     (if in_msgs st \<noteq> [] \<and> msg_role (last (in_msgs st)) = ''assistant'' then
        (let m = last (in_msgs st);
             take_it = in_pending st \<noteq> [] \<and> or_empty (msg_thought m) = [];
             m = (if take_it then m\<lparr>msg_thought := Some (in_pending st)\<rparr> else m);
             m = m\<lparr>msg_tool_calls := tool_calls_push (msg_tool_calls m) tc\<rparr>
         in st\<lparr>in_msgs := butlast (in_msgs st) @ [m], in_pending := (if take_it then [] else in_pending st)\<rparr>)
      else push_thinking ((plain_msg ''assistant'' [])\<lparr>msg_tool_calls := tool_calls_push no_calls tc\<rparr>) st)"

definition push_tool_output :: "bytes \<Rightarrow> raw_item \<Rightarrow> input_state \<Rightarrow> input_state" where
  "push_tool_output content i st =
     (let ids = chat_msg_add_tool_call_id (or_empty (or_else (held (ri_call_id i)) (held (ri_item_id i)))) (None, [])
      in push_msg ((plain_msg ''tool'' content)\<lparr>msg_tool_call_id := fst ids, msg_tool_call_ids := snd ids\<rparr>) st)"

definition add_line :: "bytes \<Rightarrow> bytes \<Rightarrow> bytes" where
  "add_line b s = (if s = [] then b else b @ (if b \<noteq> [] then [CHR 0x0a] else []) @ s)"

definition consumes_reasoning :: "bytes \<Rightarrow> bytes option \<Rightarrow> bool" where
  "consumes_reasoning t role \<longleftrightarrow>
     t = ''message'' \<and> role = Some ''assistant''
     \<or> t \<in> {''function_call'', ''custom_tool_call'', ''local_shell_call'', ''web_search_call'', ''tool_search_call'',
             ''image_generation_call''}"

definition is_bookkeeping :: "bytes \<Rightarrow> bool" where
  "is_bookkeeping t \<longleftrightarrow> t = ''compaction'' \<or> t = ''context_compaction''"

text \<open>The name and the arguments of a call item.\<close>

definition function_call_of :: "bytes \<Rightarrow> raw_item \<Rightarrow> tool_call" where
  "function_call_of t i =
     (let name = or_empty (held (ri_name i)); namespace = or_empty (held (ri_namespace i))
      in \<lparr>tc_id = Some (or_empty (or_else (held (ri_call_id i)) (held (ri_item_id i)))),
          tc_name = Some (if t \<noteq> ''custom_tool_call'' \<and> namespace \<noteq> [] \<and> name \<noteq> [] then namespace @ name else name),
          tc_arguments = or_else (or_else (held (ri_arguments i)) (held (ri_input i))) (Some ''{}'')\<rparr>)"

definition hosted_call_of :: "bytes \<Rightarrow> raw_item \<Rightarrow> tool_call" where
  "hosted_call_of t i =
     \<lparr>tc_id = Some (or_empty (or_else (held (ri_call_id i)) (held (ri_item_id i)))),
      tc_name = Some (if t = ''tool_search_call'' then ''tool_search''
                      else if t = ''local_shell_call'' then ''local_shell'' else t),
      tc_arguments = or_else (or_else (or_else (held (ri_action i)) (held (ri_arguments i))) (held (ri_input i))) (Some ''{}'')\<rparr>"

text \<open>The tools a search found go to the prompt as well.\<close>

definition load_tools :: "raw_item \<Rightarrow> input_state \<Rightarrow> input_state outcome" where
  "load_tools i st =
     (case held (ri_tools i) of None \<Rightarrow> Next st []
      | Some tools \<Rightarrow>
          (case parse_tools_value (in_orders st) tools of
             Next (schemas, orders) r \<Rightarrow> Next (st\<lparr>in_orders := orders, in_loaded := add_line (in_loaded st) schemas\<rparr>) r
           | Stop (_, orders) \<Rightarrow> Stop (st\<lparr>in_orders := orders\<rparr>)
           | Double_free \<Rightarrow> Double_free
           | Endless \<Rightarrow> Endless))"

text \<open>What is not an assistant's turn first gives the pending reasoning a message of its own.\<close>

definition flush_reasoning :: "bytes \<Rightarrow> raw_item \<Rightarrow> input_state \<Rightarrow> input_state" where
  "flush_reasoning t i st =
     (if \<not> consumes_reasoning t (held (ri_role i)) \<and> \<not> is_bookkeeping t \<and> in_pending st \<noteq> []
      then push_thinking (plain_msg ''assistant'' []) st else st)"

definition is_hosted_call :: "bytes \<Rightarrow> bool" where
  "is_hosted_call t \<longleftrightarrow> t \<in> {''local_shell_call'', ''web_search_call'', ''tool_search_call'', ''image_generation_call''}"

definition is_hosted_output :: "bytes \<Rightarrow> bool" where
  "is_hosted_output t \<longleftrightarrow> t \<in> {''local_shell_call_output'', ''web_search_call_output'', ''tool_search_output'',
     ''tool_search_call_output'', ''image_generation_call_output''}"

definition message_of :: "raw_item \<Rightarrow> chat_msg" where
  "message_of i = plain_msg (case held (ri_role i) of Some r \<Rightarrow> r | None \<Rightarrow> ''user'') (or_empty (held (ri_content i)))"

definition hosted_output :: "bytes \<Rightarrow> raw_item \<Rightarrow> input_state \<Rightarrow> input_state outcome" where
  "hosted_output t i st =
     (case (if t = ''tool_search_output'' then load_tools i st else Next st []) of
        Next st _ \<Rightarrow>
          Next (push_tool_output (or_empty (or_else (or_else (held (ri_output i)) (held (ri_result i))) (held (ri_tools i)))) i st) []
      | out \<Rightarrow> out)"

text \<open>The chain on the type; types without a branch end the request.\<close>

definition item_effect :: "bytes \<Rightarrow> raw_item \<Rightarrow> input_state \<Rightarrow> input_state outcome" where
  "item_effect t i st =
     (if t = ''message'' then
        Next (if msg_role (message_of i) = ''assistant'' then push_thinking (message_of i) st else push_msg (message_of i) st) []
      else if t = ''function_call'' \<or> t = ''custom_tool_call'' then Next (push_call (function_call_of t i) st) []
      else if t = ''function_call_output'' \<or> t = ''custom_tool_call_output'' then
        Next (push_tool_output (or_empty (held (ri_output i))) i st) []
      else if t = ''reasoning'' then
        Next (st\<lparr>in_pending := add_line (add_line (in_pending st) (or_empty (held (ri_summary i))))
                                 (or_empty (held (ri_content i)))\<rparr>) []
      else if is_hosted_call t then Next (push_call (hosted_call_of t i) st) []
      else if is_hosted_output t then hosted_output t i st
      else if is_bookkeeping t then Next st []
      else Stop st)"

definition item_type :: "raw_item \<Rightarrow> bytes" where
  "item_type i = (case held (ri_type i) of Some t \<Rightarrow> t | None \<Rightarrow> ''message'')"

definition apply_item :: "raw_item \<Rightarrow> input_state \<Rightarrow> input_state outcome" where
  "apply_item i st =
     (if or_empty (held (ri_status i)) \<noteq> [] \<and> ri_status i \<noteq> Held ''completed'' then Stop st
      else item_effect (item_type i) i (flush_reasoning (item_type i) i st))"

definition input_item :: "input_state item" where
  "input_item st s =
     (case read_object item_field zero_item s of
        Next i r \<Rightarrow>
          (case apply_item i st of
             Next st _ \<Rightarrow> if item_free i then Next st r else Double_free
           | Stop st \<Rightarrow> if item_free i then Stop st else Double_free
           | out \<Rightarrow> out)
      | Stop i \<Rightarrow> if item_free i then Stop st else Double_free
      | Double_free \<Rightarrow> Double_free
      | Endless \<Rightarrow> Endless)"

text \<open>Reasoning at the end gets an assistant message of its own.\<close>

definition parse_responses_input :: "input_state item" where
  "parse_responses_input st s =
     (case read_array input_item (st\<lparr>in_pending := []\<rparr>) (json_ws s) of
        Next st r \<Rightarrow> Next (if in_pending st = [] then st else push_thinking (plain_msg ''assistant'' []) st) r
      | out \<Rightarrow> out)"

section \<open>The members of the body\<close>

definition read_input :: "parsing item" where
  "read_input p s =
     (let s = json_ws s
      in if take 1 s = [CHR 0x22] then
           with_string (\<lambda>v. p\<lparr>ps_msgs := [plain_msg ''user'' v], ps_got := True\<rparr>) p s
         else map_outcome (\<lambda>st. p\<lparr>ps_msgs := in_msgs st, ps_loaded := in_loaded st, ps_orders := in_orders st, ps_got := True\<rparr>)
                (parse_responses_input \<lparr>in_msgs = [], in_loaded = ps_loaded p, in_orders = ps_orders p, in_pending = []\<rparr> s))"

definition read_instructions :: "parsing item" where
  "read_instructions p s =
     (if ps_text p = Dangling then Double_free
      else let p = p\<lparr>ps_text := Null\<rparr>; s = json_ws s
           in case json_lit ''null'' s of Some r \<Rightarrow> Next (p\<lparr>ps_text := Held []\<rparr>) r
              | None \<Rightarrow> with_string (\<lambda>v. p\<lparr>ps_text := Held v\<rparr>) p s)"

definition read_choice :: "parsing item" where
  "read_choice p s =
     (let s = json_ws s
      in if take 1 s = [CHR 0x22] then
           (case json_string s of None \<Rightarrow> Stop p
            | Some (v, r) \<Rightarrow>
                let choice = c_str v
                in if choice = ''none'' then Next (p\<lparr>ps_choice_none := True\<rparr>) r
                   else if choice \<noteq> ''auto'' then Stop (p\<lparr>ps_error := Some (Choice_not_supported choice)\<rparr>)
                   else Next p r)
         else if take 1 s = ''{'' then Stop (p\<lparr>ps_error := Some Forced_choice\<rparr>)
         else ignore_value p s)"

definition read_reasoning :: "parsing item" where
  "read_reasoning p s =
     (case parse_responses_reasoning (ps_effort p, ps_summary p, False) s of
        Next (effort, summary, seen) r \<Rightarrow>
          (let p = p\<lparr>ps_effort := effort, ps_summary := summary\<rparr>
           in Next (if seen then p\<lparr>ps_got_thinking := True, ps_thinking := ps_thinking p \<and> effort \<noteq> THINK_NONE\<rparr> else p) r)
      | Stop (effort, summary, _) \<Rightarrow> Stop (p\<lparr>ps_effort := effort, ps_summary := summary\<rparr>)
      | Double_free \<Rightarrow> Double_free
      | Endless \<Rightarrow> Endless)"

definition read_reference :: "bytes \<Rightarrow> parsing item" where
  "read_reference key p s =
     (case json_lit ''null'' (json_ws s) of
        Some r \<Rightarrow> Next p r | None \<Rightarrow> Stop (p\<lparr>ps_error := Some (Reference_not_supported key)\<rparr>))"

definition responses_field :: "parsing field" where
  "responses_field key p s =
     (if key = ''input'' then read_input p s
      else if key = ''instructions'' then read_instructions p s
      else if key = ''tools'' then read_tools p s
      else if key = ''tool_choice'' then read_choice p s
      else if key = ''model'' then read_model p s
      else if key = ''max_output_tokens'' \<or> key = ''max_tokens'' then with_number (\<lambda>v. p\<lparr>ps_max_tokens := Some v\<rparr>) p s
      else if key = ''temperature'' then with_number (\<lambda>v. p\<lparr>ps_temperature := Some v\<rparr>) p s
      else if key = ''top_p'' then with_number (\<lambda>v. p\<lparr>ps_top_p := Some v\<rparr>) p s
      else if key = ''stream'' then with_bool (\<lambda>v. p\<lparr>ps_stream := v\<rparr>) p s
      else if key = ''reasoning'' then read_reasoning p s
      else if key = ''previous_response_id'' \<or> key = ''conversation'' then read_reference key p s
      else ignore_value p s)"

section \<open>Every parser returns\<close>

lemma short_number [short_intros]: "short s (with_number f st s)"
  using suffix_length_less [OF json_number_strict] by (auto simp: with_number_def split: option.split)

lemma short_read_model [short_intros]: "short s (read_model p s)"
  by (simp add: read_model_def short_intros)

lemma short_read_tools [short_intros]: "short s (read_tools p s)"
  using short_tools [of s "ps_orders p"]
  by (cases "parse_tools_value (ps_orders p) s") (auto simp: read_tools_def)

lemma parse_stop_items_shorter: "parse_stop_items stops s = Some (v, r) \<Longrightarrow> length r < length s"
proof (induction stops s rule: parse_stop_items.induct)
  case (1 stops s)
  have step: "length r < length s" if "length r < length (after_comma q)" "length q < length s" for q
    using that after_comma_le [of q] by simp
  show ?case
  proof (cases "s = [] \<or> hd s = CHR '']''")
    case True
    then show ?thesis using "1.prems" unfolding parse_stop_items.simps [of stops s] by (cases s) auto
  next
    case False
    then have f: "s \<noteq> []" "hd s \<noteq> CHR '']''" by auto
    show ?thesis
    proof (cases "hd s = CHR 0x22")
      case True
      then obtain w q where w: "json_string s = Some (w, q)" "parse_stop_items (stop_list_push stops w) (after_comma q) = Some (v, r)"
        using "1.prems" f by (auto simp: parse_stop_items.simps [of stops s] split: option.splits)
      show ?thesis by (rule step [OF "1.IH"(1) [OF f True w(1) refl w(2)] json_string_shorter [OF w(1)]])
    next
      case nq: False
      then obtain q where w: "json_skip_value s = Some q" "parse_stop_items stops (after_comma q) = Some (v, r)"
        using "1.prems" f by (auto simp: parse_stop_items.simps [of stops s] split: option.splits)
      show ?thesis by (rule step [OF "1.IH"(2) [OF f nq w] json_skip_shorter [OF w(1)]])
    qed
  qed
qed

lemma parse_stop_shorter:
  assumes "parse_stop s = Some (v, r)"
  shows "length r < length s"
proof -
  let ?s = "json_ws s"
  consider (str) "take 1 ?s = [CHR 0x22]" | (arr) "take 1 ?s = ''[''" | (other) "take 1 ?s \<noteq> [CHR 0x22]" "take 1 ?s \<noteq> ''[''"
    by blast
  then have "length r < length ?s"
  proof cases
    case str
    then show ?thesis using assms by (auto simp: parse_stop_def Let_def dest: json_string_shorter)
  next
    case arr
    then show ?thesis
      using assms after_open [OF arr] parse_stop_items_shorter [of stop_list_clear "json_ws (drop 1 ?s)" v r]
      by (simp add: parse_stop_def Let_def)
  next
    case other
    then show ?thesis using assms by (auto simp: parse_stop_def Let_def dest: json_skip_shorter)
  qed
  then show ?thesis using json_ws_le [of s] by simp
qed

lemma short_read_stop [short_intros]: "short s (read_stop p s)"
  by (auto simp: read_stop_def split: option.split dest: parse_stop_shorter)

lemma short_read_thinking [short_intros]: "short s (read_thinking p s)"
  by (simp add: read_thinking_def short_intros)

lemma short_read_effort [short_intros]: "short s (read_effort p s)"
  by (simp add: read_effort_def short_intros)

lemma short_choice_text [short_intros]: "short s (choice_text p s)"
  by (simp add: choice_text_def short_intros)

lemma short_choice_field [short_intros]: "short s (choice_field k p s)"
  by (simp add: choice_field_def short_intros)

lemma short_if: "short s (if c then a else b) \<longleftrightarrow> (c \<longrightarrow> short s a) \<and> (\<not> c \<longrightarrow> short s b)"
  by simp

lemmas short_fields = short_if short_intros short_ws [OF short_ignore] short_ws [OF short_choice_text]
  short_ws [OF short_object] short_ws [OF short_string]

lemma short_chat_field [short_intros]: "short s (chat_field k p s)"
  by (simp add: chat_field_def Let_def short_fields)

lemma short_anthropic_body [short_intros]: "short s (anthropic_field k p s)"
  by (simp add: anthropic_field_def Let_def short_fields)

lemma prompt_tail_le: "prompt_tail s = Some r \<Longrightarrow> length r \<le> length s"
proof (induction s rule: prompt_tail.induct)
  case (1 s)
  let ?q = "json_ws s"
  note ws = json_ws_le [of s]
  show ?case
  proof (cases "s = [] \<or> hd s = CHR '']'' \<or> take 1 ?q \<noteq> '',''")
    case True
    then show ?thesis using "1.prems" ws unfolding prompt_tail.simps [of s] by (auto simp: Let_def split: if_splits)
  next
    case False
    then obtain u where u: "json_skip_value (drop 1 ?q) = Some u" "prompt_tail u = Some r"
      using "1.prems" by (auto simp: prompt_tail.simps [of s] Let_def split: option.splits)
    have "length r \<le> length u" using False by (intro "1.IH" [OF _ _ refl _ u(1) u(2)]) auto
    then show ?thesis using json_skip_shorter [OF u(1)] ws by simp
  qed
qed

lemma short_prompt [short_intros]: "short s (parse_prompt out s)"
proof -
  let ?s = "json_ws s" and ?q = "json_ws (drop 1 (json_ws s))"
  let ?f = "if take 1 ?q = [CHR 0x22] then with_string Held out ?q
            else if ?q \<noteq> [] \<and> hd ?q \<noteq> CHR '']'' then ignore_value (Held []) ?q else Next (Held []) ?q"
  have arr: "short ?s (case ?f of Next out r \<Rightarrow> (case prompt_tail r of None \<Rightarrow> Stop out | Some r \<Rightarrow> Next out r) | other \<Rightarrow> other)"
    if "take 1 ?s = ''[''"
  proof -
    have "short_le ?q ?f" by (auto simp: with_string_def ignore_value_def split: option.split
        dest: json_string_shorter json_skip_shorter)
    then show ?thesis using after_open [OF that]
      by (cases ?f) (auto split: option.split dest!: prompt_tail_le)
  qed
  have "short ?s (parse_prompt out s)"
    using arr unfolding parse_prompt_def Let_def
    by (auto simp: short_intros split: option.split dest: json_skip_shorter)
  then show ?thesis by (rule short_ws)
qed

lemma short_completion_field [short_intros]: "short s (completion_field k p s)"
  by (simp add: completion_field_def Let_def short_fields short_intros)

lemma reader_output [short_intros]: "short_reader output_value"
  using reader_responses_content reader_text_or_raw unfolding short_reader_def output_value_def Let_def
  by (auto split: if_splits intro: less_le_trans [OF _ json_ws_le])

lemma short_item_field [short_intros]: "short s (item_field k i s)"
  by (simp add: item_field_def short_fields short_intros)

lemma load_tools_returns: "load_tools i st \<noteq> Endless"
proof (cases "held (ri_tools i)")
  case (Some t)
  then show ?thesis using short_tools [of t "in_orders st"]
    by (cases "parse_tools_value (in_orders st) t") (auto simp: load_tools_def)
qed (simp add: load_tools_def)

lemma hosted_output_returns: "hosted_output t i st \<noteq> Endless"
  using load_tools_returns [of i st] by (cases "load_tools i st") (auto simp: hosted_output_def)

lemma apply_item_returns: "apply_item i st \<noteq> Endless"
  unfolding apply_item_def item_effect_def by (simp add: hosted_output_returns)

lemma short_input_item [short_intros]: "short s (input_item st s)"
proof -
  have "short s (read_object item_field zero_item s)" by (intro short_intros)
  then show ?thesis using apply_item_returns
    by (cases "read_object item_field zero_item s") (auto simp: input_item_def split: outcome.split)
qed

lemma short_responses_input [short_intros]: "short s (parse_responses_input st s)"
proof -
  have "short (json_ws s) (read_array input_item (st\<lparr>in_pending := []\<rparr>) (json_ws s))" by (intro short_intros)
  from short_ws [OF this] show ?thesis
    by (cases "read_array input_item (st\<lparr>in_pending := []\<rparr>) (json_ws s)") (auto simp: parse_responses_input_def)
qed

lemma short_read_input [short_intros]: "short s (read_input p s)"
  by (simp add: read_input_def Let_def short_fields short_ws [OF short_responses_input])

lemma short_read_instructions [short_intros]: "short s (read_instructions p s)"
  by (simp add: read_instructions_def Let_def short_fields short_ws [OF short_null])

lemma short_read_choice [short_intros]: "short s (read_choice p s)"
proof -
  have "short (json_ws s) (read_choice p s)"
    by (auto simp: read_choice_def Let_def short_intros split: option.split dest: json_string_shorter)
  then show ?thesis by (rule short_ws)
qed

lemma short_read_reasoning [short_intros]: "short s (read_reasoning p s)"
  using short_reasoning [of s "(ps_effort p, ps_summary p, False)"]
  by (cases "parse_responses_reasoning (ps_effort p, ps_summary p, False) s") (auto simp: read_reasoning_def Let_def)

lemma short_read_reference [short_intros]: "short s (read_reference key p s)"
  unfolding read_reference_def by (rule short_ws [OF short_null]) simp

lemma short_responses_field [short_intros]: "short s (responses_field k p s)"
  by (simp add: responses_field_def short_fields short_intros)

end
