(* ===== verification/Req_Final.thy ===== *)
theory Req_Final
  imports Req_Responses
begin

text \<open>
  The ends of the four request parsers of \<open>src/ds4_server.c\<close>: the tool memory of the call ids in the
  request, the checks of tool results, and the prompt.
\<close>

section \<open>The tool memory of the disk store\<close>

text \<open>One file of \<open>kv_cache_restore_tool_memory_for_messages\<close>.  The server's \<open>kv_read_header\<close> differs from the
  library's only in the reasons it knows, which are not used here.\<close>

definition restore_file :: "io \<Rightarrow> fs \<Rightarrow> string \<Rightarrow> bytes list \<Rightarrow> string \<Rightarrow> server \<Rightarrow> server option" where
  "restore_file io fs dir wanted name sv =
     (case sha_hex_name name of None \<Rightarrow> Some sv
      | Some _ \<Rightarrow>
          let path = path_join dir name in
          case map_of fs path of None \<Rightarrow> Some sv
          | Some content \<Rightarrow>
              if \<not> io_open io path then Some sv
              else case read_header content zero_entry of None \<Rightarrow> Some sv
              | Some (hdr, text, rest) \<Rightarrow>
                  let skip = ucast text + payload_bytes hdr
                  in if ext_flags hdr AND EXT_TOOL_MAP \<noteq> 0 \<and> unat skip < 2 ^ 63
                     then map_option snd (kv_tool_map_load_from_pos sv (drop (unat skip) rest) (Some wanted))
                     else Some sv)"

fun restore_files :: "io \<Rightarrow> fs \<Rightarrow> string \<Rightarrow> bytes list \<Rightarrow> string list \<Rightarrow> server \<Rightarrow> server option" where
  "restore_files io fs dir wanted [] sv = Some sv"
| "restore_files io fs dir wanted (name # names) sv =
     (case restore_file io fs dir wanted name sv of None \<Rightarrow> None
      | Some sv \<Rightarrow> restore_files io fs dir wanted names sv)"

definition kv_cache_restore_tool_memory_for_messages ::
  "io \<Rightarrow> fs \<Rightarrow> kvstore \<Rightarrow> server \<Rightarrow> chat_msg list \<Rightarrow> server option" where
  "kv_cache_restore_tool_memory_for_messages io fs kv sv msgs =
     (if sv_no_exact_replay sv \<or> \<not> enabled kv then Some sv
      else let wanted = collect_tool_call_ids msgs [] in
           if wanted = [] \<or> \<not> io_opendir io then Some sv
           else restore_files io fs (kdir kv) wanted (dir_names fs (kdir kv)) sv)"

section \<open>The reply of a parser\<close>

record api_request =
  ar_request :: request
  ar_fields :: parsing
  ar_has_tools :: bool
  ar_preserves_reasoning :: bool
  ar_replay :: tool_replay_stats

datatype parsed = Request api_request server | Refused refusal | Freed_twice | Never

text \<open>\<open>goto bad\<close> and the other refusals free the request and the local strings.\<close>

definition refuse :: "parsing \<Rightarrow> refusal \<Rightarrow> parsed" where
  "refuse p e = (if request_free p then Refused e else Freed_twice)"

definition thinking_of :: "parsing \<Rightarrow> bool" where
  "thinking_of p =
     (let model = held (ps_model p);
          on = (if \<not> ps_got_thinking p \<and> model_alias_disables_thinking model then False else ps_thinking p)
      in if \<not> ps_got_thinking p \<and> model_alias_enables_thinking model then True else on)"

definition think_mode_of :: "parsing \<Rightarrow> int \<Rightarrow> ds4_think_mode" where
  "think_mode_of p ctx =
     ds4_think_mode_for_context (think_mode_from_enabled (thinking_of p) (ps_effort p)) ctx"

definition zero_request :: "bool \<Rightarrow> api_style \<Rightarrow> ds4_think_mode \<Rightarrow> request" where
  "zero_request chat api mode =
     \<lparr>rq_chat = chat, rq_api = api, rq_prompt = [], rq_prompt_text = None, rq_think_mode = mode, rq_summary_emit = False,
      rq_responses_needs_state = False, rq_responses_needs_thought = False, rq_responses_ids = [], rq_responses_suffix = None,
      rq_anthropic_needs_state = False, rq_anthropic_ids = [], rq_anthropic_suffix = None\<rparr>"

definition with_prompt :: "'s engine \<Rightarrow> bytes \<Rightarrow> request \<Rightarrow> request" where
  "with_prompt eng text r = r\<lparr>rq_prompt_text := Some text, rq_prompt := eng_tokenize_chat eng text\<rparr>"

text \<open>The common end: the replayed calls, the continuation of the live session, and the prompt.\<close>

definition finish_request ::
  "io \<Rightarrow> fs \<Rightarrow> kvstore \<Rightarrow> 's engine \<Rightarrow> server \<Rightarrow> parsing \<Rightarrow> (request \<Rightarrow> chat_msg list \<Rightarrow> request)
     \<Rightarrow> request \<Rightarrow> chat_msg list \<Rightarrow> bytes option \<Rightarrow> parsed" where
  "finish_request io fs kv eng sv p prepare r msgs schemas =
     (case kv_cache_restore_tool_memory_for_messages io fs kv sv msgs of None \<Rightarrow> Never
      | Some sv \<Rightarrow>
          (case tool_memory_attach_to_messages sv msgs \<lparr>rs_mem = 0, rs_disk = 0, rs_canonical = 0, rs_missing_ids = 0\<rparr> of
             (sv, msgs, stats) \<Rightarrow>
               if \<not> request_free p then Freed_twice
               else Request
                 \<lparr>ar_request = with_prompt eng (render_chat_prompt_text msgs schemas (rq_think_mode r)) (prepare r msgs),
                  ar_fields = p, ar_has_tools = or_empty schemas \<noteq> [],
                  ar_preserves_reasoning = chat_history_uses_tool_context msgs schemas, ar_replay = stats\<rparr> sv))"

definition active_schemas :: "parsing \<Rightarrow> bytes option" where
  "active_schemas p =
     (if or_empty (held (ps_tools p)) \<noteq> [] \<and> \<not> ps_choice_none p then held (ps_tools p) else None)"

section \<open>The four parsers\<close>

definition parse_chat_request ::
  "io \<Rightarrow> fs \<Rightarrow> kvstore \<Rightarrow> 's engine \<Rightarrow> int \<Rightarrow> server \<Rightarrow> bytes \<Rightarrow> parsed" where
  "parse_chat_request io fs kv eng ctx sv body =
     (case read_object chat_field request_init (json_ws body) of
        Next p _ \<Rightarrow>
          if \<not> ps_got p then refuse p Missing_messages
          else finish_request io fs kv eng sv p (\<lambda>r msgs. r)
                 (zero_request True API_OPENAI (think_mode_of p ctx)) (ps_msgs p) (active_schemas p)
      | Stop p \<Rightarrow> refuse p Invalid_json
      | Double_free \<Rightarrow> Freed_twice
      | Endless \<Rightarrow> Never)"

text \<open>The system text becomes the last message; the renderer collects the system messages wherever they are.\<close>

definition parse_anthropic_request ::
  "io \<Rightarrow> fs \<Rightarrow> kvstore \<Rightarrow> 's engine \<Rightarrow> int \<Rightarrow> server \<Rightarrow> bytes \<Rightarrow> parsed" where
  "parse_anthropic_request io fs kv eng ctx sv body =
     (case read_object anthropic_field request_init (json_ws body) of
        Next p _ \<Rightarrow>
          if \<not> ps_got p then refuse p Missing_messages
          else
            let system = or_empty (held (ps_text p));
                msgs = (if system = [] then ps_msgs p else ps_msgs p @ [plain_msg ''system'' system])
            in (case anthropic_validate_tool_results sv msgs of
                  Inl i \<Rightarrow> refuse p (Unknown_tool_use i)
                | Inr needs_state \<Rightarrow>
                    finish_request io fs kv eng sv p anthropic_prepare_live_continuation
                      ((zero_request True API_ANTHROPIC (think_mode_of p ctx))\<lparr>rq_anthropic_needs_state := needs_state\<rparr>)
                      msgs (active_schemas p))
      | Stop p \<Rightarrow> refuse p Invalid_json
      | Double_free \<Rightarrow> Freed_twice
      | Endless \<Rightarrow> Never)"

definition parse_responses_request ::
  "io \<Rightarrow> fs \<Rightarrow> kvstore \<Rightarrow> 's engine \<Rightarrow> int \<Rightarrow> server \<Rightarrow> bytes \<Rightarrow> parsed" where
  "parse_responses_request io fs kv eng ctx sv body =
     (case read_object responses_field request_init (json_ws body) of
        Next p _ \<Rightarrow>
          if \<not> ps_got p then refuse p Missing_input
          else
            let instructions = or_empty (held (ps_text p));
                msgs = (if instructions = [] then ps_msgs p else plain_msg ''system'' instructions # ps_msgs p);
                combined = add_line (or_empty (held (ps_tools p))) (ps_loaded p);
                schemas = (if \<not> ps_choice_none p \<and> combined \<noteq> [] then Some combined else None);
                mode = think_mode_of p ctx
            in (case responses_validate_tool_outputs sv msgs mode of
                  Inl i \<Rightarrow> refuse p (Unknown_call i)
                | Inr (needs_state, needs_thought) \<Rightarrow>
                    finish_request io fs kv eng sv p responses_prepare_live_continuation
                      ((zero_request True API_RESPONSES mode)\<lparr>rq_summary_emit := ps_summary p,
                         rq_responses_needs_state := needs_state, rq_responses_needs_thought := needs_thought\<rparr>)
                      msgs schemas)
      | Stop p \<Rightarrow> refuse p (case ps_error p of Some e \<Rightarrow> e | None \<Rightarrow> Invalid_json)
      | Double_free \<Rightarrow> Freed_twice
      | Endless \<Rightarrow> Never)"

definition render_completion :: "bytes \<Rightarrow> ds4_think_mode \<Rightarrow> bytes" where
  "render_completion prompt mode =
     begin_of_sentence @ (if mode = THINK_MAX then ds4_think_max_prefix else [])
     @ ''You are a helpful assistant'' @ user_mark @ prompt @ assistant_mark
     @ (if ds4_think_mode_enabled mode then ''<think>'' else ''</think>'')"

definition parse_completion_request :: "'s engine \<Rightarrow> int \<Rightarrow> server \<Rightarrow> bytes \<Rightarrow> parsed" where
  "parse_completion_request eng ctx sv body =
     (case read_object completion_field request_init (json_ws body) of
        Next p _ \<Rightarrow>
          (case held (ps_text p) of None \<Rightarrow> refuse p Missing_prompt
           | Some prompt \<Rightarrow>
               if \<not> request_free p then Freed_twice
               else let mode = think_mode_of p ctx in
                    Request
                      \<lparr>ar_request = with_prompt eng (render_completion prompt mode) (zero_request False API_OPENAI mode),
                       ar_fields = p, ar_has_tools = False, ar_preserves_reasoning = False,
                       ar_replay = \<lparr>rs_mem = 0, rs_disk = 0, rs_canonical = 0, rs_missing_ids = 0\<rparr>\<rparr> sv)
      | Stop p \<Rightarrow> refuse p Invalid_json
      | Double_free \<Rightarrow> Freed_twice
      | Endless \<Rightarrow> Never)"

end
