(* ===== verification/Req_Whole.thy ===== *)
theory Req_Whole
  imports Req_Written Req_Final
begin

text \<open>
  Invariants of the request parsers: no accepted structure holds a freed pointer, the messages that are
  read are whole, and the reasoning of Responses items is kept in order.
\<close>

section \<open>Invariants of the loops\<close>

lemma object_loop_inv:
  assumes "\<And>k st s st' r. P st \<Longrightarrow> field k st s = Next st' r \<Longrightarrow> P st'"
  shows "P st \<Longrightarrow> object_loop n field st s = Next st' r \<Longrightarrow> P st'"
proof (induction n arbitrary: st s)
  case (Suc n)
  show ?case
  proof (cases "s = [] \<or> hd s = CHR ''}''")
    case True
    then show ?thesis using Suc.prems by auto
  next
    case False
    then obtain k q c t where j: "json_string s = Some (k, q)" "json_ws q = c # t" "c = CHR '':''"
      using Suc.prems by (auto split: option.splits list.splits if_splits)
    then obtain st1 r1 where f: "field (c_str k) st t = Next st1 r1"
      using Suc.prems False by (auto split: outcome.splits)
    then have "object_loop n field st1 (after_comma r1) = Next st' r" using Suc.prems False j by simp
    then show ?thesis using Suc.IH [OF assms [OF Suc.prems(1) f]] by blast
  qed
qed simp

lemma array_loop_inv:
  assumes "\<And>st s st' r. P st \<Longrightarrow> item st s = Next st' r \<Longrightarrow> P st'"
  shows "P st \<Longrightarrow> array_loop n item st s = Next st' r \<Longrightarrow> P st'"
proof (induction n arbitrary: st s)
  case (Suc n)
  show ?case
  proof (cases "s = [] \<or> hd s = CHR '']''")
    case True
    then show ?thesis using Suc.prems by auto
  next
    case False
    then obtain st1 r1 where f: "item st s = Next st1 r1" using Suc.prems by (auto split: outcome.splits)
    then have "array_loop n item st1 (after_comma r1) = Next st' r" using Suc.prems False by simp
    then show ?thesis using Suc.IH [OF assms [OF Suc.prems(1) f]] by blast
  qed
qed simp

lemma past_close_Next: "past_close out = Next st r \<Longrightarrow> \<exists>q. out = Next st q"
  by (cases out) (auto simp: past_close_def split: if_splits)

lemma read_object_inv:
  assumes "\<And>k st s st' r. P st \<Longrightarrow> field k st s = Next st' r \<Longrightarrow> P st'" "P st" "read_object field st s = Next st' r"
  shows "P st'"
proof -
  obtain q where "members field st (json_ws (drop 1 s)) = Next st' q"
    using assms(3) by (auto simp: read_object_def split: if_splits dest!: past_close_Next)
  with assms(2) show ?thesis
    unfolding members_def by (rule object_loop_inv [of P field, rotated]) (erule (1) assms(1))
qed

lemma read_array_inv:
  assumes "\<And>st s st' r. P st \<Longrightarrow> item st s = Next st' r \<Longrightarrow> P st'" "P st" "read_array item st s = Next st' r"
  shows "P st'"
proof -
  obtain q where "items item st (json_ws (drop 1 s)) = Next st' q"
    using assms(3) by (auto simp: read_array_def split: if_splits dest!: past_close_Next)
  with assms(2) show ?thesis
    unfolding items_def by (rule array_loop_inv [of P item, rotated]) (erule (1) assms(1))
qed

lemma reread_Next: "reread reader x f s = Next st r \<Longrightarrow> \<exists>v. st = f (Held v)"
  by (auto simp: reread_def split: if_splits option.splits)

lemma ignore_Next: "ignore_value st s = Next st' r \<Longrightarrow> st' = st"
  by (auto simp: ignore_value_def split: option.splits)

lemma with_string_Next: "with_string f st s = Next st' r \<Longrightarrow> \<exists>v. st' = f v"
  by (auto simp: with_string_def split: option.splits)

lemma map_outcome_Next: "map_outcome f out = Next st r \<Longrightarrow> \<exists>x. out = Next x r \<and> st = f x"
  by (cases out) auto

lemmas next_dest = reread_Next ignore_Next with_string_Next map_outcome_Next

section \<open>Whole messages\<close>

definition named_call :: "tool_call \<Rightarrow> bool" where
  "named_call tc \<longleftrightarrow> tc_name tc \<noteq> None \<and> tc_arguments tc \<noteq> None"

definition calls_whole :: "tool_calls \<Rightarrow> bool" where
  "calls_whole calls \<longleftrightarrow> list_all named_call (calls_v calls) \<and> raw_dsml calls = None"

text \<open>The first id is also the field of its own.\<close>

definition ids_whole :: "bytes option \<times> bytes list \<Rightarrow> bool" where
  "ids_whole ids \<longleftrightarrow> distinct (snd ids) \<and> [] \<notin> set (snd ids) \<and> fst ids = (if snd ids = [] then None else Some (hd (snd ids)))"

definition whole_message :: "chat_msg \<Rightarrow> bool" where
  "whole_message m \<longleftrightarrow> msg_text m \<noteq> None \<and> calls_whole (msg_tool_calls m) \<and> ids_whole (msg_tool_call_id m, msg_tool_call_ids m)"

lemma no_calls_whole [simp]: "calls_whole no_calls" "ids_whole (None, [])"
  by (simp_all add: calls_whole_def no_calls_def ids_whole_def)

lemma push_whole: "calls_whole calls \<Longrightarrow> named_call tc \<Longrightarrow> calls_whole (tool_calls_push calls tc)"
  by (simp add: calls_whole_def tool_calls_push_def)

lemma add_id_whole: "ids_whole ids \<Longrightarrow> ids_whole (chat_msg_add_tool_call_id i ids)"
  by (cases ids) (auto simp: ids_whole_def chat_msg_add_tool_call_id_def split: option.splits if_splits)

lemma call_clean:
  assumes "read_object tool_call_field zero_call s = Next c r"
  shows "tool_call_free c"
proof (rule read_object_inv [OF _ _ assms])
  show "tool_call_free zero_call" by (simp add: tool_call_free_def zero_call_def free_all_def)
next
  fix k c s c' r assume c: "tool_call_free c" and n: "tool_call_field k c s = Next c' r"
  have "tool_call_free c'" if "parse_function_call c s = Next c' r"
    using that unfolding parse_function_call_def
  proof (rule read_object_inv [of tool_call_free, rotated 2])
    fix k c s c' r assume "tool_call_free c" "function_field k c s = Next c' r"
    then show "tool_call_free c'"
      by (auto simp: function_field_def tool_call_free_def free_all_def split: if_splits dest!: next_dest)
  qed (rule c)
  then show "tool_call_free c'"
    using c n by (auto simp: tool_call_field_def tool_call_free_def free_all_def split: if_splits dest!: next_dest)
qed

lemma tool_calls_whole:
  assumes "parse_tool_calls_value calls s = Next calls' r" "calls_whole calls"
  shows "calls_whole calls'"
proof (cases "json_lit ''null'' (json_ws s)")
  case None
  then have "read_array tool_call_item calls (json_ws s) = Next calls' r"
    using assms(1) by (simp add: parse_tool_calls_value_def Let_def)
  then show ?thesis
  proof (rule read_array_inv [of calls_whole, OF _ assms(2), rotated])
    fix st s st' r assume w: "calls_whole st" "tool_call_item st s = Next st' r"
    show "calls_whole st'"
    proof (cases "read_object tool_call_field zero_call s")
      case (Next c q)
      have "named_call (whole_call c)" if "rc_name c \<noteq> Null" "rc_arguments c \<noteq> Null"
        using call_clean [OF Next] that
        by (cases "rc_name c"; cases "rc_arguments c") (auto simp: tool_call_free_def free_all_def named_call_def whole_call_def held_def)
      then show ?thesis using w Next push_whole [OF w(1)] by (auto simp: tool_call_item_def split: if_splits)
    qed (use w in \<open>auto simp: tool_call_item_def split: if_splits\<close>)
  qed
qed (use assms in \<open>simp add: parse_tool_calls_value_def Let_def\<close>)

definition raw_whole :: "raw_msg \<Rightarrow> bool" where
  "raw_whole m \<longleftrightarrow> ids_whole (rm_ids m) \<and> calls_whole (rm_calls m)"

lemma zero_whole: "raw_whole zero_msg"
  by (simp add: raw_whole_def zero_msg_def)

lemma whole_msg_whole: "raw_whole m \<Longrightarrow> whole_message (whole_msg m)"
  by (simp add: raw_whole_def whole_msg_def whole_message_def)

lemma message_field_whole: "raw_whole m \<Longrightarrow> message_field k m s = Next m' r \<Longrightarrow> raw_whole m'"
  by (auto simp: message_field_def raw_whole_def split: if_splits dest!: next_dest intro: add_id_whole tool_calls_whole)

lemma messages_whole:
  assumes "parse_messages msgs s = Next msgs' r" "list_all whole_message msgs"
  shows "list_all whole_message msgs'"
  using assms(1) unfolding parse_messages_def
proof (rule read_array_inv [of "list_all whole_message", OF _ assms(2), rotated])
  fix st s st' r assume w: "list_all whole_message st" "message_item st s = Next st' r"
  then obtain m q where m: "read_object message_field zero_msg s = Next m q" "st' = st @ [whole_msg m]"
    by (auto simp: message_item_def split: outcome.splits if_splits)
  have "raw_whole m" using read_object_inv [of raw_whole message_field, OF message_field_whole zero_whole m(1)] .
  then show "list_all whole_message st'" using w m(2) whole_msg_whole by simp
qed

lemma apply_block_whole: "raw_whole m \<Longrightarrow> raw_whole (apply_block b m)"
  by (auto simp: apply_block_def raw_whole_def Let_def named_call_def split: option.split intro: push_whole add_id_whole)

lemma anthropic_item_whole: "raw_whole m \<Longrightarrow> anthropic_content_item m s = Next m' r \<Longrightarrow> raw_whole m'"
  by (auto simp: anthropic_content_item_def parse_anthropic_content_block_def
      split: if_splits outcome.splits dest!: next_dest intro: apply_block_whole) (simp add: raw_whole_def)

lemma anthropic_content_whole:
  assumes "parse_anthropic_content m s = Next m' r" "raw_whole m"
  shows "raw_whole m'"
proof -
  have "raw_whole m1" if "read_array anthropic_content_item m q = Next m1 r1" for q m1 r1
    using read_array_inv [of raw_whole anthropic_content_item, OF anthropic_item_whole assms(2) that] .
  then show ?thesis
    using assms
    by (auto simp: parse_anthropic_content_def Let_def split: if_splits option.splits outcome.splits dest!: next_dest)
      (auto simp: raw_whole_def)
qed

lemma anthropic_field_whole: "raw_whole m \<Longrightarrow> anthropic_message_field k m s = Next m' r \<Longrightarrow> raw_whole m'"
  using anthropic_content_whole [of "m\<lparr>rm_content := Null\<rparr>" s m' r]
  by (auto simp: anthropic_message_field_def split: if_splits dest!: next_dest) (auto simp: raw_whole_def)

lemma anthropic_messages_whole:
  assumes "parse_anthropic_messages msgs s = Next msgs' r" "list_all whole_message msgs"
  shows "list_all whole_message msgs'"
  using assms(1) unfolding parse_anthropic_messages_def
proof (rule read_array_inv [of "list_all whole_message", OF _ assms(2), rotated])
  fix st s st' r assume w: "list_all whole_message st" "anthropic_message_item st s = Next st' r"
  then obtain m q where m: "read_object anthropic_message_field zero_msg s = Next m q" "st' = st @ [whole_msg m]"
    by (auto simp: anthropic_message_item_def split: outcome.splits if_splits)
  have "raw_whole m" using read_object_inv [of raw_whole anthropic_message_field, OF anthropic_field_whole zero_whole m(1)] .
  then show "list_all whole_message st'" using w m(2) whole_msg_whole by simp
qed

section \<open>Responses items\<close>

lemma plain_whole [simp]: "whole_message (plain_msg role content)"
  by (simp add: plain_msg_def whole_message_def)

lemma push_msg_whole: "list_all whole_message (in_msgs st) \<Longrightarrow> whole_message m \<Longrightarrow> list_all whole_message (in_msgs (push_msg m st))"
  by (simp add: push_msg_def)

lemma push_thinking_whole:
  "list_all whole_message (in_msgs st) \<Longrightarrow> whole_message m \<Longrightarrow> list_all whole_message (in_msgs (push_thinking m st))"
  by (simp add: push_thinking_def push_msg_def) (simp add: whole_message_def)

lemma push_call_whole:
  assumes "list_all whole_message (in_msgs st)" "named_call tc"
  shows "list_all whole_message (in_msgs (push_call tc st))"
proof (cases "in_msgs st \<noteq> [] \<and> msg_role (last (in_msgs st)) = ''assistant''")
  case True
  then have "whole_message (last (in_msgs st))" "list_all whole_message (butlast (in_msgs st))"
    using assms(1) by (auto simp: list_all_iff dest: in_set_butlastD)
  then show ?thesis using True push_whole [OF _ assms(2)]
    by (auto simp: push_call_def Let_def whole_message_def)
next
  case False
  have "whole_message ((plain_msg ''assistant'' [])\<lparr>msg_tool_calls := tool_calls_push no_calls tc\<rparr>)"
    using push_whole [OF no_calls_whole(1) assms(2)] by (simp add: whole_message_def plain_msg_def)
  then show ?thesis using False push_thinking_whole [OF assms(1)] by (auto simp: push_call_def)
qed

lemma push_output_whole: "list_all whole_message (in_msgs st) \<Longrightarrow> list_all whole_message (in_msgs (push_tool_output c i st))"
  using add_id_whole [OF no_calls_whole(2)] by (simp add: push_tool_output_def push_msg_def Let_def whole_message_def plain_msg_def)

lemma load_tools_msgs: "load_tools i st = Next st' r \<Longrightarrow> in_msgs st' = in_msgs st \<and> in_pending st' = in_pending st"
  by (auto simp: load_tools_def split: option.splits outcome.splits prod.splits)

lemma calls_of_named [simp]: "named_call (function_call_of t i)" "named_call (hosted_call_of t i)"
  by (auto simp: named_call_def function_call_of_def hosted_call_of_def or_else_def Let_def split: option.split)

lemma flush_whole: "list_all whole_message (in_msgs st) \<Longrightarrow> list_all whole_message (in_msgs (flush_reasoning t i st))"
  by (simp add: flush_reasoning_def push_thinking_whole)

lemma hosted_output_Next:
  "hosted_output t i st = Next st' r \<Longrightarrow>
     \<exists>st1 c. in_msgs st1 = in_msgs st \<and> in_pending st1 = in_pending st \<and> st' = push_tool_output c i st1"
  using load_tools_msgs [of i st] by (cases "load_tools i st") (auto simp: hosted_output_def split: if_splits)

text \<open>What an item that is accepted does, without the conditions.\<close>

lemma if_next:
  "(if c then a else b) = (Next x r :: 's outcome) \<Longrightarrow> (c \<Longrightarrow> a = Next x r \<Longrightarrow> Q) \<Longrightarrow> (\<not> c \<Longrightarrow> b = Next x r \<Longrightarrow> Q) \<Longrightarrow> Q"
  by (cases c) simp_all

lemma item_effect_cases:
  assumes "item_effect t i st = Next st' r"
  obtains (thinking) "st' = push_thinking (message_of i) st" "t = ''message''"
  | (msg) "st' = push_msg (message_of i) st" "t = ''message''"
  | (call) tc where "named_call tc" "st' = push_call tc st" "t \<noteq> ''reasoning''"
  | (answer) st1 c where "in_msgs st1 = in_msgs st" "in_pending st1 = in_pending st" "st' = push_tool_output c i st1" "t \<noteq> ''reasoning''"
  | (reasoning) "t = ''reasoning''"
      "st' = st\<lparr>in_pending := add_line (add_line (in_pending st) (or_empty (held (ri_summary i)))) (or_empty (held (ri_content i)))\<rparr>"
  | (none) "st' = st" "t \<noteq> ''reasoning''"
  using assms unfolding item_effect_def
proof (elim if_next)
  assume "t = ''message''" "Next (if msg_role (message_of i) = ''assistant'' then push_thinking (message_of i) st else push_msg (message_of i) st) [] = Next st' r"
  then show thesis using thinking msg by (simp split: if_splits)
next
  assume "t = ''function_call'' \<or> t = ''custom_tool_call''" "Next (push_call (function_call_of t i) st) [] = Next st' r"
  then show thesis by (intro call [of "function_call_of t i"]) auto
next
  assume "t = ''function_call_output'' \<or> t = ''custom_tool_call_output''" "Next (push_tool_output (or_empty (held (ri_output i))) i st) [] = Next st' r"
  then show thesis by (intro answer [of st]) auto
next
  assume "\<not> t = ''reasoning''" "is_hosted_call t" "Next (push_call (hosted_call_of t i) st) [] = Next st' r"
  then show thesis by (intro call [of "hosted_call_of t i"]) auto
next
  assume "\<not> t = ''reasoning''" "is_hosted_output t" "hosted_output t i st = Next st' r"
  then show thesis using hosted_output_Next [of t i st st' r] answer by blast
qed (use reasoning none in auto)

lemma apply_item_whole:
  assumes "apply_item i st = Next st' r" "list_all whole_message (in_msgs st)"
  shows "list_all whole_message (in_msgs st')"
proof -
  have e: "item_effect (item_type i) i (flush_reasoning (item_type i) i st) = Next st' r"
    using assms(1) by (simp add: apply_item_def split: if_splits)
  have f: "list_all whole_message (in_msgs (flush_reasoning (item_type i) i st))" using assms(2) by (rule flush_whole)
  have m: "whole_message (message_of i)" by (simp add: message_of_def)
  from e show ?thesis
  proof (cases rule: item_effect_cases)
    case (answer st1 c)
    then show ?thesis using push_output_whole [of st1] f by simp
  qed (use f m in \<open>auto intro: push_thinking_whole push_msg_whole push_call_whole\<close>)
qed

lemma responses_input_whole:
  assumes "parse_responses_input st s = Next st' r" "list_all whole_message (in_msgs st)"
  shows "list_all whole_message (in_msgs st')"
proof -
  obtain st1 where a: "read_array input_item (st\<lparr>in_pending := []\<rparr>) (json_ws s) = Next st1 r"
    and st': "st' = (if in_pending st1 = [] then st1 else push_thinking (plain_msg ''assistant'' []) st1)"
    using assms(1) by (auto simp: parse_responses_input_def split: outcome.splits)
  have "list_all whole_message (in_msgs st1)"
    using a
  proof (rule read_array_inv [of "\<lambda>st. list_all whole_message (in_msgs st)", rotated 2])
    fix st s st' r assume w: "list_all whole_message (in_msgs st)" "input_item st s = Next st' r"
    then obtain i q where "apply_item i st = Next st' q"
      by (auto simp: input_item_def split: outcome.splits if_splits)
    then show "list_all whole_message (in_msgs st')" using w(1) by (rule apply_item_whole)
  qed (use assms(2) in simp)
  then show ?thesis unfolding st' by (auto intro: push_thinking_whole)
qed

section \<open>Reasoning\<close>

text \<open>All reasoning so far, in the order of the conversation.\<close>

definition thoughts :: "input_state \<Rightarrow> bytes" where
  "thoughts st = concat (map (or_empty \<circ> msg_thought) (in_msgs st)) @ in_pending st"

lemma or_empty_simps [simp]: "or_empty None = []" "or_empty (Some x) = x"
  by (simp_all add: or_empty_def)

lemma plain_thought [simp]: "msg_thought (plain_msg role content) = None" "msg_role (plain_msg role content) = role"
  by (simp_all add: plain_msg_def)

lemma push_thinking_thoughts [simp]: "msg_thought m = None \<Longrightarrow> thoughts (push_thinking m st) = thoughts st"
  by (simp add: push_thinking_def push_msg_def thoughts_def)

lemma push_msg_thoughts: "msg_thought m = None \<Longrightarrow> thoughts (push_msg m st) = thoughts st"
  by (simp add: push_msg_def thoughts_def)

lemma push_call_thoughts: "thoughts (push_call tc st) = thoughts st"
proof (cases "in_msgs st \<noteq> [] \<and> msg_role (last (in_msgs st)) = ''assistant''")
  case True
  let ?f = "or_empty \<circ> msg_thought"
  have "concat (map ?f (in_msgs st)) = concat (map ?f (butlast (in_msgs st))) @ or_empty (msg_thought (last (in_msgs st)))"
    using True by (subst append_butlast_last_id [of "in_msgs st", symmetric]) (simp_all del: append_butlast_last_id)
  then show ?thesis using True by (simp add: push_call_def thoughts_def Let_def)
qed (auto simp: push_call_def)

lemma flush_thoughts: "thoughts (flush_reasoning t i st) = thoughts st"
  by (simp add: flush_reasoning_def)

lemma flush_empty:
  "\<not> consumes_reasoning t (held (ri_role i)) \<Longrightarrow> \<not> is_bookkeeping t \<Longrightarrow> in_pending (flush_reasoning t i st) = []"
  by (simp add: flush_reasoning_def push_thinking_def push_msg_def)

lemma reasoning_kept:
  assumes "apply_item i st = Next st' r"
  shows "thoughts st' = thoughts st
    @ (if item_type i = ''reasoning'' then add_line (add_line [] (or_empty (held (ri_summary i)))) (or_empty (held (ri_content i))) else [])"
proof -
  let ?t = "item_type i" and ?st = "flush_reasoning (item_type i) i st"
  have e: "item_effect ?t i ?st = Next st' r" using assms by (simp add: apply_item_def split: if_splits)
  have f: "thoughts ?st = thoughts st" by (rule flush_thoughts)
  from e show ?thesis
  proof (cases rule: item_effect_cases)
    case thinking
    then show ?thesis using f by (simp add: message_of_def)
  next
    case msg
    then show ?thesis using f by (simp add: push_msg_thoughts message_of_def)
  next
    case (call tc)
    then show ?thesis using f by (simp add: push_call_thoughts)
  next
    case (answer st1 c)
    then have "thoughts st1 = thoughts ?st" by (simp add: thoughts_def)
    then show ?thesis using answer f by (simp add: push_tool_output_def push_msg_thoughts plain_msg_def Let_def)
  next
    case reasoning
    then have "in_pending ?st = []" by (intro flush_empty) (simp_all add: consumes_reasoning_def is_bookkeeping_def)
    then show ?thesis using reasoning f by (simp add: thoughts_def)
  next
    case none
    then show ?thesis using f by simp
  qed
qed

end
