(* ===== verification/Server_Requests.thy ===== *)
theory Server_Requests
  imports Req_Whole Live_Turn Kv_Examples
begin

text \<open>
  The properties of the request parsers: they return, what a client writes becomes its prompt, the calls
  of a response come back as they were sent, and where memory is freed twice.
\<close>

section \<open>Loading tool memory keeps it\<close>

lemma load_entries_holds:
  "server_holds sv l \<Longrightarrow> \<exists>k sv' l'. load_entries sv n fp wanted loaded = Some (k, sv') \<and> server_holds sv' l'"
proof (induction n arbitrary: sv l fp loaded)
  case (Suc n)
  show ?case
  proof (cases "fread 8 fp")
    case (Some z)
    obtain lens fp1 where z: "z = (lens, fp1)" by force
    have p: "\<exists>k sv' l'. (case tool_memory_put_source sv i d Tool_disk of None \<Rightarrow> None
        | Some sv \<Rightarrow> load_entries sv n fp wanted loaded) = Some (k, sv') \<and> server_holds sv' l'" for i d fp loaded
      using sv.put_holds [OF Suc.prems, of i d Tool_disk] Suc.IH by fastforce
    show ?thesis
      using Some z p Suc.IH [OF Suc.prems] Suc.prems by (auto simp: Let_def split: option.split prod.split)
  qed (use Suc.prems in auto)
qed auto

lemma load_from_pos_holds:
  assumes "server_holds sv l"
  shows "\<exists>k sv' l'. kv_tool_map_load_from_pos sv fp wanted = Some (k, sv') \<and> server_holds sv' l'"
proof (cases "fread KV_TOOL_MAP_HEADER fp")
  case (Some z)
  obtain h fp1 where z: "z = (h, fp1)" by force
  show ?thesis
    using Some z load_entries_holds [OF assms, of "unat (le_get32 (drop 4 h))" fp1 wanted 0] assms
    by (auto simp: kv_tool_map_load_from_pos_def Let_def)
qed (use assms in \<open>auto simp: kv_tool_map_load_from_pos_def\<close>)

lemma restore_file_holds:
  assumes "server_holds sv l"
  shows "\<exists>sv' l'. restore_file io fs dir wanted name sv = Some sv' \<and> server_holds sv' l'"
proof -
  have "\<exists>sv' l'. map_option snd (kv_tool_map_load_from_pos sv fp w) = Some sv' \<and> server_holds sv' l'" for fp w
    using load_from_pos_holds [OF assms, of fp w] by auto
  then show ?thesis using assms by (auto simp: restore_file_def Let_def split: option.split)
qed

lemma restore_files_holds:
  "server_holds sv l \<Longrightarrow> \<exists>sv' l'. restore_files io fs dir wanted names sv = Some sv' \<and> server_holds sv' l'"
proof (induction names arbitrary: sv l)
  case (Cons name names)
  then show ?case using restore_file_holds [OF Cons.prems, of io fs dir wanted name] by auto
qed auto

lemma restore_returns:
  assumes "sv_no_exact_replay sv \<or> is_memory (sv_tool_mem sv) l"
  shows "kv_cache_restore_tool_memory_for_messages io fs kv sv msgs \<noteq> None"
proof (cases "sv_no_exact_replay sv")
  case False
  then have "server_holds sv l" using assms by (simp add: server_holds_def)
  then show ?thesis
    using restore_files_holds [of sv l io fs "kdir kv" _ "dir_names fs (kdir kv)"]
    by (auto simp: kv_cache_restore_tool_memory_for_messages_def Let_def)
qed (simp add: kv_cache_restore_tool_memory_for_messages_def)

section \<open>Every request is answered\<close>

lemma finish_returns:
  "sv_no_exact_replay sv \<or> is_memory (sv_tool_mem sv) l \<Longrightarrow> finish_request io fs kv eng sv p prepare r msgs schemas \<noteq> Never"
  using restore_returns [of sv l io fs kv msgs] by (auto simp: finish_request_def split: option.split prod.split)

lemma body_returns:
  "(\<And>k st s. short s (field k st s)) \<Longrightarrow> read_object field st s \<noteq> Endless"
  using short_object [of field s st] by (cases "read_object field st s") auto

lemma refuse_returns [simp]: "refuse p e \<noteq> Never"
  by (simp add: refuse_def)

lemma requests_return:
  assumes "sv_no_exact_replay sv \<or> is_memory (sv_tool_mem sv) l"
  shows "parse_chat_request io fs kv eng ctx sv body \<noteq> Never" "parse_anthropic_request io fs kv eng ctx sv body \<noteq> Never"
    "parse_responses_request io fs kv eng ctx sv body \<noteq> Never" "parse_completion_request eng ctx sv body \<noteq> Never"
proof -
  have f: "finish_request io fs kv eng sv p prepare r msgs schemas \<noteq> Never" for p prepare r msgs schemas
    by (rule finish_returns [OF assms])
  let ?b = "json_ws body"
  have "read_object chat_field request_init ?b \<noteq> Endless" by (rule body_returns [OF short_chat_field])
  then show "parse_chat_request io fs kv eng ctx sv body \<noteq> Never"
    by (cases "read_object chat_field request_init ?b") (simp_all add: parse_chat_request_def f)
  have "read_object anthropic_field request_init ?b \<noteq> Endless" by (rule body_returns [OF short_anthropic_body])
  then show "parse_anthropic_request io fs kv eng ctx sv body \<noteq> Never"
    by (cases "read_object anthropic_field request_init ?b") (simp_all add: parse_anthropic_request_def Let_def f split: sum.split)
  have "read_object responses_field request_init ?b \<noteq> Endless" by (rule body_returns [OF short_responses_field])
  then show "parse_responses_request io fs kv eng ctx sv body \<noteq> Never"
    by (cases "read_object responses_field request_init ?b")
      (simp_all add: parse_responses_request_def Let_def f split: sum.split prod.split)
  have "read_object completion_field request_init ?b \<noteq> Endless" by (rule body_returns [OF short_completion_field])
  then show "parse_completion_request eng ctx sv body \<noteq> Never"
    by (cases "read_object completion_field request_init ?b") (simp_all add: parse_completion_request_def Let_def split: option.split)
qed

section \<open>From a client's conversation to the prompt\<close>

text \<open>The body of a client that names a model, gives the conversation and chooses streaming.\<close>

definition chat_body :: "bytes \<Rightarrow> chat_msg list \<Rightarrow> bool \<Rightarrow> bytes" where
  "chat_body model msgs stream =
     write_object [(''model'', json_escape model), (''messages'', write_messages msgs),
                   (''stream'', if stream then ''true'' else ''false'')]"

lemma c_str_names [simp]: "c_str ''model'' = ''model''" "c_str ''messages'' = ''messages''" "c_str ''stream'' = ''stream''"
  by (simp_all add: c_str_def)

lemma read_bool_written [simp]: "with_bool f st ((if b then ''true'' else ''false'') @ t) = Next (f b) t"
  by (simp add: with_bool_def json_bool_def json_ws_def json_lit_def is_cspace_def Let_def)

lemma chat_body_read:
  assumes "c_text model" "list_all wire_msg msgs"
  shows "read_object chat_field request_init (json_ws (chat_body model msgs stream))
    = Next (request_init\<lparr>ps_model := Held model, ps_msgs := msgs, ps_got := True, ps_stream := stream\<rparr>) []"
proof -
  let ?p = "request_init\<lparr>ps_model := Held model, ps_msgs := msgs, ps_got := True, ps_stream := stream\<rparr>"
  have m: "chat_field ''model'' request_init (json_escape model @ t) = Next (request_init\<lparr>ps_model := Held model\<rparr>) t" for t
    using assms(1) by (simp add: chat_field_def read_model_def request_init_def c_text_def)
  have g: "chat_field ''messages'' q (write_messages msgs @ t) = Next (q\<lparr>ps_msgs := msgs, ps_got := True\<rparr>) t" for q t
    using messages_read [OF assms(2), of "[]" t] by (simp add: chat_field_def)
  have b: "chat_field ''stream'' q ((if stream then ''true'' else ''false'') @ t) = Next (q\<lparr>ps_stream := stream\<rparr>) t" for q t
    by (simp add: chat_field_def)
  have "read_object chat_field request_init (chat_body model msgs stream @ []) = Next ?p []"
    unfolding chat_body_def by (rule object_written [OF short_chat_field]) (simp add: m g b del: append_Nil2)
  moreover have "json_ws (chat_body model msgs stream) = chat_body model msgs stream"
    unfolding chat_body_def using ws_object [of _ "[]"] by simp
  ultimately show ?thesis by simp
qed

text \<open>The prompt of a replayed conversation; without the alias of the chat model the model thinks.\<close>

lemma chat_prompt:
  assumes "c_text model" "list_all wire_msg msgs"
    and "kv_cache_restore_tool_memory_for_messages io fs kv sv msgs = Some sv1"
    and "tool_memory_attach_to_messages sv1 msgs \<lparr>rs_mem = 0, rs_disk = 0, rs_canonical = 0, rs_missing_ids = 0\<rparr> = (sv2, msgs', stats)"
  shows "\<exists>q. parse_chat_request io fs kv eng ctx sv (chat_body model msgs stream) = Request q sv2
    \<and> rq_prompt_text (ar_request q)
        = Some (render_chat_prompt_text msgs' None (if model = ''deepseek-chat'' then THINK_NONE else THINK_HIGH))
    \<and> rq_prompt (ar_request q) = eng_tokenize_chat eng (the (rq_prompt_text (ar_request q)))
    \<and> ps_stream (ar_fields q) = stream"
proof -
  let ?p = "request_init\<lparr>ps_model := Held model, ps_msgs := msgs, ps_got := True, ps_stream := stream\<rparr>"
  have "think_mode_of ?p ctx = (if model = ''deepseek-chat'' then THINK_NONE else THINK_HIGH)"
    by (simp add: think_mode_of_def thinking_of_def request_init_def held_def think_mode_from_enabled_def
        model_alias_disables_thinking_def model_alias_enables_thinking_def ds4_think_mode_for_context_def Let_def)
  moreover have "request_free ?p" "active_schemas ?p = None"
    by (simp_all add: request_free_def free_all_def active_schemas_def request_init_def held_def or_empty_def)
  ultimately show ?thesis
    unfolding parse_chat_request_def chat_body_read [OF assms(1,2)]
    by (simp add: finish_request_def assms(3,4) zero_request_def with_prompt_def)
qed

section \<open>The properties\<close>



text \<open>A turn with a tool call and its result.\<close>

definition tool_turn :: "chat_msg list" where
  "tool_turn =
     [plain_msg ''user'' ''6*7?'',
      (plain_msg ''assistant'' [])\<lparr>msg_thought := Some ''multiply'',
         msg_tool_calls := \<lparr>calls_v = [\<lparr>tc_id = Some ''c1'', tc_name = Some ''calc'', tc_arguments = Some ''{}''\<rparr>], raw_dsml = None\<rparr>\<rparr>,
      (plain_msg ''tool'' ''42'')\<lparr>msg_tool_call_id := Some ''c1'', msg_tool_call_ids := [''c1'']\<rparr>]"

text \<open>C5. The conversation a client writes into its request becomes the prompt of exactly this conversation:
  roles, texts, thoughts, call ids and tool calls are read as written, sampled calls are put back from the
  memory, and the tokens are those of the rendered text.\<close>

theorem written_conversation_is_prompt:
  assumes "c_text model" "list_all wire_msg msgs"
    and "kv_cache_restore_tool_memory_for_messages io fs kv sv msgs = Some sv1"
    and "tool_memory_attach_to_messages sv1 msgs \<lparr>rs_mem = 0, rs_disk = 0, rs_canonical = 0, rs_missing_ids = 0\<rparr> = (sv2, msgs', stats)"
  shows "\<exists>q. parse_chat_request io fs kv eng ctx sv (chat_body model msgs stream) = Request q sv2
    \<and> rq_prompt_text (ar_request q)
        = Some (render_chat_prompt_text msgs' None (if model = ''deepseek-chat'' then THINK_NONE else THINK_HIGH))
    \<and> rq_prompt (ar_request q) = eng_tokenize_chat eng (the (rq_prompt_text (ar_request q)))
    \<and> ps_stream (ar_fields q) = stream"
  by (rule chat_prompt [OF assms])

lemma written_conversation_is_prompt_witness:
  "\<exists>q. parse_chat_request ex_io ex_fs (ex_kc\<lparr>enabled := False\<rparr>) byte_engine 4096 (fresh_server\<lparr>sv_no_exact_replay := True\<rparr>)
        (chat_body ''deepseek-chat'' tool_turn True) = Request q (fresh_server\<lparr>sv_no_exact_replay := True\<rparr>)
    \<and> rq_prompt_text (ar_request q)
        = Some (render_chat_prompt_text tool_turn None (if ''deepseek-chat'' = ''deepseek-chat'' then THINK_NONE else THINK_HIGH))
    \<and> rq_prompt (ar_request q) = eng_tokenize_chat byte_engine (the (rq_prompt_text (ar_request q)))
    \<and> ps_stream (ar_fields q) = True"
proof (rule written_conversation_is_prompt)
  show "kv_cache_restore_tool_memory_for_messages ex_io ex_fs (ex_kc\<lparr>enabled := False\<rparr>) (fresh_server\<lparr>sv_no_exact_replay := True\<rparr>)
      tool_turn = Some (fresh_server\<lparr>sv_no_exact_replay := True\<rparr>)"
    by (simp add: kv_cache_restore_tool_memory_for_messages_def)
  show "tool_memory_attach_to_messages (fresh_server\<lparr>sv_no_exact_replay := True\<rparr>) tool_turn
      \<lparr>rs_mem = 0, rs_disk = 0, rs_canonical = 0, rs_missing_ids = 0\<rparr>
    = (fresh_server\<lparr>sv_no_exact_replay := True\<rparr>, tool_turn,
       \<lparr>rs_mem = 0, rs_disk = 0, rs_canonical = 1, rs_missing_ids = 1\<rparr>)"
    by (simp add: tool_memory_attach_to_messages_def count_canonical_def tool_turn_def plain_msg_def no_calls_def Let_def)
qed (simp_all add: c_text_def c_str_def tool_turn_def plain_msg_def wire_msg_def wire_call_def no_calls_def)

text \<open>C16. The tool calls of a response, sent back in the next request as the server wrote them, are read as the
  calls the client was shown: the same ids and names, and the arguments as the same JSON text.\<close>

theorem shown_calls_come_back:
  assumes "list_all wire_call (shown_calls (calls_v calls) id_prefix)"
  shows "parse_tool_calls_value no_calls (append_tool_calls_json calls id_prefix @ rest)
    = Next \<lparr>calls_v = shown_calls (calls_v calls) id_prefix, raw_dsml = None\<rparr> rest"
  using calls_read [OF assms, of no_calls rest] by (simp add: append_tool_calls_json_written no_calls_def)

lemma shown_calls_come_back_witness:
  "parse_tool_calls_value no_calls (append_tool_calls_json (example_calls (Some ''{ }'') None) ''call'' @ ''}'')
    = Next \<lparr>calls_v = shown_calls (calls_v (example_calls (Some ''{ }'') None)) ''call'', raw_dsml = None\<rparr> ''}''"
  by (rule shown_calls_come_back) code_simp

text \<open>C11. A request whose model is not a string makes the server free memory twice: the old name is freed
  before the new one is read, and freed again when the request is refused.  This holds for all four
  endpoints and whatever follows in the body.\<close>

theorem mistyped_model_frees_twice:
  assumes "json_string v = None"
  shows "parse_chat_request io fs kv eng ctx sv (''{'' @ quoted ''model'' @ '':'' @ v) = Freed_twice
    \<and> parse_anthropic_request io fs kv eng ctx sv (''{'' @ quoted ''model'' @ '':'' @ v) = Freed_twice
    \<and> parse_responses_request io fs kv eng ctx sv (''{'' @ quoted ''model'' @ '':'' @ v) = Freed_twice
    \<and> parse_completion_request eng ctx sv (''{'' @ quoted ''model'' @ '':'' @ v) = Freed_twice"
proof -
  let ?p = "request_init\<lparr>ps_model := Dangling\<rparr>"
  have start: "read_object field request_init (json_ws (''{'' @ quoted ''model'' @ '':'' @ v)) = Stop ?p"
    if "\<And>s. field ''model'' request_init s = read_model request_init s" for field
  proof -
    have "json_string (CHR 0x22 # ''model'' @ [CHR 0x22] @ '':'' @ v) = Some (''model'', CHR '':'' # v)"
      using json_string_escape [of "''model''" "'':'' @ v"] by (simp add: json_escape_def json_escape_char_def c_str_def Let_def)
    then show ?thesis
      using assms that
      by (simp add: read_object_def members_def quoted_def past_close_def read_model_def reread_def request_init_def freed_def)
  qed
  have f: "refuse ?p e = Freed_twice" for e by (simp add: refuse_def request_free_def free_all_def)
  have "read_object chat_field request_init (json_ws (''{'' @ quoted ''model'' @ '':'' @ v)) = Stop ?p"
    "read_object anthropic_field request_init (json_ws (''{'' @ quoted ''model'' @ '':'' @ v)) = Stop ?p"
    "read_object responses_field request_init (json_ws (''{'' @ quoted ''model'' @ '':'' @ v)) = Stop ?p"
    "read_object completion_field request_init (json_ws (''{'' @ quoted ''model'' @ '':'' @ v)) = Stop ?p"
    by (rule start, simp add: chat_field_def anthropic_field_def responses_field_def completion_field_def)+
  then show ?thesis
    unfolding parse_chat_request_def parse_anthropic_request_def parse_responses_request_def parse_completion_request_def
    by (simp only: outcome.case f)
qed

lemma mistyped_model_frees_twice_witness:
  "parse_chat_request ex_io ex_fs ex_kc byte_engine 4096 empty_server (''{'' @ quoted ''model'' @ '':'' @ ''5}'') = Freed_twice
    \<and> parse_anthropic_request ex_io ex_fs ex_kc byte_engine 4096 empty_server (''{'' @ quoted ''model'' @ '':'' @ ''5}'') = Freed_twice
    \<and> parse_responses_request ex_io ex_fs ex_kc byte_engine 4096 empty_server (''{'' @ quoted ''model'' @ '':'' @ ''5}'') = Freed_twice
    \<and> parse_completion_request byte_engine 4096 empty_server (''{'' @ quoted ''model'' @ '':'' @ ''5}'') = Freed_twice"
  by (rule mistyped_model_frees_twice) (simp add: json_string_def json_ws_def is_cspace_def)

text \<open>C13. Messages that are accepted are whole, from every endpoint: each has a text, its tool calls have names
  and arguments, its call ids are distinct and not empty, and the first of them is the one of its own
  field.\<close>

theorem read_messages_are_whole:
  assumes "parse_messages [] s = Next msgs r \<or> parse_anthropic_messages [] s = Next msgs r
    \<or> (\<exists>st. parse_responses_input \<lparr>in_msgs = [], in_loaded = loaded, in_orders = orders, in_pending = []\<rparr> s = Next st r
         \<and> in_msgs st = msgs)"
  shows "list_all whole_message msgs"
  using assms messages_whole [of "[]" s msgs r] anthropic_messages_whole [of "[]" s msgs r]
    responses_input_whole [of "\<lparr>in_msgs = [], in_loaded = loaded, in_orders = orders, in_pending = []\<rparr>" s _ r]
  by fastforce

lemma read_messages_are_whole_witness: "list_all whole_message tool_turn"
proof (rule read_messages_are_whole [where s = "write_messages tool_turn" and r = "[]"])
  have "list_all wire_msg tool_turn" by code_simp
  from messages_read [OF this, of "[]" "[]"]
  show "parse_messages [] (write_messages tool_turn) = Next tool_turn []
    \<or> parse_anthropic_messages [] (write_messages tool_turn) = Next tool_turn []
    \<or> (\<exists>st. parse_responses_input \<lparr>in_msgs = [], in_loaded = [], in_orders = [], in_pending = []\<rparr> (write_messages tool_turn) = Next st []
         \<and> in_msgs st = tool_turn)"
    by simp
qed

text \<open>C22. No item of a Responses request loses reasoning: the reasoning that waits and the thoughts of the
  messages, in their order, stay as they are, and a reasoning item adds its summary and content at the
  end.\<close>

theorem reasoning_is_kept:
  assumes "apply_item i st = Next st' r"
  shows "thoughts st' = thoughts st
    @ (if item_type i = ''reasoning'' then add_line (add_line [] (or_empty (held (ri_summary i)))) (or_empty (held (ri_content i))) else [])"
  by (rule reasoning_kept [OF assms])

lemma reasoning_is_kept_witness:
  "thoughts \<lparr>in_msgs = [(plain_msg ''assistant'' [])\<lparr>msg_thought := Some ''a''\<rparr>], in_loaded = [], in_orders = [], in_pending = ''b''\<rparr>
    = thoughts \<lparr>in_msgs = [], in_loaded = [], in_orders = [], in_pending = ''a''\<rparr>
      @ (if item_type (zero_item\<lparr>ri_type := Held ''reasoning'', ri_summary := Held ''b''\<rparr>) = ''reasoning''
         then add_line (add_line [] (or_empty (held (ri_summary (zero_item\<lparr>ri_type := Held ''reasoning'', ri_summary := Held ''b''\<rparr>)))))
           (or_empty (held (ri_content (zero_item\<lparr>ri_type := Held ''reasoning'', ri_summary := Held ''b''\<rparr>)))) else [])"
  by (rule reasoning_is_kept [where r = "[]"]) code_simp

section \<open>A comment and the code\<close>

text \<open>The parser of Responses requests says that an effort of "minimal" turns thinking off; it does not.\<close>

lemma minimal_effort_thinks:
  "read_reasoning request_init (''{'' @ quoted ''effort'' @ '':'' @ quoted ''minimal'' @ ''}'')
    = Next (request_init\<lparr>ps_got_thinking := True, ps_thinking := True, ps_effort := THINK_HIGH\<rparr>) []"
  by code_simp

end
