(* ===== verification/Spec2Isabelle.thy ===== *)
theory Spec2Isabelle
  imports Kv_Examples Moe_Examples Server_Json Live_Turn Tool_Map Model_Files Token_Session
    Server_Requests
begin

text \<open>
  A verification of the core logic of DwarfStar 4 (\<open>ds4\<close>), an inference engine for one model with a
  server, written in C.

  \<^bold>\<open>The program.\<close>  The engine (\<open>src/ds4.c\<close>) runs one live session: a list of tokens and the graph state
  that belongs to it.  Going on from this state is cheap, starting over is expensive, so that most of
  the logic around the engine decides when the state may be reused: the disk KV store
  (\<open>src/ds4_kvstore.c\<close>) keeps checkpoints of sessions under the hash of their text; the server
  (\<open>src/ds4_server.c\<close>) renders the requests of clients into the text the model reads, parses the markup
  the model writes into tool calls and remembers, per call id, the bytes that were sampled, so that the
  next request spells the same text again; in the Flash-MoE mode the experts of a layer are read from
  disk into a bank of slots on demand.  The engine maps a model file in the GGUF format, finds the tensors
  and the vocabulary in it, and turns text into tokens with a byte-level byte-pair tokenizer.

  \<^bold>\<open>Theories.\<close>
  \<^item> \<open>Ds4_Prelude\<close>: fixed-width integers, bytes, slices of buffers, shared by all.
  \<^item> Disk KV store: \<open>Kv_Format\<close> (header, integers, file names), \<open>Sha1\<close> (the streaming hash and its
    one-shot specification), \<open>Kv_Policy\<close> (when and how much is stored; \<open>ds4_kvstore_store_len\<close>,
    \<open>..._chat_anchor_pos\<close>, \<open>..._continued_*\<close>, the size accounting), \<open>Kv_Store\<close> (directory, index,
    eviction, storing, loading), and the properties in \<open>Kv_Evict\<close>, \<open>Kv_Lookup\<close>, \<open>Kv_Saved\<close>, \<open>Kv_Examples\<close>.
    The directory is an association list of file contents; what the system calls may refuse is the
    record \<open>io\<close>, the engine behind \<open>ds4.h\<close> the record \<open>engine\<close>, the floating point of the eviction score
    the record \<open>fpops\<close>.
  \<^item> Flash-MoE: \<open>Moe_Io\<close> (\<open>pread\<close> loops and the split read of several threads as a step relation),
    \<open>Moe_Map\<close>, \<open>Moe_Graph\<close>, \<open>Moe_Cache\<close> (the maps from experts to slots, ages, the choice of a victim),
    \<open>Moe_Store\<close> (the locale \<open>slot_store\<close> of a bank and its interpretation), \<open>Moe_Install\<close>, \<open>Moe_Inv\<close>,
    \<open>Moe_Fill\<close>, \<open>Moe_Steps\<close> (all operations as a step relation with the invariant), \<open>Moe_Examples\<close>.
  \<^item> Server, reading and writing: \<open>Json\<close>, \<open>Json_Values\<close> (\<open>json_*\<close>), \<open>Stream_Text\<close> (stop sequences and
    whole characters of a stream), \<open>Dsml_Syntax\<close>, \<open>Dsml_Tracker\<close>, \<open>Dsml_Cut\<close> (the incremental tracker
    \<open>dsml_decode_tracker_update\<close>), \<open>Dsml_Calls\<close>, \<open>Dsml_Parse\<close>, \<open>Dsml_Round\<close>, \<open>Dsml_Stream\<close> (calls as markup,
    \<open>parse_generated_message_ex\<close> and what of a text may be streamed), \<open>Server_Json\<close> (examples and
    boundary cases).
  \<^item> Server, conversations: \<open>Tool_Memory\<close>, \<open>Tool_Lru\<close>, \<open>Tool_Ops\<close>, \<open>Tool_Put\<close> (\<open>tool_memory_*\<close>: entries and
    blocks in an explicit store with a doubly linked list, refined to a list), \<open>Tool_Cache\<close> (the locale
    \<open>lru_cache\<close>, the contract of the memory towards its clients), \<open>Chat_Render\<close> (the prompt),
    \<open>Server_Live\<close> and \<open>Live_Turn\<close> (continuing the live session), \<open>Tool_Replay\<close> (putting sampled blocks
    back), \<open>Tool_Map\<close> (the map of call ids behind a checkpoint).
  \<^item> Server, requests: \<open>Req_Loops\<close> (the two loops all readers share, over the fields of an object and the
    items of an array, and what a reader may do: go on, refuse, or free a string twice), \<open>Req_Messages\<close>
    (\<open>parse_messages\<close> and the calls of a message), \<open>Req_Written\<close> (a reference client that writes a
    conversation, and the calls the server writes), \<open>Req_Tools\<close> (tool schemas), \<open>Req_Fields\<close> (effort,
    thinking, Anthropic and Responses content), \<open>Req_Responses\<close> (\<open>parse_responses_input\<close>), \<open>Req_Parse\<close> and
    \<open>Req_Final\<close> (the four bodies a client may send, \<open>parse_chat_request\<close>, \<open>parse_anthropic_request\<close>,
    \<open>parse_responses_request\<close>, \<open>parse_completion_request\<close>), \<open>Req_Whole\<close> (what every accepted message
    satisfies), with the properties in \<open>Server_Requests\<close>.
  \<^item> Model files: \<open>Gguf_Cursor\<close> (\<open>cursor_*\<close>, \<open>skip_value\<close>, block sizes), \<open>Gguf_Model\<close> (\<open>model_open\<close>,
    \<open>parse_metadata\<close>, \<open>parse_tensors\<close>, \<open>model_get_*\<close>), \<open>Gguf_Safe\<close> (the cursor as a position in a list of
    bytes; what opening establishes), \<open>Gguf_Round\<close> (a reference writer).
  \<^item> Tokenizer: \<open>Str_Table\<close> (the open-addressed table \<open>str_i32_table\<close>, its invariant, and the locale
    \<open>string_table\<close> of the contract its users rely on), \<open>Byte_Coder\<close> (the byte alphabet), \<open>Bpe\<close>
    (\<open>vocab_load\<close>, \<open>bpe_emit_piece\<close>), \<open>Pretokenizer\<close> (\<open>bpe_tokenize_text\<close>), \<open>Token_Text\<close>
    (\<open>ds4_token_text\<close>), \<open>Vocab_Load\<close> (loading returns and is right), \<open>Chat_Tokens\<close> (control marks and
    the prompt builders), with the properties in \<open>Model_Files\<close> and \<open>Token_Session\<close>.

  \<^bold>\<open>How the code is rendered.\<close>  A struct is a record, an enum a datatype, a \<open>char *\<close> that may be NULL an
  option; a buffer that is appended to is the returned text.  \<open>uintN_t\<close> values whose wrap-around matters
  are words, sizes and counters natural numbers with the limits of the code written out where it tests
  them; an \<open>int\<close> is an \<open>int\<close> and its overflow, undefined in C, has no meaning here.  A loop is a function
  with a proved termination; where the code has no bound of its own (pruning a list that could be
  broken, probing a table that could be full, random ids) the loop is a partial function, and a property
  proves that it returns.
  The field and item loops of the requests, whose bodies are other readers, run on a fuel of one more
  than the length of the text; as every turn of a loop reads a character, this is always enough, which
  the \<open>short\<close> lemmas show and the property that every request is answered uses.  A request's strings are
  freed where the code frees them as far as a second release can follow (a field may be given twice);
  other releases, locks, logging and failing allocations are left out.  A number of a request is
  the text that \<open>strtod\<close> converts.

  \<^bold>\<open>What the properties show.\<close>  A checkpoint that is stored is on disk whole and under its name, and a
  prompt that begins with its text loads just this checkpoint and continues from its tokens; eviction
  meets the budget and spares what it must; the index finds the longest stored prefix.  A reader of an
  expert sees the bytes of the model file, whatever was loaded, evicted or failed before, except in the
  one case recorded as a finding; reads of several threads fill the buffer in every schedule.  Calls
  rendered as markup are parsed back, and the tracker does not depend on how the text is cut into
  tokens except at a marker's first byte, the finding; no byte of a tool block is streamed as text.
  The memory of calls is a least-recently-used list of ids under every sequence of operations; a block
  that was sampled is rendered again byte for byte, also after a restart through the tool map.  A
  request is only ever continued by extending the live tokens, and a client that answers its tool
  tool calls is continued with tokens that spell the conversation that a fresh start would render.

  Every body a client may send is accepted or refused, or, the finding, frees its model's name twice; a
  conversation that a client writes is rendered as the prompt of just these messages; the calls the
  server shows a client come back as the calls that were shown; accepted messages have a role, and a
  message's calls and results are whole; what the model thought before its calls stays with them.

  A model file that opens is well formed whatever its bytes are: every metadata value and every tensor
  with data lies inside it and no size wraps, up to the finding on element counts near \<open>2 ^ 64\<close>; files
  made by a reference writer are read back.  Loading the vocabulary of any such file returns.  The tokens
  of a text spell the text, and no text produces a control token, so that only the program itself writes
  the structure of a conversation; the rendered prompt and the prompt built token by token agree.  With
  a byte-complete vocabulary this discharges the assumption on the engine that the tokens of a text spell
  the text (\<open>tokenizer_continues_session\<close>).

  \<^bold>\<open>Assumptions.\<close>  The properties that need the engine name what they use of it: that the text of the
  tokens of a text is that text, that the tokens of a loaded payload are those that were saved.  Nothing
  is assumed of floating point but the comparison facts that a property names, nothing of the operating
  system but that a call either does its work or fails as the record \<open>io\<close> says.

  \<^bold>\<open>Not modelled.\<close>  The numeric graph and its Metal, CUDA and neural-engine kernels (floating point
  on devices), the binding of tensors to weights and the sidecar manifest; sockets, threads,
  HTTP and the event streams of the server, and its textual copy of the KV store
  functions; the agent, the command line tools, the vendored libraries,
  the quantizer and the scripts.
\<close>

end
